(* ===== verification/Prelude.thy ===== *)
theory Prelude
  imports Main "HOL-Library.Word" "HOL-Library.Multiset"
begin

text \<open>
  What every component shares.
  \<^item> The Go types: \<open>uintN\<close> is a word of \<open>N\<close> bits (\<open>+\<close> and \<open>-\<close> wrap), \<open>intN\<close> is the same
    word read through \<^const>\<open>sint\<close>, \<open>int\<close> (64 bits, never near its bounds here) is \<^typ>\<open>int\<close> or
    \<^typ>\<open>nat\<close>, a slice is a list.
  \<^item> Run-time panics as values: \<open>panic\<close> lists the reasons the modelled code can panic for, and
    \<open>('s, 'a) act\<close> is a computation on a mutable state \<open>'s\<close> that returns a value or panics; a
    panic keeps the state reached so far, as \<open>recover\<close> does in the source.
  \<^item> A weakest-precondition reading of these computations (\<open>wp\<close>), whose equations are collected
    in \<open>wp_simps\<close>, so that an operation's properties follow its own text.
  \<^item> Lemmas on swapping two cells of a slice.
\<close>

unbundle bit_operations_syntax

named_theorems wp_simps "symbolic execution of the computations of type act"
named_theorems keeps_intros "operations keep an invariant"
named_theorems run_simps "running computations of type act"

subsection \<open>Go types\<close>

type_synonym u8 = "8 word"
type_synonym u16 = "16 word"
type_synonym u32 = "32 word"
type_synonym u64 = "64 word"
type_synonym i32 = "32 word"
type_synonym i64 = "64 word"

text \<open>An \<open>int8\<close> counter as an integer: every result is brought back to \<open>-128 .. 127\<close>.\<close>

definition i8 :: "int \<Rightarrow> int" where
  "i8 x = (x + 128) mod 256 - 128"

lemma i8_id [simp]: "- 128 \<le> x \<Longrightarrow> x < 128 \<Longrightarrow> i8 x = x"
  by (simp add: i8_def)

lemma i8_range: "- 128 \<le> i8 x \<and> i8 x < 128"
proof -
  have "0 \<le> (x + 128) mod 256" "(x + 128) mod 256 < 256" by simp_all
  then show ?thesis by (simp add: i8_def)
qed

text \<open>Signed comparison of two words.\<close>

abbreviation slt :: "'a::len word \<Rightarrow> 'a word \<Rightarrow> bool" where
  "slt a b \<equiv> sint a < sint b"

text \<open>The successor of a byte.\<close>

lemma unat_inc8: "unat (v :: u8) < 255 \<Longrightarrow> unat (v + 1) = unat v + 1"
  by (simp add: unat_word_ariths)

lemma inc8_eq: "unat (v :: u8) < 255 \<Longrightarrow> v + 1 = w \<longleftrightarrow> unat w = unat v + 1"
  using unat_inc8 [of v] by (auto simp: word_unat_eq_iff)

lemma len16: "n < 65536 \<Longrightarrow> unat (of_nat n :: u16) = n"
  by (simp add: unat_of_nat take_bit_eq_mod)

subsection \<open>Panics and computations on a mutable state\<close>

datatype panic =
    IndexOutOfRange
  | NilDereference
  | DivideByZero
  | ClosedChannel
  | Explicit

type_synonym ('s, 'a) act = "'s \<Rightarrow> (panic + 'a) \<times> 's"

definition ret :: "'a \<Rightarrow> ('s, 'a) act" where
  "ret a = (\<lambda>s. (Inr a, s))"

definition throw :: "panic \<Rightarrow> ('s, 'a) act" where
  "throw p = (\<lambda>s. (Inl p, s))"

definition get_st :: "('s, 's) act" where
  "get_st = (\<lambda>s. (Inr s, s))"

definition modify :: "('s \<Rightarrow> 's) \<Rightarrow> ('s, unit) act" where
  "modify f = (\<lambda>s. (Inr (), f s))"

definition seq :: "('s, 'a) act \<Rightarrow> ('a \<Rightarrow> ('s, 'b) act) \<Rightarrow> ('s, 'b) act" where
  "seq m f = (\<lambda>s. case m s of (Inl p, t) \<Rightarrow> (Inl p, t) | (Inr a, t) \<Rightarrow> f a t)"

text \<open>Running a computation step by step.\<close>

lemma run_seq [run_simps]:
  "seq get_st f s = f s s" "seq (ret a) g s = g a s" "seq (modify h) k s = k () (h s)" "seq (throw p) j s = (Inl p, s)"
  by (simp_all add: seq_def get_st_def ret_def modify_def throw_def)

lemma run_ends [run_simps]:
  "ret a s = (Inr a, s)" "throw p s = (Inl p, s)" "modify h s = (Inr (), h s)" "get_st s = (Inr s, s)"
  by (simp_all add: get_st_def ret_def modify_def throw_def)

lemma run_seq_result [run_simps]:
  "m s = (Inr a, t) \<Longrightarrow> seq m f s = f a t" "m s = (Inl p, t) \<Longrightarrow> seq m f s = (Inl p, t)"
  by (simp_all add: seq_def)

text \<open>A call of a pure function that may panic.\<close>

definition lift :: "panic + 'a \<Rightarrow> ('s, 'a) act" where
  "lift r = (case r of Inl p \<Rightarrow> throw p | Inr a \<Rightarrow> ret a)"

lemma run_lift [run_simps]:
  "seq (lift (Inl p)) f s = (Inl p, s)" "seq (lift (Inr a)) f s = f a s" "lift (Inl p) s = (Inl p, s)"
  "lift (Inr a) s = (Inr a, s)"
  by (simp_all add: lift_def run_simps)

text \<open>Pure calls that may panic, one after the other.\<close>

definition bindE :: "panic + 'a \<Rightarrow> ('a \<Rightarrow> panic + 'b) \<Rightarrow> panic + 'b" where
  "bindE r f = (case r of Inl p \<Rightarrow> Inl p | Inr a \<Rightarrow> f a)"

lemma bindE_simps [simp]: "bindE (Inl p) f = Inl p" "bindE (Inr a) f = f a"
  by (simp_all add: bindE_def)

lemma bindE_Inr_iff: "bindE r f = Inr b \<longleftrightarrow> (\<exists>a. r = Inr a \<and> f a = Inr b)"
  by (simp add: bindE_def split: sum.split)

lemma case_Inr_ex: "(case r of Inl p \<Rightarrow> False | Inr a \<Rightarrow> P a) \<Longrightarrow> \<exists>a. r = Inr a \<and> P a"
  by (cases r) auto

fun mapE :: "('a \<Rightarrow> panic + 'b) \<Rightarrow> 'a list \<Rightarrow> panic + 'b list" where
  "mapE f [] = Inr []"
| "mapE f (x # xs) = bindE (f x) (\<lambda>y. bindE (mapE f xs) (\<lambda>ys. Inr (y # ys)))"

lemma mapE_Inr: "\<forall>x \<in> set xs. f x = Inr (g x) \<Longrightarrow> mapE f xs = Inr (map g xs)"
  by (induction xs) auto

text \<open>The body of a \<open>for ... range\<close> loop over a slice that the loop does not change.\<close>

fun for_each :: "('a \<Rightarrow> ('s, unit) act) \<Rightarrow> 'a list \<Rightarrow> ('s, unit) act" where
  "for_each f [] = ret ()"
| "for_each f (x # xs) = seq (f x) (\<lambda>_. for_each f xs)"

lemma for_each_append: "for_each f (xs @ ys) = seq (for_each f xs) (\<lambda>_. for_each f ys)"
  by (induction xs) (auto simp: seq_def ret_def fun_eq_iff split: prod.split sum.split)

text \<open>
  \<open>wp m Q E s\<close>: run from \<open>s\<close>, \<open>m\<close> returns with \<open>Q\<close> or panics with \<open>E\<close>. An operation is total,
  so this is total correctness; \<open>E = (\<lambda>_ _. False)\<close> says that it does not panic.
\<close>

definition wp :: "('s, 'a) act \<Rightarrow> ('a \<Rightarrow> 's \<Rightarrow> bool) \<Rightarrow> (panic \<Rightarrow> 's \<Rightarrow> bool) \<Rightarrow> 's \<Rightarrow> bool" where
  "wp m Q E s = (case m s of (Inl p, t) \<Rightarrow> E p t | (Inr a, t) \<Rightarrow> Q a t)"

lemma wp_ret [wp_simps]: "wp (ret a) Q E s = Q a s"
  by (simp add: wp_def ret_def)

lemma wp_throw [wp_simps]: "wp (throw p) Q E s = E p s"
  by (simp add: wp_def throw_def)

lemma wp_get_st [wp_simps]: "wp get_st Q E s = Q s s"
  by (simp add: wp_def get_st_def)

lemma wp_modify [wp_simps]: "wp (modify f) Q E s = Q () (f s)"
  by (simp add: wp_def modify_def)

lemma wp_seq [wp_simps]: "wp (seq m f) Q E s = wp m (\<lambda>a. wp (f a) Q E) E s"
  by (auto simp: wp_def seq_def split: prod.splits sum.splits)

lemma wp_lift [wp_simps]: "wp (lift r) Q E s = (case r of Inl p \<Rightarrow> E p s | Inr a \<Rightarrow> Q a s)"
  by (auto simp: lift_def wp_simps split: sum.splits)

lemma wp_if [wp_simps]: "wp (if b then m else n) Q E s = (if b then wp m Q E s else wp n Q E s)"
  by simp

lemma wp_let: "wp (let x = e in f x) Q E s = (let x = e in wp (f x) Q E s)"
  by simp

lemma wp_case_option [wp_simps]:
  "wp (case x of None \<Rightarrow> m | Some a \<Rightarrow> f a) Q E s =
     (case x of None \<Rightarrow> wp m Q E s | Some a \<Rightarrow> wp (f a) Q E s)"
  by (simp split: option.split)

lemma wp_case_prod [wp_simps]:
  "wp (case x of (a, b) \<Rightarrow> f a b) Q E s = (case x of (a, b) \<Rightarrow> wp (f a b) Q E s)"
  by (simp split: prod.split)

lemma wp_mono:
  assumes "wp m Q E s" and "\<And>a t. Q a t \<Longrightarrow> Q' a t" and "\<And>p t. E p t \<Longrightarrow> E' p t"
  shows "wp m Q' E' s"
  using assms by (auto simp: wp_def split: prod.splits sum.splits)

lemma wp_inv:
  assumes "wp m (\<lambda>_. I) (\<lambda>_. I) s"
  shows "I (snd (m s))"
  using assms by (auto simp: wp_def split: prod.splits sum.splits)

lemma wp_safe:
  assumes "wp m (\<lambda>_. I) (\<lambda>_ _. False) s"
  shows "I (snd (m s))"
  using assms by (auto simp: wp_def split: prod.splits sum.splits)

text \<open>
  An invariant that a computation keeps, whether it returns or panics. The rules of
  \<open>keeps_intros\<close> follow the text of an operation.
\<close>

definition keeps :: "('s \<Rightarrow> bool) \<Rightarrow> ('s, 'a) act \<Rightarrow> bool" where
  "keeps I m \<longleftrightarrow> (\<forall>s. I s \<longrightarrow> I (snd (m s)))"

lemma keepsD: "keeps I m \<Longrightarrow> I s \<Longrightarrow> I (snd (m s))"
  by (simp add: keeps_def)

lemma keeps_ret [keeps_intros]: "keeps I (ret a)"
  by (simp add: keeps_def ret_def)

lemma keeps_throw [keeps_intros]: "keeps I (throw p)"
  by (simp add: keeps_def throw_def)

lemma keeps_get_st [keeps_intros]: "keeps I get_st"
  by (simp add: keeps_def get_st_def)

lemma keeps_lift [keeps_intros]: "keeps I (lift r)"
  by (auto simp: lift_def keeps_intros split: sum.split)

lemma keeps_modify [keeps_intros]: "(\<And>s. I s \<Longrightarrow> I (f s)) \<Longrightarrow> keeps I (modify f)"
  by (simp add: keeps_def modify_def)

lemma keeps_seq [keeps_intros]: "keeps I m \<Longrightarrow> (\<And>a. keeps I (f a)) \<Longrightarrow> keeps I (seq m f)"
  by (fastforce simp: keeps_def seq_def split: prod.split sum.split)

lemma keeps_if [keeps_intros]: "(b \<Longrightarrow> keeps I m) \<Longrightarrow> (\<not> b \<Longrightarrow> keeps I n) \<Longrightarrow> keeps I (if b then m else n)"
  by simp

lemma keeps_let [keeps_intros]: "(\<And>x. keeps I (f x)) \<Longrightarrow> keeps I (let x = e in f x)"
  by simp

lemma keeps_case_option [keeps_intros]:
  "keeps I m \<Longrightarrow> (\<And>a. keeps I (f a)) \<Longrightarrow> keeps I (case x of None \<Rightarrow> m | Some a \<Rightarrow> f a)"
  by (simp split: option.split)

lemma keeps_case_prod [keeps_intros]: "(\<And>a b. keeps I (f a b)) \<Longrightarrow> keeps I (case x of (a, b) \<Rightarrow> f a b)"
  by (simp split: prod.split)

lemma keeps_for_each [keeps_intros]: "(\<And>x. keeps I (f x)) \<Longrightarrow> keeps I (for_each f xs)"
  by (induction xs) (auto intro: keeps_intros)

text \<open>The loop rule: an invariant that each pass keeps, whether or not it panics.\<close>

lemma wp_for_each:
  assumes "\<And>x t. x \<in> set xs \<Longrightarrow> I t \<Longrightarrow> wp (f x) (\<lambda>_. I) E t" and "I s"
  shows "wp (for_each f xs) (\<lambda>_. I) E s"
  using assms
proof (induction xs arbitrary: s)
  case Nil
  then show ?case by (simp add: wp_simps)
next
  case (Cons x xs)
  have "wp (f x) (\<lambda>_. I) E s" using Cons.prems by simp
  then have "wp (f x) (\<lambda>_. wp (for_each f xs) (\<lambda>_. I) E) E s"
    by (rule wp_mono) (use Cons in auto)
  then show ?case by (simp add: wp_simps)
qed

subsection \<open>Slices\<close>

text \<open>\<open>s[i], s[j] = s[j], s[i]\<close>.\<close>

definition swap :: "'a list \<Rightarrow> nat \<Rightarrow> nat \<Rightarrow> 'a list" where
  "swap xs i j = xs[i := xs ! j, j := xs ! i]"

lemma length_swap [simp]: "length (swap xs i j) = length xs"
  by (simp add: swap_def)

lemma mset_swap_eq [simp]: "i < length xs \<Longrightarrow> j < length xs \<Longrightarrow> mset (swap xs i j) = mset xs"
  unfolding swap_def by (rule mset_swap)

lemma set_swap_eq [simp]: "i < length xs \<Longrightarrow> j < length xs \<Longrightarrow> set (swap xs i j) = set xs"
  by (metis mset_swap_eq set_mset_mset)

lemma swap_self [simp]: "swap xs i i = xs"
  by (simp add: swap_def)

lemma nth_swap:
  "i < length xs \<Longrightarrow> j < length xs \<Longrightarrow> k < length xs \<Longrightarrow>
   swap xs i j ! k = (if k = j then xs ! i else if k = i then xs ! j else xs ! k)"
  by (auto simp: swap_def nth_list_update)

lemma nth_notin_drop:
  assumes "distinct xs" "k < i" "k < length xs"
  shows "xs ! k \<notin> set (drop i xs)"
proof -
  have "xs ! k \<in> set (take i xs)" using assms(2,3) by (auto simp: in_set_conv_nth intro!: exI [of _ k])
  then show ?thesis using set_take_disj_set_drop_if_distinct [OF assms(1) order_refl, of i] by blast
qed

text \<open>Reading a slice: out of range is a panic.\<close>

definition index :: "'a list \<Rightarrow> nat \<Rightarrow> panic + 'a" where
  "index xs i = (if i < length xs then Inr (xs ! i) else Inl IndexOutOfRange)"

lemma index_Inr [simp]: "i < length xs \<Longrightarrow> index xs i = Inr (xs ! i)"
  by (simp add: index_def)

lemma index_Inr_iff: "index xs i = Inr x \<longleftrightarrow> i < length xs \<and> x = xs ! i"
  by (auto simp: index_def)

end
