(* ===== verification/MjTiles.thy ===== *)
theory MjTiles
  imports Prelude
begin

text \<open>
  \<open>mj/mj.go\<close>: tile numbers, the deck, the operation numbers and their bit sets, melds
  (\<open>Group\<close>), names of tiles and of winning hands, and the choice of the wild tile. The printed
  names are kept as data (which table, which entry) instead of as Chinese characters.
\<close>

subsection \<open>Tiles\<close>

text \<open>
  Go's constants are untyped, so they are abbreviations of numerals: 1 to 7 are the honours, 8 is
  the slot that counts wild tiles, 11-19, 21-29 and 31-39 are the three suits, 41 the first flower.
\<close>

abbreviation (input) Dong :: "'a::numeral" where "Dong \<equiv> 1"
abbreviation (input) Nan :: "'a::numeral" where "Nan \<equiv> 2"
abbreviation (input) Xi :: "'a::numeral" where "Xi \<equiv> 3"
abbreviation (input) Bei :: "'a::numeral" where "Bei \<equiv> 4"
abbreviation (input) Zhong :: "'a::numeral" where "Zhong \<equiv> 5"
abbreviation (input) Fa :: "'a::numeral" where "Fa \<equiv> 6"
abbreviation (input) Bai :: "'a::numeral" where "Bai \<equiv> 7"
abbreviation (input) Laizi :: "'a::numeral" where "Laizi \<equiv> 8"
abbreviation (input) Tiao1 :: "'a::numeral" where "Tiao1 \<equiv> 11"
abbreviation (input) Tiao2 :: "'a::numeral" where "Tiao2 \<equiv> 12"
abbreviation (input) Tiao3 :: "'a::numeral" where "Tiao3 \<equiv> 13"
abbreviation (input) Tiao5 :: "'a::numeral" where "Tiao5 \<equiv> 15"
abbreviation (input) Tiao8 :: "'a::numeral" where "Tiao8 \<equiv> 18"
abbreviation (input) Tiao9 :: "'a::numeral" where "Tiao9 \<equiv> 19"
abbreviation (input) Wan1 :: "'a::numeral" where "Wan1 \<equiv> 21"
abbreviation (input) Wan2 :: "'a::numeral" where "Wan2 \<equiv> 22"
abbreviation (input) Wan5 :: "'a::numeral" where "Wan5 \<equiv> 25"
abbreviation (input) Wan8 :: "'a::numeral" where "Wan8 \<equiv> 28"
abbreviation (input) Wan9 :: "'a::numeral" where "Wan9 \<equiv> 29"
abbreviation (input) Tong1 :: "'a::numeral" where "Tong1 \<equiv> 31"
abbreviation (input) Tong2 :: "'a::numeral" where "Tong2 \<equiv> 32"
abbreviation (input) Tong5 :: "'a::numeral" where "Tong5 \<equiv> 35"
abbreviation (input) Tong7 :: "'a::numeral" where "Tong7 \<equiv> 37"
abbreviation (input) Tong8 :: "'a::numeral" where "Tong8 \<equiv> 38"
abbreviation (input) Tong9 :: "'a::numeral" where "Tong9 \<equiv> 39"
abbreviation (input) Chun :: "'a::numeral" where "Chun \<equiv> 41"

definition BanBiShanMJ :: "u8 list" where
  "BanBiShanMJ =
     [Dong, Nan, Xi, Bei, Zhong, Fa, Bai,
      Dong, Nan, Xi, Bei, Zhong, Fa, Bai,
      Dong, Nan, Xi, Bei, Zhong, Fa, Bai,
      Dong, Nan, Xi, Bei, Zhong, Fa, Bai,
      11, 12, 13, 14, 15, 16, 17, 18, 19,
      11, 12, 13, 14, 15, 16, 17, 18, 19,
      11, 12, 13, 14, 15, 16, 17, 18, 19,
      11, 12, 13, 14, 15, 16, 17, 18, 19,
      21, 22, 23, 24, 25, 26, 27, 28, 29,
      21, 22, 23, 24, 25, 26, 27, 28, 29,
      21, 22, 23, 24, 25, 26, 27, 28, 29,
      21, 22, 23, 24, 25, 26, 27, 28, 29,
      31, 32, 33, 34, 35, 36, 37, 38, 39,
      31, 32, 33, 34, 35, 36, 37, 38, 39,
      31, 32, 33, 34, 35, 36, 37, 38, 39,
      31, 32, 33, 34, 35, 36, 37, 38, 39]"

text \<open>The 34 kinds of tile of this deck.\<close>

definition kinds :: "u8 list" where
  "kinds = [Dong, Nan, Xi, Bei, Zhong, Fa, Bai,
      11, 12, 13, 14, 15, 16, 17, 18, 19, 21, 22, 23, 24, 25, 26, 27, 28, 29,
      31, 32, 33, 34, 35, 36, 37, 38, 39]"

lemma length_BanBiShanMJ [simp]: "length BanBiShanMJ = 136"
  by (simp add: BanBiShanMJ_def)

lemma set_BanBiShanMJ: "set BanBiShanMJ = set kinds"
  by (auto simp: BanBiShanMJ_def kinds_def)

subsection \<open>Operations and their bit sets\<close>

abbreviation (input) FaPai :: "'a::zero" where "FaPai \<equiv> 0"
abbreviation (input) MoPai :: "'a::numeral" where "MoPai \<equiv> 1"
abbreviation (input) HdlPai :: "'a::numeral" where "HdlPai \<equiv> 2"
abbreviation (input) ChuPai :: "'a::numeral" where "ChuPai \<equiv> 3"
abbreviation (input) GuoPai :: "'a::numeral" where "GuoPai \<equiv> 4"
abbreviation (input) LChi :: "'a::numeral" where "LChi \<equiv> 5"
abbreviation (input) MChi :: "'a::numeral" where "MChi \<equiv> 6"
abbreviation (input) RChi :: "'a::numeral" where "RChi \<equiv> 7"
abbreviation (input) Peng :: "'a::numeral" where "Peng \<equiv> 8"
abbreviation (input) MGang :: "'a::numeral" where "MGang \<equiv> 9"
abbreviation (input) BGang :: "'a::numeral" where "BGang \<equiv> 10"
abbreviation (input) AGang :: "'a::numeral" where "AGang \<equiv> 11"
abbreviation (input) HuPaiOp :: "'a::numeral" where "HuPaiOp \<equiv> 12"
abbreviation (input) Jiang :: "'a::numeral" where "Jiang \<equiv> 13"
abbreviation (input) Shun :: "'a::numeral" where "Shun \<equiv> 14"
abbreviation (input) Ke :: "'a::numeral" where "Ke \<equiv> 15"

definition opBit :: "u8 \<Rightarrow> i32" where
  "opBit op = push_bit (unat op) 1"

definition HasOp :: "i32 \<Rightarrow> u8 \<Rightarrow> bool" where
  "HasOp ops op = slt 0 (ops AND opBit op)"

definition AddOp :: "i32 \<Rightarrow> u8 \<Rightarrow> i32" where
  "AddOp ops op = ops OR opBit op"

text \<open>A bit set answers for an operation number below 31 whether that bit is set.\<close>

lemma bit_opBit: "bit (opBit op) n \<longleftrightarrow> n = unat op \<and> n < 32"
  by (auto simp: opBit_def bit_simps)

lemma and_opBit: "ops AND opBit op = (if bit ops (unat op) then opBit op else 0)"
  by (rule bit_eqI) (auto simp: bit_simps bit_opBit)

lemma sint_nonneg: "\<not> bit (w :: i32) 31 \<Longrightarrow> sint w = uint w"
  using uint_lt2p [of w]
  by (simp add: sint_uint signed_take_bit_eq_take_bit_minus bit_uint_iff take_bit_eq_mod)

lemma sint_opBit_pos: "unat op < 31 \<Longrightarrow> 0 < sint (opBit op)"
proof -
  assume a: "unat op < 31"
  have "sint (opBit op) = uint (opBit op)"
    by (rule sint_nonneg) (use a in \<open>simp add: bit_opBit\<close>)
  moreover have "opBit op \<noteq> 0"
    using a bit_opBit [of op "unat op"] by auto
  then have "uint (opBit op) \<noteq> 0" by (simp add: uint_0_iff)
  ultimately show ?thesis using uint_ge_0 [of "opBit op"] by linarith
qed

lemma HasOp_bit: "unat op < 31 \<Longrightarrow> HasOp ops op \<longleftrightarrow> bit ops (unat op)"
  using sint_opBit_pos [of op] by (simp add: HasOp_def and_opBit)

lemma HasOp_zero [simp]: "\<not> HasOp 0 op"
  by (simp add: HasOp_def)

lemma HasOp_AddOp:
  "unat op < 31 \<Longrightarrow> unat op' < 31 \<Longrightarrow> HasOp (AddOp ops op') op \<longleftrightarrow> op = op' \<or> HasOp ops op"
  by (auto simp: HasOp_bit AddOp_def bit_simps bit_opBit word_unat_eq_iff)

text \<open>\<open>1 << 31\<close> is negative as an \<open>int32\<close> and wider shifts are 0: those operations are never set.\<close>

lemma HasOp_high: "31 \<le> unat op \<Longrightarrow> \<not> HasOp ops op"
proof -
  assume a: "31 \<le> unat op"
  show ?thesis
  proof (cases "unat op = 31")
    case True
    then have "opBit op = 0x80000000" by (simp add: opBit_def)
    then have "ops AND opBit op = 0 \<or> ops AND opBit op = 0x80000000"
      by (metis and_opBit)
    then show ?thesis by (auto simp: HasOp_def)
  next
    case False
    with a have "opBit op = 0" by (intro bit_eqI) (auto simp: bit_opBit)
    then show ?thesis by (simp add: HasOp_def)
  qed
qed

subsection \<open>Melds\<close>

record Group =
  g_Op :: u8
  g_Val :: u8

definition mkGroup :: "u8 \<Rightarrow> u8 \<Rightarrow> Group" where
  "mkGroup op val = \<lparr>g_Op = op, g_Val = val\<rparr>"

lemma mkGroup_sel [simp]: "g_Op (mkGroup op val) = op" "g_Val (mkGroup op val) = val"
  by (simp_all add: mkGroup_def)

definition ToBytes :: "Group \<Rightarrow> u8 list" where
  "ToBytes p = [g_Op p, g_Val p]"

text \<open>
  Names: entry of one of the four tables, or the common name of all flowers. The tables have 8, 9,
  9 and 9 entries and the index is a wrapping \<open>uint8\<close> subtraction, so 0, 9, 10, 20 and 30 panic.
\<close>

datatype pai_name = Feng nat | Tiao nat | Wan nat | Tong nat | HuaPai

definition Pai :: "u8 \<Rightarrow> panic + pai_name" where
  "Pai v =
     (if v < 10 then (if unat (v - 1) < 8 then Inr (Feng (unat (v - 1))) else Inl IndexOutOfRange)
      else if v < 20 then (if unat (v - 11) < 9 then Inr (Tiao (unat (v - 11))) else Inl IndexOutOfRange)
      else if v < 30 then (if unat (v - 21) < 9 then Inr (Wan (unat (v - 21))) else Inl IndexOutOfRange)
      else if v < 40 then (if unat (v - 31) < 9 then Inr (Tong (unat (v - 31))) else Inl IndexOutOfRange)
      else Inr HuaPai)"

text \<open>The kind of meld and its tiles in the order they are printed.\<close>

datatype group_label = L_Chi | L_Peng | L_MGang | L_BGang | L_AGang | L_Jiang | L_Shun | L_Ke | L_None

definition Group_String :: "Group \<Rightarrow> panic + (group_label \<times> pai_name list)" where
  "Group_String p =
     (let v = g_Val p;
          out = (\<lambda>l vs. bindE (mapE Pai vs) (\<lambda>ns. Inr (l, ns)))
      in if g_Op p = LChi then out L_Chi [v, v + 1, v + 2]
         else if g_Op p = MChi then out L_Chi [v - 1, v, v + 1]
         else if g_Op p = RChi then out L_Chi [v - 2, v - 1, v]
         else if g_Op p = Peng then out L_Peng [v, v, v]
         else if g_Op p = MGang then out L_MGang [v]
         else if g_Op p = BGang then out L_BGang [v]
         else if g_Op p = AGang then out L_AGang [v]
         else if g_Op p = Jiang then out L_Jiang [v, v]
         else if g_Op p = Shun then out L_Shun [v, v + 1, v + 2]
         else if g_Op p = Ke then out L_Ke [v, v, v]
         else Inr (L_None, []))"

subsection \<open>Kinds of winning hand\<close>

abbreviation (input) PH :: i32 where "PH \<equiv> 0x0001"
abbreviation (input) MQQ :: i32 where "MQQ \<equiv> 0x0002"
abbreviation (input) PPH :: i32 where "PPH \<equiv> 0x0004"
abbreviation (input) QD :: i32 where "QD \<equiv> 0x0008"
abbreviation (input) QQR :: i32 where "QQR \<equiv> 0x0010"
abbreviation (input) QYS :: i32 where "QYS \<equiv> 0x0020"
abbreviation (input) JYS :: i32 where "JYS \<equiv> 0x0040"
abbreviation (input) FYS :: i32 where "FYS \<equiv> 0x0080"
abbreviation (input) HH :: i32 where "HH \<equiv> 0x0100"
abbreviation (input) HH2 :: i32 where "HH2 \<equiv> 0x0200"
abbreviation (input) HH3 :: i32 where "HH3 \<equiv> 0x0400"
abbreviation (input) ZM :: i32 where "ZM \<equiv> 0x0800"
abbreviation (input) YH :: i32 where "YH \<equiv> 0x1000"

datatype hu_tag =
  T_YH | T_ZM | T_HH3 | T_HH2 | T_HH | T_FYS | T_JYS | T_QYS | T_QQR | T_PPH | T_QD | T_MQQ | T_PH

definition flag :: "i32 \<Rightarrow> i32 \<Rightarrow> bool" where
  "flag hu b = slt 0 (hu AND b)"

text \<open>The printed string as the list of its bracketed names; the score argument is not printed.\<close>

definition HuStr :: "i32 \<Rightarrow> i32 \<Rightarrow> hu_tag list" where
  "HuStr hu score =
     (let add = (\<lambda>b t str. if flag hu b then str @ [t] else str);
          str = add MQQ T_MQQ (add QD T_QD (add PPH T_PPH (add QQR T_QQR (add QYS T_QYS
                (add JYS T_JYS (add FYS T_FYS (add HH T_HH (add HH2 T_HH2 (add HH3 T_HH3
                (add ZM T_ZM (add YH T_YH [])))))))))))
      in if str = [] \<and> flag hu PH then str @ [T_PH] else str)"

definition GetLaizi :: "u8 \<Rightarrow> u8" where
  "GetLaizi pizi =
     (if pizi = Bei then Dong
      else if pizi = Bai then Zhong
      else if pizi = Tiao9 then Tiao1
      else if pizi = Wan9 then Wan1
      else if pizi = Tong9 then Tong1
      else pizi + 1)"

record MjOp =
  mo_Uid :: u32
  mo_Op :: i32
  mo_Mj :: i32

subsection \<open>Tile lemmas\<close>

text \<open>
  The wild tile is again a tile of the deck, never the flipped tile itself and never the counter
  slot 8; different flipped tiles give different wild tiles.
\<close>

lemma GetLaizi_kinds: "map GetLaizi kinds = [2, 3, 4, 1, 6, 7, 5,
      12, 13, 14, 15, 16, 17, 18, 19, 11, 22, 23, 24, 25, 26, 27, 28, 29, 21,
      32, 33, 34, 35, 36, 37, 38, 39, 31]"
  by (simp add: kinds_def GetLaizi_def)

text \<open>
  The choice of the wild tile is a permutation of the 34 kinds of the deck: each kind is the wild
  tile for exactly one flipped tile, never for itself, and it stays in the suit (honours among
  honours) of the flipped one.
\<close>

theorem GetLaizi_permutes:
  "set (map GetLaizi kinds) = set kinds \<and> distinct (map GetLaizi kinds) \<and>
   list_all (\<lambda>v. GetLaizi v \<noteq> v \<and> GetLaizi v div 10 = v div 10) kinds"
proof -
  have "distinct (map GetLaizi kinds)" "list_all (\<lambda>v. GetLaizi v \<noteq> v \<and> GetLaizi v div 10 = v div 10) kinds"
    by code_simp+
  moreover have "set (map GetLaizi kinds) = set kinds"
    unfolding GetLaizi_kinds by (auto simp: kinds_def)
  ultimately show ?thesis by blast
qed

lemma kinds_bounds: "v \<in> set kinds \<Longrightarrow> 1 \<le> unat v \<and> unat v \<le> 39 \<and> unat v \<notin> {8, 9, 10, 20, 30}"
  by (auto simp: kinds_def)

lemma Pai_kinds: "v \<in> set kinds \<Longrightarrow> \<exists>n. Pai v = Inr n"
proof -
  have "list_all (\<lambda>v. \<not> isl (Pai v)) kinds" by code_simp
  then show "v \<in> set kinds \<Longrightarrow> \<exists>n. Pai v = Inr n"
    by (auto simp: list_all_iff elim!: ballE [of _ _ v] split: sum.splits) (metis isl_def sum.exhaust_sel)
qed

end
