(* ===== verification/MjHulz.thy ===== *)
theory MjHulz
  imports MjTiles
begin

text \<open>
  \<open>mj/hulz.go\<close>: the judge of winning hands with wild tiles (\<open>statlz\<close>). The array \<open>num\<close> of 41
  \<open>int8\<close> counters is a function on the indices 0 to 40. Counting the hand (\<open>Newlz\<close>) wraps at 8
  bits as the source does; the search then moves counters by at most 3 per step and undoes it, so
  with the at most 18 tiles of a hand its sums stay far from the bounds of \<open>int8\<close> and are written
  on unbounded integers.
\<close>

record statlz =
  lz_laizi :: u8
  lz_pai :: u8
  lz_num :: "nat \<Rightarrow> int"
  lz_groups :: "Group list"

text \<open>The index ranges over which \<open>for i := range m.num\<close> loops.\<close>

definition num_range :: "nat list" where
  "num_range = [0..<Chun]"

fun count_tiles :: "(nat \<Rightarrow> int) \<Rightarrow> u8 list \<Rightarrow> panic + (nat \<Rightarrow> int)" where
  "count_tiles num [] = Inr num"
| "count_tiles num (v # mj) =
     (if unat v < Chun then count_tiles (num(unat v := i8 (num (unat v) + 1))) mj
      else Inl IndexOutOfRange)"

text \<open>
  The printed form: one bracket of names per tile number with a non-zero count, then the groups.
  A negative count prints an empty bracket.
\<close>

definition statlz_String :: "statlz \<Rightarrow> panic + (pai_name list list \<times> (group_label \<times> pai_name list) list)" where
  "statlz_String s =
     bindE (mapE (\<lambda>p. mapE Pai (replicate (nat (lz_num s p)) (of_nat p)))
       (filter (\<lambda>p. lz_num s p \<noteq> 0) num_range)) (\<lambda>ps.
     bindE (mapE Group_String (lz_groups s)) (\<lambda>gs. Inr (ps, gs)))"

definition Newlz :: "u8 list \<Rightarrow> u8 \<Rightarrow> u8 \<Rightarrow> Group list \<Rightarrow> panic + statlz" where
  "Newlz mj pai laizi grp =
     bindE (count_tiles (\<lambda>_. 0) mj) (\<lambda>num.
     bindE (if 0 < pai then count_tiles num [pai] else Inr num) (\<lambda>num.
       if 0 < laizi then
         (if unat laizi < Chun then
            Inr \<lparr>lz_laizi = laizi, lz_pai = pai,
                 lz_num = num(Laizi := num (unat laizi), unat laizi := 0), lz_groups = grp\<rparr>
          else Inl IndexOutOfRange)
       else Inr \<lparr>lz_laizi = 0, lz_pai = pai, lz_num = num, lz_groups = grp\<rparr>))"

subsection \<open>The search\<close>

abbreviation cnt :: "statlz \<Rightarrow> nat \<Rightarrow> int" where
  "cnt m k \<equiv> lz_num m k"

text \<open>\<open>m.num[k] += d\<close>, and the two operations on the slice \<open>m.groups\<close>.\<close>

definition bump :: "statlz \<Rightarrow> nat \<Rightarrow> int \<Rightarrow> statlz" where
  "bump m k d = m\<lparr>lz_num := (lz_num m)(k := lz_num m k + d)\<rparr>"

definition push_group :: "statlz \<Rightarrow> u8 \<Rightarrow> nat \<Rightarrow> statlz" where
  "push_group m op val = m\<lparr>lz_groups := lz_groups m @ [mkGroup op (of_nat val)]\<rparr>"

definition pop_group :: "statlz \<Rightarrow> statlz" where
  "pop_group m = m\<lparr>lz_groups := butlast (lz_groups m)\<rparr>"

function next_lz :: "(nat \<Rightarrow> int) \<Rightarrow> nat \<Rightarrow> nat" where
  "next_lz num pai =
     (if pai = Laizi \<or> (num pai \<le> 0 \<and> pai \<le> Tong9) then next_lz num (pai + 1) else pai)"
  by pat_completeness auto
termination
  by (relation "measure (\<lambda>(num, pai). 40 - pai)") auto

definition kezi_take :: "statlz \<Rightarrow> nat \<Rightarrow> statlz" where
  "kezi_take m pai =
     (let m = bump m pai (- 3);
          m = (if cnt m pai < 0 then bump m Laizi (cnt m pai) else m)
      in push_group m Ke pai)"

definition kezi_undo :: "statlz \<Rightarrow> nat \<Rightarrow> statlz" where
  "kezi_undo m pai =
     (let m = (if cnt m pai < 0 then bump m Laizi (- cnt m pai) else m) in bump m pai 3)"

definition shunzi_ok :: "statlz \<Rightarrow> nat \<Rightarrow> bool" where
  "shunzi_ok m pai \<longleftrightarrow>
     pai \<le> Tong7 \<and> cnt m pai \<ge> 1 \<and> cnt m (pai + 1) + cnt m Laizi \<ge> 1 \<and> cnt m (pai + 2) \<ge> 1 \<or>
     pai \<le> Tong7 \<and> cnt m pai \<ge> 1 \<and> cnt m (pai + 1) \<ge> 1 \<and> cnt m (pai + 2) + cnt m Laizi \<ge> 1"

definition shunzi_take :: "statlz \<Rightarrow> nat \<Rightarrow> statlz" where
  "shunzi_take m pai =
     (let m = bump (bump (bump m pai (- 1)) (pai + 1) (- 1)) (pai + 2) (- 1);
          m = (if cnt m (pai + 1) < 0 then bump m Laizi (- 1) else m);
          m = (if cnt m (pai + 2) < 0 then bump m Laizi (- 1) else m)
      in push_group m Shun pai)"

definition shunzi_undo :: "statlz \<Rightarrow> nat \<Rightarrow> statlz" where
  "shunzi_undo m pai =
     (let m = bump (bump (bump m pai 1) (pai + 1) 1) (pai + 2) 1;
          m = (if cnt m (pai + 1) = 0 then bump m Laizi 1 else m);
          m = (if cnt m (pai + 2) = 0 then bump m Laizi 1 else m)
      in m)"

function deal_kezi_lz :: "statlz \<Rightarrow> nat \<Rightarrow> bool \<times> statlz"
  and deal_shunzi_lz :: "statlz \<Rightarrow> nat \<Rightarrow> bool \<times> statlz" where
  "deal_kezi_lz m pai =
     (if Tong9 < pai then (True, m)
      else if cnt m pai + cnt m Laizi \<ge> 3 then
        (let m1 = kezi_take m pai;
             j = next_lz (lz_num m1) pai;
             r1 = deal_kezi_lz m1 j;
             r = (if fst r1 then r1 else deal_shunzi_lz (snd r1) j)
         in if fst r then (True, kezi_undo (snd r) pai)
            else (False, kezi_undo (pop_group (snd r)) pai))
      else (False, m))"
| "deal_shunzi_lz m pai =
     (if pai < Tiao1 then (False, m)
      else if Tong9 < pai then (True, m)
      else if shunzi_ok m pai then
        (let m1 = shunzi_take m pai;
             j = next_lz (lz_num m1) pai;
             r1 = deal_kezi_lz m1 j;
             r = (if fst r1 then r1 else deal_shunzi_lz (snd r1) j)
         in if fst r then (True, shunzi_undo (snd r) pai)
            else (False, shunzi_undo (pop_group (snd r)) pai))
      else (False, m))"
  by pat_completeness auto

declare next_lz.simps [simp del]

text \<open>The groups do not matter to the counters.\<close>

lemma cnt_groups [simp]:
  "lz_num (push_group m op v) = lz_num m" "lz_num (pop_group m) = lz_num m"
  by (simp_all add: push_group_def pop_group_def)

lemma cnt_bump: "cnt (bump m k d) i = (if i = k then cnt m k + d else cnt m i)"
  by (simp add: bump_def)

lemma cnt_kezi_take:
  "k \<noteq> 8 \<Longrightarrow> cnt (kezi_take m pai) k = (if k = pai then cnt m pai - 3 else cnt m k)"
  by (auto simp: kezi_take_def Let_def cnt_bump)

lemma cnt_kezi_undo:
  "k \<noteq> 8 \<Longrightarrow> cnt (kezi_undo m pai) k = (if k = pai then cnt m pai + 3 else cnt m k)"
  by (auto simp: kezi_undo_def Let_def cnt_bump)

lemma cnt_shunzi_take:
  "k \<noteq> 8 \<Longrightarrow> cnt (shunzi_take m pai) k = (if k \<in> {pai, pai + 1, pai + 2} then cnt m k - 1 else cnt m k)"
  by (auto simp: shunzi_take_def Let_def cnt_bump)

lemma cnt_shunzi_undo:
  "k \<noteq> 8 \<Longrightarrow> cnt (shunzi_undo m pai) k = (if k \<in> {pai, pai + 1, pai + 2} then cnt m k + 1 else cnt m k)"
  by (auto simp: shunzi_undo_def Let_def cnt_bump)

text \<open>
  Every call puts the counters of the real tiles back. The recursive calls are nested (the second
  attempt starts from the state the first one left), so the search stops because of this fact,
  which is first proved on its domain.
\<close>

lemma deal_restores_dom:
  "deal_kezi_lz_deal_shunzi_lz_dom (Inl (m, pai)) \<Longrightarrow>
     k \<noteq> 8 \<longrightarrow> cnt (snd (deal_kezi_lz m pai)) k = cnt m k"
  "deal_kezi_lz_deal_shunzi_lz_dom (Inr (m, pai)) \<Longrightarrow>
     k \<noteq> 8 \<longrightarrow> cnt (snd (deal_shunzi_lz m pai)) k = cnt m k"
proof (induction m pai and m pai rule: deal_kezi_lz_deal_shunzi_lz.pinduct)
  case (1 m pai)
  then show ?case
    by (subst deal_kezi_lz.psimps)
      (auto simp: Let_def cnt_kezi_undo cnt_kezi_take prod_eq_iff split: if_splits)
next
  case (2 m pai)
  then show ?case
    by (subst deal_shunzi_lz.psimps)
      (auto simp: Let_def cnt_shunzi_undo cnt_shunzi_take prod_eq_iff split: if_splits)
qed

text \<open>
  What shrinks: a triple or a run takes at least one real tile of those left, except that a first
  call at a tile that is not in hand (a triple of wild tiles) only moves on to a higher tile.
\<close>

definition tiles_left :: "(nat \<Rightarrow> int) \<Rightarrow> nat" where
  "tiles_left num = (\<Sum>k \<in> {0..<40} - {8}. nat (num k))"

lemma tiles_left_cong: "(\<And>k. k \<noteq> 8 \<Longrightarrow> f k = g k) \<Longrightarrow> tiles_left f = tiles_left g"
  unfolding tiles_left_def by (rule sum.cong) auto

lemma tiles_left_le: "(\<And>k. k \<noteq> 8 \<Longrightarrow> f k \<le> g k) \<Longrightarrow> tiles_left f \<le> tiles_left g"
  unfolding tiles_left_def by (rule sum_mono) (auto intro: nat_mono)

lemma tiles_left_less:
  assumes "\<And>k. k \<noteq> 8 \<Longrightarrow> f k \<le> g k" and "i < 40" "i \<noteq> 8" "f i < g i" "0 < g i"
  shows "tiles_left f < tiles_left g"
  unfolding tiles_left_def
proof (rule sum_strict_mono_ex1)
  show "\<forall>k \<in> {0..<40} - {8}. nat (f k) \<le> nat (g k)" using assms(1) by (auto intro: nat_mono)
  show "\<exists>k \<in> {0..<40} - {8}. nat (f k) < nat (g k)" using assms(2-) by (intro bexI [of _ i]) auto
qed simp

lemma next_lz_ge: "pai \<le> next_lz num pai"
proof (induction num pai rule: next_lz.induct)
  case (1 num pai)
  then show ?case by (subst next_lz.simps) (auto intro: Suc_leD)
qed

lemma next_lz_moves: "num pai \<le> 0 \<or> pai = 8 \<Longrightarrow> pai \<le> 39 \<Longrightarrow> pai < next_lz num pai"
  using next_lz_ge [of "Suc pai" num] by (subst next_lz.simps) auto

termination deal_kezi_lz
proof (relation "measures [\<lambda>x. tiles_left (lz_num (case x of Inl (m, p) \<Rightarrow> m | Inr (m, p) \<Rightarrow> m)),
                           \<lambda>x. 41 - (case x of Inl (m, p) \<Rightarrow> p | Inr (m, p) \<Rightarrow> p)]", goal_cases)
  case 1
  show ?case by simp
next
  case (2 m pai m1 j)
  have le: "tiles_left (lz_num m1) \<le> tiles_left (lz_num m)"
    using 2 by (intro tiles_left_le) (auto simp: cnt_kezi_take)
  show ?case
  proof (cases "0 < cnt m pai \<and> pai \<noteq> 8")
    case True
    then have "tiles_left (lz_num m1) < tiles_left (lz_num m)"
      using 2 by (intro tiles_left_less [where i = pai]) (auto simp: cnt_kezi_take)
    then show ?thesis by simp
  next
    case False
    then have "pai < j" using 2 by (auto intro!: next_lz_moves simp: cnt_kezi_take)
    with le 2 show ?thesis by auto
  qed
next
  case (3 m pai m1 j r1)
  have eq: "tiles_left (lz_num (snd r1)) = tiles_left (lz_num m1)"
    using 3 deal_restores_dom(1) by (intro tiles_left_cong) auto
  have le: "tiles_left (lz_num m1) \<le> tiles_left (lz_num m)"
    using 3 by (intro tiles_left_le) (auto simp: cnt_kezi_take)
  show ?case
  proof (cases "0 < cnt m pai \<and> pai \<noteq> 8")
    case True
    then have "tiles_left (lz_num m1) < tiles_left (lz_num m)"
      using 3 by (intro tiles_left_less [where i = pai]) (auto simp: cnt_kezi_take)
    with eq show ?thesis by simp
  next
    case False
    then have "pai < j" using 3 by (auto intro!: next_lz_moves simp: cnt_kezi_take)
    with le eq 3 show ?thesis by auto
  qed
next
  case (4 m pai m1 j)
  have "tiles_left (lz_num m1) < tiles_left (lz_num m)"
    using 4 by (intro tiles_left_less [where i = pai]) (auto simp: cnt_shunzi_take shunzi_ok_def)
  then show ?case by simp
next
  case (5 m pai m1 j r1)
  have "tiles_left (lz_num (snd r1)) = tiles_left (lz_num m1)"
    using 5 deal_restores_dom(1) by (intro tiles_left_cong) auto
  moreover have "tiles_left (lz_num m1) < tiles_left (lz_num m)"
    using 5 by (intro tiles_left_less [where i = pai]) (auto simp: cnt_shunzi_take shunzi_ok_def)
  ultimately show ?case by simp
qed

declare deal_kezi_lz.simps [simp del] deal_shunzi_lz.simps [simp del]

lemmas deal_induct = deal_kezi_lz_deal_shunzi_lz.induct

lemma deal_restores:
  "k \<noteq> 8 \<longrightarrow> cnt (snd (deal_kezi_lz m pai)) k = cnt m k"
  "k \<noteq> 8 \<longrightarrow> cnt (snd (deal_shunzi_lz m pai)) k = cnt m k"
  by (induction m pai and m pai rule: deal_induct)
    (subst deal_kezi_lz.simps deal_shunzi_lz.simps,
     auto simp: Let_def cnt_kezi_undo cnt_kezi_take cnt_shunzi_undo cnt_shunzi_take prod_eq_iff
       split: if_splits)+

text \<open>The source's \<open>m.deal_kezi(j) || m.deal_shunzi(j)\<close>.\<close>

definition deal_lz :: "statlz \<Rightarrow> nat \<Rightarrow> bool \<times> statlz" where
  "deal_lz m j = (let r = deal_kezi_lz m j in if fst r then r else deal_shunzi_lz (snd r) j)"

lemma deal_kezi_rec:
  "deal_kezi_lz m pai =
     (if Tong9 < pai then (True, m)
      else if cnt m pai + cnt m Laizi \<ge> 3 then
        (let m1 = kezi_take m pai; r = deal_lz m1 (next_lz (lz_num m1) pai)
         in if fst r then (True, kezi_undo (snd r) pai)
            else (False, kezi_undo (pop_group (snd r)) pai))
      else (False, m))"
  by (subst deal_kezi_lz.simps) (simp add: deal_lz_def Let_def)

lemma deal_shunzi_rec:
  "deal_shunzi_lz m pai =
     (if pai < Tiao1 then (False, m)
      else if Tong9 < pai then (True, m)
      else if shunzi_ok m pai then
        (let m1 = shunzi_take m pai; r = deal_lz m1 (next_lz (lz_num m1) pai)
         in if fst r then (True, shunzi_undo (snd r) pai)
            else (False, shunzi_undo (pop_group (snd r)) pai))
      else (False, m))"
  by (subst deal_shunzi_lz.simps) (simp add: deal_lz_def Let_def)

subsection \<open>The winning hands\<close>

definition jiang_take :: "statlz \<Rightarrow> nat \<Rightarrow> statlz" where
  "jiang_take m i =
     (let m = bump m i (- 2);
          m = (if cnt m i < 0 then bump m Laizi (- 1) else m)
      in push_group m Jiang i)"

definition jiang_undo :: "statlz \<Rightarrow> nat \<Rightarrow> statlz" where
  "jiang_undo m i = (let m = bump m i 2 in if cnt m i = 1 then bump m Laizi 1 else m)"

fun hu233_from :: "nat list \<Rightarrow> statlz \<Rightarrow> bool \<times> statlz" where
  "hu233_from [] m = (False, m)"
| "hu233_from (i # is) m =
     (if cnt m i > 0 \<and> i \<noteq> Laizi \<and> cnt m i + cnt m Laizi \<ge> 2 then
        (let m1 = jiang_take m i;
             idx = next_lz (lz_num m1) 0;
             r = deal_lz m1 idx;
             m2 = jiang_undo (snd r) i
         in if fst r then (True, m2) else hu233_from is (pop_group m2))
      else hu233_from is m)"

definition hu233_lz :: "statlz \<Rightarrow> bool \<times> statlz" where
  "hu233_lz m = hu233_from num_range m"

text \<open>Seven pairs: the loop's two variables, the pairs found and the wild tiles left.\<close>

fun qd_loop :: "(nat \<Rightarrow> int) \<Rightarrow> nat list \<Rightarrow> int \<Rightarrow> int \<Rightarrow> int" where
  "qd_loop num [] n lzNum = n"
| "qd_loop num (i # is) n lzNum =
     (if i = Laizi then qd_loop num is n lzNum
      else if num i = 1 \<and> lzNum > 0 then qd_loop num is (i8 (n + 1)) (i8 (lzNum - 1))
      else if num i = 2 then qd_loop num is (i8 (n + 1)) lzNum
      else if num i = 3 \<and> lzNum > 0 then qd_loop num is (i8 (n + 2)) (i8 (lzNum - 1))
      else if num i = 4 then qd_loop num is (i8 (n + 2)) lzNum
      else qd_loop num is n lzNum)"

definition huQd_lz :: "statlz \<Rightarrow> bool" where
  "huQd_lz m = (qd_loop (lz_num m) num_range 0 (cnt m Laizi) = 7)"

definition IsJiang :: "u8 \<Rightarrow> bool" where
  "IsJiang val \<longleftrightarrow>
     val = Tiao2 \<or> val = Tiao5 \<or> val = Tiao8 \<or>
     val = Wan2 \<or> val = Wan5 \<or> val = Wan8 \<or>
     val = Tong2 \<or> val = Tong5 \<or> val = Tong8"

definition isChi :: "u8 \<Rightarrow> bool" where
  "isChi op \<longleftrightarrow> op = LChi \<or> op = MChi \<or> op = RChi"

definition huJys_lz :: "statlz \<Rightarrow> bool" where
  "huJys_lz m \<longleftrightarrow>
     list_all (\<lambda>g. if g_Op g = Ke \<or> g_Op g = Shun then True
                   else if isChi (g_Op g) then False else IsJiang (g_Val g)) (lz_groups m) \<and>
     list_all (\<lambda>val. \<not> (cnt m val > 0 \<and> val \<noteq> Laizi \<and> \<not> IsJiang (of_nat val))) num_range"

definition huHh_lz :: "statlz \<Rightarrow> nat" where
  "huHh_lz m =
     length (filter (\<lambda>g. g_Op g = AGang) (lz_groups m)) +
     length (filter (\<lambda>i. cnt m i = 4 \<and> i \<noteq> Laizi) num_range)"

text \<open>One suit: \<open>c\<close> is the suit seen so far; \<open>c = 0\<close> is both "none yet" and "honours".\<close>

fun qys_loop :: "(nat \<Rightarrow> int) \<Rightarrow> nat list \<Rightarrow> nat \<Rightarrow> nat option" where
  "qys_loop num [] c = Some c"
| "qys_loop num (i # is) c =
     (if num i > 0 then
        (if c = 0 then qys_loop num is (i div 10)
         else if c \<noteq> i div 10 then None
         else qys_loop num is c)
      else qys_loop num is c)"

definition huQys_lz :: "statlz \<Rightarrow> bool" where
  "huQys_lz m =
     (case qys_loop (lz_num m) num_range 0 of
        None \<Rightarrow> False
      | Some c \<Rightarrow> list_all (\<lambda>g. unat (g_Val g) div 10 = c) (lz_groups m))"

text \<open>All triples: the counts of the real tiles (four of a kind as 1 and 3), filled up to 3.\<close>

fun pph_fill :: "int list \<Rightarrow> int \<Rightarrow> bool" where
  "pph_fill [] lzNum = True"
| "pph_fill (n # ns) lzNum =
     (if n < 3 then (if lzNum - (3 - n) < 0 then False else pph_fill ns (lzNum - (3 - n)))
      else pph_fill ns lzNum)"

definition numArr :: "statlz \<Rightarrow> int list" where
  "numArr m =
     sort (concat (map (\<lambda>i. if i \<noteq> Laizi \<and> cnt m i > 0
                             then (if cnt m i > 3 then [1, 3] else [cnt m i]) else []) num_range))"

definition huPph_lz :: "statlz \<Rightarrow> panic + bool" where
  "huPph_lz m =
     (if list_ex (\<lambda>g. isChi (g_Op g) \<or> g_Op g = Shun) (lz_groups m) then Inr False
      else (case numArr m of
              [] \<Rightarrow> Inl IndexOutOfRange
            | n # ns \<Rightarrow>
                (if n = 1 \<and> cnt m Laizi - 1 < 0 then Inr False
                 else Inr (pph_fill ns (if n = 1 then cnt m Laizi - 1 else cnt m Laizi)))))"

definition huQqr_lz :: "statlz \<Rightarrow> bool" where
  "huQqr_lz m =
     (if lz_pai m = 0 then False
      else if list_ex (\<lambda>g. g_Op g = Ke \<or> g_Op g = Shun) (lz_groups m) then False
      else cnt m (unat (lz_pai m)) = 2)"

definition huMqq_lz :: "statlz \<Rightarrow> bool" where
  "huMqq_lz m =
     (if lz_pai m > 0 then False
      else \<not> list_ex (\<lambda>g. isChi (g_Op g) \<or> g_Op g = Peng \<or> g_Op g = MGang \<or> g_Op g = BGang)
               (lz_groups m))"

definition huYh_lz :: "statlz \<Rightarrow> bool" where
  "huYh_lz m = (cnt m Laizi = 0)"

definition CanHu_lz :: "statlz \<Rightarrow> bool \<times> statlz" where
  "CanHu_lz m =
     (let r = hu233_lz m
      in if fst r then r
         else if huQd_lz (snd r) then (True, snd r)
         else (huJys_lz (snd r), snd r))"

definition CanOpSelf_lz :: "statlz \<Rightarrow> Group list \<times> statlz" where
  "CanOpSelf_lz m =
     (let gang = map (\<lambda>i. mkGroup AGang (of_nat i)) (filter (\<lambda>i. cnt m i = 4 \<and> i \<noteq> Laizi) num_range);
          r = CanHu_lz m
      in (if fst r then gang @ [mkGroup HuPaiOp 0] else gang, snd r))"

text \<open>A counter at a \<open>uint8\<close> index, and the short-circuit of two such tests.\<close>

definition num_at :: "statlz \<Rightarrow> u8 \<Rightarrow> panic + int" where
  "num_at m v = (if unat v < Chun then Inr (cnt m (unat v)) else Inl IndexOutOfRange)"

definition both_pos :: "statlz \<Rightarrow> bool \<Rightarrow> u8 \<Rightarrow> u8 \<Rightarrow> panic + bool" where
  "both_pos m guard a b =
     (if guard then
        bindE (num_at m a) (\<lambda>x. if x > 0 then bindE (num_at m b) (\<lambda>y. Inr (y > 0)) else Inr False)
      else Inr False)"

definition CanOpOther_lz :: "statlz \<Rightarrow> u8 \<Rightarrow> u8 \<Rightarrow> panic + (Group list \<times> statlz)" where
  "CanOpOther_lz m val op =
     bindE
       (if op = ChuPai then
          bindE (both_pos m (Tiao1 \<le> val) (val + 1) (val + 2)) (\<lambda>l.
          bindE (both_pos m (Tiao2 \<le> val) (val - 1) (val + 1)) (\<lambda>c.
          bindE (both_pos m (Tiao3 \<le> val) (val - 2) (val - 1)) (\<lambda>r.
          bindE (num_at m val) (\<lambda>n.
            Inr ((if l then [mkGroup LChi val] else []) @ (if c then [mkGroup MChi val] else []) @
                 (if r then [mkGroup RChi val] else []) @ (if n \<ge> 3 then [mkGroup Peng val] else []) @
                 (if n \<ge> 4 then [mkGroup MGang val] else []))))))
        else Inr [])
       (\<lambda>ops. let r = CanHu_lz m in Inr (if fst r then ops @ [mkGroup HuPaiOp val] else ops, snd r))"

definition huType_lz :: "statlz \<Rightarrow> panic + (i32 \<times> statlz)" where
  "huType_lz m =
     (let r = hu233_lz m; m = snd r;
          hus = (if fst r then PH else if huQd_lz m then QD else 0);
          hus = (if huJys_lz m then hus OR JYS else hus)
      in if hus = 0 then Inr (hus, m)
         else bindE (if flag hus PH then huPph_lz m else Inr False) (\<lambda>pph.
           let hus = (if pph then hus OR PPH else hus);
               hus = (if huQys_lz m then hus OR QYS else hus);
               hus = (if huQqr_lz m then hus OR QQR else hus);
               hus = (if huMqq_lz m \<and> hus = PH then hus OR MQQ else hus);
               n = huHh_lz m;
               hus = (if n = 1 then hus OR HH else if n = 2 then hus OR HH2
                      else if n = 3 then hus OR HH3 else hus);
               hus = (if lz_pai m = 0 \<and> hus AND MQQ = 0 then hus OR ZM else hus);
               hus = (if huYh_lz m then hus OR YH else hus)
           in Inr (hus, m)))"

definition huScore_lz :: "i32 \<Rightarrow> i32" where
  "huScore_lz hx =
     (let base = (if flag hx (QD OR JYS OR QYS OR QQR OR PPH) then 8
                  else if flag hx MQQ then 6 else 2);
          base = (if flag hx HH then base * 2 else base);
          base = (if flag hx HH2 then base * 4 else base);
          base = (if flag hx HH3 then base * 8 else base);
          base = (if flag hx YH then base * 2 else base)
      in base)"

definition HuPai_lz :: "statlz \<Rightarrow> panic + (i32 \<times> i32)" where
  "HuPai_lz m =
     bindE (huType_lz m) (\<lambda>(lzHx, m).
       let lzScore = huScore_lz lzHx
       in if lz_laizi m > 0 \<and> cnt m (unat (lz_laizi m)) > 0 then
            (let m = m\<lparr>lz_num := (lz_num m)(unat (lz_laizi m) := cnt m Laizi)\<rparr>;
                 m = m\<lparr>lz_num := (lz_num m)(Laizi := 0)\<rparr>
             in bindE (huType_lz m) (\<lambda>(hx, m).
                  let score = huScore_lz hx
                  in if slt score lzScore then Inr (lzHx, lzScore) else Inr (hx, score)))
          else Inr (lzHx, lzScore))"

end
