(* ===== verification/MjMeld.thy ===== *)
theory MjMeld
  imports MjTiles
begin

text \<open>
  The abstract specification of a winning hand without wild tiles, on multisets of tile numbers:
  a pair and any number of triples and runs. Both judges of the source (\<open>MjHu\<close>, \<open>MjHulz\<close>) are
  related to it.
\<close>

definition tiles :: "nat set" where
  "tiles = {1..7} \<union> {11..19} \<union> {21..29} \<union> {31..39}"

lemma tiles_bounds: "x \<in> tiles \<Longrightarrow> 1 \<le> x \<and> x \<le> 39 \<and> x \<noteq> 8"
  by (auto simp: tiles_def)

lemma kinds_tiles: "v \<in> set kinds \<Longrightarrow> unat v \<in> tiles"
  by (auto simp: kinds_def tiles_def)

text \<open>The tiles judged: the hand and, on a discard, the tile it would win with.\<close>

definition hand :: "u8 list \<Rightarrow> u8 \<Rightarrow> u8 list" where
  "hand mj pai = (if 0 < pai then mj @ [pai] else mj)"

lemma count_map_unat: "count (mset (map unat xs)) (unat v) = count_list xs v"
  by (induction xs) (auto simp: word_unat_eq_iff)

definition run_start :: "nat \<Rightarrow> bool" where
  "run_start x \<longleftrightarrow> x \<in> {11..17} \<union> {21..27} \<union> {31..37}"

definition run :: "nat \<Rightarrow> nat multiset" where
  "run x = {#x, x + 1, x + 2#}"

definition triple :: "nat \<Rightarrow> nat multiset" where
  "triple x = {#x, x, x#}"

inductive melds :: "nat multiset \<Rightarrow> bool" where
  none: "melds {#}"
| triple: "melds M \<Longrightarrow> melds (M + triple x)"
| run: "melds M \<Longrightarrow> run_start x \<Longrightarrow> melds (M + run x)"

definition standard_win :: "nat multiset \<Rightarrow> bool" where
  "standard_win M \<longleftrightarrow> (\<exists>x. {#x, x#} \<subseteq># M \<and> melds (M - {#x, x#}))"

lemma set_run [simp]: "set_mset (run x) = {x, x + 1, x + 2}"
  by (auto simp: run_def)

lemma set_triple [simp]: "set_mset (triple x) = {x}"
  by (auto simp: triple_def)

lemma count_run: "count (run x) k = (if k \<in> {x, x + 1, x + 2} then 1 else 0)"
  by (auto simp: run_def)

lemma count_triple: "count (triple x) k = (if k = x then 3 else 0)"
  by (auto simp: triple_def)

lemma size_run [simp]: "size (run x) = 3"
  by (simp add: run_def)

lemma size_triple [simp]: "size (triple x) = 3"
  by (simp add: triple_def)

lemma triple_subset: "triple x \<subseteq># M \<longleftrightarrow> 3 \<le> count M x"
  by (auto simp: subseteq_mset_def count_triple)

lemma run_subset: "run x \<subseteq># M \<longleftrightarrow> 1 \<le> count M x \<and> 1 \<le> count M (x + 1) \<and> 1 \<le> count M (x + 2)"
  by (auto simp: subseteq_mset_def count_run)

text \<open>A tile of a hand made of melds lies in a triple or in a run that can be put aside.\<close>

lemma melds_split:
  assumes "melds M" and "x \<in># M"
  shows "triple x \<subseteq># M \<and> melds (M - triple x) \<or>
         (\<exists>y. run_start y \<and> x \<in># run y \<and> run y \<subseteq># M \<and> melds (M - run y))"
  using assms
proof (induction rule: melds.induct)
  case none
  then show ?case by simp
next
  case (triple M z)
  show ?case
  proof (cases "x = z")
    case True
    with triple show ?thesis by simp
  next
    case False
    with triple have "x \<in># M" by simp
    with triple.IH consider "triple x \<subseteq># M" "melds (M - triple x)"
      | y where "run_start y" "x \<in># run y" "run y \<subseteq># M" "melds (M - run y)" by blast
    then show ?thesis
    proof cases
      case 1
      then have "melds (M + triple z - triple x)"
        using melds.triple [of "M - triple x" z] by (simp add: multiset_diff_union_assoc add.commute)
      with 1 show ?thesis by (metis mset_subset_eq_add_left subset_mset.order_trans)
    next
      case 2
      then have "melds (M + triple z - run y)"
        using melds.triple [of "M - run y" z] by (simp add: multiset_diff_union_assoc add.commute)
      with 2 show ?thesis by (metis mset_subset_eq_add_left subset_mset.order_trans)
    qed
  qed
next
  case (run M z)
  show ?case
  proof (cases "x \<in># run z")
    case True
    with run have "melds (M + run z - run z)" by simp
    with True run.hyps show ?thesis by (metis mset_subset_eq_add_right)
  next
    case False
    with run have "x \<in># M" by auto
    with run.IH consider "triple x \<subseteq># M" "melds (M - triple x)"
      | y where "run_start y" "x \<in># run y" "run y \<subseteq># M" "melds (M - run y)" by blast
    then show ?thesis
    proof cases
      case 1
      then have "melds (M + run z - triple x)"
        using melds.run [of "M - triple x" z] run.hyps
        by (simp add: multiset_diff_union_assoc add.commute)
      with 1 show ?thesis by (metis mset_subset_eq_add_left subset_mset.order_trans)
    next
      case 2
      then have "melds (M + run z - run y)"
        using melds.run [of "M - run y" z] run.hyps
        by (simp add: multiset_diff_union_assoc add.commute)
      with 2 show ?thesis by (metis mset_subset_eq_add_left subset_mset.order_trans)
    qed
  qed
qed

text \<open>
  So a search may always start with the lowest tile: it is in a triple, or it starts a run. This is
  why the source's search, which never goes back to a lower tile, can be complete.
\<close>

lemma melds_lowest:
  assumes "M \<noteq> {#}" and low: "x \<in># M" "\<forall>y \<in># M. x \<le> y"
  shows "melds M \<longleftrightarrow>
    triple x \<subseteq># M \<and> melds (M - triple x) \<or> run_start x \<and> run x \<subseteq># M \<and> melds (M - run x)"
proof
  assume "melds M"
  with low consider "triple x \<subseteq># M" "melds (M - triple x)"
    | y where "run_start y" "x \<in># run y" "run y \<subseteq># M" "melds (M - run y)"
    using melds_split by blast
  then show "triple x \<subseteq># M \<and> melds (M - triple x) \<or> run_start x \<and> run x \<subseteq># M \<and> melds (M - run x)"
  proof cases
    case 2
    then have "y \<in># M" by (auto dest: mset_subset_eqD)
    with low 2 have "y = x" by auto
    with 2 show ?thesis by simp
  qed simp
next
  assume "triple x \<subseteq># M \<and> melds (M - triple x) \<or> run_start x \<and> run x \<subseteq># M \<and> melds (M - run x)"
  then show "melds M"
    using melds.triple [of "M - triple x" x] melds.run [of "M - run x" x] by auto
qed

lemma run_start_tiles: "x \<in> tiles \<Longrightarrow> x + 1 \<in> tiles \<Longrightarrow> x + 2 \<in> tiles \<Longrightarrow> 11 \<le> x \<Longrightarrow> run_start x"
  by (auto simp: tiles_def run_start_def)

lemma run_start_ge: "run_start x \<Longrightarrow> 11 \<le> x \<and> x \<le> 37"
  by (auto simp: run_start_def)

end
