(* ===== verification/MjHulzCorrect.thy ===== *)
theory MjHulzCorrect
  imports MjHulz MjMeld
begin

text \<open>
  What \<open>hu233\<close> of \<open>mj/hulz.go\<close> decides. Without wild tiles it is exactly the abstract
  \<open>standard_win\<close>; with wild tiles a positive answer comes with recorded groups that use every real
  tile and need no more wild tiles than the hand has.
\<close>

subsection \<open>Moving to the next tile\<close>

lemma next_lz_eq:
  assumes "p \<le> q" "q \<noteq> 8" "q \<le> 40" and "\<And>k. p \<le> k \<Longrightarrow> k < q \<Longrightarrow> k = 8 \<or> num k \<le> 0"
    and "q \<le> 39 \<Longrightarrow> 0 < num q"
  shows "next_lz num p = q"
  using assms
proof (induction num p rule: next_lz.induct)
  case (1 num p)
  show ?case
  proof (cases "p = q")
    case True
    with 1 show ?thesis by (subst next_lz.simps) auto
  next
    case False
    then have "p < q" using 1 by simp
    then have "p = 8 \<or> num p \<le> 0 \<and> p \<le> 39" using 1 by auto
    moreover have "next_lz num (p + 1) = q" using 1 \<open>p < q\<close> calculation by auto
    ultimately show ?thesis by (subst next_lz.simps) auto
  qed
qed

lemma next_lz_spec:
  assumes "p \<le> 40"
  shows "next_lz num p \<le> 40 \<and> next_lz num p \<noteq> 8 \<and> (next_lz num p \<le> 39 \<longrightarrow> 0 < num (next_lz num p)) \<and>
    (\<forall>k. p \<le> k \<and> k < next_lz num p \<longrightarrow> k = 8 \<or> num k \<le> 0)"
  using assms
proof (induction num p rule: next_lz.induct)
  case (1 num p)
  show ?case
  proof (cases "p = 8 \<or> num p \<le> 0 \<and> p \<le> 39")
    case True
    then have eq: "next_lz num p = next_lz num (p + 1)" by (subst next_lz.simps) auto
    have "p + 1 \<le> 40" using True by auto
    note IH = "1.IH" [OF _ this]
    show ?thesis
      unfolding eq using IH True by (auto simp: Suc_le_eq dest: le_neq_implies_less)
  next
    case False
    then have "next_lz num p = p" by (subst next_lz.simps) auto
    with False "1.prems" show ?thesis by auto
  qed
qed

subsection \<open>Hands without wild tiles\<close>

definition rep :: "statlz \<Rightarrow> nat multiset \<Rightarrow> bool" where
  "rep m M \<longleftrightarrow> (\<forall>k. k \<noteq> 8 \<longrightarrow> cnt m k = int (count M k)) \<and> cnt m 8 = 0 \<and> set_mset M \<subseteq> tiles"

definition lowest :: "nat multiset \<Rightarrow> nat" where
  "lowest M = (if M = {#} then 40 else Min (set_mset M))"

lemma lowest_in: "M \<noteq> {#} \<Longrightarrow> lowest M \<in># M"
  by (simp add: lowest_def)

lemma lowest_le: "y \<in># M \<Longrightarrow> lowest M \<le> y"
  by (auto simp: lowest_def)

lemma below_lowest: "k < lowest M \<Longrightarrow> count M k = 0"
  by (meson count_inI leD lowest_le)

lemma rep_next:
  assumes "rep m M" and "\<And>y. y \<in># M \<Longrightarrow> p \<le> y" and "p \<le> 40"
  shows "next_lz (lz_num m) p = lowest M"
proof (cases "M = {#}")
  case True
  with assms show ?thesis by (intro next_lz_eq) (auto simp: rep_def lowest_def)
next
  case False
  have "lowest M \<in> tiles" using lowest_in [OF False] assms(1) by (auto simp: rep_def)
  then show ?thesis
    using assms tiles_bounds [of "lowest M"] lowest_in [OF False]
    by (intro next_lz_eq) (auto simp: rep_def below_lowest)
qed

lemma rep_num: "rep m M \<Longrightarrow> lz_num m' = lz_num m \<Longrightarrow> rep m' M"
  by (simp add: rep_def)

lemma rep_kezi_take:
  assumes "rep m M" "3 \<le> cnt m pai" "pai \<noteq> 8"
  shows "rep (kezi_take m pai) (M - triple pai)"
  using assms
  by (auto simp: rep_def cnt_kezi_take count_triple kezi_take_def Let_def cnt_bump dest: in_diffD)

lemma kezi_undo_num:
  assumes "3 \<le> cnt m pai" "pai \<noteq> 8" "lz_num m' = lz_num (kezi_take m pai)"
  shows "lz_num (kezi_undo m' pai) = lz_num m"
proof -
  have "cnt m' pai = cnt m pai - 3" "cnt m' 8 = cnt m 8"
    using assms by (simp_all add: kezi_take_def Let_def cnt_bump)
  then show ?thesis
    using assms by (intro ext) (auto simp: kezi_undo_def kezi_take_def Let_def cnt_bump)
qed

lemma shunzi_ok_rep:
  "rep m M \<Longrightarrow> 11 \<le> pai \<Longrightarrow> shunzi_ok m pai \<longleftrightarrow> run_start pai \<and> run pai \<subseteq># M"
proof
  assume rep: "rep m M" and "11 \<le> pai"
  {
    assume "shunzi_ok m pai"
    with rep \<open>11 \<le> pai\<close> have *: "pai \<in># M" "pai + 1 \<in># M" "pai + 2 \<in># M"
      by (auto simp: shunzi_ok_def rep_def count_greater_zero_iff [symmetric] simp del: count_greater_zero_iff)
    with rep have "pai \<in> tiles" "pai + 1 \<in> tiles" "pai + 2 \<in> tiles" by (auto simp: rep_def)
    with * \<open>11 \<le> pai\<close> show "run_start pai \<and> run pai \<subseteq># M"
      by (auto simp: run_subset Suc_le_eq intro: run_start_tiles)
  }
  assume "run_start pai \<and> run pai \<subseteq># M"
  with rep show "shunzi_ok m pai"
    using run_start_ge [of pai] by (auto simp: shunzi_ok_def rep_def run_subset)
qed

lemma rep_shunzi_take:
  assumes "rep m M" "run pai \<subseteq># M" "11 \<le> pai"
  shows "rep (shunzi_take m pai) (M - run pai)"
  using assms
  by (auto simp: rep_def cnt_shunzi_take count_run run_subset shunzi_take_def Let_def cnt_bump
      dest: in_diffD)

lemma shunzi_undo_num:
  assumes "rep m M" "run pai \<subseteq># M" "11 \<le> pai" "lz_num m' = lz_num (shunzi_take m pai)"
  shows "lz_num (shunzi_undo m' pai) = lz_num m"
proof -
  have "cnt m pai \<ge> 1" "cnt m (pai + 1) \<ge> 1" "cnt m (pai + 2) \<ge> 1"
    using assms by (auto simp: rep_def run_subset)
  then show ?thesis
    using assms by (intro ext) (auto simp: shunzi_undo_def shunzi_take_def Let_def cnt_bump)
qed

text \<open>
  The search by induction on the size of the hand. For each hand it answers whether the lowest tile
  is in a triple (\<open>deal_kezi\<close>) or starts a run (\<open>deal_shunzi\<close>) of some arrangement, and the two
  together whether there is an arrangement at all.
\<close>

lemma deal_lz_none:
  assumes "rep m {#}"
  shows "deal_lz m (lowest {#}) = (True, m)"
  by (simp add: deal_lz_def lowest_def deal_kezi_rec)

lemma deal_kezi_step:
  assumes "rep m M" "M \<noteq> {#}"
    and IH: "\<And>m' M'. size M' < size M \<Longrightarrow> rep m' M' \<Longrightarrow>
      fst (deal_lz m' (lowest M')) = melds M' \<and> lz_num (snd (deal_lz m' (lowest M'))) = lz_num m'"
  defines "x \<equiv> lowest M"
  shows "fst (deal_kezi_lz m x) \<longleftrightarrow> triple x \<subseteq># M \<and> melds (M - triple x)"
    and "lz_num (snd (deal_kezi_lz m x)) = lz_num m"
proof -
  have x: "x \<in># M" "x \<in> tiles" and low: "\<And>y. y \<in># M \<Longrightarrow> x \<le> y"
    using assms(1,2) lowest_in lowest_le unfolding x_def by (auto simp: rep_def)
  note xb = tiles_bounds [OF x(2)]
  have eq: "cnt m x + cnt m 8 \<ge> 3 \<longleftrightarrow> triple x \<subseteq># M"
    using assms(1) xb by (auto simp: rep_def triple_subset)
  have "(fst (deal_kezi_lz m x) \<longleftrightarrow> triple x \<subseteq># M \<and> melds (M - triple x)) \<and>
    lz_num (snd (deal_kezi_lz m x)) = lz_num m"
  proof (cases "triple x \<subseteq># M")
    case True
    let ?m = "kezi_take m x" and ?M = "M - triple x"
    have ge: "3 \<le> cnt m x" using eq True assms(1) by (simp add: rep_def)
    have rep: "rep ?m ?M" using assms(1) ge xb by (intro rep_kezi_take) auto
    have nx: "next_lz (lz_num ?m) x = lowest ?M"
      by (rule rep_next [OF rep]) (use low xb in \<open>auto dest: in_diffD\<close>)
    have "size ?M < size M" using True assms(2) size_mset_mono [of "triple x" M]
      by (simp add: size_Diff_submset)
    note IH' = IH [OF this rep]
    show ?thesis
      using eq True xb IH' kezi_undo_num [OF ge]
      by (subst (1 2) deal_kezi_rec) (auto simp: Let_def nx)
  next
    case False
    then show ?thesis using eq xb by (subst (1 2) deal_kezi_rec) simp
  qed
  then show "fst (deal_kezi_lz m x) \<longleftrightarrow> triple x \<subseteq># M \<and> melds (M - triple x)"
    and "lz_num (snd (deal_kezi_lz m x)) = lz_num m" by auto
qed

lemma deal_shunzi_step:
  assumes "rep m M" "M \<noteq> {#}"
    and IH: "\<And>m' M'. size M' < size M \<Longrightarrow> rep m' M' \<Longrightarrow>
      fst (deal_lz m' (lowest M')) = melds M' \<and> lz_num (snd (deal_lz m' (lowest M'))) = lz_num m'"
  defines "x \<equiv> lowest M"
  shows "fst (deal_shunzi_lz m x) \<longleftrightarrow> run_start x \<and> run x \<subseteq># M \<and> melds (M - run x)"
    and "lz_num (snd (deal_shunzi_lz m x)) = lz_num m"
proof -
  have x: "x \<in># M" "x \<in> tiles" and low: "\<And>y. y \<in># M \<Longrightarrow> x \<le> y"
    using assms(1,2) lowest_in lowest_le unfolding x_def by (auto simp: rep_def)
  note xb = tiles_bounds [OF x(2)]
  have "(fst (deal_shunzi_lz m x) \<longleftrightarrow> run_start x \<and> run x \<subseteq># M \<and> melds (M - run x)) \<and>
    lz_num (snd (deal_shunzi_lz m x)) = lz_num m"
  proof (cases "11 \<le> x \<and> run_start x \<and> run x \<subseteq># M")
    case True
    let ?m = "shunzi_take m x" and ?M = "M - run x"
    have rep: "rep ?m ?M" using assms(1) True by (intro rep_shunzi_take) auto
    have nx: "next_lz (lz_num ?m) x = lowest ?M"
      by (rule rep_next [OF rep]) (use low xb in \<open>auto dest: in_diffD\<close>)
    have "size ?M < size M" using True assms(2) size_mset_mono [of "run x" M]
      by (simp add: size_Diff_submset)
    note IH' = IH [OF this rep]
    show ?thesis
      using True xb IH' shunzi_undo_num [OF assms(1)] shunzi_ok_rep [OF assms(1), of x]
      by (subst (1 2) deal_shunzi_rec) (auto simp: Let_def nx)
  next
    case False
    then show ?thesis
      using xb shunzi_ok_rep [OF assms(1), of x] run_start_ge [of x]
      by (subst (1 2) deal_shunzi_rec) auto
  qed
  then show "fst (deal_shunzi_lz m x) \<longleftrightarrow> run_start x \<and> run x \<subseteq># M \<and> melds (M - run x)"
    and "lz_num (snd (deal_shunzi_lz m x)) = lz_num m" by auto
qed

lemma deal_lz_melds:
  "rep m M \<Longrightarrow> fst (deal_lz m (lowest M)) = melds M \<and> lz_num (snd (deal_lz m (lowest M))) = lz_num m"
proof (induction M arbitrary: m rule: measure_induct_rule [of size])
  case (less M)
  show ?case
  proof (cases "M = {#}")
    case True
    with deal_lz_none less.prems show ?thesis by (auto intro: melds.none)
  next
    case False
    let ?x = "lowest M" and ?r = "deal_kezi_lz m (lowest M)"
    note k = deal_kezi_step [OF less.prems False less.IH]
    have rep: "rep (snd ?r) M" using k(2) less.prems rep_num by blast
    note s = deal_shunzi_step [OF rep False less.IH]
    have "melds M \<longleftrightarrow> fst ?r \<or> fst (deal_shunzi_lz (snd ?r) ?x)"
      using melds_lowest [OF False lowest_in [OF False]] lowest_le k(1) s(1) by blast
    then show ?thesis using k(2) s(2) by (auto simp: deal_lz_def Let_def)
  qed
qed

lemma rep_jiang_take:
  "rep m M \<Longrightarrow> {#i, i#} \<subseteq># M \<Longrightarrow> i \<noteq> 8 \<Longrightarrow> rep (jiang_take m i) (M - {#i, i#})"
  by (auto simp: rep_def jiang_take_def Let_def cnt_bump subseteq_mset_def dest: in_diffD
      split: if_splits)

lemma jiang_undo_num:
  assumes "2 \<le> cnt m i" "i \<noteq> 8" "lz_num m' = lz_num (jiang_take m i)"
  shows "lz_num (jiang_undo m' i) = lz_num m"
  using assms by (intro ext) (auto simp: jiang_undo_def jiang_take_def Let_def cnt_bump)

lemma pair_subset: "{#i, i#} \<subseteq># M \<longleftrightarrow> 2 \<le> count M i"
  by (auto simp: subseteq_mset_def)

lemma hu233_from_rep:
  "rep m M \<Longrightarrow>
     (fst (hu233_from is m) \<longleftrightarrow> (\<exists>i \<in> set is. {#i, i#} \<subseteq># M \<and> melds (M - {#i, i#}))) \<and>
     lz_num (snd (hu233_from is m)) = lz_num m"
proof (induction "is" arbitrary: m)
  case Nil
  then show ?case by simp
next
  case (Cons i "is")
  show ?case
  proof (cases "{#i, i#} \<subseteq># M")
    case True
    then have "i \<in># M" by (auto simp: pair_subset count_greater_zero_iff [symmetric] simp del: count_greater_zero_iff)
    then have i: "i \<noteq> 8" using Cons.prems tiles_bounds by (auto simp: rep_def)
    have ge: "2 \<le> cnt m i" using True Cons.prems i by (auto simp: rep_def pair_subset)
    have L: "cnt m 8 = 0" using Cons.prems by (simp add: rep_def)
    have rep: "rep (jiang_take m i) (M - {#i, i#})" by (rule rep_jiang_take [OF Cons.prems True i])
    have nx: "next_lz (lz_num (jiang_take m i)) 0 = lowest (M - {#i, i#})"
      by (rule rep_next [OF rep]) auto
    note d = deal_lz_melds [OF rep]
    note undo = jiang_undo_num [OF ge i d [THEN conjunct2]]
    have "rep (pop_group (jiang_undo (snd (deal_lz (jiang_take m i) (lowest (M - {#i, i#})))) i)) M"
      by (rule rep_num [OF Cons.prems]) (simp add: undo)
    note IH = Cons.IH [OF this]
    show ?thesis using ge i L d undo IH True by (auto simp: Let_def nx)
  next
    case False
    then have "\<not> (0 < cnt m i \<and> i \<noteq> 8 \<and> 2 \<le> cnt m i + cnt m 8)"
      using Cons.prems by (auto simp: rep_def pair_subset)
    then show ?thesis using Cons False by auto
  qed
qed

lemma hu233_rep: "rep m M \<Longrightarrow> fst (hu233_lz m) \<longleftrightarrow> standard_win M"
  and hu233_rep_num: "rep m M \<Longrightarrow> lz_num (snd (hu233_lz m)) = lz_num m"
proof -
  assume rep: "rep m M"
  have "x \<in> set num_range" if "{#x, x#} \<subseteq># M" for x
  proof -
    from that have "x \<in># M" by (auto dest: mset_subset_eqD)
    with rep tiles_bounds [of x] show ?thesis by (auto simp: rep_def num_range_def)
  qed
  with hu233_from_rep [OF rep, of num_range]
  show "fst (hu233_lz m) \<longleftrightarrow> standard_win M" "lz_num (snd (hu233_lz m)) = lz_num m"
    by (auto simp: hu233_lz_def standard_win_def)
qed

subsection \<open>From hands to counters\<close>

lemma count_tiles_ok:
  assumes "\<forall>v \<in> set mj. unat v < 41" and "\<And>k. 0 \<le> num k \<and> num k + int (length mj) < 128"
  shows "count_tiles num mj = Inr (\<lambda>k. num k + int (count (mset (map unat mj)) k))"
  using assms
proof (induction mj arbitrary: num)
  case Nil
  then show ?case by simp
next
  case (Cons v mj)
  have "num (unat v) + 1 < 128" "0 \<le> num (unat v)" using Cons.prems(2) [of "unat v"] by auto
  then have i8: "i8 (num (unat v) + 1) = num (unat v) + 1" by simp
  have "0 \<le> (num(unat v := num (unat v) + 1)) k \<and>
      (num(unat v := num (unat v) + 1)) k + int (length mj) < 128" for k
    using Cons.prems(2) [of k] Cons.prems(2) [of "unat v"] by auto
  with Cons show ?case by (auto simp: i8)
qed

lemma count_tiles_append:
  "count_tiles num (xs @ ys) = bindE (count_tiles num xs) (\<lambda>n. count_tiles n ys)"
  by (induction xs arbitrary: num) auto

lemma Newlz_eq:
  "Newlz mj pai laizi grp =
     bindE (count_tiles (\<lambda>_. 0) (hand mj pai)) (\<lambda>num.
       if 0 < laizi then
         (if unat laizi < Chun then
            Inr \<lparr>lz_laizi = laizi, lz_pai = pai,
                 lz_num = num(Laizi := num (unat laizi), unat laizi := 0), lz_groups = grp\<rparr>
          else Inl IndexOutOfRange)
       else Inr \<lparr>lz_laizi = 0, lz_pai = pai, lz_num = num, lz_groups = grp\<rparr>)"
  by (auto simp: Newlz_def hand_def count_tiles_append bindE_def split: sum.splits)

lemma Newlz_rep:
  assumes "set (hand mj pai) \<subseteq> set kinds" and "length (hand mj pai) < 128"
  shows "\<exists>m. Newlz mj pai 0 grp = Inr m \<and> rep m (mset (map unat (hand mj pai)))"
proof -
  let ?M = "mset (map unat (hand mj pai))"
  have sub: "set_mset ?M \<subseteq> tiles" using assms(1) kinds_tiles by auto
  have "count_tiles (\<lambda>_. 0) (hand mj pai) = Inr (\<lambda>k. 0 + int (count ?M k))"
    by (rule count_tiles_ok) (use assms kinds_bounds in \<open>fastforce+\<close>)
  moreover have "count ?M 8 = 0" using sub tiles_bounds [of 8] by (auto simp: count_eq_zero_iff)
  ultimately show ?thesis using sub by (auto simp: Newlz_eq rep_def)
qed

subsection \<open>Soundness with wild tiles\<close>

text \<open>
  What the recorded groups need of each tile, and how many of those the real tiles cannot provide.
  The runs the search records start at 11 to 37, so they include 18-20, 19-21, 28-30 and 29-31,
  which are no runs of a suit.
\<close>

definition group_need :: "Group \<Rightarrow> nat \<Rightarrow> int" where
  "group_need g k =
     (if g_Op g = Ke then (if k = unat (g_Val g) then 3 else 0)
      else if g_Op g = Shun then
        (if k \<in> {unat (g_Val g), unat (g_Val g) + 1, unat (g_Val g) + 2} then 1 else 0)
      else if g_Op g = Jiang then (if k = unat (g_Val g) then 2 else 0)
      else 0)"

definition need :: "Group list \<Rightarrow> nat \<Rightarrow> int" where
  "need gs k = (\<Sum>g \<leftarrow> gs. group_need g k)"

definition lz_legal :: "Group \<Rightarrow> bool" where
  "lz_legal g \<longleftrightarrow>
     g_Op g = Ke \<and> unat (g_Val g) \<in> {1..39} - {8} \<or> g_Op g = Shun \<and> unat (g_Val g) \<in> {11..37}"

abbreviation real_tiles :: "nat set" where
  "real_tiles \<equiv> {0..<40} - {8}"

definition missing :: "Group list \<Rightarrow> (nat \<Rightarrow> int) \<Rightarrow> int" where
  "missing gs num = (\<Sum>k \<in> real_tiles. max 0 (need gs k - max 0 (num k)))"

definition uses_all :: "Group list \<Rightarrow> (nat \<Rightarrow> int) \<Rightarrow> bool" where
  "uses_all gs num \<longleftrightarrow> (\<forall>k \<in> real_tiles. num k \<le> need gs k)"

lemma need_Cons: "need (g # gs) k = group_need g k + need gs k"
  by (simp add: need_def)

lemma group_need_ge0: "0 \<le> group_need g k"
  by (simp add: group_need_def)

lemma need_ge0: "0 \<le> need gs k"
  unfolding need_def by (rule sum_list_nonneg) (auto simp: group_need_ge0)

text \<open>One group put aside: the tiles missing in all are those missing now and later.\<close>

lemma missing_Cons:
  assumes "\<And>k. k \<in> real_tiles \<Longrightarrow> num' k = num k - group_need g k"
  shows "missing (g # gs) num \<le>
    (\<Sum>k \<in> real_tiles. max 0 (group_need g k - max 0 (num k))) + missing gs num'"
  unfolding missing_def sum.distrib [symmetric]
proof (rule sum_mono)
  fix k assume "k \<in> real_tiles"
  then have "num' k = num k - group_need g k" by (rule assms)
  then show "max 0 (need (g # gs) k - max 0 (num k)) \<le>
    max 0 (group_need g k - max 0 (num k)) + max 0 (need gs k - max 0 (num' k))"
    using group_need_ge0 [of g k] need_ge0 [of gs k] by (auto simp: need_Cons max_def)
qed

lemma uses_all_Cons:
  assumes "\<And>k. k \<in> real_tiles \<Longrightarrow> num' k = num k - group_need g k" and "uses_all gs num'"
  shows "uses_all (g # gs) num"
  using assms unfolding uses_all_def need_Cons by (force simp: algebra_simps)

definition lz_ok :: "statlz \<Rightarrow> nat \<Rightarrow> bool" where
  "lz_ok m pai \<longleftrightarrow> pai \<le> 40 \<and> pai \<noteq> 8 \<and> 0 < pai \<and> 0 \<le> cnt m 8 \<and> (pai \<le> 39 \<longrightarrow> 0 < cnt m pai) \<and>
     (\<forall>k < pai. k \<noteq> 8 \<longrightarrow> cnt m k \<le> 0)"

definition sound :: "statlz \<Rightarrow> bool \<times> statlz \<Rightarrow> bool" where
  "sound m r \<longleftrightarrow>
     (\<forall>k. k \<noteq> 8 \<longrightarrow> cnt (snd r) k = cnt m k) \<and> 0 \<le> cnt (snd r) 8 \<and> cnt (snd r) 8 \<le> cnt m 8 \<and>
     (if fst r then \<exists>gs. lz_groups (snd r) = lz_groups m @ gs \<and> list_all lz_legal gs \<and>
                         uses_all gs (lz_num m) \<and> missing gs (lz_num m) \<le> cnt m 8
      else lz_groups (snd r) = lz_groups m)"

lemma sound_refl_False: "0 \<le> cnt m 8 \<Longrightarrow> sound m (False, m)"
  by (simp add: sound_def)

lemma sound_end:
  assumes "lz_ok m pai" "39 < pai"
  shows "sound m (True, m)"
proof -
  have le: "cnt m k \<le> 0" if "k \<in> real_tiles" for k using assms that by (auto simp: lz_ok_def)
  then have "missing [] (lz_num m) = 0"
    unfolding missing_def by (intro sum.neutral) (auto simp: need_def)
  moreover have "uses_all [] (lz_num m)" using le by (auto simp: uses_all_def need_def)
  ultimately show ?thesis using assms by (auto simp: sound_def lz_ok_def)
qed

lemma sound_trans_False:
  "sound m (False, m1) \<Longrightarrow> sound m1 r \<Longrightarrow> sound m r"
  unfolding sound_def
proof (elim conjE, intro conjI allI impI, goal_cases)
  case 4
  have eq: "missing gs (lz_num m1) = missing gs (lz_num m)" "uses_all gs (lz_num m1) = uses_all gs (lz_num m)" for gs
    using 4 by (auto simp: missing_def uses_all_def intro!: sum.cong)
  show ?case using 4 by (auto simp: eq split: if_splits intro: order_trans)
qed auto

lemma lz_ok_cong:
  "lz_ok m pai \<Longrightarrow> (\<forall>k. k \<noteq> 8 \<longrightarrow> cnt m1 k = cnt m k) \<Longrightarrow> 0 \<le> cnt m1 8 \<Longrightarrow> lz_ok m1 pai"
  by (auto simp: lz_ok_def)

lemma lz_ok_next:
  assumes "lz_ok m pai" "pai \<le> 39" "0 \<le> cnt m1 8" "\<And>k. k < pai \<Longrightarrow> k \<noteq> 8 \<Longrightarrow> cnt m1 k = cnt m k"
  shows "lz_ok m1 (next_lz (lz_num m1) pai)"
proof -
  have "pai \<le> 40" using assms(2) by simp
  note spec = next_lz_spec [OF this, of "lz_num m1"]
  have "pai \<le> next_lz (lz_num m1) pai" by (rule next_lz_ge)
  moreover have "cnt m1 k \<le> 0" if "k < next_lz (lz_num m1) pai" "k \<noteq> 8" for k
  proof (cases "k < pai")
    case True
    with that assms show ?thesis by (auto simp: lz_ok_def)
  next
    case False
    with that spec show ?thesis by (metis not_le)
  qed
  ultimately show ?thesis using assms spec by (auto simp: lz_ok_def)
qed

text \<open>One step of the search: take a group, search on, put it back.\<close>

lemma sound_step:
  assumes g: "lz_groups m1 = lz_groups m @ [g]" "lz_legal g"
    and num: "\<And>k. k \<noteq> 8 \<Longrightarrow> cnt m1 k = cnt m k - group_need g k"
    and cost: "(\<Sum>k \<in> real_tiles. max 0 (group_need g k - max 0 (cnt m k))) \<le> cnt m 8 - cnt m1 8"
    and r: "sound m1 r"
    and m': "\<And>k. k \<noteq> 8 \<Longrightarrow> cnt m' k = cnt m k" "0 \<le> cnt m' 8" "cnt m' 8 \<le> cnt m 8"
    and gm': "lz_groups m' = (if fst r then lz_groups (snd r) else butlast (lz_groups (snd r)))"
  shows "sound m (fst r, m')"
proof (cases "fst r")
  case True
  then obtain gs where gs: "lz_groups (snd r) = lz_groups m1 @ gs" "list_all lz_legal gs"
    "uses_all gs (lz_num m1)" "missing gs (lz_num m1) \<le> cnt m1 8"
    using r by (auto simp: sound_def)
  have "uses_all (g # gs) (lz_num m)" by (rule uses_all_Cons [OF _ gs(3)]) (use num in auto)
  moreover have "missing (g # gs) (lz_num m) \<le> cnt m 8"
  proof -
    have "missing (g # gs) (lz_num m) \<le>
        (\<Sum>k \<in> real_tiles. max 0 (group_need g k - max 0 (cnt m k))) + missing gs (lz_num m1)"
      by (rule missing_Cons) (use num in auto)
    with cost gs(4) show ?thesis by linarith
  qed
  ultimately show ?thesis
    using True g gs m' gm' by (auto simp: sound_def intro!: exI [of _ "g # gs"])
next
  case False
  with r g m' gm' show ?thesis by (auto simp: sound_def)
qed

lemma real_sum_single: "i \<in> real_tiles \<Longrightarrow> (\<And>k. k \<in> real_tiles \<Longrightarrow> k \<noteq> i \<Longrightarrow> f k = 0) \<Longrightarrow> sum f real_tiles = f i"
  for f :: "nat \<Rightarrow> int"
  by (subst sum.remove [of _ i]) auto

lemma kezi_step:
  assumes ok: "lz_ok m pai" "pai \<le> 39" and three: "cnt m pai + cnt m 8 \<ge> 3"
    and r: "sound (kezi_take m pai) r"
  shows "sound m (if fst r then (True, kezi_undo (snd r) pai) else (False, kezi_undo (pop_group (snd r)) pai))"
proof -
  let ?m1 = "kezi_take m pai" and ?g = "mkGroup Ke (of_nat pai)"
  have pai: "pai \<noteq> 8" "0 < pai" "0 < cnt m pai" using ok by (auto simp: lz_ok_def)
  have un: "unat (of_nat pai :: u8) = pai" using ok by (simp add: unat_of_nat)
  have need: "group_need ?g k = (if k = pai then 3 else 0)" for k by (simp add: group_need_def un)
  have L1: "cnt ?m1 8 = cnt m 8 - max 0 (3 - cnt m pai)"
    using pai by (auto simp: kezi_take_def Let_def cnt_bump max_def)
  have "sound m (fst r, kezi_undo (if fst r then snd r else pop_group (snd r)) pai)"
  proof (rule sound_step [OF _ _ _ _ r])
    show "lz_groups ?m1 = lz_groups m @ [?g]"
      by (simp add: kezi_take_def Let_def push_group_def bump_def)
    show "lz_legal ?g" using pai ok un by (simp add: lz_legal_def)
    show "cnt ?m1 k = cnt m k - group_need ?g k" if "k \<noteq> 8" for k
      using that by (simp add: cnt_kezi_take need)
    show "(\<Sum>k \<in> real_tiles. max 0 (group_need ?g k - max 0 (cnt m k))) \<le> cnt m 8 - cnt ?m1 8"
      by (subst real_sum_single [of pai]) (use pai ok in \<open>auto simp: need L1\<close>)
    let ?m' = "kezi_undo (if fst r then snd r else pop_group (snd r)) pai"
    show "cnt ?m' k = cnt m k" if "k \<noteq> 8" for k
      using that r by (auto simp: cnt_kezi_undo sound_def cnt_kezi_take)
    have "cnt ?m' 8 = cnt (snd r) 8 + max 0 (3 - cnt m pai)"
      using r pai by (auto simp: kezi_undo_def Let_def cnt_bump sound_def cnt_kezi_take max_def)
    then show "0 \<le> cnt ?m' 8" "cnt ?m' 8 \<le> cnt m 8" using r L1 by (auto simp: sound_def)
    show "lz_groups ?m' = (if fst r then lz_groups (snd r) else butlast (lz_groups (snd r)))"
      by (simp add: kezi_undo_def Let_def bump_def pop_group_def)
  qed
  then show ?thesis by (cases "fst r") simp_all
qed

lemma real_sum_three:
  fixes f :: "nat \<Rightarrow> int"
  assumes "i \<in> real_tiles" "j \<in> real_tiles" "l \<in> real_tiles" "i \<noteq> j" "i \<noteq> l" "j \<noteq> l"
    and "\<And>k. k \<in> real_tiles \<Longrightarrow> k \<notin> {i, j, l} \<Longrightarrow> f k = 0"
  shows "sum f real_tiles = f i + f j + f l"
proof -
  have "sum f real_tiles = sum f {i, j, l}"
    using assms by (intro sum.mono_neutral_right) auto
  with assms show ?thesis by simp
qed

lemma shunzi_step:
  assumes ok: "lz_ok m pai" "11 \<le> pai" and sh: "shunzi_ok m pai"
    and r: "sound (shunzi_take m pai) r"
  shows "sound m (if fst r then (True, shunzi_undo (snd r) pai) else (False, shunzi_undo (pop_group (snd r)) pai))"
proof -
  let ?m1 = "shunzi_take m pai" and ?g = "mkGroup Shun (of_nat pai)"
  let ?b = "\<lambda>k. if cnt m k \<le> 0 then 1 else (0 :: int)"
  have pai: "pai \<le> 37" "1 \<le> cnt m pai" using sh by (auto simp: shunzi_ok_def)
  have L: "0 \<le> cnt m 8" using ok by (simp add: lz_ok_def)
  have un: "unat (of_nat pai :: u8) = pai" using pai by (simp add: unat_of_nat)
  have need: "group_need ?g k = (if k \<in> {pai, pai + 1, pai + 2} then 1 else 0)" for k
    by (simp add: group_need_def un)
  have L1: "cnt ?m1 8 = cnt m 8 - ?b (pai + 1) - ?b (pai + 2)"
    using ok by (auto simp: shunzi_take_def Let_def cnt_bump)
  have "sound m (fst r, shunzi_undo (if fst r then snd r else pop_group (snd r)) pai)"
  proof (rule sound_step [OF _ _ _ _ r])
    show "lz_groups ?m1 = lz_groups m @ [?g]"
      by (simp add: shunzi_take_def Let_def push_group_def bump_def)
    show "lz_legal ?g" using pai ok un by (simp add: lz_legal_def)
    show "cnt ?m1 k = cnt m k - group_need ?g k" if "k \<noteq> 8" for k
      using that by (simp add: cnt_shunzi_take need)
    show "(\<Sum>k \<in> real_tiles. max 0 (group_need ?g k - max 0 (cnt m k))) \<le> cnt m 8 - cnt ?m1 8"
      by (subst real_sum_three [of pai "pai + 1" "pai + 2"])
        (use pai ok in \<open>auto simp: need L1 max_def\<close>)
    let ?m' = "shunzi_undo (if fst r then snd r else pop_group (snd r)) pai"
    show "cnt ?m' k = cnt m k" if "k \<noteq> 8" for k
      using that r by (auto simp: cnt_shunzi_undo sound_def cnt_shunzi_take)
    let ?e = "\<lambda>k. if cnt m k = 0 then 1 else (0 :: int)"
    have "cnt ?m' 8 = cnt (snd r) 8 + ?e (pai + 1) + ?e (pai + 2)"
      using r ok by (auto simp: shunzi_undo_def Let_def cnt_bump sound_def cnt_shunzi_take)
    moreover have "?e (pai + 1) \<le> ?b (pai + 1)" "?e (pai + 2) \<le> ?b (pai + 2)"
      "0 \<le> ?e (pai + 1)" "0 \<le> ?e (pai + 2)" by simp_all
    moreover have "0 \<le> cnt (snd r) 8" "cnt (snd r) 8 \<le> cnt ?m1 8"
      using r by (simp_all add: sound_def)
    ultimately show "0 \<le> cnt ?m' 8" "cnt ?m' 8 \<le> cnt m 8"
      using L1 by linarith+
    show "lz_groups ?m' = (if fst r then lz_groups (snd r) else butlast (lz_groups (snd r)))"
      by (simp add: shunzi_undo_def Let_def bump_def pop_group_def)
  qed
  then show ?thesis by (cases "fst r") simp_all
qed

lemma shunzi_take_L:
  "shunzi_ok m pai \<Longrightarrow> 11 \<le> pai \<Longrightarrow> 0 \<le> cnt m 8 \<Longrightarrow> 0 \<le> cnt (shunzi_take m pai) 8"
  by (auto simp: shunzi_ok_def shunzi_take_def Let_def cnt_bump)

lemma kezi_take_L:
  "cnt m pai + cnt m 8 \<ge> 3 \<Longrightarrow> pai \<noteq> 8 \<Longrightarrow> 0 \<le> cnt m 8 \<Longrightarrow> 0 \<le> cnt (kezi_take m pai) 8"
  by (auto simp: kezi_take_def Let_def cnt_bump)

lemma sound_or:
  assumes "sound m r1" "\<not> fst r1 \<Longrightarrow> sound (snd r1) r2"
  shows "sound m (if fst r1 then r1 else r2)"
  using assms sound_trans_False [of m "snd r1" r2] by (cases r1) auto

lemma deal_sound:
  "lz_ok m pai \<Longrightarrow> sound m (deal_kezi_lz m pai)"
  "lz_ok m pai \<Longrightarrow> sound m (deal_shunzi_lz m pai)"
proof (induction m pai and m pai rule: deal_induct)
  case (1 m pai)
  let ?m1 = "kezi_take m pai" and ?j = "next_lz (lz_num (kezi_take m pai)) pai"
  show ?case
  proof (cases "pai \<le> 39 \<and> cnt m pai + cnt m 8 \<ge> 3")
    case True
    then have ok: "lz_ok ?m1 ?j"
      using 1(3) by (intro lz_ok_next [OF 1(3)] kezi_take_L) (auto simp: lz_ok_def cnt_kezi_take)
    have s: "sound ?m1 (deal_kezi_lz ?m1 ?j)" using 1(1) True ok by auto
    have "sound (snd (deal_kezi_lz ?m1 ?j)) (deal_shunzi_lz (snd (deal_kezi_lz ?m1 ?j)) ?j)"
      if "\<not> fst (deal_kezi_lz ?m1 ?j)"
    proof -
      have "lz_ok (snd (deal_kezi_lz ?m1 ?j)) ?j"
        using s that lz_ok_cong [OF ok] by (auto simp: sound_def)
      then show ?thesis using 1(2) True that by (auto simp: prod_eq_iff)
    qed
    with s have "sound ?m1 (deal_lz ?m1 ?j)" by (simp add: deal_lz_def Let_def sound_or)
    then have "sound m (if fst (deal_lz ?m1 ?j) then (True, kezi_undo (snd (deal_lz ?m1 ?j)) pai)
        else (False, kezi_undo (pop_group (snd (deal_lz ?m1 ?j))) pai))"
      using True by (intro kezi_step [OF 1(3)]) auto
    then show ?thesis using True by (subst deal_kezi_rec) (simp add: Let_def)
  next
    case False
    then show ?thesis
      using 1(3) sound_end [OF 1(3)] by (subst deal_kezi_rec) (auto simp: lz_ok_def sound_refl_False)
  qed
next
  case (2 m pai)
  let ?m1 = "shunzi_take m pai" and ?j = "next_lz (lz_num (shunzi_take m pai)) pai"
  show ?case
  proof (cases "11 \<le> pai \<and> pai \<le> 39 \<and> shunzi_ok m pai")
    case True
    then have ok: "lz_ok ?m1 ?j"
      using 2(3) by (intro lz_ok_next [OF 2(3)] shunzi_take_L) (auto simp: lz_ok_def cnt_shunzi_take)
    have s: "sound ?m1 (deal_kezi_lz ?m1 ?j)" using 2(1) True ok by auto
    have "sound (snd (deal_kezi_lz ?m1 ?j)) (deal_shunzi_lz (snd (deal_kezi_lz ?m1 ?j)) ?j)"
      if "\<not> fst (deal_kezi_lz ?m1 ?j)"
    proof -
      have "lz_ok (snd (deal_kezi_lz ?m1 ?j)) ?j"
        using s that lz_ok_cong [OF ok] by (auto simp: sound_def)
      then show ?thesis using 2(2) True that by (auto simp: prod_eq_iff)
    qed
    with s have "sound ?m1 (deal_lz ?m1 ?j)" by (simp add: deal_lz_def Let_def sound_or)
    then have "sound m (if fst (deal_lz ?m1 ?j) then (True, shunzi_undo (snd (deal_lz ?m1 ?j)) pai)
        else (False, shunzi_undo (pop_group (snd (deal_lz ?m1 ?j))) pai))"
      using True by (intro shunzi_step [OF 2(3)]) auto
    then show ?thesis using True by (subst deal_shunzi_rec) (simp add: Let_def)
  next
    case False
    then show ?thesis
      using 2(3) sound_end [OF 2(3)] by (subst deal_shunzi_rec) (auto simp: lz_ok_def sound_refl_False)
  qed
qed


subsection \<open>The pair\<close>

text \<open>What a hand's counters satisfy when the search starts.\<close>

definition lz_start :: "statlz \<Rightarrow> bool" where
  "lz_start m \<longleftrightarrow> cnt m 0 \<le> 0 \<and> (\<forall>k. 0 \<le> cnt m k)"

text \<open>
  A win found by the search: it records one pair and legal groups which use all real tiles and
  lack no more tiles than there are wild ones.
\<close>

definition lz_win :: "statlz \<Rightarrow> Group list \<Rightarrow> bool" where
  "lz_win m gs \<longleftrightarrow>
     (\<exists>i gs'. gs = mkGroup Jiang (of_nat i) # gs' \<and> i \<in> real_tiles \<and> 0 < cnt m i \<and>
        list_all lz_legal gs' \<and> uses_all gs (lz_num m) \<and> missing gs (lz_num m) \<le> cnt m 8)"

lemma lz_win_cong:
  assumes "\<And>k. k \<noteq> 8 \<Longrightarrow> cnt m1 k = cnt m k" "cnt m1 8 \<le> cnt m 8" "lz_win m1 gs"
  shows "lz_win m gs"
proof -
  have "missing gs (lz_num m1) = missing gs (lz_num m)" "uses_all gs (lz_num m1) = uses_all gs (lz_num m)"
    using assms(1) by (auto simp: missing_def uses_all_def intro!: sum.cong)
  with assms show ?thesis by (fastforce simp: lz_win_def)
qed

lemma jiang_take_ok:
  assumes "lz_start m" "0 < cnt m i" "i \<noteq> 8" "2 \<le> cnt m i + cnt m 8"
  shows "lz_ok (jiang_take m i) (next_lz (lz_num (jiang_take m i)) 0)"
proof -
  let ?m1 = "jiang_take m i"
  note spec = next_lz_spec [of 0 "lz_num ?m1", simplified]
  have c0: "cnt ?m1 0 \<le> 0" using assms by (auto simp: jiang_take_def Let_def cnt_bump lz_start_def)
  have "0 < next_lz (lz_num ?m1) 0" by (rule next_lz_moves) (use c0 in auto)
  moreover have "0 \<le> cnt ?m1 8" using assms by (auto simp: jiang_take_def Let_def cnt_bump lz_start_def)
  ultimately show ?thesis using spec by (fastforce simp: lz_ok_def)
qed

lemma jiang_win:
  assumes st: "lz_start m" and c: "0 < cnt m i" "i \<noteq> 8" "2 \<le> cnt m i + cnt m 8" "i < 40"
    and gs: "list_all lz_legal gs" "uses_all gs (lz_num (jiang_take m i))"
      "missing gs (lz_num (jiang_take m i)) \<le> cnt (jiang_take m i) 8"
  shows "lz_win m (mkGroup Jiang (of_nat i) # gs)"
proof -
  let ?m1 = "jiang_take m i" and ?g = "mkGroup Jiang (of_nat i)"
  have un: "unat (of_nat i :: u8) = i" using c by (simp add: unat_of_nat)
  have need: "group_need ?g k = (if k = i then 2 else 0)" for k by (simp add: group_need_def un)
  have num: "k \<in> real_tiles \<Longrightarrow> cnt ?m1 k = cnt m k - group_need ?g k" for k
    using c by (auto simp: need jiang_take_def Let_def cnt_bump)
  have L: "cnt ?m1 8 = cnt m 8 - max 0 (2 - cnt m i)"
    using c by (auto simp: jiang_take_def Let_def cnt_bump max_def)
  have "missing (?g # gs) (lz_num m) \<le>
      (\<Sum>k \<in> real_tiles. max 0 (group_need ?g k - max 0 (cnt m k))) + missing gs (lz_num ?m1)"
    by (rule missing_Cons) (rule num)
  also have "(\<Sum>k \<in> real_tiles. max 0 (group_need ?g k - max 0 (cnt m k))) = max 0 (2 - cnt m i)"
    by (subst real_sum_single [of i]) (use c in \<open>auto simp: need\<close>)
  finally have "missing (?g # gs) (lz_num m) \<le> cnt m 8" using gs(3) L by linarith
  moreover have "uses_all (?g # gs) (lz_num m)" by (rule uses_all_Cons [OF num gs(2)])
  ultimately show ?thesis using c gs(1) by (auto simp: lz_win_def)
qed

lemma hu233_from_sound:
  assumes "lz_start m" "\<forall>i \<in> set is. i < 40 \<or> cnt m i \<le> 0"
  shows "(\<forall>k. k \<noteq> 8 \<longrightarrow> cnt (snd (hu233_from is m)) k = cnt m k) \<and>
    0 \<le> cnt (snd (hu233_from is m)) 8 \<and> cnt (snd (hu233_from is m)) 8 \<le> cnt m 8 \<and>
    (if fst (hu233_from is m) then \<exists>gs. lz_groups (snd (hu233_from is m)) = lz_groups m @ gs \<and> lz_win m gs
     else lz_groups (snd (hu233_from is m)) = lz_groups m)"
  using assms
proof (induction "is" arbitrary: m)
  case Nil
  then show ?case by (simp add: lz_start_def)
next
  case (Cons i "is")
  show ?case
  proof (cases "cnt m i > 0 \<and> i \<noteq> 8 \<and> cnt m i + cnt m 8 \<ge> 2")
    case True
    then have i: "i < 40" using Cons.prems(2) by auto
    let ?m1 = "jiang_take m i"
    let ?r = "deal_lz ?m1 (next_lz (lz_num ?m1) 0)"
    let ?m2 = "jiang_undo (snd ?r) i"
    have c: "0 < cnt m i" "i \<noteq> 8" "2 \<le> cnt m i + cnt m 8" using True by auto
    have ok: "lz_ok ?m1 (next_lz (lz_num ?m1) 0)" by (rule jiang_take_ok [OF Cons.prems(1) c])
    have snd_r: "sound ?m1 ?r"
    proof -
      have s: "sound ?m1 (deal_kezi_lz ?m1 (next_lz (lz_num ?m1) 0))" by (rule deal_sound(1) [OF ok])
      then have "lz_ok (snd (deal_kezi_lz ?m1 (next_lz (lz_num ?m1) 0))) (next_lz (lz_num ?m1) 0)"
        using lz_ok_cong [OF ok] by (auto simp: sound_def)
      with s deal_sound(2) show ?thesis by (simp add: deal_lz_def Let_def sound_or)
    qed
    have L1: "cnt ?m1 8 = cnt m 8 - max 0 (2 - cnt m i)"
      using c by (auto simp: jiang_take_def Let_def cnt_bump max_def)
    have ci: "cnt (snd ?r) i = cnt m i - 2"
      using snd_r c by (auto simp: sound_def jiang_take_def Let_def cnt_bump)
    have same: "cnt ?m2 k = cnt m k" if "k \<noteq> 8" for k
      using snd_r c that ci by (auto simp: sound_def jiang_undo_def jiang_take_def Let_def cnt_bump)
    have "cnt ?m2 8 = cnt (snd ?r) 8 + max 0 (2 - cnt m i)"
      using c ci by (auto simp: jiang_undo_def Let_def cnt_bump max_def)
    with snd_r L1 have L: "0 \<le> cnt ?m2 8" "cnt ?m2 8 \<le> cnt m 8"
      by (auto simp: sound_def)
    have gr: "lz_groups ?m2 = lz_groups (snd ?r)" by (simp add: jiang_undo_def Let_def bump_def)
    have gr1: "lz_groups ?m1 = lz_groups m @ [mkGroup Jiang (of_nat i)]"
      by (simp add: jiang_take_def Let_def bump_def push_group_def)
    show ?thesis
    proof (cases "fst ?r")
      case True
      then obtain gs where "lz_groups (snd ?r) = lz_groups ?m1 @ gs" "list_all lz_legal gs"
        "uses_all gs (lz_num ?m1)" "missing gs (lz_num ?m1) \<le> cnt ?m1 8"
        using snd_r by (auto simp: sound_def)
      moreover have "hu233_from (i # is) m = (True, ?m2)" using c True by (simp add: Let_def)
      ultimately show ?thesis using jiang_win [OF Cons.prems(1) c i] same L gr gr1 by simp
    next
      case False
      let ?m3 = "pop_group ?m2"
      have e: "hu233_from (i # is) m = hu233_from is ?m3" using c False by (simp add: Let_def)
      have g3: "lz_groups ?m3 = lz_groups m"
        using False snd_r gr gr1 by (simp add: sound_def pop_group_def)
      have st3: "lz_start ?m3" using Cons.prems(1) same L by (auto simp: lz_start_def) (metis)
      have "i < 40 \<or> cnt ?m3 i \<le> 0" if "i \<in> set is" for i
        using Cons.prems(2) that same [of i] by (cases "i = 8") auto
      then have "\<forall>i \<in> set is. i < 40 \<or> cnt ?m3 i \<le> 0" by blast
      note IH = Cons.IH [OF st3 this]
      have win: "lz_win ?m3 gs \<Longrightarrow> lz_win m gs" for gs
        by (rule lz_win_cong [where ?m1.0 = ?m3]) (use same L in auto)
      show ?thesis unfolding e using IH g3 same L win by (auto split: if_splits)
    qed
  next
    case False
    then have "hu233_from (i # is) m = hu233_from is m" by auto
    with Cons show ?thesis by auto
  qed
qed

end
