(* ===== verification/MjHulzProps.thy ===== *)
theory MjHulzProps
  imports MjHulzCorrect
begin

text \<open>
  The properties of the judge with wild tiles (\<open>mj/hulz.go\<close>), over the lemmas of
  \<open>MjHulzCorrect\<close>: what the search accepts with and without wild tiles, the tests for the kinds
  of winning hand, the offers made to a player, and the places where the code is not the rule of
  the game.
\<close>

subsection \<open>A hand with wild tiles\<close>

lemma count_hand:
  assumes "set (hand mj pai) \<subseteq> set kinds" "length (hand mj pai) < 128"
  shows "count_tiles (\<lambda>_. 0) (hand mj pai) = Inr (\<lambda>k. int (count (mset (map unat (hand mj pai))) k))"
proof -
  have "count_tiles (\<lambda>_. 0) (hand mj pai) =
      Inr (\<lambda>k. 0 + int (count (mset (map unat (hand mj pai))) k))"
    by (rule count_tiles_ok) (use assms kinds_bounds in \<open>fastforce+\<close>)
  then show ?thesis by simp
qed

lemma Newlz_wild:
  assumes "set (hand mj pai) \<subseteq> set kinds" "length (hand mj pai) < 128" "laizi \<in> set kinds"
  shows "Newlz mj pai laizi grp =
    Inr \<lparr>lz_laizi = laizi, lz_pai = pai,
         lz_num = (\<lambda>k. int (count (mset (map unat (hand mj pai))) k))
           (8 := int (count (mset (map unat (hand mj pai))) (unat laizi)), unat laizi := 0),
         lz_groups = grp\<rparr>"
  using kinds_bounds [OF assms(3)]
  by (auto simp: Newlz_eq count_hand [OF assms(1,2)] word_gt_0_no word_greater_zero_iff
      word_unat_eq_iff)

lemma count_hand_0:
  assumes "set (hand mj pai) \<subseteq> set kinds" "k \<notin> tiles"
  shows "count (mset (map unat (hand mj pai))) k = 0"
  using assms kinds_tiles by (fastforce simp: count_eq_zero_iff)

lemma Newlz_start:
  assumes "set (hand mj pai) \<subseteq> set kinds" "length (hand mj pai) < 128" "laizi \<in> set kinds"
    and "Newlz mj pai laizi grp = Inr m"
  shows "lz_start m" "\<forall>i \<in> set num_range. i < 40 \<or> cnt m i \<le> 0"
proof -
  have m: "lz_num m = (\<lambda>k. int (count (mset (map unat (hand mj pai))) k))
           (8 := int (count (mset (map unat (hand mj pai))) (unat laizi)), unat laizi := 0)"
    using assms(4) Newlz_wild [OF assms(1-3)] by auto
  have z: "count (mset (map unat (hand mj pai))) k = 0" if "k \<notin> tiles" for k
    by (rule count_hand_0 [OF assms(1) that])
  have "(0 :: nat) \<notin> tiles" "(40 :: nat) \<notin> tiles" by (auto simp: tiles_def)
  with z have c: "cnt m 0 = 0" "cnt m 40 = 0" by (simp_all add: m)
  then show "lz_start m" by (auto simp: lz_start_def m)
  have "i < 40 \<or> i = 40" if "i \<in> set num_range" for i using that by (auto simp: num_range_def)
  with c show "\<forall>i \<in> set num_range. i < 40 \<or> cnt m i \<le> 0" by force
qed

subsection \<open>What the search accepts\<close>

text \<open>
  C8. Without a wild tile the search \<open>hu233\<close> is exact: on every hand of tiles of the deck
  (any number of them below 128) \<open>Newlz\<close> succeeds, \<open>hu233\<close> answers true exactly when the hand is
  a pair and any number of triples and runs, and it leaves the counters as they were.
\<close>

theorem hu233_lz_exact:
  assumes "set (hand mj pai) \<subseteq> set kinds" and "length (hand mj pai) < 128"
  shows "\<exists>m. Newlz mj pai 0 grp = Inr m \<and>
    (fst (hu233_lz m) \<longleftrightarrow> standard_win (mset (map unat (hand mj pai)))) \<and>
    lz_num (snd (hu233_lz m)) = lz_num m"
proof -
  obtain m where "Newlz mj pai 0 grp = Inr m" "rep m (mset (map unat (hand mj pai)))"
    using Newlz_rep [OF assms] by blast
  then show ?thesis using hu233_rep hu233_rep_num by blast
qed

lemma hu233_lz_exact_witness:
  "\<exists>m. Newlz [11, 12, 13, 22, 23, 24, 35, 35, 35, 1, 1, 1, 7] 7 0 [] = Inr m \<and>
    (fst (hu233_lz m) \<longleftrightarrow>
      standard_win (mset (map unat (hand [11, 12, 13, 22, 23, 24, 35, 35, 35, 1, 1, 1, 7] 7)))) \<and>
    lz_num (snd (hu233_lz m)) = lz_num m"
  by (rule hu233_lz_exact) (simp_all add: hand_def kinds_def)

text \<open>
  C10. With wild tiles a positive answer of \<open>hu233\<close> is justified: it comes with recorded groups (after
  the player's own), one pair of a tile in hand first, then triples and runs of consecutive
  numbers, that use every real tile of the hand and need no more further tiles than there are wild
  ones. Whatever the answer, the counters of the real tiles are put back, the wild tiles are never
  more than before, and on a negative answer the groups are the player's own again.
\<close>

theorem hu233_lz_sound:
  assumes "set (hand mj pai) \<subseteq> set kinds" and "length (hand mj pai) < 128"
    and "laizi \<in> set kinds" and "Newlz mj pai laizi grp = Inr m"
  shows "(\<forall>k. k \<noteq> Laizi \<longrightarrow> cnt (snd (hu233_lz m)) k = cnt m k) \<and>
    0 \<le> cnt (snd (hu233_lz m)) Laizi \<and> cnt (snd (hu233_lz m)) Laizi \<le> cnt m Laizi \<and>
    (if fst (hu233_lz m)
     then \<exists>gs. lz_groups (snd (hu233_lz m)) = grp @ gs \<and> lz_win m gs
     else lz_groups (snd (hu233_lz m)) = grp)"
proof -
  have g: "grp = lz_groups m" using assms(4) Newlz_wild [OF assms(1-3)] by auto
  show ?thesis unfolding g hu233_lz_def by (rule hu233_from_sound [OF Newlz_start [OF assms]])
qed

lemma hu233_lz_sound_witness:
  "\<exists>m. Newlz [11, 13, 5, 31, 31] 0 5 [] = Inr m \<and>
    (if fst (hu233_lz m)
     then \<exists>gs. lz_groups (snd (hu233_lz m)) = [] @ gs \<and> lz_win m gs
     else lz_groups (snd (hu233_lz m)) = [])"
proof -
  have k: "set (hand [11, 13, 5, 31, 31] 0) \<subseteq> set kinds" "length (hand [11, 13, 5, 31, 31] 0) < 128"
    "(5 :: u8) \<in> set kinds" by (simp_all add: hand_def kinds_def)
  show ?thesis using hu233_lz_sound [OF k Newlz_wild [OF k, of "[]"]] Newlz_wild [OF k, of "[]"]
    by blast
qed

text \<open>A hand is judged by \<open>hu233\<close> (no panic, answer \<open>b\<close>, \<open>l\<close> wild tiles left in the counter).\<close>

definition judged :: "u8 list \<Rightarrow> u8 \<Rightarrow> bool \<Rightarrow> int \<Rightarrow> bool" where
  "judged mj laizi b l =
     (case Newlz mj 0 laizi [] of
        Inl _ \<Rightarrow> False
      | Inr m \<Rightarrow> fst (hu233_lz m) = b \<and> cnt (snd (hu233_lz m)) Laizi = l)"

text \<open>
  Where the code leaves the rule of the game, with a wild tile (here 5, Zhong): it completes a
  "run" across two suits (19, wild, 21) but not at the top of the third suit (38, 39, wild), although it
  accepts 18, 19, wild; it misses a win in which a run would take two tiles that a failed attempt
  left unbalanced (11, 12, wild needs two wild tiles and the pair 14, 14 is passed over); and a failed
  attempt takes a wild tile away for good (3 wild tiles before, 2 after).
\<close>

theorem hu233_lz_deviations:
  "judged [19, 21, 5, 31, 31] 5 True 1 \<and> judged [18, 19, 5, 31, 31] 5 True 1 \<and>
   judged [38, 39, 5, 31, 31] 5 False 1 \<and> judged [11, 12, 12, 14, 21, 21, 5, 5] 5 False 2 \<and>
   judged [11, 12, 13, 13, 16, 5, 5, 5] 5 False 2"
  by code_simp

subsection \<open>Naming and scoring a win\<close>

lemma step_laizi [simp]:
  "lz_laizi (bump m k d) = lz_laizi m" "lz_laizi (push_group m op v) = lz_laizi m"
  "lz_laizi (pop_group m) = lz_laizi m" "lz_laizi (kezi_take m p) = lz_laizi m"
  "lz_laizi (kezi_undo m p) = lz_laizi m" "lz_laizi (shunzi_take m p) = lz_laizi m"
  "lz_laizi (shunzi_undo m p) = lz_laizi m" "lz_laizi (jiang_take m p) = lz_laizi m"
  "lz_laizi (jiang_undo m p) = lz_laizi m"
  by (simp_all add: bump_def push_group_def pop_group_def kezi_take_def kezi_undo_def
      shunzi_take_def shunzi_undo_def jiang_take_def jiang_undo_def Let_def)

lemma deal_laizi:
  "lz_laizi (snd (deal_kezi_lz m pai)) = lz_laizi m"
  "lz_laizi (snd (deal_shunzi_lz m pai)) = lz_laizi m"
  by (induction m pai and m pai rule: deal_induct)
    (subst deal_kezi_lz.simps deal_shunzi_lz.simps, auto simp: Let_def prod_eq_iff split: if_splits)+

lemma hu233_laizi: "lz_laizi (snd (hu233_lz m)) = lz_laizi m"
proof -
  have "lz_laizi (snd (hu233_from is m)) = lz_laizi m" for "is"
    by (induction "is" arbitrary: m) (auto simp: Let_def deal_lz_def deal_laizi)
  then show ?thesis by (simp add: hu233_lz_def)
qed

lemma numArr_nonempty: "0 < cnt m i \<Longrightarrow> i \<in> real_tiles \<Longrightarrow> numArr m \<noteq> []"
proof
  let ?f = "\<lambda>i. if i \<noteq> 8 \<and> cnt m i > 0 then (if cnt m i > 3 then [1, 3] else [cnt m i]) else []"
  assume i: "0 < cnt m i" "i \<in> real_tiles" and e: "numArr m = []"
  have "set (numArr m) = set (concat (map ?f num_range))" unfolding numArr_def by (rule set_sort)
  then have "concat (map ?f num_range) = []" unfolding e by (simp only: list.set set_empty [symmetric])
  moreover have "i \<in> set num_range" using i by (simp add: num_range_def)
  then have "?f i \<in> set (map ?f num_range)" unfolding set_map by (rule imageI)
  ultimately have "?f i = []" unfolding concat_eq_Nil_conv by blast
  with i show False by (simp split: if_splits)
qed

lemma huType_state: "huType_lz m = Inr (hx, m') \<Longrightarrow> m' = snd (hu233_lz m)"
  by (auto simp: huType_lz_def Let_def bindE_def split: if_splits sum.splits)

lemma huPph_total: "numArr m \<noteq> [] \<Longrightarrow> \<exists>b. huPph_lz m = Inr b"
  by (auto simp: huPph_lz_def split: list.splits)

lemma huType_total:
  assumes "set (hand mj pai) \<subseteq> set kinds" "length (hand mj pai) < 128" "laizi \<in> set kinds"
    and "Newlz mj pai laizi grp = Inr m"
  shows "\<exists>hx. huType_lz m = Inr (hx, snd (hu233_lz m))"
proof (cases "fst (hu233_lz m)")
  case True
  then obtain gs where "lz_win m gs" using hu233_lz_sound [OF assms] by auto
  then obtain i where "0 < cnt (snd (hu233_lz m)) i" "i \<in> real_tiles"
    using hu233_lz_sound [OF assms] by (auto simp: lz_win_def)
  then obtain b where "huPph_lz (snd (hu233_lz m)) = Inr b"
    using huPph_total numArr_nonempty by blast
  then show ?thesis by (simp add: huType_lz_def Let_def)
next
  case False
  then show ?thesis by (auto simp: huType_lz_def Let_def flag_def)
qed

text \<open>
  Naming and scoring a hand never panics (\<open>huPph\<close> reads the first entry of a list that could be
  empty, but only runs on a standard win, which holds a real tile), and with a wild tile the
  result is always the reading with wild tiles: the second, "hard" evaluation of \<open>HuPai\<close> looks at the
  counter of the wild tile's own number, which \<open>Newlz\<close> has set to 0 and nothing changes, so that
  branch never runs.
\<close>

theorem HuPai_lz_wild_only:
  assumes "set (hand mj pai) \<subseteq> set kinds" and "length (hand mj pai) < 128"
    and "laizi \<in> set kinds" and "Newlz mj pai laizi grp = Inr m"
  shows "\<exists>hx. huType_lz m = Inr (hx, snd (hu233_lz m)) \<and> HuPai_lz m = Inr (hx, huScore_lz hx)"
proof -
  obtain hx where hx: "huType_lz m = Inr (hx, snd (hu233_lz m))"
    using huType_total [OF assms] by blast
  have "cnt m (unat laizi) = 0" "lz_laizi m = laizi" "unat laizi \<noteq> 8"
    using assms(4) Newlz_wild [OF assms(1-3)] kinds_bounds [OF assms(3)] by auto
  then have "cnt (snd (hu233_lz m)) (unat (lz_laizi (snd (hu233_lz m)))) = 0"
    using hu233_lz_sound [OF assms] by (simp add: hu233_laizi)
  with hx show ?thesis by (simp add: HuPai_lz_def Let_def)
qed

lemma HuPai_lz_wild_only_witness:
  "\<exists>m hx. Newlz [11, 13, 5, 31, 31] 0 5 [] = Inr m \<and> HuPai_lz m = Inr (hx, huScore_lz hx)"
proof -
  have k: "set (hand [11, 13, 5, 31, 31] 0) \<subseteq> set kinds" "length (hand [11, 13, 5, 31, 31] 0) < 128"
    "(5 :: u8) \<in> set kinds" by (simp_all add: hand_def kinds_def)
  show ?thesis using HuPai_lz_wild_only [OF k Newlz_wild [OF k, of "[]"]] Newlz_wild [OF k, of "[]"]
    by blast
qed

text \<open>
  The expectations of the repository's own test \<open>TestHulz\<close>: hand, drawn or discarded last tile,
  wild tile, and the names of the win.
\<close>

definition names :: "u8 list \<Rightarrow> u8 \<Rightarrow> u8 \<Rightarrow> Group list \<Rightarrow> (panic + hu_tag list)" where
  "names mj pai laizi grp =
     bindE (Newlz mj pai laizi grp) (\<lambda>m. bindE (HuPai_lz m) (\<lambda>(hu, score). Inr (HuStr hu score)))"

text \<open>
  The four expectations of the repository's own test \<open>TestHulz\<close> hold of the model: the names of
  the win are self-drawn, "luxury", one suit and all triples for the first hand, and so on.
\<close>

theorem TestHulz_expectations:
  "names [13, 8, 8, 8, 13, 16, 16, 16, 14, 14, 15, 15, 13, 13] 0 0 [] = Inr [T_ZM, T_HH, T_QYS, T_PPH] \<and>
   names [8, 8, 8, 13, 14, 16, 16, 16, 14, 14, 15, 15, 13, 13] 0 0 [] = Inr [T_ZM, T_QYS, T_PPH] \<and>
   names [8, 8, 8, 13, 14, 15, 16, 16, 24, 25, 26, 35, 34, 33] 0 0 [] = Inr [T_MQQ] \<and>
   names [11, 12, 13, 13, 14, 15, 16, 16, 14, 15, 16, 17, 18, 19] 0 0 [] = Inr [T_YH, T_ZM, T_QYS]"
  by code_simp

text \<open>
  The program \<open>src/main.go\<close>: six bamboos with two wild ones besides. It prints a self-drawn win of one suit
  and triples only.
\<close>

definition main_names :: "panic + hu_tag list" where
  "main_names = names [11, 11, 12, 12, 12, 12, 13, 13] 0 13 []"

lemma main_prints: "main_names = Inr [T_ZM, T_HH, T_QYS, T_PPH]"
  by code_simp

text \<open>
  The test for "one suit" also accepts honours beside one suit: the loop's variable is 0 both
  when no tile has been seen and after an honour. On a standard win the recorded triple or pair of
  honours is caught by the second loop, but a hand of seven pairs, which records no groups,
  is named "one suit" although it holds honours and bamboos.
\<close>

theorem huQys_lz_honours:
  "(\<exists>m. Newlz [1, 1, 5, 5, 11, 11, 12, 12, 14, 14, 16, 16, 19, 19] 0 0 [] = Inr m \<and>
        \<not> fst (hu233_lz m) \<and> huQd_lz m \<and> huQys_lz m) \<and>
   names [1, 1, 5, 5, 11, 11, 12, 12, 14, 14, 16, 16, 19, 19] 0 0 [] = Inr [T_YH, T_ZM, T_QYS, T_QD]"
proof -
  have a: "case Newlz [1, 1, 5, 5, 11, 11, 12, 12, 14, 14, 16, 16, 19, 19] 0 0 [] of
      Inl _ \<Rightarrow> False | Inr m \<Rightarrow> \<not> fst (hu233_lz m) \<and> huQd_lz m \<and> huQys_lz m"
    by code_simp
  have b: "names [1, 1, 5, 5, 11, 11, 12, 12, 14, 14, 16, 16, 19, 19] 0 0 [] =
      Inr [T_YH, T_ZM, T_QYS, T_QD]"
    by code_simp
  show ?thesis using case_Inr_ex [OF a] b by blast
qed

end
