(* ===== verification/MjHu.thy ===== *)
theory MjHu
  imports MjMeld
begin

text \<open>
  \<open>mj/hu.go\<close>: the judge of winning hands without wild tiles (\<open>stat\<close>), which keeps the tile values
  in ascending order and their counts in two slices of the same length. The sums on the counters
  stay far from the bounds of \<open>int8\<close> (a hand has at most 18 tiles) and are written on unbounded
  integers; only the counting in \<open>New\<close> is brought back to 8 bits.
\<close>

record stat =
  st_pai :: u8
  st_val :: "u8 list"
  st_num :: "int list"
  st_Group :: "Group list"

text \<open>
  The loop of \<open>New\<close> over the sorted hand: the values and counts so far and the last value seen.
  \<open>idx\<close> is the last index of the counts; a first tile 0 would be counted at index -1.
\<close>

fun new_loop :: "u8 list \<Rightarrow> u8 \<Rightarrow> u8 list \<Rightarrow> int list \<Rightarrow> panic + (u8 list \<times> int list)" where
  "new_loop [] tail val num = Inr (val, num)"
| "new_loop (v # mj) tail val num =
     (if v = tail then
        (if num = [] then Inl IndexOutOfRange
         else new_loop mj tail val (num[length num - 1 := i8 (last num + 1)]))
      else new_loop mj v (val @ [v]) (num @ [1]))"

definition New :: "u8 list \<Rightarrow> u8 \<Rightarrow> Group list \<Rightarrow> panic + stat" where
  "New mj p g =
     bindE (new_loop (sort (if 0 < p then mj @ [p] else mj)) 0 [] []) (\<lambda>(val, num).
       Inr \<lparr>st_pai = p, st_val = val, st_num = num, st_Group = g\<rparr>)"

subsection \<open>The search\<close>

function next_st :: "int list \<Rightarrow> nat \<Rightarrow> nat" where
  "next_st num i = (if i < length num \<and> num ! i = 0 then next_st num (i + 1) else i)"
  by pat_completeness auto
termination
  by (relation "measure (\<lambda>(num, i). length num - i)") auto

declare next_st.simps [simp del]

definition bump_st :: "stat \<Rightarrow> nat \<Rightarrow> int \<Rightarrow> stat" where
  "bump_st m i d = m\<lparr>st_num := (st_num m)[i := st_num m ! i + d]\<rparr>"

definition push_st :: "stat \<Rightarrow> u8 \<Rightarrow> nat \<Rightarrow> stat" where
  "push_st m op i = m\<lparr>st_Group := st_Group m @ [mkGroup op (st_val m ! i)]\<rparr>"

definition pop_st :: "stat \<Rightarrow> stat" where
  "pop_st m = m\<lparr>st_Group := butlast (st_Group m)\<rparr>"

definition run_at :: "stat \<Rightarrow> nat \<Rightarrow> bool" where
  "run_at m i \<longleftrightarrow>
     1 \<le> st_num m ! i \<and> 1 \<le> st_num m ! (i + 1) \<and> 1 \<le> st_num m ! (i + 2) \<and>
     st_val m ! i + 1 = st_val m ! (i + 1) \<and> st_val m ! (i + 1) + 1 = st_val m ! (i + 2)"

definition take_ke :: "stat \<Rightarrow> nat \<Rightarrow> stat" where
  "take_ke m i = push_st (bump_st m i (- 3)) Ke i"

definition untake_ke :: "stat \<Rightarrow> nat \<Rightarrow> stat" where
  "untake_ke m i = bump_st (pop_st m) i 3"

definition take_shun :: "stat \<Rightarrow> nat \<Rightarrow> stat" where
  "take_shun m i = bump_st (bump_st (bump_st (push_st m Shun i) i (- 1)) (i + 1) (- 1)) (i + 2) (- 1)"

definition untake_shun :: "stat \<Rightarrow> nat \<Rightarrow> stat" where
  "untake_shun m i = bump_st (bump_st (bump_st (pop_st m) i 1) (i + 1) 1) (i + 2) 1"

function deal_kezi :: "stat \<Rightarrow> nat \<Rightarrow> bool \<times> stat"
  and deal_shunzi :: "stat \<Rightarrow> nat \<Rightarrow> bool \<times> stat" where
  "deal_kezi m i =
     (if length (st_num m) \<le> i then (True, m)
      else if 3 \<le> st_num m ! i then
        (let m1 = take_ke m i;
             j = next_st (st_num m1) i;
             r1 = deal_kezi m1 j;
             r = (if fst r1 then r1 else deal_shunzi (snd r1) j)
         in (fst r, untake_ke (snd r) i))
      else (False, m))"
| "deal_shunzi m i =
     (if length (st_num m) \<le> i then (True, m)
      else if length (st_num m) \<le> i + 2 then (False, m)
      else if st_val m ! i < Tiao1 then (False, m)
      else if run_at m i then
        (let m1 = take_shun m i;
             j = next_st (st_num m1) i;
             r1 = deal_kezi m1 j;
             r = (if fst r1 then r1 else deal_shunzi (snd r1) j)
         in (fst r, untake_shun (snd r) i))
      else (False, m))"
  by pat_completeness auto

lemma update_back:
  "i < length xs \<Longrightarrow> j < length xs \<Longrightarrow> k < length xs \<Longrightarrow>
   xs[i := a, j := b, k := c, i := xs ! i, j := xs ! j, k := xs ! k] = xs"
  by (rule nth_equalityI) (auto simp: nth_list_update)

lemma undo_st [simp]:
  "i < length (st_num m) \<Longrightarrow> untake_ke (take_ke m i) i = m"
  "i + 2 < length (st_num m) \<Longrightarrow> untake_shun (take_shun m i) i = m"
  by (simp_all add: untake_ke_def take_ke_def untake_shun_def take_shun_def bump_st_def push_st_def
      pop_st_def update_back)

text \<open>Both calls leave the state exactly as they found it, first on their domain.\<close>

lemma deal_st_restores_dom:
  "deal_kezi_deal_shunzi_dom (Inl (m, i)) \<Longrightarrow> snd (deal_kezi m i) = m"
  "deal_kezi_deal_shunzi_dom (Inr (m, i)) \<Longrightarrow> snd (deal_shunzi m i) = m"
proof (induction m i and m i rule: deal_kezi_deal_shunzi.pinduct)
  case (1 m i)
  then show ?case by (subst deal_kezi.psimps) (auto simp: Let_def prod_eq_iff)
next
  case (2 m i)
  then show ?case by (subst deal_shunzi.psimps) (auto simp: Let_def prod_eq_iff)
qed

definition left_st :: "stat \<Rightarrow> nat" where
  "left_st m = sum_list (map nat (st_num m))"

lemma left_bump:
  "i < length (st_num m) \<Longrightarrow>
   left_st (bump_st m i d) + nat (st_num m ! i) = left_st m + nat (st_num m ! i + d)"
proof -
  assume i: "i < length (st_num m)"
  have "nat (st_num m ! i) \<le> sum_list (map nat (st_num m))"
    using i elem_le_sum_list [of i "map nat (st_num m)"] by simp
  with i show ?thesis
    by (simp add: left_st_def bump_st_def map_update sum_list_update)
qed

lemma take_num:
  "length (st_num (take_ke m i)) = length (st_num m)"
  "length (st_num (take_shun m i)) = length (st_num m)"
  by (simp_all add: take_ke_def take_shun_def bump_st_def push_st_def)

lemma left_take_ke: "i < length (st_num m) \<Longrightarrow> 3 \<le> st_num m ! i \<Longrightarrow> left_st (take_ke m i) < left_st m"
  using left_bump [of i m "- 3"] by (simp add: take_ke_def push_st_def left_st_def)

lemma left_dec: "i < length (st_num m) \<Longrightarrow> 1 \<le> st_num m ! i \<Longrightarrow> left_st (bump_st m i (- 1)) < left_st m"
  using left_bump [of i m "- 1"] by linarith

lemma num_push [simp]: "st_num (push_st m op i) = st_num m" "left_st (push_st m op i) = left_st m"
  by (simp_all add: push_st_def left_st_def)

lemma num_bump: "st_num (bump_st m i d) = (st_num m)[i := st_num m ! i + d]"
  by (simp add: bump_st_def)

lemma left_take_shun:
  assumes "i + 2 < length (st_num m)" "run_at m i"
  shows "left_st (take_shun m i) < left_st m"
proof -
  let ?a = "bump_st (push_st m Shun i) i (- 1)" let ?b = "bump_st ?a (i + 1) (- 1)"
  have r: "1 \<le> st_num m ! i" "1 \<le> st_num m ! (i + 1)" "1 \<le> st_num m ! (i + 2)"
    using assms(2) by (simp_all add: run_at_def)
  have "left_st ?a < left_st (push_st m Shun i)" by (rule left_dec) (use assms r in auto)
  moreover have "left_st ?b < left_st ?a" by (rule left_dec) (use assms r in \<open>auto simp: num_bump\<close>)
  moreover have "left_st (bump_st ?b (i + 2) (- 1)) < left_st ?b"
    by (rule left_dec) (use assms r in \<open>auto simp: num_bump\<close>)
  ultimately show ?thesis by (simp add: take_shun_def)
qed

termination deal_kezi
proof (relation "measure (\<lambda>x. left_st (case x of Inl (m, i) \<Rightarrow> m | Inr (m, i) \<Rightarrow> m))", goal_cases)
  case 1
  show ?case by simp
next
  case (3 m i m1 j r1)
  then have "snd r1 = m1" using deal_st_restores_dom(1) by auto
  with 3 left_take_ke show ?case by auto
next
  case (5 m i m1 j r1)
  then have "snd r1 = m1" using deal_st_restores_dom(1) by auto
  with 5 left_take_shun show ?case by auto
qed (auto intro: left_take_ke left_take_shun)

declare deal_kezi.simps [simp del] deal_shunzi.simps [simp del]

lemmas deal_st_induct = deal_kezi_deal_shunzi.induct

lemma deal_st_restores [simp]: "snd (deal_kezi m i) = m" "snd (deal_shunzi m i) = m"
  by (induction m i and m i rule: deal_st_induct)
    (subst deal_kezi.simps deal_shunzi.simps, auto simp: Let_def prod_eq_iff)+

text \<open>The source's \<open>m.deal_kezi(i) || m.deal_shunzi(i)\<close>.\<close>

definition deal_st :: "stat \<Rightarrow> nat \<Rightarrow> bool \<times> stat" where
  "deal_st m i = (let r = deal_kezi m i in if fst r then r else deal_shunzi (snd r) i)"

fun hu233_st_from :: "nat list \<Rightarrow> stat \<Rightarrow> bool \<times> stat" where
  "hu233_st_from [] m = (False, m)"
| "hu233_st_from (i # is) m =
     (if 2 \<le> st_num m ! i then
        (let r = deal_st (push_st (bump_st m i (- 2)) Jiang i) 0
         in if fst r then (True, pop_st (bump_st (snd r) i 2))
            else hu233_st_from is (bump_st (pop_st (snd r)) i 2))
      else hu233_st_from is m)"

definition hu233_st :: "stat \<Rightarrow> bool \<times> stat" where
  "hu233_st m = hu233_st_from [0..<length (st_val m)] m"

subsection \<open>The winning hands\<close>

definition huQd_st :: "stat \<Rightarrow> bool" where
  "huQd_st m \<longleftrightarrow> length (st_num m) = 7 \<and> list_all (\<lambda>n. \<not> (n \<noteq> 2 \<and> n \<noteq> 4)) (st_num m)"

definition huJys_st :: "stat \<Rightarrow> bool" where
  "huJys_st m =
     list_all (\<lambda>val. \<not> (val \<noteq> Tiao2 \<and> val \<noteq> Tiao5 \<and> val \<noteq> Tiao8 \<and>
                        val \<noteq> Wan2 \<and> val \<noteq> Wan5 \<and> val \<noteq> Wan8 \<and>
                        val \<noteq> Tong2 \<and> val \<noteq> Tong5 \<and> val \<noteq> Tong8)) (st_val m)"

definition huHh_st :: "stat \<Rightarrow> nat" where
  "huHh_st m =
     length (filter (\<lambda>g. g_Op g = AGang) (st_Group m)) + length (filter (\<lambda>n. n = 4) (st_num m))"

definition huQys_st :: "stat \<Rightarrow> panic + bool" where
  "huQys_st m =
     bindE (index (st_val m) 0) (\<lambda>v0. let c = v0 div 10 in
       Inr (list_all (\<lambda>v. v div 10 = c) (st_val m) \<and>
            list_all (\<lambda>g. g_Val g div 10 = c) (st_Group m)))"

text \<open>Go's \<open>n % 3 == 1\<close> holds of non-negative numbers only.\<close>

definition huPph_st :: "stat \<Rightarrow> bool" where
  "huPph_st m \<longleftrightarrow>
     list_all (\<lambda>g. \<not> (g_Op g = LChi \<or> g_Op g = MChi \<or> g_Op g = RChi)) (st_Group m) \<and>
     list_all (\<lambda>n. \<not> (0 \<le> n \<and> n mod 3 = 1)) (st_num m)"

definition huQqr_st :: "stat \<Rightarrow> bool" where
  "huQqr_st m \<longleftrightarrow> st_pai m \<noteq> 0 \<and> length (st_val m) = 1 \<and> st_num m ! 0 = 2"

definition CanHu_st :: "stat \<Rightarrow> bool \<times> stat" where
  "CanHu_st m =
     (let r = hu233_st m
      in if fst r then r
         else if huQd_st (snd r) then (True, snd r)
         else (huJys_st (snd r), snd r))"

definition CanOpSelf_st :: "stat \<Rightarrow> u8 \<Rightarrow> Group list \<times> stat" where
  "CanOpSelf_st m op =
     (let gang =
            (if op \<noteq> HdlPai then
               map (\<lambda>i. mkGroup AGang (st_val m ! i))
                 (filter (\<lambda>i. st_num m ! i = 4) [0..<length (st_num m)]) @
               concat (map (\<lambda>g. if g_Op g = Peng then
                   map (\<lambda>i. mkGroup BGang (st_val m ! i))
                     (filter (\<lambda>i. st_val m ! i = g_Val g \<and> st_num m ! i > 0) [0..<length (st_val m)])
                 else []) (st_Group m))
             else [])
      in if op = LChi \<or> op = MChi \<or> op = RChi \<or> op = Peng then (gang, m)
         else (let r = CanHu_st m
               in (if fst r then gang @ [mkGroup HuPaiOp 0] else gang, snd r)))"

text \<open>The offers at the first index that holds the discarded tile; the loop breaks there.\<close>

definition offers_at :: "u8 list \<Rightarrow> int list \<Rightarrow> u8 \<Rightarrow> nat \<Rightarrow> Group list" where
  "offers_at vs num val i =
     (if i + 2 < length vs \<and> vs ! (i + 1) = val + 1 \<and> vs ! (i + 2) = val + 2
      then [mkGroup LChi val] else []) @
     (if i + 1 < length vs \<and> 1 \<le> i \<and> vs ! (i - 1) = val - 1 \<and> vs ! (i + 1) = val + 1
      then [mkGroup MChi val] else []) @
     (if 2 \<le> i \<and> vs ! (i - 2) = val - 2 \<and> vs ! (i - 1) = val - 1
      then [mkGroup RChi val] else []) @
     (if num ! i \<ge> 3 then [mkGroup Peng val] else []) @
     (if num ! i \<ge> 4 then [mkGroup MGang val] else [])"

fun offers_loop :: "u8 list \<Rightarrow> int list \<Rightarrow> u8 \<Rightarrow> nat list \<Rightarrow> Group list" where
  "offers_loop vs num val [] = []"
| "offers_loop vs num val (i # is) =
     (if vs ! i = val then offers_at vs num val i else offers_loop vs num val is)"

definition CanOpOther_st :: "stat \<Rightarrow> u8 \<Rightarrow> u8 \<Rightarrow> Group list \<times> stat" where
  "CanOpOther_st m val op =
     (let ops = (if op = ChuPai
                 then offers_loop (st_val m) (st_num m) val [0..<length (st_num m)] else []);
          r = CanHu_st m
      in (if fst r then ops @ [mkGroup HuPaiOp val] else ops, snd r))"

definition HuPai_st :: "stat \<Rightarrow> panic + i32" where
  "HuPai_st m =
     (let r = hu233_st m; m = snd r;
          hus = (if fst r then PH else if huQd_st m then QD else 0);
          hus = (if huJys_st m then hus OR JYS else hus)
      in if hus = 0 then Inr hus
         else (let hus = (if huPph_st m then hus OR PPH else hus)
           in bindE (huQys_st m) (\<lambda>qys.
             let hus = (if qys then hus OR QYS else hus);
                 hus = (if huQqr_st m then hus OR QQR else hus);
                 n = huHh_st m
             in Inr (if n = 1 then hus OR HH else if n = 2 then hus OR HH2
                     else if n = 3 then hus OR HH3 else hus))))"

subsection \<open>What the search decides\<close>

text \<open>The state stands for a multiset of tiles: its values ascend and include all of them.\<close>

definition rep_st :: "stat \<Rightarrow> nat multiset \<Rightarrow> bool" where
  "rep_st m M \<longleftrightarrow>
     length (st_val m) = length (st_num m) \<and> sorted_wrt (<) (map unat (st_val m)) \<and>
     unat ` set (st_val m) \<subseteq> tiles \<and> set_mset M \<subseteq> unat ` set (st_val m) \<and>
     (\<forall>i < length (st_num m). st_num m ! i = int (count M (unat (st_val m ! i))))"

text \<open>Index \<open>i\<close> is where the remaining tiles start.\<close>

definition at_st :: "stat \<Rightarrow> nat \<Rightarrow> bool" where
  "at_st m i \<longleftrightarrow>
     (\<forall>k < i. k < length (st_num m) \<longrightarrow> st_num m ! k = 0) \<and> (i < length (st_num m) \<longrightarrow> st_num m ! i \<noteq> 0)"

lemma next_st_spec:
  "i \<le> next_st num i \<and> (next_st num i < length num \<longrightarrow> num ! next_st num i \<noteq> 0) \<and>
   (\<forall>k. i \<le> k \<and> k < next_st num i \<longrightarrow> k < length num \<and> num ! k = 0)"
proof (induction num i rule: next_st.induct)
  case (1 num i)
  show ?case
  proof (cases "i < length num \<and> num ! i = 0")
    case True
    then have "next_st num i = next_st num (i + 1)" by (subst next_st.simps) simp
    with 1 True show ?thesis by (auto simp: Suc_le_eq dest: le_neq_implies_less)
  next
    case False
    then have "next_st num i = i" by (subst next_st.simps) auto
    with False show ?thesis by auto
  qed
qed

lemma at_next:
  assumes "\<forall>k < i. k < length (st_num m) \<longrightarrow> st_num m ! k = 0"
  shows "at_st m (next_st (st_num m) i)"
proof -
  note spec = next_st_spec [of i "st_num m"]
  have "st_num m ! k = 0" if "k < next_st (st_num m) i" "k < length (st_num m)" for k
    using spec assms that by (cases "k < i") auto
  with spec show ?thesis by (auto simp: at_st_def)
qed

lemma rep_st_index: "rep_st m M \<Longrightarrow> x \<in># M \<Longrightarrow> \<exists>k < length (st_num m). x = unat (st_val m ! k)"
  unfolding rep_st_def by (metis image_iff in_set_conv_nth subset_iff)

lemma rep_st_tiles:
  assumes "rep_st m M" "i < length (st_num m)"
  shows "unat (st_val m ! i) \<in> tiles" "unat (st_val m ! i) \<le> 39"
proof -
  show "unat (st_val m ! i) \<in> tiles" using assms by (auto simp: rep_st_def)
  then show "unat (st_val m ! i) \<le> 39" using tiles_bounds by blast
qed

lemma at_end:
  assumes "rep_st m M" "at_st m i" "length (st_num m) \<le> i"
  shows "M = {#}"
proof -
  have "count M x = 0" if "x \<in># M" for x
  proof -
    from rep_st_index [OF assms(1) that] obtain k where "k < length (st_num m)" "x = unat (st_val m ! k)"
      by blast
    with assms show ?thesis by (auto simp: rep_st_def at_st_def)
  qed
  then show ?thesis by (metis count_eq_zero_iff multiset_nonemptyE)
qed

lemma rep_st_less:
  "rep_st m M \<Longrightarrow> i < j \<Longrightarrow> j < length (st_num m) \<Longrightarrow> unat (st_val m ! i) < unat (st_val m ! j)"
  by (auto simp: rep_st_def sorted_wrt_map sorted_wrt_iff_nth_less)

lemma at_lowest:
  assumes "rep_st m M" "at_st m i" "i < length (st_num m)"
  shows "unat (st_val m ! i) \<in># M" and "\<forall>y \<in># M. unat (st_val m ! i) \<le> y"
proof -
  show "unat (st_val m ! i) \<in># M"
    using assms by (auto simp: rep_st_def at_st_def count_greater_zero_iff [symmetric] simp del: count_greater_zero_iff)
  show "\<forall>y \<in># M. unat (st_val m ! i) \<le> y"
  proof
    fix y assume y: "y \<in># M"
    then obtain k where k: "k < length (st_num m)" "y = unat (st_val m ! k)"
      using rep_st_index [OF assms(1)] by blast
    then have "st_num m ! k \<noteq> 0" using y assms(1) by (auto simp: rep_st_def)
    then have "i \<le> k" using assms(2) k by (auto simp: at_st_def not_le [symmetric])
    with k rep_st_less [OF assms(1), of i k] show "unat (st_val m ! i) \<le> y"
      by (cases "i = k") auto
  qed
qed

lemma rep_st_inj:
  "rep_st m M \<Longrightarrow> i < length (st_num m) \<Longrightarrow> j < length (st_num m) \<Longrightarrow>
   st_val m ! i = st_val m ! j \<longleftrightarrow> i = j"
  using rep_st_less [of m M i j] rep_st_less [of m M j i] by (metis less_irrefl linorder_neqE_nat)

lemma at_take: "at_st m i \<Longrightarrow> length (st_num m1) = length (st_num m) \<Longrightarrow>
    (\<And>k. k < i \<Longrightarrow> st_num m1 ! k = st_num m ! k) \<Longrightarrow> at_st m1 (next_st (st_num m1) i)"
  by (rule at_next) (auto simp: at_st_def)

lemma num_take_ke: "st_num (take_ke m i) = (st_num m)[i := st_num m ! i - 3]"
  by (simp add: take_ke_def bump_st_def push_st_def)

lemma num_take_shun:
  assumes "i + 2 < length (st_num m)" "k < length (st_num m)"
  shows "st_num (take_shun m i) ! k = (if k \<in> {i, i + 1, i + 2} then st_num m ! k - 1 else st_num m ! k)"
  using assms by (auto simp: take_shun_def bump_st_def push_st_def nth_list_update)

lemma val_take [simp]: "st_val (take_ke m i) = st_val m" "st_val (take_shun m i) = st_val m"
  by (simp_all add: take_ke_def take_shun_def bump_st_def push_st_def)

lemma rep_take_ke:
  assumes "rep_st m M" "i < length (st_num m)" "3 \<le> st_num m ! i"
  shows "rep_st (take_ke m i) (M - triple (unat (st_val m ! i)))"
proof -
  have "set_mset (M - triple (unat (st_val m ! i))) \<subseteq> set_mset M" by (auto dest: in_diffD)
  moreover have "unat (st_val m ! k) = unat (st_val m ! i) \<longleftrightarrow> k = i" if "k < length (st_num m)" for k
    using rep_st_inj [OF assms(1) that assms(2)] by (simp add: word_unat_eq_iff)
  ultimately show ?thesis
    using assms by (auto simp: rep_st_def num_take_ke nth_list_update count_triple)
qed

lemma run_at_rep:
  assumes "rep_st m M" "i < length (st_num m)" "11 \<le> unat (st_val m ! i)"
  shows "i + 2 < length (st_num m) \<and> run_at m i \<longleftrightarrow>
    run_start (unat (st_val m ! i)) \<and> run (unat (st_val m ! i)) \<subseteq># M"
proof
  let ?x = "unat (st_val m ! i)"
  assume r: "i + 2 < length (st_num m) \<and> run_at m i"
  have t: "unat (st_val m ! k) \<in> tiles" if "k < length (st_num m)" for k
    using assms(1) that by (auto simp: rep_st_def)
  have b: "?x \<le> 39" using t [OF assms(2)] by (auto simp: tiles_def)
  have v: "unat (st_val m ! (i + 1)) = ?x + 1" "unat (st_val m ! (i + 2)) = ?x + 2"
    using r b by (auto simp: run_at_def inc8_eq)
  have "run_start ?x"
    using t [of i] t [of "i + 1"] t [of "i + 2"] r v assms(3) by (auto intro: run_start_tiles)
  moreover have "run ?x \<subseteq># M"
    using r assms(1) v by (auto simp: run_subset rep_st_def run_at_def)
  ultimately show "run_start ?x \<and> run ?x \<subseteq># M" by simp
next
  let ?x = "unat (st_val m ! i)"
  have b: "?x \<le> 39" using rep_st_tiles [OF assms(1,2)] by simp
  assume r: "run_start ?x \<and> run ?x \<subseteq># M"
  have ex: "\<exists>k < length (st_num m). y = unat (st_val m ! k)" if "1 \<le> count M y" for y
    using rep_st_index [OF assms(1), of y] that by (simp add: Suc_le_eq)
  obtain j where j: "j < length (st_num m)" "?x + 1 = unat (st_val m ! j)"
    using ex [of "?x + 1"] r by (auto simp: run_subset)
  obtain k where k: "k < length (st_num m)" "?x + 2 = unat (st_val m ! k)"
    using ex [of "?x + 2"] r by (auto simp: run_subset)
  note less = rep_st_less [OF assms(1)]
  have "i < j" using less [of j i] j assms(2) by (cases i j rule: linorder_cases) auto
  moreover have "\<not> i + 1 < j"
    using less [of i "i + 1"] less [of "i + 1" j] j by auto
  ultimately have j': "j = i + 1" by simp
  have "j < k" using less [of k j] j k by (cases j k rule: linorder_cases) auto
  moreover have "\<not> i + 2 < k"
    using less [of "i + 1" "i + 2"] less [of "i + 2" k] j j' k by auto
  ultimately have k': "k = i + 2" using j' by simp
  have "st_val m ! i + 1 = st_val m ! (i + 1)" "st_val m ! (i + 1) + 1 = st_val m ! (i + 2)"
    using j k j' k' b by (auto simp: inc8_eq)
  then show "i + 2 < length (st_num m) \<and> run_at m i"
    using r j k j' k' assms(1,2) by (auto simp: run_at_def run_subset rep_st_def)
qed

lemma rep_take_shun:
  assumes "rep_st m M" "i + 2 < length (st_num m)" "run_at m i" "11 \<le> unat (st_val m ! i)"
  shows "rep_st (take_shun m i) (M - run (unat (st_val m ! i)))"
proof -
  let ?x = "unat (st_val m ! i)"
  have "set_mset (M - run ?x) \<subseteq> set_mset M" by (auto dest: in_diffD)
  moreover have "?x \<le> 39" using rep_st_tiles [OF assms(1)] assms(2) by simp
  then have v: "unat (st_val m ! (i + 1)) = ?x + 1" "unat (st_val m ! (i + 2)) = ?x + 2"
    using assms(3) by (auto simp: run_at_def inc8_eq)
  have inj: "unat (st_val m ! k) = unat (st_val m ! j) \<longleftrightarrow> k = j"
    if "k < length (st_num m)" "j < length (st_num m)" for k j
    using rep_st_inj [OF assms(1) that] by (simp add: word_unat_eq_iff)
  have "unat (st_val m ! k) \<in> {?x, ?x + 1, ?x + 2} \<longleftrightarrow> k \<in> {i, i + 1, i + 2}"
    if "k < length (st_num m)" for k
    using inj [OF that, of i] inj [OF that, of "i + 1"] inj [OF that, of "i + 2"] assms(2) v by auto
  ultimately show ?thesis
    using assms by (auto simp: rep_st_def num_take_shun count_run take_num run_at_def)
qed

lemma deal_kezi_st_rec:
  "i < length (st_num m) \<Longrightarrow> fst (deal_kezi m i) \<longleftrightarrow>
     3 \<le> st_num m ! i \<and> fst (deal_st (take_ke m i) (next_st (st_num (take_ke m i)) i))"
  by (subst deal_kezi.simps) (auto simp: Let_def deal_st_def)

lemma deal_shunzi_st_rec:
  "i < length (st_num m) \<Longrightarrow> fst (deal_shunzi m i) \<longleftrightarrow>
     i + 2 < length (st_num m) \<and> \<not> st_val m ! i < 11 \<and> run_at m i \<and>
     fst (deal_st (take_shun m i) (next_st (st_num (take_shun m i)) i))"
  by (subst deal_shunzi.simps) (auto simp: Let_def deal_st_def)

lemma deal_st_melds: "rep_st m M \<Longrightarrow> at_st m i \<Longrightarrow> fst (deal_st m i) \<longleftrightarrow> melds M"
proof (induction M arbitrary: m i rule: measure_induct_rule [of size])
  case (less M)
  show ?case
  proof (cases "i < length (st_num m)")
    case False
    then have "M = {#}" using at_end [OF less.prems] by simp
    with False show ?thesis by (simp add: deal_st_def deal_kezi.simps melds.none)
  next
    case True
    let ?x = "unat (st_val m ! i)"
    note low = at_lowest [OF less.prems True]
    have ne: "M \<noteq> {#}" using low(1) by auto
    have ke: "3 \<le> st_num m ! i \<longleftrightarrow> triple ?x \<subseteq># M"
      using less.prems(1) True by (auto simp: rep_st_def triple_subset)
    have k: "fst (deal_kezi m i) \<longleftrightarrow> triple ?x \<subseteq># M \<and> melds (M - triple ?x)"
    proof (cases "3 \<le> st_num m ! i")
      case ge: True
      have "size (M - triple ?x) < size M"
        using ke ge size_mset_mono [of "triple ?x" M] by (simp add: size_Diff_submset)
      moreover have "at_st (take_ke m i) (next_st (st_num (take_ke m i)) i)"
        by (rule at_take [OF less.prems(2)]) (auto simp: take_num num_take_ke)
      ultimately show ?thesis
        using less.IH [OF _ rep_take_ke [OF less.prems(1) True ge]] ge ke
        by (simp add: deal_kezi_st_rec [OF True])
    qed (use ke in \<open>simp add: deal_kezi_st_rec [OF True]\<close>)
    have s: "fst (deal_shunzi m i) \<longleftrightarrow> run_start ?x \<and> run ?x \<subseteq># M \<and> melds (M - run ?x)"
    proof (cases "11 \<le> ?x \<and> i + 2 < length (st_num m) \<and> run_at m i")
      case r: True
      then have rn: "run_start ?x \<and> run ?x \<subseteq># M" using run_at_rep [OF less.prems(1) True] by blast
      then have "size (M - run ?x) < size M"
        using size_mset_mono [of "run ?x" M] by (simp add: size_Diff_submset)
      moreover have "at_st (take_shun m i) (next_st (st_num (take_shun m i)) i)"
        by (rule at_take [OF less.prems(2)]) (use r in \<open>auto simp: take_num num_take_shun\<close>)
      moreover have "rep_st (take_shun m i) (M - run ?x)"
        using rep_take_shun [OF less.prems(1)] r by blast
      ultimately show ?thesis
        using less.IH rn r by (auto simp: deal_shunzi_st_rec [OF True] word_less_nat_alt)
    next
      case False
      then show ?thesis
        using run_at_rep [OF less.prems(1) True] run_start_ge [of ?x]
        by (auto simp: deal_shunzi_st_rec [OF True] word_less_nat_alt)
    qed
    show ?thesis
      using melds_lowest [OF ne low] k s by (auto simp: deal_st_def Let_def)
  qed
qed

subsection \<open>The pair\<close>

text \<open>
  The search after the pair starts at index 0, also when the pair was all there is of the lowest
  value; then the first count is 0 and both attempts fail.
\<close>

definition stat_win :: "nat multiset \<Rightarrow> bool" where
  "stat_win M \<longleftrightarrow>
     (\<exists>x. {#x, x#} \<subseteq># M \<and> melds (M - {#x, x#}) \<and> \<not> (count M x = 2 \<and> (\<forall>y \<in># M. x \<le> y)))"

definition jiang_st :: "stat \<Rightarrow> nat \<Rightarrow> stat" where
  "jiang_st m i = push_st (bump_st m i (- 2)) Jiang i"

lemma jiang_back [simp]:
  "i < length (st_num m) \<Longrightarrow> pop_st (bump_st (jiang_st m i) i 2) = m"
  "i < length (st_num m) \<Longrightarrow> bump_st (pop_st (jiang_st m i)) i 2 = m"
  by (simp_all add: jiang_st_def bump_st_def push_st_def pop_st_def)

lemma jiang_num: "st_num (jiang_st m i) = (st_num m)[i := st_num m ! i - 2]"
  and jiang_val: "st_val (jiang_st m i) = st_val m"
  by (simp_all add: jiang_st_def bump_st_def push_st_def)

lemma rep_jiang:
  assumes "rep_st m M" "i < length (st_num m)" "2 \<le> st_num m ! i"
  shows "rep_st (jiang_st m i) (M - {#unat (st_val m ! i), unat (st_val m ! i)#})"
proof -
  have "set_mset (M - {#unat (st_val m ! i), unat (st_val m ! i)#}) \<subseteq> set_mset M"
    by (auto dest: in_diffD)
  moreover have "unat (st_val m ! i) \<noteq> unat (st_val m ! k)" if "k < length (st_num m)" "i \<noteq> k" for k
    using rep_st_inj [OF assms(1) that(1) assms(2)] that(2) by (auto simp: word_unat_eq_iff)
  ultimately show ?thesis
    using assms by (auto simp: rep_st_def jiang_num jiang_val nth_list_update)
qed

lemma deal_st_snd [simp]: "snd (deal_st m i) = m"
  by (simp add: deal_st_def Let_def)

lemma hu233_from_st:
  "\<forall>i \<in> set is. i < length (st_num m) \<Longrightarrow>
   snd (hu233_st_from is m) = m \<and>
   (fst (hu233_st_from is m) \<longleftrightarrow> (\<exists>i \<in> set is. 2 \<le> st_num m ! i \<and> fst (deal_st (jiang_st m i) 0)))"
  by (induction "is") (auto simp: Let_def jiang_st_def [symmetric])

lemma deal_st_zero: "0 < length (st_num m) \<Longrightarrow> st_num m ! 0 = 0 \<Longrightarrow> \<not> fst (deal_st m 0)"
  by (simp add: deal_st_def deal_kezi_st_rec deal_shunzi_st_rec run_at_def)

lemma hu233_st_rep:
  assumes "rep_st m M" and pos: "\<forall>n \<in> set (st_num m). 1 \<le> n"
  shows "snd (hu233_st m) = m" and "fst (hu233_st m) \<longleftrightarrow> stat_win M"
proof -
  have len: "length (st_val m) = length (st_num m)" using assms(1) by (simp add: rep_st_def)
  have num: "st_num m ! i = int (count M (unat (st_val m ! i)))" if "i < length (st_num m)" for i
    using assms(1) that by (simp add: rep_st_def)
  have one: "1 \<le> st_num m ! i" if "i < length (st_num m)" for i using pos that by simp
  have at0: "at_st m 0" using one [of 0] by (auto simp: at_st_def)
  have step: "2 \<le> st_num m ! i \<and> fst (deal_st (jiang_st m i) 0) \<longleftrightarrow>
      {#x, x#} \<subseteq># M \<and> melds (M - {#x, x#}) \<and> \<not> (count M x = 2 \<and> (\<forall>y \<in># M. x \<le> y))"
    if i: "i < length (st_num m)" and x: "x = unat (st_val m ! i)" for i x
  proof (cases "2 \<le> st_num m ! i")
    case True
    then have sub: "{#x, x#} \<subseteq># M" using num [OF i] x by (auto simp: subseteq_mset_def)
    have min: "(\<forall>y \<in># M. x \<le> y) \<longleftrightarrow> i = 0"
    proof
      assume low: "\<forall>y \<in># M. x \<le> y"
      have z: "0 < length (st_num m)" using i by linarith
      then have "x \<le> unat (st_val m ! 0)" using low at_lowest(1) [OF assms(1) at0] by blast
      then show "i = 0" using rep_st_less [OF assms(1) _ i, of 0] x by (cases i) auto
    next
      assume "i = 0"
      then show "\<forall>y \<in># M. x \<le> y" using at_lowest(2) [OF assms(1) at0] i x by simp
    qed
    show ?thesis
    proof (cases "count M x = 2 \<and> i = 0")
      case c: True
      then have "\<not> fst (deal_st (jiang_st m i) 0)"
        using i num [OF i] x by (intro deal_st_zero) (auto simp: jiang_num)
      with c min show ?thesis by blast
    next
      case False
      then have "at_st (jiang_st m i) 0"
        using one [of 0] num [OF i] i x True by (cases "i = 0") (auto simp: at_st_def jiang_num)
      then show ?thesis
        using deal_st_melds [OF rep_jiang [OF assms(1) i True]] True False sub min x by auto
    qed
  next
    case False
    then have "\<not> {#x, x#} \<subseteq># M" using num [OF i] x by (auto simp: subseteq_mset_def intro: exI [of _ x])
    with False show ?thesis by simp
  qed
  have "i < length (st_num m)" if "i \<in> set [0..<length (st_val m)]" for i using that len by simp
  note fr = hu233_from_st [of "[0..<length (st_val m)]" m]
  show "snd (hu233_st m) = m" using fr len by (simp add: hu233_st_def)
  have "fst (hu233_st m) \<longleftrightarrow> (\<exists>i < length (st_num m). 2 \<le> st_num m ! i \<and> fst (deal_st (jiang_st m i) 0))"
    using fr len by (auto simp: hu233_st_def)
  also have "\<dots> \<longleftrightarrow> stat_win M"
  proof
    assume "\<exists>i < length (st_num m). 2 \<le> st_num m ! i \<and> fst (deal_st (jiang_st m i) 0)"
    then show "stat_win M" using step unfolding stat_win_def by blast
  next
    assume "stat_win M"
    then obtain x where x: "{#x, x#} \<subseteq># M \<and> melds (M - {#x, x#}) \<and>
        \<not> (count M x = 2 \<and> (\<forall>y \<in># M. x \<le> y))" unfolding stat_win_def by blast
    then have "x \<in># M" by (meson insert_subset_eq_iff)
    then obtain i where "i < length (st_num m)" "x = unat (st_val m ! i)"
      using rep_st_index [OF assms(1)] by blast
    with step x show "\<exists>i < length (st_num m). 2 \<le> st_num m ! i \<and> fst (deal_st (jiang_st m i) 0)"
      by blast
  qed
  finally show "fst (hu233_st m) \<longleftrightarrow> stat_win M" .
qed

end
