(* ===== verification/MjHuProps.thy ===== *)
theory MjHuProps
  imports MjHu
begin

text \<open>
  The properties of the judge without wild tiles (\<open>mj/hu.go\<close>): \<open>New\<close> represents the hand, \<open>hu233\<close>
  is characterised exactly, its gap and what follows from it, and the offers it makes.
\<close>

subsection \<open>Counting the hand\<close>

definition mk_stat :: "u8 \<Rightarrow> Group list \<Rightarrow> u8 list \<Rightarrow> int list \<Rightarrow> stat" where
  "mk_stat p g val num = \<lparr>st_pai = p, st_val = val, st_num = num, st_Group = g\<rparr>"

lemma mk_stat_sel [simp]:
  "st_val (mk_stat p g val num) = val" "st_num (mk_stat p g val num) = num"
  by (simp_all add: mk_stat_def)

lemma rep_count_last:
  assumes "rep_st (mk_stat p g val num) M" "val \<noteq> []" "size M < 127"
  shows "rep_st (mk_stat p g val (num[length num - 1 := i8 (last num + 1)])) (add_mset (unat (last val)) M)"
    and "i8 (last num + 1) = last num + 1"
proof -
  have len: "length val = length num" "num \<noteq> []" using assms(1,2) by (auto simp: rep_st_def)
  have l: "last num = int (count M (unat (last val)))"
    using assms(1,2) len by (auto simp: rep_st_def last_conv_nth)
  have "count M (unat (last val)) \<le> size M" by (rule count_le_size)
  with l assms(3) show eq: "i8 (last num + 1) = last num + 1" by simp
  have inj: "unat (val ! (length val - 1)) \<noteq> unat (val ! k)" if "k < length num" "k \<noteq> length val - 1" for k
    using rep_st_inj [OF assms(1), of k "length val - 1"] that len by (auto simp: word_unat_eq_iff)
  show "rep_st (mk_stat p g val (num[length num - 1 := i8 (last num + 1)])) (add_mset (unat (last val)) M)"
    unfolding eq using assms(1,2) len l inj
    by (auto simp: rep_st_def nth_list_update last_conv_nth)
qed

lemma rep_new_value:
  assumes "rep_st (mk_stat p g val num) M" "v \<in> set kinds" "\<forall>x \<in> set val. x < v"
  shows "rep_st (mk_stat p g (val @ [v]) (num @ [1])) (add_mset (unat v) M)"
proof -
  have lt: "unat x < unat v" if "x \<in> set val" for x using assms(3) that by (simp add: word_less_nat_alt)
  have "set_mset M \<subseteq> unat ` set val" using assms(1) by (simp add: rep_st_def)
  with lt have "unat v \<notin># M" by fastforce
  then have c: "count M (unat v) = 0" by (simp add: count_eq_zero_iff)
  have ne: "unat v \<noteq> unat (val ! i)" if "i < length num" for i
    using lt [of "val ! i"] assms(1) that by (auto simp: rep_st_def)
  have "sorted_wrt (<) (map unat (val @ [v]))"
    using assms(1) lt by (auto simp: rep_st_def sorted_wrt_append)
  moreover have "(num @ [1]) ! i = int (count (add_mset (unat v) M) (unat ((val @ [v]) ! i)))"
    if "i < length (num @ [1])" for i
    using that assms(1) c ne [of i] by (cases "i < length num") (auto simp: rep_st_def nth_append)
  ultimately show ?thesis
    using assms(1) kinds_tiles [OF assms(2)] by (auto simp: rep_st_def)
qed

lemma new_loop_rep:
  assumes "sorted mj" "set mj \<subseteq> set kinds" "val = [] \<and> tail = 0 \<or> val \<noteq> [] \<and> tail = last val"
    and "\<forall>v \<in> set mj. tail \<le> v" "rep_st (mk_stat p g val num) M" "\<forall>n \<in> set num. 1 \<le> n"
    and "\<forall>x \<in> set val. x \<le> tail" "size M + length mj < 128"
  shows "\<exists>val' num'. new_loop mj tail val num = Inr (val', num') \<and>
    rep_st (mk_stat p g val' num') (M + mset (map unat mj)) \<and> (\<forall>n \<in> set num'. 1 \<le> n)"
  using assms
proof (induction mj arbitrary: tail val num M)
  case Nil
  then show ?case by simp
next
  case (Cons v mj)
  have len: "length val = length num" using Cons.prems(5) by (simp add: rep_st_def)
  have v0: "0 < v" using Cons.prems(2) kinds_bounds [of v] by (auto simp: word_greater_zero_iff)
  show ?case
  proof (cases "v = tail")
    case True
    then have ne: "val \<noteq> []" and t: "tail = last val" using Cons.prems(3) v0 by auto
    have s: "size M < 127" using Cons.prems(8) by simp
    note r = rep_count_last [OF Cons.prems(5) ne s]
    have ge: "\<forall>n \<in> set (num[length num - 1 := i8 (last num + 1)]). 1 \<le> n"
      using Cons.prems(6) ne len r(2)
      by (auto dest!: set_update_subset_insert [THEN subsetD]) (metis last_in_set length_0_conv le_add_same_cancel2 order_trans zero_le_one add_increasing)
    have "\<exists>val' num'. new_loop mj tail val (num[length num - 1 := i8 (last num + 1)]) = Inr (val', num') \<and>
      rep_st (mk_stat p g val' num') (add_mset (unat (last val)) M + mset (map unat mj)) \<and> (\<forall>n \<in> set num'. 1 \<le> n)"
      by (rule Cons.IH [OF _ _ Cons.prems(3) _ r(1) ge Cons.prems(7)]) (use Cons.prems True in auto)
    then show ?thesis using True ne len t by (auto simp: add_mset_commute)
  next
    case False
    with Cons.prems(4) have lt: "tail < v" by (simp add: order_less_le)
    have below: "\<forall>x \<in> set val. x < v" using Cons.prems(7) lt by (meson order_le_less_trans)
    have k: "v \<in> set kinds" using Cons.prems(2) by simp
    have "\<exists>val' num'. new_loop mj v (val @ [v]) (num @ [1]) = Inr (val', num') \<and>
      rep_st (mk_stat p g val' num') (add_mset (unat v) M + mset (map unat mj)) \<and> (\<forall>n \<in> set num'. 1 \<le> n)"
      by (rule Cons.IH [OF _ _ _ _ rep_new_value [OF Cons.prems(5) k below]])
        (use Cons.prems below in \<open>auto simp: less_imp_le\<close>)
    then show ?thesis using False by auto
  qed
qed

lemma New_rep:
  assumes "set (hand mj p) \<subseteq> set kinds" "length (hand mj p) < 128"
  shows "\<exists>m. New mj p g = Inr m \<and> rep_st m (mset (map unat (hand mj p))) \<and> (\<forall>n \<in> set (st_num m). 1 \<le> n) \<and>
    st_pai m = p \<and> st_Group m = g"
proof -
  have "\<exists>val' num'. new_loop (sort (hand mj p)) 0 [] [] = Inr (val', num') \<and>
    rep_st (mk_stat p g val' num') ({#} + mset (map unat (sort (hand mj p)))) \<and> (\<forall>n \<in> set num'. 1 \<le> n)"
    by (rule new_loop_rep) (use assms in \<open>auto simp: rep_st_def\<close>)
  moreover have "mset (map unat (sort (hand mj p))) = mset (map unat (hand mj p))"
    by (metis mset_map mset_sort)
  ultimately show ?thesis by (auto simp: New_def hand_def mk_stat_def)
qed

subsection \<open>What the judge decides\<close>

text \<open>
  C26. \<open>New\<close> succeeds on every hand of tiles of the deck, and \<open>hu233\<close> leaves its state exactly as it
  was and answers true exactly for the hands that are a pair, triples and runs where that pair can be
  chosen other than as the only two tiles of the lowest value: the search after the pair starts at
  index 0 instead of the first index that still has tiles, so a hand whose only pair is its lowest
  value is rejected.
\<close>

theorem hu233_st_exact:
  assumes "set (hand mj p) \<subseteq> set kinds" and "length (hand mj p) < 128"
  shows "\<exists>m. New mj p g = Inr m \<and> snd (hu233_st m) = m \<and>
    (fst (hu233_st m) \<longleftrightarrow> stat_win (mset (map unat (hand mj p))))"
proof -
  obtain m where "New mj p g = Inr m" "rep_st m (mset (map unat (hand mj p)))"
    "\<forall>n \<in> set (st_num m). 1 \<le> n" using New_rep [OF assms] by blast
  then show ?thesis using hu233_st_rep by blast
qed

lemma hu233_st_exact_witness:
  "\<exists>m. New [1, 1, 11, 12] 13 [] = Inr m \<and> snd (hu233_st m) = m \<and>
    (fst (hu233_st m) \<longleftrightarrow> stat_win (mset (map unat (hand [1, 1, 11, 12] 13))))"
  by (rule hu233_st_exact) (simp_all add: hand_def kinds_def)

text \<open>
  Naming a win (\<open>HuPai\<close> of \<open>hu.go\<close>) never panics on a hand with at least one tile; on an empty
  hand it does: the test for "all 2, 5, 8" is then true and the test for "one suit" reads the first
  value of an empty slice.
\<close>

theorem HuPai_st_total:
  assumes "set (hand mj p) \<subseteq> set kinds" and "length (hand mj p) < 128"
  shows "\<exists>m. New mj p g = Inr m \<and> (if hand mj p = [] then HuPai_st m = Inl IndexOutOfRange
                                     else \<exists>h. HuPai_st m = Inr h)"
proof -
  let ?M = "mset (map unat (hand mj p))"
  obtain m where m: "New mj p g = Inr m" and rep: "rep_st m ?M" and one: "\<forall>n \<in> set (st_num m). 1 \<le> n"
    using New_rep [OF assms] by blast
  note same = hu233_st_rep(1) [OF rep one]
  have len: "length (st_val m) = length (st_num m)" using rep by (simp add: rep_st_def)
  show ?thesis
  proof (cases "hand mj p = []")
    case True
    then have "st_num m = []" using rep one len
      by (cases "st_num m") (auto simp: rep_st_def dest: spec [of _ 0])
    with len have e: "st_num m = []" "st_val m = []" by simp_all
    then have "\<not> fst (hu233_st m)" "\<not> huQd_st m" "huJys_st m"
      by (simp_all add: hu233_st_def huQd_st_def huJys_st_def)
    then have "HuPai_st m = Inl IndexOutOfRange"
      using e same by (simp add: HuPai_st_def Let_def huQys_st_def index_def)
    with True m show ?thesis by simp
  next
    case False
    then have "?M \<noteq> {#}" by simp
    then have "st_val m \<noteq> []" using rep len by (auto simp: rep_st_def)
    then obtain q where "huQys_st m = Inr q" by (simp add: huQys_st_def Let_def)
    then have "\<exists>h. HuPai_st m = Inr h" using same by (simp add: HuPai_st_def Let_def)
    with False m show ?thesis by simp
  qed
qed

lemma HuPai_st_total_witness:
  "\<exists>m. New [12, 12] 0 [] = Inr m \<and> (if hand [12, 12] 0 = [] then HuPai_st m = Inl IndexOutOfRange
                                     else \<exists>h. HuPai_st m = Inr h)"
  by (rule HuPai_st_total) (simp_all add: hand_def kinds_def)

end
