(* ===== verification/MinHeap.thy ===== *)
theory MinHeap
  imports Prelude
begin

text \<open>
  \<open>util/minheap.go\<close>: a binary heap of references. An element's key \<open>Val()\<close> is the parameter
  \<open>val\<close> (its value during the call), its field \<open>index\<close>, set through \<open>SetIndex\<close>, is a function on the
  elements kept beside the slice. \<open>prio\<close> is the interface a user of the heap relies on.
\<close>

record 'e MinHeap =
  mh_data :: "'e list"
  mh_index :: "'e \<Rightarrow> int"

text \<open>\<open>for i := from; ...; i++ { data[i].SetIndex(i) }\<close> over the elements from there on.\<close>

fun set_indices :: "'e list \<Rightarrow> int \<Rightarrow> ('e \<Rightarrow> int) \<Rightarrow> 'e \<Rightarrow> int" where
  "set_indices [] i ix = ix"
| "set_indices (e # es) i ix = set_indices es (i + 1) (ix(e := i))"

function shift_down :: "('e \<Rightarrow> int) \<Rightarrow> nat \<Rightarrow> 'e list \<Rightarrow> 'e list" where
  "shift_down val idx xs =
     (if idx * 2 + 1 < length xs then
        (let temp = (if idx * 2 + 2 < length xs then
                       (if val (xs ! (idx * 2 + 1)) > val (xs ! (idx * 2 + 2)) then idx * 2 + 2
                        else idx * 2 + 1)
                     else idx * 2 + 1)
         in if val (xs ! idx) > val (xs ! temp) then shift_down val temp (swap xs idx temp) else xs)
      else xs)"
  by pat_completeness auto
termination
  by (relation "measure (\<lambda>(val, idx, xs). length xs - idx)") auto

definition parent :: "nat \<Rightarrow> nat" where
  "parent j = (j - 1) div 2"

lemma parent_less: "0 < j \<Longrightarrow> parent j < j"
  by (auto simp: parent_def)

lemma parent_le: "parent j \<le> j"
  by (simp add: parent_def)

lemma parent_child: "0 < j \<Longrightarrow> parent j = i \<longleftrightarrow> j = 2 * i + 1 \<or> j = 2 * i + 2"
  by (auto simp: parent_def)

text \<open>One pass of \<open>shiftUp\<close>: the swap with the parent, and the sibling's check after it.\<close>

definition up_step :: "('e \<Rightarrow> int) \<Rightarrow> nat \<Rightarrow> 'e list \<Rightarrow> 'e list" where
  "up_step val idx xs =
     (let root = parent idx;
          ys = swap xs idx root
      in if idx mod 2 = 0 \<and> val (ys ! (idx - 1)) < val (ys ! root) then swap ys (idx - 1) root else ys)"

function shift_up :: "('e \<Rightarrow> int) \<Rightarrow> nat \<Rightarrow> 'e list \<Rightarrow> 'e list" where
  "shift_up val idx xs =
     (if 0 < idx \<and> val (xs ! idx) < val (xs ! parent idx)
      then shift_up val (parent idx) (up_step val idx xs) else xs)"
  by pat_completeness auto
termination
  by (relation "measure (\<lambda>(val, idx, xs). idx)") (auto simp: parent_less)

declare shift_down.simps [simp del] shift_up.simps [simp del]

definition NewMinHeap :: "('e \<Rightarrow> int) \<Rightarrow> 'e MinHeap" where
  "NewMinHeap ix = \<lparr>mh_data = [], mh_index = ix\<rparr>"

definition Len :: "'e MinHeap \<Rightarrow> nat" where
  "Len m = length (mh_data m)"

definition Top :: "'e MinHeap \<Rightarrow> 'e option" where
  "Top m = (if mh_data m = [] then None else Some (mh_data m ! 0))"

definition Push :: "('e \<Rightarrow> int) \<Rightarrow> 'e MinHeap \<Rightarrow> 'e \<Rightarrow> 'e MinHeap" where
  "Push val m e =
     (let d = shift_up val (length (mh_data m)) (mh_data m @ [e])
      in m\<lparr>mh_data := d, mh_index := set_indices d 0 (mh_index m)\<rparr>)"

text \<open>The error \<open>heap empty\<close> is \<open>None\<close>.\<close>

definition Pop :: "('e \<Rightarrow> int) \<Rightarrow> 'e MinHeap \<Rightarrow> 'e option \<times> 'e MinHeap" where
  "Pop val m =
     (if length (mh_data m) \<le> 0 then (None, m)
      else let tail = length (mh_data m) - 1;
               d = mh_data m ! 0;
               ys = shift_down val 0 (take tail (swap (mh_data m) 0 tail))
           in (Some d, m\<lparr>mh_data := ys, mh_index := set_indices ys 0 (mh_index m)\<rparr>))"

text \<open>
  \<open>Drop\<close> returns whether it succeeded (no \<open>Drop heap error\<close>). A negative index passes the test and
  panics at the first access of the slice.
\<close>

definition Drop :: "('e \<Rightarrow> int) \<Rightarrow> 'e MinHeap \<Rightarrow> 'e \<Rightarrow> panic + (bool \<times> 'e MinHeap)" where
  "Drop val m e =
     (let idx = mh_index m e
      in if int (length (mh_data m)) \<le> idx then Inr (False, m)
         else if idx < 0 then Inl IndexOutOfRange
         else let i = nat idx;
                  tail = length (mh_data m) - 1;
                  ys = shift_down val i (take tail (swap (mh_data m) i tail))
              in Inr (True, m\<lparr>mh_data := ys, mh_index := set_indices (drop i ys) idx (mh_index m)\<rparr>))"

fun build_loop :: "('e \<Rightarrow> int) \<Rightarrow> nat \<Rightarrow> 'e list \<Rightarrow> 'e list" where
  "build_loop val 0 xs = xs"
| "build_loop val (Suc n) xs = build_loop val n (shift_down val 0 xs)"

definition Build :: "('e \<Rightarrow> int) \<Rightarrow> 'e MinHeap \<Rightarrow> 'e MinHeap" where
  "Build val m =
     (let d = build_loop val (length (mh_data m) div 2 + 1) (mh_data m)
      in m\<lparr>mh_data := d, mh_index := set_indices d 0 (mh_index m)\<rparr>)"

subsection \<open>The heap order\<close>

definition ordered :: "('e \<Rightarrow> int) \<Rightarrow> 'e list \<Rightarrow> bool" where
  "ordered val xs \<longleftrightarrow> (\<forall>j. 0 < j \<and> j < length xs \<longrightarrow> val (xs ! parent j) \<le> val (xs ! j))"

definition ordered_below :: "('e \<Rightarrow> int) \<Rightarrow> 'e list \<Rightarrow> nat \<Rightarrow> bool" where
  "ordered_below val xs i \<longleftrightarrow>
     (\<forall>j. 0 < j \<and> j < length xs \<and> parent j \<noteq> i \<longrightarrow> val (xs ! parent j) \<le> val (xs ! j)) \<and>
     (\<forall>j. 0 < j \<and> j < length xs \<and> parent j = i \<and> 0 < i \<longrightarrow> val (xs ! parent i) \<le> val (xs ! j))"

definition ordered_above :: "('e \<Rightarrow> int) \<Rightarrow> 'e list \<Rightarrow> nat \<Rightarrow> bool" where
  "ordered_above val xs i \<longleftrightarrow>
     (\<forall>j. 0 < j \<and> j < length xs \<and> j \<noteq> i \<longrightarrow> val (xs ! parent j) \<le> val (xs ! j)) \<and>
     (\<forall>j. 0 < j \<and> j < length xs \<and> parent j = i \<and> 0 < i \<longrightarrow> val (xs ! parent i) \<le> val (xs ! j))"

lemma length_shift_down [simp]: "length (shift_down val i xs) = length xs"
  by (induction val i xs rule: shift_down.induct) (subst shift_down.simps, simp add: Let_def)

lemma mset_shift_down [simp]: "mset (shift_down val i xs) = mset xs"
proof (induction val i xs rule: shift_down.induct)
  case (1 val i xs)
  then show ?case by (subst shift_down.simps) (auto simp: Let_def)
qed

lemma length_up_step [simp]: "length (up_step val i xs) = length xs"
  by (simp add: up_step_def Let_def)

lemma mset_up_step [simp]: "0 < i \<Longrightarrow> i < length xs \<Longrightarrow> mset (up_step val i xs) = mset xs"
  using parent_less [of i] by (auto simp: up_step_def Let_def)

lemma length_shift_up [simp]: "length (shift_up val i xs) = length xs"
proof (induction val i xs rule: shift_up.induct)
  case (1 val i xs)
  then show ?case by (subst shift_up.simps) simp
qed

lemma mset_shift_up [simp]: "i < length xs \<Longrightarrow> mset (shift_up val i xs) = mset xs"
proof (induction val i xs rule: shift_up.induct)
  case (1 val i xs)
  have "parent i < length xs" using 1 parent_le [of i] by simp
  with 1 show ?case by (subst shift_up.simps) simp
qed

lemma shift_down_ordered: "ordered_below val xs i \<Longrightarrow> ordered val (shift_down val i xs)"
proof (induction val i xs rule: shift_down.induct)
  case (1 val i xs)
  show ?case
  proof (cases "i * 2 + 1 < length xs")
    case False
    then have "parent j \<noteq> i" if "0 < j" "j < length xs" for j
      using that parent_child [of j i] by auto
    with "1.prems" False show ?thesis
      by (subst shift_down.simps) (auto simp: ordered_def ordered_below_def)
  next
    case True
    define t where "t = (if i * 2 + 2 < length xs then
        (if val (xs ! (i * 2 + 1)) > val (xs ! (i * 2 + 2)) then i * 2 + 2 else i * 2 + 1)
      else i * 2 + 1)"
    have t: "t < length xs" "parent t = i" "0 < t" "i < t" using True by (auto simp: t_def parent_def)
    have least: "val (xs ! t) \<le> val (xs ! j)" if "parent j = i" "0 < j" "j < length xs" for j
      using that parent_child [of j i] by (auto simp: t_def mult.commute)
    have eq: "shift_down val i xs =
        (if val (xs ! i) > val (xs ! t) then shift_down val t (swap xs i t) else xs)"
      using True by (subst shift_down.simps) (simp add: t_def Let_def)
    show ?thesis
    proof (cases "val (xs ! i) > val (xs ! t)")
      case swap: True
      have "ordered_below val (swap xs i t) t"
        unfolding ordered_below_def
      proof (intro conjI allI impI, goal_cases)
        case (1 j)
        have "parent j < length xs" using 1 parent_le [of j] by auto
        then show ?case
          using 1 t swap "1.prems" least [of j]
          by (auto simp: nth_swap ordered_below_def)
      next
        case (2 j)
        have "parent j < length xs" "j \<noteq> i" "j \<noteq> t" using 2 t parent_less [of j] by auto
        with 2 t "1.prems" show ?case
          by (auto simp: nth_swap ordered_below_def)
      qed
      then have "ordered val (shift_down val t (swap xs i t))"
        by (rule "1.IH" [OF True t_def swap])
      then show ?thesis unfolding eq if_P [OF swap] .
    next
      case False
      have "val (xs ! parent j) \<le> val (xs ! j)" if "0 < j" "j < length xs" for j
        using "1.prems" that least [of j] False by (cases "parent j = i") (auto simp: ordered_below_def)
      then show ?thesis unfolding eq if_not_P [OF False] by (simp add: ordered_def)
    qed
  qed
qed

text \<open>
  Moving up: the sibling's check never swaps, since the sibling is not below the old parent, which
  was above the moved element.
\<close>

lemma shift_up_ordered: "ordered_above val xs i \<Longrightarrow> i < length xs \<Longrightarrow> ordered val (shift_up val i xs)"
proof (induction val i xs rule: shift_up.induct)
  case (1 val i xs)
  show ?case
  proof (cases "0 < i \<and> val (xs ! i) < val (xs ! parent i)")
    case True
    let ?r = "parent i" let ?ys = "swap xs i ?r"
    have r: "?r < i" "?r < length xs" using True "1.prems" parent_less [of i] by auto
    have "val (xs ! ?r) \<le> val (xs ! (i - 1))" if "i mod 2 = 0"
    proof -
      have *: "parent (i - 1) = ?r" "0 < i - 1" "i - 1 < length xs" "i - 1 \<noteq> i"
        using that True "1.prems" by (auto simp: parent_def) presburger+
      then have "val (xs ! parent (i - 1)) \<le> val (xs ! (i - 1))"
        using "1.prems"(1) unfolding ordered_above_def by blast
      then show ?thesis unfolding *(1) .
    qed
    then have step: "up_step val i xs = ?ys"
      using True r "1.prems" by (auto simp: up_step_def Let_def nth_swap)
    have "ordered_above val ?ys ?r"
      unfolding ordered_above_def
    proof (intro conjI allI impI, goal_cases)
      case (1 j)
      have pj: "parent j < length xs" using 1 parent_le [of j] by auto
      show ?case
      proof (cases "j = i")
        case True
        with \<open>0 < i \<and> _\<close> r "1.prems" show ?thesis by (simp add: nth_swap)
      next
        case False
        have j: "j < length xs" "j \<noteq> ?r" "0 < j" using 1 by simp_all
        have e: "?ys ! j = xs ! j" using j False r "1.prems"(2) by (simp add: nth_swap)
        have le: "val (xs ! parent j) \<le> val (xs ! j)"
          using "1.prems"(1) j False by (simp add: ordered_above_def)
        consider "parent j = i" | "parent j = ?r" | "parent j \<noteq> i" "parent j \<noteq> ?r" by blast
        then show ?thesis
        proof cases
          case 1
          then have "val (xs ! ?r) \<le> val (xs ! j)"
            using "1.prems"(1) j True unfolding ordered_above_def by blast
          then show ?thesis using e r "1.prems"(2) 1 by (simp add: nth_swap)
        next
          case 2
          then show ?thesis using e r le "1.prems"(2) True by (simp add: nth_swap)
        next
          case 3
          then show ?thesis using e le pj r "1.prems"(2) by (simp add: nth_swap)
        qed
      qed
    next
      case (2 j)
      have pr: "parent ?r < length xs" "parent ?r \<noteq> i" "parent ?r \<noteq> ?r"
        using 2 r parent_less [of ?r] by auto
      have "val (xs ! parent ?r) \<le> val (xs ! ?r)" using "1.prems" 2 r by (simp add: ordered_above_def)
      moreover have "j \<noteq> i \<Longrightarrow> val (xs ! ?r) \<le> val (xs ! j)"
        using "1.prems"(1) 2 by (auto simp: ordered_above_def)
      ultimately show ?case using 2 pr r "1.prems" by (auto simp: nth_swap)
    qed
    then have "ordered val (shift_up val ?r ?ys)"
      using "1.IH" [OF True] r step by simp
    then show ?thesis by (subst shift_up.simps) (simp only: True step if_True simp_thms)
  next
    case False
    then have eq: "shift_up val i xs = xs" by (subst shift_up.simps) auto
    show ?thesis
      unfolding eq ordered_def using "1.prems" False by (auto simp: ordered_above_def not_less)
  qed
qed

lemma ordered_root:
  assumes "ordered val xs" "j < length xs"
  shows "val (xs ! 0) \<le> val (xs ! j)"
  using assms(2)
proof (induction j rule: less_induct)
  case (less j)
  show ?case
  proof (cases "j = 0")
    case False
    have "val (xs ! 0) \<le> val (xs ! parent j)"
      by (rule less.IH) (use False less.prems parent_less [of j] in auto)
    also have "\<dots> \<le> val (xs ! j)" using assms(1) False less.prems by (auto simp: ordered_def)
    finally show ?thesis .
  qed simp
qed

lemma ordered_cong: "(\<And>x. x \<in> set xs \<Longrightarrow> f x = g x) \<Longrightarrow> ordered f xs = ordered g xs"
proof -
  assume eq: "\<And>x. x \<in> set xs \<Longrightarrow> f x = g x"
  have "f (xs ! j) = g (xs ! j) \<and> f (xs ! parent j) = g (xs ! parent j)" if "0 < j" "j < length xs" for j
    using that parent_less [of j] by (auto intro!: eq nth_mem)
  then show ?thesis unfolding ordered_def by auto
qed

subsection \<open>The interface of a priority queue\<close>

locale prio =
  fixes ok :: "'q \<Rightarrow> bool" and elems :: "'q \<Rightarrow> 'e multiset" and key :: "'e \<Rightarrow> int"
    and push :: "'q \<Rightarrow> 'e \<Rightarrow> 'q" and pop :: "'q \<Rightarrow> 'e option \<times> 'q" and top :: "'q \<Rightarrow> 'e option"
  assumes push_ok: "ok q \<Longrightarrow> ok (push q e)"
    and push_elems: "ok q \<Longrightarrow> elems (push q e) = add_mset e (elems q)"
    and top_none: "ok q \<Longrightarrow> top q = None \<longleftrightarrow> elems q = {#}"
    and top_least: "ok q \<Longrightarrow> top q = Some e \<Longrightarrow> e \<in># elems q \<and> (\<forall>x \<in># elems q. key e \<le> key x)"
    and pop_top: "ok q \<Longrightarrow> fst (pop q) = top q"
    and pop_ok: "ok q \<Longrightarrow> ok (snd (pop q))"
    and pop_elems: "ok q \<Longrightarrow> top q = Some e \<Longrightarrow> elems (snd (pop q)) = elems q - {#e#}"

text \<open>Popping \<open>n\<close> times, and pushing a list.\<close>

fun pops :: "('q \<Rightarrow> 'e option \<times> 'q) \<Rightarrow> nat \<Rightarrow> 'q \<Rightarrow> 'e list" where
  "pops pop 0 q = []"
| "pops pop (Suc n) q = (case pop q of (None, q') \<Rightarrow> [] | (Some e, q') \<Rightarrow> e # pops pop n q')"

context prio
begin

lemma pushes: "ok q \<Longrightarrow> ok (foldl push q es) \<and> elems (foldl push q es) = elems q + mset es"
  by (induction es arbitrary: q) (simp_all add: push_ok push_elems)

lemma pops_sorted:
  "ok q \<Longrightarrow> n = size (elems q) \<Longrightarrow> mset (pops pop n q) = elems q \<and> sorted (map key (pops pop n q))"
proof (induction n arbitrary: q)
  case 0
  then show ?case by simp
next
  case (Suc n)
  then obtain e where e: "top q = Some e" using top_none by (cases "top q") auto
  obtain q' where q': "pop q = (Some e, q')" using pop_top [OF Suc.prems(1)] e by (cases "pop q") auto
  note least = top_least [OF Suc.prems(1) e]
  have el: "elems q' = elems q - {#e#}" using pop_elems [OF Suc.prems(1) e] q' by simp
  have IH: "mset (pops pop n q') = elems q' \<and> sorted (map key (pops pop n q'))"
    by (rule Suc.IH) (use Suc.prems pop_ok [OF Suc.prems(1)] q' el least in \<open>auto simp: size_Diff_submset\<close>)
  then have "set (pops pop n q') \<subseteq> set_mset (elems q)"
    using el by (metis in_diffD set_mset_mset subsetI)
  with IH el least show ?case by (auto simp: q')
qed

end

subsection \<open>The heap keeps the interface\<close>

lemma set_indices_other: "e \<notin> set es \<Longrightarrow> set_indices es i ix e = ix e"
  by (induction es arbitrary: i ix) auto

lemma set_indices_at: "distinct es \<Longrightarrow> k < length es \<Longrightarrow> set_indices es i ix (es ! k) = i + int k"
  by (induction es arbitrary: i ix k) (auto simp: nth_Cons set_indices_other split: nat.split)

definition synced :: "'e MinHeap \<Rightarrow> bool" where
  "synced m \<longleftrightarrow> (\<forall>i < length (mh_data m). mh_index m (mh_data m ! i) = int i)"

lemma ordered_append:
  assumes "ordered val xs"
  shows "ordered_above val (xs @ [e]) (length xs)"
  unfolding ordered_above_def
proof (intro conjI allI impI, goal_cases)
  case (1 j)
  then have "j < length xs" "parent j < length xs" using parent_le [of j] by auto
  with 1 assms show ?case by (simp add: nth_append ordered_def)
next
  case (2 j)
  then have "parent j < length xs" using parent_less [of j] by auto
  with 2 show ?case by simp
qed

lemma Push_spec:
  "mset (mh_data (Push val m e)) = add_mset e (mset (mh_data m))"
  "ordered val (mh_data m) \<Longrightarrow> ordered val (mh_data (Push val m e))"
  "distinct (mh_data m) \<Longrightarrow> e \<notin> set (mh_data m) \<Longrightarrow> synced (Push val m e)"
proof -
  show m: "mset (mh_data (Push val m e)) = add_mset e (mset (mh_data m))"
    by (simp add: Push_def Let_def)
  show "ordered val (mh_data (Push val m e))" if o: "ordered val (mh_data m)"
    using ordered_append [OF o] by (simp add: Push_def Let_def shift_up_ordered)
  show "synced (Push val m e)" if d: "distinct (mh_data m)" "e \<notin> set (mh_data m)"
  proof -
    have "distinct (mh_data (Push val m e))"
      using d m by (metis distinct.simps(2) mset.simps(2) mset_eq_imp_distinct_iff)
    then show ?thesis by (simp add: synced_def Push_def Let_def set_indices_at)
  qed
qed

lemma removed:
  assumes "i < length xs"
  shows "mset (take (length xs - 1) (swap xs i (length xs - 1))) = mset xs - {#xs ! i#}"
proof -
  let ?n = "length xs - 1" and ?s = "swap xs i (length xs - 1)"
  have "length ?s = Suc ?n" using assms by simp
  then have "?s = take ?n ?s @ [?s ! ?n]" using take_Suc_conv_app_nth [of ?n ?s] by simp
  moreover have "?s ! ?n = xs ! i" using assms by (simp add: nth_swap)
  ultimately have "mset ?s = add_mset (xs ! i) (mset (take ?n ?s))"
    by (metis mset.simps mset_append union_mset_add_mset_right add.right_neutral)
  then show ?thesis using assms by simp
qed

lemma distinct_shift_down: "distinct (shift_down val i xs) = distinct xs"
  by (rule mset_eq_imp_distinct_iff [OF mset_shift_down])

lemma distinct_removed:
  assumes "i < length xs" "distinct xs"
  shows "distinct (take (length xs - 1) (swap xs i (length xs - 1)))"
proof -
  have "mset (swap xs i (length xs - 1)) = mset xs" using assms(1) by simp
  then show ?thesis using assms(2) mset_eq_imp_distinct_iff distinct_take by blast
qed

lemma removed_ordered:
  assumes "ordered val xs" "i < length xs" and "0 < i \<Longrightarrow> val (xs ! parent i) \<le> val (last xs)"
  shows "ordered_below val (take (length xs - 1) (swap xs i (length xs - 1))) i"
  unfolding ordered_below_def
proof (intro conjI allI impI, goal_cases)
  case (1 j)
  have "parent j < j" using 1 parent_less by blast
  moreover have "last xs = xs ! (length xs - 1)" using assms(2) by (intro last_conv_nth) auto
  ultimately show ?case
    using 1 assms by (cases "j = i") (auto simp: nth_swap ordered_def)
next
  case (2 j)
  have "parent i < i" "j \<noteq> i" using 2 parent_less [of i] parent_less [of j] by auto
  have "val (xs ! parent i) \<le> val (xs ! i)" "val (xs ! i) \<le> val (xs ! j)"
    using 2 assms(1,2) by (auto simp: ordered_def)
  then have "val (xs ! parent i) \<le> val (xs ! j)" by (rule order_trans)
  moreover have "swap xs i (length xs - 1) ! j = xs ! j"
    using 2 \<open>j \<noteq> i\<close> assms(2) by (subst nth_swap) auto
  moreover have "swap xs i (length xs - 1) ! parent i = xs ! parent i"
    using \<open>parent i < i\<close> assms(2) by (subst nth_swap) auto
  ultimately show ?case using 2 \<open>parent i < i\<close> assms(2) by simp
qed

lemma Pop_spec:
  assumes "mh_data m \<noteq> []"
  shows "fst (Pop val m) = Top m"
    and "mset (mh_data (snd (Pop val m))) = mset (mh_data m) - {#mh_data m ! 0#}"
    and "ordered val (mh_data m) \<Longrightarrow> ordered val (mh_data (snd (Pop val m)))"
    and "distinct (mh_data m) \<Longrightarrow> synced (snd (Pop val m))"
proof -
  have l: "0 < length (mh_data m)" using assms by simp
  show "fst (Pop val m) = Top m" using assms by (simp add: Pop_def Top_def Let_def)
  show m: "mset (mh_data (snd (Pop val m))) = mset (mh_data m) - {#mh_data m ! 0#}"
    using assms removed [OF l] by (simp add: Pop_def Let_def)
  show "ordered val (mh_data (snd (Pop val m)))" if "ordered val (mh_data m)"
    using assms removed_ordered [OF that l] by (simp add: Pop_def Let_def shift_down_ordered)
  have dist: "distinct (mh_data (snd (Pop val m)))" if "distinct (mh_data m)"
    using assms distinct_removed [OF l that] by (simp add: Pop_def Let_def distinct_shift_down)
  then show "synced (snd (Pop val m))" if "distinct (mh_data m)"
    using that assms by (auto simp: synced_def Pop_def Let_def set_indices_at)
qed

interpretation mh: prio "\<lambda>m. ordered val (mh_data m)" "\<lambda>m. mset (mh_data m)" val "Push val" "Pop val" Top
  for val :: "'e \<Rightarrow> int"
proof
  fix q :: "'e MinHeap" and e
  assume o: "ordered val (mh_data q)"
  show "ordered val (mh_data (Push val q e))" by (rule Push_spec(2) [OF o])
  show "mset (mh_data (Push val q e)) = add_mset e (mset (mh_data q))" by (rule Push_spec(1))
  show "(Top q = None) = (mset (mh_data q) = {#})" by (simp add: Top_def)
  show "e \<in># mset (mh_data q) \<and> (\<forall>x \<in># mset (mh_data q). val e \<le> val x)" if "Top q = Some e"
    using that ordered_root [OF o] by (auto simp: Top_def in_set_conv_nth split: if_splits)
  show "fst (Pop val q) = Top q"
  proof (cases "mh_data q = []")
    case True
    then show ?thesis by (simp add: Pop_def Top_def)
  qed (rule Pop_spec(1))
  show "ordered val (mh_data (snd (Pop val q)))"
  proof (cases "mh_data q = []")
    case True
    then show ?thesis using o by (simp add: Pop_def)
  qed (rule Pop_spec(3) [OF _ o])
  show "mset (mh_data (snd (Pop val q))) = mset (mh_data q) - {#e#}" if "Top q = Some e"
    using that Pop_spec(2) by (auto simp: Top_def split: if_splits)
qed

text \<open>
  C34. The heap is a priority queue: whatever elements are pushed into an empty heap, popping as many
  times gives back exactly these elements in ascending order of their keys.
\<close>

theorem heap_sorts:
  "mset (pops (Pop val) (length es) (foldl (Push val) (NewMinHeap ix) es)) = mset es \<and>
   sorted (map val (pops (Pop val) (length es) (foldl (Push val) (NewMinHeap ix) es)))"
proof -
  have "ordered val (mh_data (NewMinHeap ix))" by (simp add: NewMinHeap_def ordered_def)
  note p = mh.pushes [OF this, of es]
  moreover have "mset (mh_data (foldl (Push val) (NewMinHeap ix) es)) = mset es"
    using p by (simp add: NewMinHeap_def)
  ultimately show ?thesis
    using mh.pops_sorted [of val "foldl (Push val) (NewMinHeap ix) es" "length es"]
    by (metis size_mset)
qed

subsection \<open>Dropping an element\<close>

lemma shift_down_prefix: "k < i \<Longrightarrow> i < length xs \<or> length xs = i \<Longrightarrow> shift_down val i xs ! k = xs ! k"
proof (induction val i xs rule: shift_down.induct)
  case (1 val i xs)
  define t where "t = (if i * 2 + 2 < length xs then
      (if val (xs ! (i * 2 + 1)) > val (xs ! (i * 2 + 2)) then i * 2 + 2 else i * 2 + 1)
    else i * 2 + 1)"
  show ?case
  proof (cases "i * 2 + 1 < length xs \<and> val (xs ! i) > val (xs ! t)")
    case True
    then have b: "i * 2 + 1 < length xs" "val (xs ! i) > val (xs ! t)" by simp_all
    have t: "i < t" "t < length xs" using b by (auto simp: t_def)
    have "shift_down val i xs = shift_down val t (swap xs i t)"
      using b by (subst shift_down.simps) (simp add: t_def Let_def)
    moreover have "shift_down val t (swap xs i t) ! k = swap xs i t ! k"
      by (rule "1.IH" [OF b(1) t_def b(2)]) (use t "1.prems" in auto)
    ultimately show ?thesis using t "1.prems" by (simp add: nth_swap)
  next
    case False
    then have "shift_down val i xs = xs" by (subst shift_down.simps) (auto simp: t_def Let_def)
    then show ?thesis by simp
  qed
qed

lemma Drop_spec:
  assumes "distinct (mh_data m)" "synced m" "i < length (mh_data m)"
  shows "\<exists>m'. Drop val m (mh_data m ! i) = Inr (True, m') \<and>
    mset (mh_data m') = mset (mh_data m) - {#mh_data m ! i#} \<and> distinct (mh_data m') \<and> synced m' \<and>
    (ordered val (mh_data m) \<and> (0 < i \<longrightarrow> val (mh_data m ! parent i) \<le> val (last (mh_data m)))
       \<longrightarrow> ordered val (mh_data m'))"
proof -
  let ?e = "mh_data m ! i" and ?n = "length (mh_data m) - 1"
  let ?t = "take ?n (swap (mh_data m) i ?n)"
  let ?ys = "shift_down val i ?t"
  let ?m = "m\<lparr>mh_data := ?ys, mh_index := set_indices (drop i ?ys) (int i) (mh_index m)\<rparr>"
  have ix: "mh_index m ?e = int i" using assms by (simp add: synced_def)
  have d: "Drop val m ?e = Inr (True, ?m)" using assms(3) ix by (simp add: Drop_def Let_def)
  have dist: "distinct ?ys" using distinct_removed [OF assms(3,1)] by (simp add: distinct_shift_down)
  have ms: "mset ?ys = mset (mh_data m) - {#?e#}" using removed [OF assms(3)] by simp
  have len: "length ?ys = ?n" by simp
  have ixm: "mh_index ?m = set_indices (drop i ?ys) (int i) (mh_index m)" by simp
  have "mh_index ?m (?ys ! k) = int k" if k: "k < length ?ys" for k
  proof (cases "k < i")
    case True
    have "?ys ! k = ?t ! k" by (rule shift_down_prefix [OF True]) (use assms(3) in auto)
    moreover have "?t ! k = mh_data m ! k" using True k assms(3) by (simp add: nth_swap)
    moreover have "mh_index ?m (?ys ! k) = mh_index m (?ys ! k)"
      unfolding ixm by (rule set_indices_other [OF nth_notin_drop [OF dist True k]])
    moreover have "mh_index m (mh_data m ! k) = int k" using assms(2) k by (simp add: synced_def)
    ultimately show ?thesis by (simp only:)
  next
    case False
    then have e: "?ys ! k = drop i ?ys ! (k - i)" and l: "k - i < length (drop i ?ys)"
      using k by auto
    have "mh_index ?m (?ys ! k) = int i + int (k - i)"
      unfolding ixm e by (rule set_indices_at [OF distinct_drop [OF dist] l])
    then show ?thesis using False by linarith
  qed
  then have "synced ?m" by (simp add: synced_def)
  moreover have "ordered val (mh_data ?m)"
    if "ordered val (mh_data m) \<and> (0 < i \<longrightarrow> val (mh_data m ! parent i) \<le> val (last (mh_data m)))"
    using that removed_ordered [OF _ assms(3), of val] by (simp add: shift_down_ordered)
  ultimately show ?thesis using d ms dist by auto
qed

lemma Drop_elem:
  assumes "distinct (mh_data m)" and "synced m" and "e \<in> set (mh_data m)"
  shows "\<exists>m'. Drop val m e = Inr (True, m') \<and> mset (mh_data m') = mset (mh_data m) - {#e#} \<and>
    distinct (mh_data m') \<and> synced m' \<and>
    (ordered val (mh_data m) \<and>
       (0 < mh_index m e \<longrightarrow> val (mh_data m ! parent (nat (mh_index m e))) \<le> val (last (mh_data m)))
       \<longrightarrow> ordered val (mh_data m'))"
proof -
  obtain i where i: "i < length (mh_data m)" "e = mh_data m ! i"
    using assms(3) by (auto simp: in_set_conv_nth)
  then have "mh_index m e = int i" using assms(2) by (simp add: synced_def)
  then show ?thesis using Drop_spec [OF assms(1,2) i(1), of val] i(2) by simp
qed

text \<open>
  Dropping an element that is in the heap, with the indices in step with the slice, removes
  exactly that element, keeps the indices in step and never fails; the heap order is kept when the
  last element, which takes its place, is not below the place's parent.
\<close>

theorem Drop_removes:
  assumes "distinct (mh_data m)" and "synced m" and "e \<in> set (mh_data m)"
  shows "\<exists>m'. Drop val m e = Inr (True, m') \<and> mset (mh_data m') = mset (mh_data m) - {#e#} \<and>
    distinct (mh_data m') \<and> synced m' \<and>
    (ordered val (mh_data m) \<and>
       (0 < mh_index m e \<longrightarrow> val (mh_data m ! parent (nat (mh_index m e))) \<le> val (last (mh_data m)))
       \<longrightarrow> ordered val (mh_data m'))"
  by (rule Drop_elem [OF assms])

definition heap_sample :: "nat MinHeap" where
  "heap_sample = foldl (Push int) (NewMinHeap (\<lambda>_. - 1)) [1, 10, 2, 11, 12, 3, 4]"

lemma Drop_removes_witness:
  "\<exists>m'. Drop int heap_sample 4 = Inr (True, m') \<and>
    mset (mh_data m') = mset (mh_data heap_sample) - {#4#} \<and> synced m'"
proof -
  have d: "mh_data heap_sample = [1, 10, 2, 11, 12, 3, 4]" by code_simp
  have "list_all (\<lambda>i. mh_index heap_sample (mh_data heap_sample ! i) = int i) [0..<7]" by code_simp
  then have "synced heap_sample" by (auto simp: synced_def d list_all_iff)
  then show ?thesis using Drop_removes [of heap_sample 4 int] by (auto simp: d)
qed

text \<open>
  Where \<open>Drop\<close> and \<open>Build\<close> break the heap order: \<open>Drop\<close> only moves the replacement down, so
  dropping 11 from the heap 1, 10, 2, 11, 12, 3, 4 leaves 4 below its parent 10; \<open>Build\<close> moves
  only the root down, again and again, so it does not order 5, 4, 3, 2, 1; and \<open>Drop\<close> of an
  element that was never pushed (index -1) panics.
\<close>

theorem heap_order_broken:
  "ordered int (mh_data heap_sample) \<and>
   (case Drop int heap_sample 11 of
      Inl _ \<Rightarrow> False
    | Inr (ok, m) \<Rightarrow> ok \<and> mh_data m = [1, 10, 2, 4, 12, 3] \<and> \<not> ordered int (mh_data m)) \<and>
   \<not> ordered int (mh_data (Build int \<lparr>mh_data = [5, 4, 3, 2, 1 :: nat], mh_index = (\<lambda>_. - 1)\<rparr>)) \<and>
   (case Drop int heap_sample 99 of Inl p \<Rightarrow> p = IndexOutOfRange | Inr _ \<Rightarrow> False)"
proof -
  have dec: "ordered int xs \<longleftrightarrow> list_all (\<lambda>j. int (xs ! parent j) \<le> int (xs ! j)) [1..<length xs]" for xs
    by (auto simp: ordered_def list_all_iff)
  show ?thesis unfolding dec by code_simp
qed

end
