(* ===== verification/TimerCtl.thy ===== *)
theory TimerCtl
  imports MinHeap
begin

text \<open>
  \<open>timer/task.go\<close> and \<open>timer/task_ctl.go\<close>: timed events in a heap keyed by their trigger time. A
  task is a reference (a natural number); its fields are in \<open>tc_task\<close>, its field \<open>index\<close> is the one
  the heap keeps. Times and durations are nanoseconds. The body of an event is the parameter \<open>ev\<close>;
  \<open>tc_fired\<close> records which events ran and the trigger time they ran for. \<open>clock k\<close> is the \<open>k\<close>-th
  reading of \<open>time.Now()\<close> in a call.
\<close>

record Task =
  t_Loop :: bool
  t_duration :: int
  t_triggerTime :: int

record TaskCtl =
  tc_heap :: "nat MinHeap"
  tc_task :: "nat \<Rightarrow> Task"
  tc_fired :: "(int \<times> nat) list"

text \<open>\<open>Task.Val\<close>, \<open>Task.Index\<close> and \<open>Task.SetIndex\<close>.\<close>

definition Val :: "TaskCtl \<Rightarrow> nat \<Rightarrow> int" where
  "Val t e = t_triggerTime (tc_task t e)"

definition Index :: "TaskCtl \<Rightarrow> nat \<Rightarrow> int" where
  "Index t e = mh_index (tc_heap t) e"

definition SetIndex :: "nat \<Rightarrow> int \<Rightarrow> TaskCtl \<Rightarrow> TaskCtl" where
  "SetIndex e i t = t\<lparr>tc_heap := (tc_heap t)\<lparr>mh_index := (mh_index (tc_heap t))(e := i)\<rparr>\<rparr>"

definition set_trigger :: "nat \<Rightarrow> int \<Rightarrow> TaskCtl \<Rightarrow> TaskCtl" where
  "set_trigger e tm t = t\<lparr>tc_task := (tc_task t)(e := (tc_task t e)\<lparr>t_triggerTime := tm\<rparr>)\<rparr>"

text \<open>A new task at a fresh reference; \<open>zero\<close> is the reading of the zero time.\<close>

definition NewTask :: "int \<Rightarrow> nat \<Rightarrow> int \<Rightarrow> bool \<Rightarrow> TaskCtl \<Rightarrow> TaskCtl" where
  "NewTask zero e dur loop t =
     SetIndex e (- 1)
       (t\<lparr>tc_task := (tc_task t)(e := \<lparr>t_Loop = loop, t_duration = dur, t_triggerTime = zero\<rparr>)\<rparr>)"

definition NewLoopTask :: "int \<Rightarrow> nat \<Rightarrow> int \<Rightarrow> TaskCtl \<Rightarrow> TaskCtl" where
  "NewLoopTask zero e dur = NewTask zero e dur True"

definition NewDelayTask :: "int \<Rightarrow> nat \<Rightarrow> int \<Rightarrow> TaskCtl \<Rightarrow> TaskCtl" where
  "NewDelayTask zero e dur = NewTask zero e dur False"

definition NewTaskCtl :: "(nat \<Rightarrow> Task) \<Rightarrow> TaskCtl" where
  "NewTaskCtl tasks = \<lparr>tc_heap = NewMinHeap (\<lambda>_. - 1), tc_task = tasks, tc_fired = []\<rparr>"

definition PushTask :: "nat \<Rightarrow> TaskCtl \<Rightarrow> TaskCtl" where
  "PushTask e t = t\<lparr>tc_heap := Push (Val t) (tc_heap t) e\<rparr>"

text \<open>\<open>Get\<close> on an empty heap asserts a nil interface and panics.\<close>

definition GetTask :: "TaskCtl \<Rightarrow> panic + nat" where
  "GetTask t = (case Top (tc_heap t) of None \<Rightarrow> Inl NilDereference | Some e \<Rightarrow> Inr e)"

definition LenTask :: "TaskCtl \<Rightarrow> nat" where
  "LenTask t = Len (tc_heap t)"

definition PopTask :: "TaskCtl \<Rightarrow> nat option \<times> TaskCtl" where
  "PopTask t = (case Pop (Val t) (tc_heap t) of (r, h) \<Rightarrow> (r, t\<lparr>tc_heap := h\<rparr>))"

text \<open>One pass of the loop of \<open>FrameCheck\<close>.\<close>

definition frame_step :: "(nat \<Rightarrow> TaskCtl \<Rightarrow> TaskCtl) \<Rightarrow> TaskCtl \<Rightarrow> TaskCtl" where
  "frame_step ev t =
     (case PopTask t of
        (None, t) \<Rightarrow> t
      | (Some e, t) \<Rightarrow>
          let t = ev e (t\<lparr>tc_fired := tc_fired t @ [(Val t e, e)]\<rparr>)
          in if t_Loop (tc_task t e)
             then PushTask e (set_trigger e (Val t e + t_duration (tc_task t e)) t)
             else t)"

definition due :: "int \<Rightarrow> TaskCtl \<Rightarrow> bool" where
  "due now t \<longleftrightarrow> LenTask t > 0 \<and> (case GetTask t of Inl _ \<Rightarrow> False | Inr e \<Rightarrow> Val t e \<le> now)"

partial_function (option) FrameCheck ::
  "(nat \<Rightarrow> int) \<Rightarrow> (nat \<Rightarrow> TaskCtl \<Rightarrow> TaskCtl) \<Rightarrow> nat \<Rightarrow> TaskCtl \<Rightarrow> TaskCtl option" where
  "FrameCheck clock ev k t =
     (if due (clock k) t then FrameCheck clock ev (k + 1) (frame_step ev t) else Some t)"

text \<open>\<open>Stop\<close> ignores the error of \<open>Drop\<close>; \<open>Start\<close> refuses a task whose index is not negative.\<close>

definition Stop :: "nat \<Rightarrow> (TaskCtl, unit) act" where
  "Stop e =
     seq get_st (\<lambda>t.
     seq (lift (Drop (Val t) (tc_heap t) e)) (\<lambda>(ok, h).
     modify (\<lambda>t. t\<lparr>tc_heap := h\<rparr>)))"

definition Start :: "int \<Rightarrow> nat \<Rightarrow> TaskCtl \<Rightarrow> TaskCtl" where
  "Start now e t =
     (if Index t e \<ge> 0 then t
      else PushTask e (set_trigger e (now + t_duration (tc_task t e)) t))"

definition Reset :: "int \<Rightarrow> nat \<Rightarrow> (TaskCtl, unit) act" where
  "Reset now e =
     seq (Stop e) (\<lambda>_.
     modify (\<lambda>t. PushTask e (set_trigger e (now + t_duration (tc_task t e)) t)))"

subsection \<open>Running the events that are due\<close>

text \<open>A controller in order: heap order by trigger time, no reference twice, loops with a positive period.\<close>

definition ctl_ok :: "TaskCtl \<Rightarrow> bool" where
  "ctl_ok t \<longleftrightarrow> ordered (Val t) (mh_data (tc_heap t)) \<and> distinct (mh_data (tc_heap t)) \<and>
     (\<forall>e \<in> set (mh_data (tc_heap t)). t_Loop (tc_task t e) \<longrightarrow> 0 < t_duration (tc_task t e))"

text \<open>How often a task has to run for the times up to \<open>now\<close>.\<close>

definition runs :: "int \<Rightarrow> Task \<Rightarrow> nat" where
  "runs now t =
     (if now < t_triggerTime t then 0
      else if t_Loop t then nat ((now - t_triggerTime t) div t_duration t) + 1 else 1)"

lemma runs_next:
  assumes "t_triggerTime t \<le> now" "t_Loop t" "0 < t_duration t"
  shows "runs now t = Suc (runs now (t\<lparr>t_triggerTime := t_triggerTime t + t_duration t\<rparr>))"
proof (cases "now < t_triggerTime t + t_duration t")
  case True
  then have "(now - t_triggerTime t) div t_duration t = 0"
    using assms by (intro div_pos_pos_trivial) auto
  with True assms show ?thesis by (simp add: runs_def)
next
  case False
  let ?a = "now - t_triggerTime t"
  have "?a div t_duration t = (?a - t_duration t) div t_duration t + 1"
    using assms(3) div_add_self2 [of "t_duration t" "?a - t_duration t"] by simp
  moreover have "0 \<le> (?a - t_duration t) div t_duration t"
    using False assms(3) by (intro pos_imp_zdiv_nonneg_iff [THEN iffD2]) auto
  ultimately show ?thesis using False assms by (simp add: runs_def algebra_simps)
qed

lemma due_top:
  "due now t \<longleftrightarrow> mh_data (tc_heap t) \<noteq> [] \<and> Val t (mh_data (tc_heap t) ! 0) \<le> now"
  by (auto simp: due_def LenTask_def Len_def GetTask_def Top_def)

lemma not_due:
  assumes "ctl_ok t" "\<not> due now t" "e \<in> set (mh_data (tc_heap t))"
  shows "now < Val t e"
  using assms ordered_root [of "Val t" "mh_data (tc_heap t)"]
  by (fastforce simp: ctl_ok_def due_top in_set_conv_nth)

definition still :: "(nat \<Rightarrow> TaskCtl \<Rightarrow> TaskCtl) \<Rightarrow> bool" where
  "still ev \<longleftrightarrow> (\<forall>e t. ev e t = t)"

lemma PushTask_mset: "mset (mh_data (tc_heap (PushTask e t))) = add_mset e (mset (mh_data (tc_heap t)))"
  by (simp add: PushTask_def Push_spec(1))

lemma set_trigger_heap: "tc_heap (set_trigger e tm t) = tc_heap t"
  by (simp add: set_trigger_def)

lemma PopTask_spec:
  assumes "ctl_ok t" "mh_data (tc_heap t) \<noteq> []"
  obtains t' where "PopTask t = (Some (mh_data (tc_heap t) ! 0), t')"
    "tc_task t' = tc_task t" "tc_fired t' = tc_fired t" "Val t' = Val t"
    "mset (mh_data (tc_heap t')) = mset (mh_data (tc_heap t)) - {#mh_data (tc_heap t) ! 0#}"
    "ordered (Val t) (mh_data (tc_heap t'))" "distinct (mh_data (tc_heap t'))"
    "mh_data (tc_heap t) ! 0 \<notin> set (mh_data (tc_heap t'))"
proof -
  let ?h = "tc_heap t" and ?x = "mh_data (tc_heap t) ! 0"
  let ?h' = "snd (Pop (Val t) ?h)"
  have l: "0 < length (mh_data ?h)" using assms(2) by simp
  have ok: "ordered (Val t) (mh_data ?h)" "distinct (mh_data ?h)" using assms(1) by (simp_all add: ctl_ok_def)
  have m: "mset (mh_data ?h') = mset (mh_data ?h) - {#?x#}" by (rule Pop_spec(2) [OF assms(2)])
  have "fst (Pop (Val t) ?h) = Some ?x" using Pop_spec(1) [OF assms(2)] assms(2) by (simp add: Top_def)
  then have pop: "PopTask t = (Some ?x, t\<lparr>tc_heap := ?h'\<rparr>)"
    by (simp add: PopTask_def prod.case_eq_if)
  have d: "distinct (mh_data ?h')"
    using distinct_removed [OF l ok(2)] assms(2) by (simp add: Pop_def Let_def distinct_shift_down)
  have "?x \<in># mset (mh_data ?h)" using assms(2) by simp
  then have "count (mset (mh_data ?h)) ?x = 1" using ok(2) by (simp add: distinct_count_atmost_1)
  then have "?x \<notin># mset (mh_data ?h')" unfolding m by (simp add: not_in_iff)
  then have n: "?x \<notin> set (mh_data ?h')" by simp
  show thesis
    by (rule that [OF pop]) (use m d n Pop_spec(3) [OF assms(2) ok(1)] in \<open>auto simp: Val_def\<close>)
qed

lemma ctl_ok_Push:
  assumes "ctl_ok u" "x \<notin> set (mh_data (tc_heap u))" "t_Loop (tc_task u x) \<longrightarrow> 0 < t_duration (tc_task u x)"
  shows "ctl_ok (PushTask x (set_trigger x v u))"
proof -
  let ?w = "set_trigger x v u" and ?t = "PushTask x (set_trigger x v u)"
  have w: "tc_heap ?w = tc_heap u" "tc_task ?w = (tc_task u)(x := (tc_task u x)\<lparr>t_triggerTime := v\<rparr>)"
    by (simp_all add: set_trigger_def)
  have "Val ?w y = Val u y" if "y \<in> set (mh_data (tc_heap u))" for y
    using that assms(2) w by (auto simp: Val_def)
  then have "ordered (Val ?w) (mh_data (tc_heap ?w))"
    using assms(1) ordered_cong [of "mh_data (tc_heap u)" "Val ?w" "Val u"] w by (simp add: ctl_ok_def)
  then have "ordered (Val ?w) (mh_data (tc_heap ?t))" by (simp add: PushTask_def Push_spec(2))
  moreover have "Val ?t = Val ?w" by (auto simp: PushTask_def Val_def fun_eq_iff)
  moreover have ms: "mset (mh_data (tc_heap ?t)) = add_mset x (mset (mh_data (tc_heap u)))"
    by (simp add: PushTask_mset w)
  then have "distinct (mh_data (tc_heap ?t))"
    using assms(1,2) by (metis ctl_ok_def distinct.simps(2) mset.simps(2) mset_eq_imp_distinct_iff)
  moreover have "set (mh_data (tc_heap ?t)) = insert x (set (mh_data (tc_heap u)))"
    using ms by (metis set_mset_add_mset_insert set_mset_mset)
  moreover have "tc_task ?t = tc_task ?w" by (simp add: PushTask_def)
  ultimately show ?thesis using assms(1,3) w by (auto simp: ctl_ok_def)
qed

lemma frame_step_spec:
  assumes "ctl_ok t" "mh_data (tc_heap t) \<noteq> []" "still ev"
  defines "x \<equiv> mh_data (tc_heap t) ! 0" and "t' \<equiv> frame_step ev t"
  shows "tc_fired t' = tc_fired t @ [(Val t x, x)]" and "ctl_ok t'"
    and "if t_Loop (tc_task t x)
         then mset (mh_data (tc_heap t')) = mset (mh_data (tc_heap t)) \<and>
           tc_task t' = (tc_task t)(x := (tc_task t x)\<lparr>t_triggerTime := Val t x + t_duration (tc_task t x)\<rparr>)
         else mset (mh_data (tc_heap t')) = mset (mh_data (tc_heap t)) - {#x#} \<and> tc_task t' = tc_task t"
proof -
  obtain p where p: "PopTask t = (Some x, p)" "tc_task p = tc_task t" "tc_fired p = tc_fired t" "Val p = Val t"
    "mset (mh_data (tc_heap p)) = mset (mh_data (tc_heap t)) - {#x#}"
    "ordered (Val t) (mh_data (tc_heap p))" "distinct (mh_data (tc_heap p))" "x \<notin> set (mh_data (tc_heap p))"
    using PopTask_spec [OF assms(1,2)] unfolding x_def by metis
  have x: "x \<in># mset (mh_data (tc_heap t))" using assms(2) by (simp add: x_def)
  have sub: "set (mh_data (tc_heap p)) \<subseteq> set (mh_data (tc_heap t))"
    using p(5) by (metis in_diffD set_mset_mset subsetI)
  let ?u = "p\<lparr>tc_fired := tc_fired p @ [(Val t x, x)]\<rparr>"
  let ?w = "set_trigger x (Val t x + t_duration (tc_task t x)) ?u"
  have w: "tc_heap ?w = tc_heap p" "tc_fired ?w = tc_fired t @ [(Val t x, x)]"
    "tc_task ?w = (tc_task t)(x := (tc_task t x)\<lparr>t_triggerTime := Val t x + t_duration (tc_task t x)\<rparr>)"
    using p by (simp_all add: set_trigger_def)
  have ev: "ev e s = s" for e s using assms(3) by (simp add: still_def)
  have vu: "Val ?u = Val t" using p(4) by (auto simp: Val_def fun_eq_iff)
  have eq: "t' = (if t_Loop (tc_task t x) then PushTask x ?w else ?u)"
    using p(1,2,4) vu by (simp add: t'_def frame_step_def ev Let_def)
  show "tc_fired t' = tc_fired t @ [(Val t x, x)]"
    using p(3) w by (simp add: eq PushTask_def)
  show "if t_Loop (tc_task t x)
         then mset (mh_data (tc_heap t')) = mset (mh_data (tc_heap t)) \<and>
           tc_task t' = (tc_task t)(x := (tc_task t x)\<lparr>t_triggerTime := Val t x + t_duration (tc_task t x)\<rparr>)
         else mset (mh_data (tc_heap t')) = mset (mh_data (tc_heap t)) - {#x#} \<and> tc_task t' = tc_task t"
    using p(2,5) w x by (simp add: eq PushTask_def Push_spec(1))
  show "ctl_ok t'"
  proof (cases "t_Loop (tc_task t x)")
    case True
    then have t': "t' = PushTask x ?w" using eq by simp
    have "ctl_ok ?u" using assms(1) p vu sub by (auto simp: ctl_ok_def)
    then show ?thesis using True t' ctl_ok_Push [of ?u x] assms(1) p(2,8) x by (simp add: ctl_ok_def)
  next
    case False
    then have "t' = ?u" using eq by simp
    then show ?thesis using assms(1) p vu sub by (auto simp: ctl_ok_def)
  qed
qed

definition load :: "int \<Rightarrow> TaskCtl \<Rightarrow> nat" where
  "load now t = (\<Sum>e \<in># mset (mh_data (tc_heap t)). runs now (tc_task t e))"

lemma frame_step_facts:
  assumes "ctl_ok t" "due now t" "still ev"
  defines "x \<equiv> mh_data (tc_heap t) ! 0" and "t' \<equiv> frame_step ev t"
  shows "runs now (tc_task t e) = (if e = x then 1 else 0) +
           (if e \<in> set (mh_data (tc_heap t')) \<or> e \<noteq> x then runs now (tc_task t' e) else 0)"
    and "set (mh_data (tc_heap t')) = (if t_Loop (tc_task t x) then set (mh_data (tc_heap t))
           else set (mh_data (tc_heap t)) - {x})"
    and "t_Loop (tc_task t' e) = t_Loop (tc_task t e)"
    and "Val t e \<le> Val t' e" and "now < Val t e \<Longrightarrow> Val t' e = Val t e"
    and "x \<in> set (mh_data (tc_heap t))" "Val t x \<le> now"
    and "\<forall>e \<in> set (mh_data (tc_heap t)). Val t x \<le> Val t e"
proof -
  have ne: "mh_data (tc_heap t) \<noteq> []" and v: "Val t x \<le> now" using assms(2) by (simp_all add: due_top x_def)
  note st = frame_step_spec [OF assms(1) ne assms(3), folded x_def t'_def]
  have dist: "distinct (mh_data (tc_heap t))" using assms(1) by (simp add: ctl_ok_def)
  show x: "x \<in> set (mh_data (tc_heap t))" and "Val t x \<le> now" using ne v by (simp_all add: x_def)
  show "\<forall>e \<in> set (mh_data (tc_heap t)). Val t x \<le> Val t e"
    using assms(1) ordered_root [of "Val t" "mh_data (tc_heap t)"]
    by (auto simp: ctl_ok_def x_def in_set_conv_nth)
  have dur: "t_Loop (tc_task t x) \<Longrightarrow> 0 < t_duration (tc_task t x)"
    using assms(1) x by (simp add: ctl_ok_def)
  show set': "set (mh_data (tc_heap t')) = (if t_Loop (tc_task t x) then set (mh_data (tc_heap t))
           else set (mh_data (tc_heap t)) - {x})"
  proof (cases "t_Loop (tc_task t x)")
    case True
    with st(3) show ?thesis by (simp) (metis mset_eq_setD)
  next
    case False
    then have "mset (mh_data (tc_heap t')) = mset (remove1 x (mh_data (tc_heap t)))" using st(3) by simp
    then have "set (mh_data (tc_heap t')) = set (remove1 x (mh_data (tc_heap t)))" by (rule mset_eq_setD)
    with False dist show ?thesis by (simp add: set_remove1_eq)
  qed
  show "t_Loop (tc_task t' e) = t_Loop (tc_task t e)" using st(3) by (auto split: if_splits)
  show "Val t e \<le> Val t' e" using st(3) dur by (auto simp: Val_def split: if_splits)
  show "now < Val t e \<Longrightarrow> Val t' e = Val t e" using st(3) v by (auto simp: Val_def split: if_splits)
  show "runs now (tc_task t e) = (if e = x then 1 else 0) +
           (if e \<in> set (mh_data (tc_heap t')) \<or> e \<noteq> x then runs now (tc_task t' e) else 0)"
  proof (cases "e = x")
    case False
    then show ?thesis using st(3) by (auto split: if_splits)
  next
    case True
    show ?thesis
    proof (cases "t_Loop (tc_task t x)")
      case loop: True
      then have "runs now (tc_task t x) = Suc (runs now (tc_task t' x))"
        using st(3) runs_next [of "tc_task t x" now] v dur by (simp add: Val_def)
      then show ?thesis using True set' x loop by simp
    next
      case False
      then have "runs now (tc_task t x) = 1" using v by (simp add: runs_def Val_def)
      then show ?thesis using True set' False by simp
    qed
  qed
qed

lemma load_step:
  assumes "ctl_ok t" "due now t" "still ev"
  shows "load now t = Suc (load now (frame_step ev t))"
proof -
  note f = frame_step_facts [OF assms]
  let ?x = "mh_data (tc_heap t) ! 0" and ?A = "set (mh_data (tc_heap t))"
    and ?B = "set (mh_data (tc_heap (frame_step ev t)))"
    and ?r = "\<lambda>u e. runs now (tc_task u e)"
  have sum: "load now u = (\<Sum>e \<in> set (mh_data (tc_heap u)). ?r u e)" if "ctl_ok u" for u
    using that by (simp add: load_def ctl_ok_def sum_unfold_sum_mset mset_set_set)
  have ok: "ctl_ok (frame_step ev t)"
    using assms(2) by (intro frame_step_spec(2) [OF assms(1) _ assms(3)]) (simp add: due_top)
  have rest: "?B - {?x} = ?A - {?x}" using f(2) by (auto split: if_splits)
  have "load now t = ?r t ?x + (\<Sum>e \<in> ?A - {?x}. ?r t e)"
    using sum [OF assms(1)] f(6) by (simp add: sum.remove)
  also have "(\<Sum>e \<in> ?A - {?x}. ?r t e) = (\<Sum>e \<in> ?A - {?x}. ?r (frame_step ev t) e)"
  proof (rule sum.cong [OF refl])
    show "?r t e = ?r (frame_step ev t) e" if "e \<in> ?A - {?x}" for e using that f(1) [of e] by simp
  qed
  also have "?r t ?x = Suc (if ?x \<in> ?B then ?r (frame_step ev t) ?x else 0)" by (subst f(1)) simp
  also have "\<dots> + (\<Sum>e \<in> ?A - {?x}. ?r (frame_step ev t) e) = Suc (load now (frame_step ev t))"
  proof (cases "?x \<in> ?B")
    case True
    then have "load now (frame_step ev t) = ?r (frame_step ev t) ?x + (\<Sum>e \<in> ?B - {?x}. ?r (frame_step ev t) e)"
      by (simp add: sum [OF ok] sum.remove)
    then show ?thesis using True by (simp only: rest if_True add_Suc)
  next
    case False
    then have "?B - {?x} = ?B" by simp
    then show ?thesis using False by (simp only: sum [OF ok] rest [symmetric] if_False add_Suc add_0)
  qed
  finally show ?thesis .
qed

lemma load_less: "ctl_ok t \<Longrightarrow> due now t \<Longrightarrow> still ev \<Longrightarrow> load now (frame_step ev t) < load now t"
  by (simp add: load_step)

text \<open>What a run of the loop up to the time \<open>now\<close> leaves and logs.\<close>

definition ran :: "int \<Rightarrow> TaskCtl \<Rightarrow> (int \<times> nat) list \<Rightarrow> TaskCtl \<Rightarrow> bool" where
  "ran now t log t' \<longleftrightarrow>
     ctl_ok t' \<and> tc_fired t' = tc_fired t @ log \<and> sorted (map fst log) \<and> (\<forall>p \<in> set log. fst p \<le> now) \<and>
     (\<forall>e. count_list (map snd log) e =
        (if e \<in> set (mh_data (tc_heap t)) then runs now (tc_task t e) else 0)) \<and>
     set (mh_data (tc_heap t')) =
       {e \<in> set (mh_data (tc_heap t)). t_Loop (tc_task t e) \<or> now < Val t e} \<and>
     (\<forall>e \<in> set (mh_data (tc_heap t')). now < Val t' e)"

lemma FrameCheck_run:
  assumes "ctl_ok t" "still ev" "\<forall>k. clock k = now"
  shows "\<exists>t' log. FrameCheck clock ev k t = Some t' \<and> ran now t log t' \<and>
    (\<forall>b. (\<forall>e \<in> set (mh_data (tc_heap t)). b \<le> Val t e) \<longrightarrow> (\<forall>p \<in> set log. b \<le> fst p))"
  using assms(1)
proof (induction "load now t" arbitrary: t k rule: less_induct)
  case less
  show ?case
  proof (cases "due now t")
    case False
    then have fc: "FrameCheck clock ev k t = Some t" using assms(3) by (subst FrameCheck.simps) simp
    have later: "now < Val t e" if "e \<in> set (mh_data (tc_heap t))" for e
      by (rule not_due [OF less.prems False that])
    then have "ran now t [] t" using less.prems by (auto simp: ran_def runs_def Val_def)
    with fc show ?thesis by auto
  next
    case True
    let ?x = "mh_data (tc_heap t) ! 0" and ?t1 = "frame_step ev t"
    have ne: "mh_data (tc_heap t) \<noteq> []" using True by (simp add: due_top)
    note f = frame_step_facts [OF less.prems True assms(2)]
    note st = frame_step_spec [OF less.prems ne assms(2)]
    obtain t' log where t': "FrameCheck clock ev (k + 1) ?t1 = Some t'" and r: "ran now ?t1 log t'"
      and low: "\<And>b. \<forall>e \<in> set (mh_data (tc_heap ?t1)). b \<le> Val ?t1 e \<Longrightarrow> \<forall>p \<in> set log. b \<le> fst p"
      using less.hyps [OF load_less [OF less.prems True assms(2)] st(2), of "k + 1"] by blast
    have fc: "FrameCheck clock ev k t = Some t'"
      using t' True assms(3) by (subst FrameCheck.simps) simp
    have sub: "set (mh_data (tc_heap ?t1)) \<subseteq> set (mh_data (tc_heap t))" using f(2) by (auto split: if_splits)
    have lowx: "b \<le> Val ?t1 e"
      if "\<forall>e \<in> set (mh_data (tc_heap t)). b \<le> Val t e" "e \<in> set (mh_data (tc_heap ?t1))" for b e
      using that sub f(4) [of e] by (meson order_trans subsetD)
    have "\<forall>p \<in> set log. Val t ?x \<le> fst p" using low lowx f(8) by blast
    moreover have "count_list (map snd ((Val t ?x, ?x) # log)) e =
        (if e \<in> set (mh_data (tc_heap t)) then runs now (tc_task t e) else 0)" for e
    proof -
      have c: "count_list (map snd log) e =
          (if e \<in> set (mh_data (tc_heap ?t1)) then runs now (tc_task ?t1 e) else 0)"
        using r by (simp add: ran_def)
      show ?thesis
      proof (cases "e = ?x")
        case True
        then show ?thesis using c f(1) [of e] f(6) by auto
      next
        case False
        then have "e \<in> set (mh_data (tc_heap ?t1)) \<longleftrightarrow> e \<in> set (mh_data (tc_heap t))"
          using f(2) by (auto split: if_splits)
        then show ?thesis using c f(1) [of e] False by auto
      qed
    qed
    moreover have "set (mh_data (tc_heap t')) =
        {e \<in> set (mh_data (tc_heap t)). t_Loop (tc_task t e) \<or> now < Val t e}"
    proof -
      have "e \<in> set (mh_data (tc_heap ?t1)) \<and> (t_Loop (tc_task ?t1 e) \<or> now < Val ?t1 e) \<longleftrightarrow>
        e \<in> set (mh_data (tc_heap t)) \<and> (t_Loop (tc_task t e) \<or> now < Val t e)" for e
      proof (cases "e = ?x")
        case True
        then show ?thesis using f(2,3,6,7) by (auto split: if_splits)
      next
        case False
        then have "Val ?t1 e = Val t e" using st(3) by (auto simp: Val_def split: if_splits)
        with False show ?thesis using f(2,3) by (auto split: if_splits)
      qed
      then show ?thesis using r by (simp add: ran_def)
    qed
    ultimately have "ran now t ((Val t ?x, ?x) # log) t'"
      using r st(1) f(7) by (auto simp: ran_def)
    moreover have "\<forall>p \<in> set ((Val t ?x, ?x) # log). b \<le> fst p"
      if "\<forall>e \<in> set (mh_data (tc_heap t)). b \<le> Val t e" for b
      using that f(6) low lowx by auto
    ultimately show ?thesis using fc by blast
  qed
qed

text \<open>
  \<open>FrameCheck\<close> reads the clock before every pass. Whatever the events do, it returns after \<open>n\<close> passes
  exactly if each of them found a task due at its own reading and the reading after them does not.
\<close>

definition passed :: "(nat \<Rightarrow> int) \<Rightarrow> (nat \<Rightarrow> TaskCtl \<Rightarrow> TaskCtl) \<Rightarrow> nat \<Rightarrow> TaskCtl \<Rightarrow> nat \<Rightarrow> bool" where
  "passed clock ev k t n \<longleftrightarrow>
     (\<forall>i < n. due (clock (k + i)) ((frame_step ev ^^ i) t)) \<and> \<not> due (clock (k + n)) ((frame_step ev ^^ n) t)"

lemma passed_Suc: "passed clock ev k t (Suc n) \<longleftrightarrow> due (clock k) t \<and> passed clock ev (k + 1) (frame_step ev t) n"
  by (auto simp: passed_def funpow_swap1 All_less_Suc2)

lemma FrameCheck_after:
  "passed clock ev k t n \<Longrightarrow> FrameCheck clock ev k t = Some ((frame_step ev ^^ n) t)"
proof (induction n arbitrary: k t)
  case 0
  then show ?case by (subst FrameCheck.simps) (simp add: passed_def)
next
  case (Suc n)
  then show ?case by (subst FrameCheck.simps) (simp add: passed_Suc funpow_swap1)
qed

lemma FrameCheck_passed:
  assumes "FrameCheck clock ev k t = Some t'"
  shows "\<exists>n. passed clock ev k t n"
proof (rule FrameCheck.raw_induct [OF _ assms, of "\<lambda>clock ev k t _. \<exists>n. passed clock ev k t n"])
  fix f clock ev k t t'
  assume IH: "\<And>clock ev k t t'. f clock ev k t = Some t' \<Longrightarrow> \<exists>n. passed clock ev k t n"
    and f: "(if due (clock k) t then f clock ev (k + 1) (frame_step ev t) else Some t) = Some t'"
  show "\<exists>n. passed clock ev k t n"
  proof (cases "due (clock k) t")
    case True
    then have "\<exists>n. passed clock ev (k + 1) (frame_step ev t) n" using f by (intro IH) simp
    then show ?thesis using True passed_Suc by blast
  next
    case False
    then show ?thesis by (auto simp: passed_def intro!: exI [of _ 0])
  qed
qed

text \<open>
  An event may work on the controller as long as it keeps it in order and does not itself put its own
  task back: starting other tasks, for one.
\<close>

definition ready :: "nat \<Rightarrow> TaskCtl \<Rightarrow> bool" where
  "ready x t \<longleftrightarrow> ctl_ok t \<and> x \<notin> set (mh_data (tc_heap t)) \<and>
     (t_Loop (tc_task t x) \<longrightarrow> 0 < t_duration (tc_task t x))"

definition orderly :: "(nat \<Rightarrow> TaskCtl \<Rightarrow> TaskCtl) \<Rightarrow> bool" where
  "orderly ev \<longleftrightarrow> (\<forall>x t. ready x t \<longrightarrow> ready x (ev x t))"

lemma still_orderly: "still ev \<Longrightarrow> orderly ev"
  by (simp add: still_def orderly_def)

lemma Start_ready:
  assumes "ready x t" "x \<noteq> e" "Index t e < 0 \<longrightarrow> e \<notin> set (mh_data (tc_heap t))"
    and "t_Loop (tc_task t e) \<longrightarrow> 0 < t_duration (tc_task t e)"
  shows "ready x (Start now e t)"
proof (cases "Index t e \<ge> 0")
  case False
  let ?t = "PushTask e (set_trigger e (now + t_duration (tc_task t e)) t)"
  have "mset (mh_data (tc_heap ?t)) = mset (e # mh_data (tc_heap t))"
    by (simp add: PushTask_mset set_trigger_heap)
  then have "set (mh_data (tc_heap ?t)) = set (e # mh_data (tc_heap t))" by (rule mset_eq_setD)
  moreover have "ctl_ok ?t" using assms False by (intro ctl_ok_Push) (auto simp: ready_def)
  ultimately show ?thesis
    using assms(1,2) False by (auto simp: ready_def Start_def PushTask_def set_trigger_def)
qed (use assms(1) in \<open>simp add: Start_def\<close>)

lemma frame_step_orderly:
  assumes "orderly ev" "ctl_ok t" "due now t"
  shows "ctl_ok (frame_step ev t)"
proof -
  let ?x = "mh_data (tc_heap t) ! 0"
  have ne: "mh_data (tc_heap t) \<noteq> []" using assms(3) by (simp add: due_top)
  obtain p where p: "PopTask t = (Some ?x, p)" "tc_task p = tc_task t" "Val p = Val t"
    "mset (mh_data (tc_heap p)) = mset (mh_data (tc_heap t)) - {#?x#}"
    "ordered (Val t) (mh_data (tc_heap p))" "distinct (mh_data (tc_heap p))" "?x \<notin> set (mh_data (tc_heap p))"
    using PopTask_spec [OF assms(2) ne] by metis
  have sub: "set (mh_data (tc_heap p)) \<subseteq> set (mh_data (tc_heap t))"
    using p(4) by (metis in_diffD set_mset_mset subsetI)
  let ?u = "p\<lparr>tc_fired := tc_fired p @ [(Val p ?x, ?x)]\<rparr>"
  have "Val ?u = Val t" using p(3) by (auto simp: Val_def fun_eq_iff)
  then have "ready ?x ?u" using assms(2) p sub ne by (auto simp: ready_def ctl_ok_def)
  then have ok: "ready ?x (ev ?x ?u)" using assms(1) by (simp add: orderly_def)
  have "frame_step ev t = (let u = ev ?x ?u in if t_Loop (tc_task u ?x)
      then PushTask ?x (set_trigger ?x (Val u ?x + t_duration (tc_task u ?x)) u) else u)"
    by (simp add: frame_step_def p(1))
  then show ?thesis using ok by (auto simp: Let_def ready_def intro: ctl_ok_Push)
qed

lemma passed_in_order:
  assumes "orderly ev" "ctl_ok t" "passed clock ev k t n"
  shows "ctl_ok ((frame_step ev ^^ n) t)"
    and "\<forall>e \<in> set (mh_data (tc_heap ((frame_step ev ^^ n) t))). clock (k + n) < Val ((frame_step ev ^^ n) t) e"
proof -
  have ok: "ctl_ok ((frame_step ev ^^ j) t)" if "j \<le> n" for j
    using that
  proof (induction j)
    case (Suc j)
    then have "due (clock (k + j)) ((frame_step ev ^^ j) t)" using assms(3) by (simp add: passed_def)
    with Suc show ?case using frame_step_orderly [OF assms(1)] by simp
  qed (use assms(2) in simp)
  show "ctl_ok ((frame_step ev ^^ n) t)" using ok by simp
  then show "\<forall>e \<in> set (mh_data (tc_heap ((frame_step ev ^^ n) t))). clock (k + n) < Val ((frame_step ev ^^ n) t) e"
    using not_due assms(3) by (auto simp: passed_def)
qed

text \<open>
  Events that leave the timers alone: the passes neither depend on the readings nor lose the order of
  the controller, and each one takes one run off what is due at any time that finds the task due.
\<close>

lemma pass_ok: "ctl_ok t \<Longrightarrow> still ev \<Longrightarrow> due now t \<Longrightarrow> ctl_ok (frame_step ev t)"
  by (rule frame_step_spec(2)) (simp_all add: due_top)

lemma passes_load:
  assumes "ctl_ok t" "still ev" "\<forall>i < n. due now ((frame_step ev ^^ i) t)"
  shows "ctl_ok ((frame_step ev ^^ n) t) \<and> load now t = n + load now ((frame_step ev ^^ n) t)"
  using assms(3)
proof (induction n)
  case 0
  then show ?case using assms(1) by simp
next
  case (Suc n)
  then have "due now ((frame_step ev ^^ n) t)" by simp
  with Suc show ?case using assms(2) by (simp add: load_step pass_ok [of _ _ now])
qed

lemma load_due:
  assumes "ctl_ok t"
  shows "due now t \<longleftrightarrow> 0 < load now t"
proof -
  let ?x = "mh_data (tc_heap t) ! 0"
  have "due now t" if "e \<in> set (mh_data (tc_heap t))" "runs now (tc_task t e) \<noteq> 0" for e
    using not_due [OF assms, of now e] that by (fastforce simp: runs_def Val_def split: if_splits)
  moreover have "?x \<in> set (mh_data (tc_heap t)) \<and> runs now (tc_task t ?x) \<noteq> 0" if "due now t"
    using that by (auto simp: due_top runs_def Val_def)
  moreover have "load now t = 0 \<longleftrightarrow> (\<forall>e \<in> set (mh_data (tc_heap t)). runs now (tc_task t e) = 0)"
    by (simp add: load_def)
  ultimately show ?thesis by (metis neq0_conv)
qed

lemma due_later: "due now t \<Longrightarrow> now \<le> now' \<Longrightarrow> due now' t"
  by (simp add: due_top)

text \<open>
  With a clock that does not go back, the loop is over at the first reading that has seen as many passes
  as there are runs due at it, and has then done what it would have done with the clock standing still
  at that reading.
\<close>

lemma passed_load:
  assumes "ctl_ok t" "still ev" "mono clock" "passed clock ev k t n"
  shows "load (clock (k + n)) t = n" and "\<forall>i < n. i < load (clock (k + i)) t"
    and "FrameCheck (\<lambda>_. clock (k + n)) ev 0 t = Some ((frame_step ev ^^ n) t)"
proof -
  have up: "clock (k + i) \<le> clock (k + j)" if "i \<le> j" for i j using that assms(3) by (simp add: monoD)
  have d: "\<forall>i < n. due (clock (k + i)) ((frame_step ev ^^ i) t)"
    and e: "\<not> due (clock (k + n)) ((frame_step ev ^^ n) t)" using assms(4) by (simp_all add: passed_def)
  have dj: "\<forall>i < j. due (clock (k + j)) ((frame_step ev ^^ i) t)" if "j \<le> n" for j
    using d that up due_later by (meson less_imp_le order_less_le_trans)
  note l = passes_load [OF assms(1,2) dj]
  show "load (clock (k + n)) t = n" using l [of n] e load_due [of "(frame_step ev ^^ n) t"] by auto
  show "\<forall>i < n. i < load (clock (k + i)) t" using l d load_due by (metis less_add_same_cancel1 less_imp_le)
  show "FrameCheck (\<lambda>_. clock (k + n)) ev 0 t = Some ((frame_step ev ^^ n) t)"
    using dj [of n] e by (intro FrameCheck_after) (simp add: passed_def)
qed

lemma load_passed:
  assumes "ctl_ok t" "still ev" "mono clock" "load (clock (k + n)) t \<le> n"
    and "\<forall>i < n. i < load (clock (k + i)) t"
  shows "passed clock ev k t n"
proof -
  have up: "clock (k + i) \<le> clock (k + j)" if "i \<le> j" for i j using that assms(3) by (simp add: monoD)
  have d: "\<forall>i < j. due (clock (k + i)) ((frame_step ev ^^ i) t)" if "j \<le> n" for j
    using that
  proof (induction j)
    case (Suc j)
    then have "\<forall>i < j. due (clock (k + j)) ((frame_step ev ^^ i) t)"
      using up due_later by (meson less_imp_le Suc_leD)
    note l = passes_load [OF assms(1,2) this]
    then have "due (clock (k + j)) ((frame_step ev ^^ j) t)"
      using assms(5) Suc.prems load_due by (metis Suc_le_lessD less_add_same_cancel1)
    then show ?case using Suc by (simp add: less_Suc_eq)
  qed simp
  have "\<forall>i < n. due (clock (k + n)) ((frame_step ev ^^ i) t)"
    using d [of n] up due_later by (meson less_imp_le order_refl)
  note l = passes_load [OF assms(1,2) this]
  then have "\<not> due (clock (k + n)) ((frame_step ev ^^ n) t)" using assms(4) load_due [of "(frame_step ev ^^ n) t"] by auto
  with d [of n] show ?thesis by (simp add: passed_def)
qed

lemma FrameCheck_returns:
  assumes "ctl_ok t" "still ev" "mono clock"
  shows "FrameCheck clock ev k t \<noteq> None \<longleftrightarrow> (\<exists>n. load (clock (k + n)) t \<le> n)"
proof
  assume "FrameCheck clock ev k t \<noteq> None"
  then obtain n where n: "passed clock ev k t n" using FrameCheck_passed by blast
  show "\<exists>n. load (clock (k + n)) t \<le> n" using passed_load(1) [OF assms n] by (metis order_refl)
next
  assume ex: "\<exists>n. load (clock (k + n)) t \<le> n"
  let ?n = "LEAST n. load (clock (k + n)) t \<le> n"
  have "load (clock (k + ?n)) t \<le> ?n" using ex by (rule LeastI_ex)
  moreover have "\<forall>i < ?n. i < load (clock (k + i)) t" using not_less_Least leI by blast
  ultimately show "FrameCheck clock ev k t \<noteq> None"
    using FrameCheck_after [OF load_passed [OF assms]] by auto
qed

lemma passes_log:
  assumes "ctl_ok t" "still ev" "\<forall>i < n. due (clock i) ((frame_step ev ^^ i) t)"
  shows "ctl_ok ((frame_step ev ^^ n) t) \<and> (\<exists>log. tc_fired ((frame_step ev ^^ n) t) = tc_fired t @ log \<and>
    length log = n \<and> (\<forall>i < n. fst (log ! i) \<le> clock i))"
  using assms(3)
proof (induction n)
  case (Suc n)
  let ?s = "(frame_step ev ^^ n) t"
  have d: "due (clock n) ?s" using Suc.prems by simp
  then have ne: "mh_data (tc_heap ?s) \<noteq> []" and v: "Val ?s (mh_data (tc_heap ?s) ! 0) \<le> clock n"
    by (simp_all add: due_top)
  obtain log where ok: "ctl_ok ?s" and log: "tc_fired ?s = tc_fired t @ log" "length log = n"
    "\<forall>i < n. fst (log ! i) \<le> clock i" using Suc by auto
  note st = frame_step_spec [OF ok ne assms(2)]
  show ?case
    using st(1,2) log v by (auto simp: nth_append less_Suc_eq intro!: exI [of _ "log @ [(Val ?s (mh_data (tc_heap ?s) ! 0), mh_data (tc_heap ?s) ! 0)]"])
qed (use assms(1) in simp)

lemma FrameCheck_log:
  assumes "ctl_ok t" "still ev" "mono clock" "FrameCheck clock ev k t = Some t'"
  shows "\<exists>log. ran (clock (k + length log)) t log t' \<and> length log = load (clock (k + length log)) t \<and>
         (\<forall>i < length log. fst (log ! i) \<le> clock (k + i))"
proof -
  obtain n where n: "passed clock ev k t n" using FrameCheck_passed [OF assms(4)] by blast
  note l = passed_load [OF assms(1-3) n]
  have eq: "t' = (frame_step ev ^^ n) t" using assms(4) FrameCheck_after [OF n] by simp
  obtain log where log: "ran (clock (k + n)) t log t'"
    using FrameCheck_run [OF assms(1,2), of "\<lambda>_. clock (k + n)" "clock (k + n)" 0] l(3) eq by auto
  obtain log' where log': "tc_fired t' = tc_fired t @ log'" "length log' = n"
    "\<forall>i < n. fst (log' ! i) \<le> clock (k + i)"
    using passes_log [OF assms(1,2), of n "\<lambda>i. clock (k + i)"] n by (auto simp: passed_def eq)
  have "log' = log" using log log'(1) by (simp add: ran_def)
  then show ?thesis using log log'(2,3) l(1) by auto
qed

text \<open>
  C33. \<open>FrameCheck\<close> on a controller in order (heap order by trigger time, no task twice, loop tasks with
  a positive period), with a clock that is read again before every pass. If it returns, with
  events that keep the controller in order and do not put their own task back, the controller is
  in order and no task in it is due at the last reading. If moreover the events leave the timers alone and the clock
  does not go back, it returns exactly if some reading has seen as many passes as there are runs due
  at it (\<open>load\<close> counts them: a delayed task once, a loop task once for each of its periods that
  ended by then), and then the runs it made are exactly those due at its last reading, in the order of
  their trigger times, each one due at the reading of its own pass; the delayed tasks that ran are
  gone and all others are still there.
\<close>

theorem FrameCheck_runs_due:
  assumes "ctl_ok t" and "orderly ev"
  shows "(\<forall>t'. FrameCheck clock ev k t = Some t' \<longrightarrow>
      ctl_ok t' \<and> (\<exists>n. passed clock ev k t n \<and> (\<forall>e \<in> set (mh_data (tc_heap t')). clock (k + n) < Val t' e))) \<and>
    (still ev \<and> mono clock \<longrightarrow>
      (FrameCheck clock ev k t \<noteq> None \<longleftrightarrow> (\<exists>n. load (clock (k + n)) t \<le> n)) \<and>
      (\<forall>t'. FrameCheck clock ev k t = Some t' \<longrightarrow>
        (\<exists>log. ran (clock (k + length log)) t log t' \<and> length log = load (clock (k + length log)) t \<and>
           (\<forall>i < length log. fst (log ! i) \<le> clock (k + i)))))"
proof (intro conjI allI impI)
  fix t' assume t': "FrameCheck clock ev k t = Some t'"
  then obtain n where n: "passed clock ev k t n" using FrameCheck_passed by blast
  have eq: "t' = (frame_step ev ^^ n) t" using t' FrameCheck_after [OF n] by simp
  show "ctl_ok t'" "\<exists>n. passed clock ev k t n \<and> (\<forall>e \<in> set (mh_data (tc_heap t')). clock (k + n) < Val t' e)"
    using passed_in_order [OF assms(2,1) n] n eq by auto
qed (use FrameCheck_returns [OF assms(1)] FrameCheck_log [OF assms(1)] in blast)+

definition timer_sample :: TaskCtl where
  "timer_sample = Start 0 2 (Start 0 1 (NewDelayTask 0 2 7 (NewLoopTask 0 1 3
     (NewTaskCtl (\<lambda>_. \<lparr>t_Loop = False, t_duration = 1, t_triggerTime = 0\<rparr>)))))"

lemma timer_sample_ok: "ctl_ok timer_sample" "synced (tc_heap timer_sample)"
proof -
  have d: "mh_data (tc_heap timer_sample) = [1, 2]" by code_simp
  have "list_all (\<lambda>e. 0 < t_duration (tc_task timer_sample e)) [1, 2]"
    "Val timer_sample 1 \<le> Val timer_sample 2"
    "list_all (\<lambda>i. mh_index (tc_heap timer_sample) (mh_data (tc_heap timer_sample) ! i) = int i) [0, 1]"
    by code_simp+
  then show "ctl_ok timer_sample" "synced (tc_heap timer_sample)"
    by (auto simp: ctl_ok_def synced_def d ordered_def parent_def less_Suc_eq numeral_2_eq_2)
qed

text \<open>A clock that starts at 6 and runs one unit per pass: the loop task runs at 3, 6 and 9, the other once.\<close>

lemma timer_sample_runs:
  "load 8 timer_sample = 3" "load 10 timer_sample = 4"
  by code_simp+

lemma FrameCheck_runs_due_witness:
  "\<exists>t' log. FrameCheck (\<lambda>k. 6 + int k) (\<lambda>_ t. t) 0 timer_sample = Some t' \<and>
     ran (6 + int (length log)) timer_sample log t' \<and> length log = load (6 + int (length log)) timer_sample"
proof -
  let ?c = "\<lambda>k. 6 + int k"
  have m: "mono ?c" by (simp add: mono_def)
  have st: "still (\<lambda>_ t. t)" by (simp add: still_def)
  note w = FrameCheck_runs_due [OF timer_sample_ok(1) still_orderly [OF st], of ?c 0, THEN conjunct2, rule_format, OF conjI [OF st m]]
  have "load (?c (0 + 4)) timer_sample \<le> 4" using timer_sample_runs(2) by simp
  then have "FrameCheck ?c (\<lambda>_ t. t) 0 timer_sample \<noteq> None" using w by blast
  then obtain t' where t': "FrameCheck ?c (\<lambda>_ t. t) 0 timer_sample = Some t'" by blast
  obtain log where "ran (?c (0 + length log)) timer_sample log t'" "length log = load (?c (0 + length log)) timer_sample"
    using w t' by blast
  then show ?thesis using t' by auto
qed

text \<open>
  Starting a task that is not in the heap (index -1) and stopping it again puts the heap back to
  the same tasks, without a panic; in between it is in the heap with the trigger time \<open>now\<close> plus its
  duration.
\<close>

theorem Start_Stop:
  assumes "ctl_ok t" and "synced (tc_heap t)" and "Index t e < 0" and "e \<notin> set (mh_data (tc_heap t))"
  shows "mset (mh_data (tc_heap (Start now e t))) = add_mset e (mset (mh_data (tc_heap t))) \<and>
    Val (Start now e t) e = now + t_duration (tc_task t e) \<and>
    (\<exists>t'. Stop e (Start now e t) = (Inr (), t') \<and>
       mset (mh_data (tc_heap t')) = mset (mh_data (tc_heap t)))"
proof -
  let ?t = "Start now e t" and ?h = "tc_heap (Start now e t)"
  have st: "?t = PushTask e (set_trigger e (now + t_duration (tc_task t e)) t)"
    using assms(3) by (simp add: Start_def)
  have m: "mset (mh_data ?h) = add_mset e (mset (mh_data (tc_heap t)))"
    by (simp add: st PushTask_def Push_spec(1) set_trigger_def)
  have d: "distinct (mh_data (tc_heap t))" using assms(1) by (simp add: ctl_ok_def)
  then have "distinct (mh_data ?h)"
    using m assms(4) by (metis distinct.simps(2) mset.simps(2) mset_eq_imp_distinct_iff)
  moreover have "synced ?h"
    using d assms(4) by (auto simp: st PushTask_def set_trigger_def intro!: Push_spec(3))
  moreover have "e \<in> set (mh_data ?h)" using m by (metis set_mset_mset union_single_eq_member)
  ultimately obtain h' where "Drop (Val ?t) ?h e = Inr (True, h')"
    "mset (mh_data h') = mset (mh_data ?h) - {#e#}" using Drop_elem [of ?h e "Val ?t"] by blast
  then have "Stop e ?t = (Inr (), ?t\<lparr>tc_heap := h'\<rparr>)" "mset (mh_data h') = mset (mh_data (tc_heap t))"
    using m by (simp_all add: Stop_def seq_def get_st_def lift_def ret_def modify_def)
  moreover have "Val ?t e = now + t_duration (tc_task t e)"
    by (simp add: st PushTask_def set_trigger_def Val_def)
  ultimately show ?thesis using m by simp
qed

lemma Start_Stop_witness:
  "mset (mh_data (tc_heap (Start 5 3 (NewDelayTask 0 3 2 timer_sample)))) = {#3, 1, 2#} \<and>
   (\<exists>t'. Stop 3 (Start 5 3 (NewDelayTask 0 3 2 timer_sample)) = (Inr (), t') \<and>
      mset (mh_data (tc_heap t')) = {#1, 2#})"
proof -
  let ?t = "NewDelayTask 0 3 2 timer_sample"
  have d: "mh_data (tc_heap timer_sample) = [1, 2]" by code_simp
  have h: "mh_data (tc_heap ?t) = [1, 2]" by (simp add: NewDelayTask_def NewTask_def SetIndex_def d)
  have "list_all (\<lambda>e. t_Loop (tc_task ?t e) \<longrightarrow> 0 < t_duration (tc_task ?t e)) [1, 2]"
    "Val ?t 1 \<le> Val ?t 2" "Index ?t 3 < 0" "t_duration (tc_task ?t 3) = 2"
    "list_all (\<lambda>i. mh_index (tc_heap ?t) (mh_data (tc_heap ?t) ! i) = int i) [0, 1]"
    by code_simp+
  then have "ctl_ok ?t" "synced (tc_heap ?t)" "Index ?t 3 < 0"
    by (auto simp: ctl_ok_def synced_def h ordered_def parent_def less_Suc_eq numeral_2_eq_2)
  then show ?thesis using Start_Stop [of ?t 3 5] h by simp
qed

text \<open>
  A delayed task that has run cannot be used again: \<open>Pop\<close> leaves its index at 0, so \<open>Start\<close> refuses
  it as already started, and \<open>Reset\<close> on it takes another task, the one next to run, out of the heap.
\<close>

theorem fired_task_stale:
  assumes "ctl_ok t" and "synced (tc_heap t)" and "mh_data (tc_heap t) = x # y # ys"
    and "\<not> t_Loop (tc_task t x)" and "still ev"
  shows "Index (frame_step ev t) x = 0 \<and> Start now x (frame_step ev t) = frame_step ev t \<and>
    (\<exists>t' z. Reset now x (frame_step ev t) = (Inr (), t') \<and> GetTask (frame_step ev t) = Inr z \<and> z \<noteq> x \<and>
       mset (mh_data (tc_heap t')) = mset (x # y # ys) - {#z#})"
proof -
  let ?u = "frame_step ev t"
  have ne: "mh_data (tc_heap t) \<noteq> []" using assms(3) by simp
  note st = frame_step_spec [OF assms(1) ne assms(5)]
  have ev: "ev e s = s" for e s using assms(5) by (simp add: still_def)
  have dist: "distinct (x # y # ys)" using assms(1,3) by (simp add: ctl_ok_def)
  let ?p = "Pop (Val t) (tc_heap t)"
  have hp: "tc_heap ?u = snd ?p"
  proof -
    have "fst ?p = Some x" using Pop_spec(1) [OF ne] assms(3) by (simp add: Top_def)
    then show ?thesis
      using assms(4) by (simp add: frame_step_def PopTask_def ev prod.case_eq_if)
  qed
  have m: "mset (mh_data (tc_heap ?u)) = mset (y # ys)" using st(3) assms(3,4) by simp
  then have "set (mh_data (tc_heap ?u)) = set (y # ys)" by (rule mset_eq_setD)
  then have x: "x \<notin> set (mh_data (tc_heap ?u))" using dist by simp
  have "mh_index (snd ?p) x = mh_index (tc_heap t) x"
    using x ne unfolding hp by (simp add: Pop_def Let_def set_indices_other)
  moreover have "mh_index (tc_heap t) x = 0" using assms(2,3) by (auto simp: synced_def)
  ultimately have i: "Index ?u x = 0" by (simp add: Index_def hp)
  obtain z zs where z: "mh_data (tc_heap ?u) = z # zs" using m by (cases "mh_data (tc_heap ?u)") auto
  have get: "GetTask ?u = Inr z" by (simp add: GetTask_def Top_def z)
  obtain h where drop: "Drop (Val ?u) (tc_heap ?u) x = Inr (True, h)" and h: "mset (mh_data h) = mset zs"
  proof (rule that)
    let ?n = "length (mh_data (tc_heap ?u)) - 1"
    let ?d = "shift_down (Val ?u) 0 (take ?n (swap (mh_data (tc_heap ?u)) 0 ?n))"
    show "Drop (Val ?u) (tc_heap ?u) x = Inr (True, (tc_heap ?u)\<lparr>mh_data := ?d,
        mh_index := set_indices ?d 0 (mh_index (tc_heap ?u))\<rparr>)"
      using i z by (simp add: Drop_def Index_def Let_def)
    have "mset ?d = mset (mh_data (tc_heap ?u)) - {#mh_data (tc_heap ?u) ! 0#}"
      unfolding mset_shift_down by (rule removed) (simp add: z)
    then show "mset (mh_data ((tc_heap ?u)\<lparr>mh_data := ?d,
        mh_index := set_indices ?d 0 (mh_index (tc_heap ?u))\<rparr>)) = mset zs" by (simp add: z)
  qed
  let ?v = "PushTask x (set_trigger x (now + t_duration (tc_task ?u x)) (?u\<lparr>tc_heap := h\<rparr>))"
  have r: "Reset now x ?u = (Inr (), ?v)"
    using drop by (simp add: Reset_def Stop_def seq_def get_st_def lift_def ret_def modify_def)
  have "mset (x # y # ys) - {#z#} = add_mset x (mset zs)"
    using m z by (metis add_mset_remove_trivial add_mset_commute mset.simps(2))
  then have v: "mset (mh_data (tc_heap ?v)) = mset (x # y # ys) - {#z#}"
    using h by (simp add: PushTask_mset set_trigger_heap)
  have "z \<noteq> x" using x z by auto
  moreover have "Start now x ?u = ?u" using i by (simp add: Start_def)
  ultimately show ?thesis using i get r v by blast
qed

definition timer_sample2 :: TaskCtl where
  "timer_sample2 = Start 0 2 (Start 0 1 (NewDelayTask 0 1 3 (NewLoopTask 0 2 7
     (NewTaskCtl (\<lambda>_. \<lparr>t_Loop = False, t_duration = 1, t_triggerTime = 0\<rparr>)))))"

lemma fired_task_stale_witness:
  "Index (frame_step (\<lambda>_ t. t) timer_sample2) 1 = 0 \<and>
   Start 9 1 (frame_step (\<lambda>_ t. t) timer_sample2) = frame_step (\<lambda>_ t. t) timer_sample2"
proof -
  have d: "mh_data (tc_heap timer_sample2) = [1, 2]" by code_simp
  have "list_all (\<lambda>e. 0 < t_duration (tc_task timer_sample2 e)) [1, 2]"
    "Val timer_sample2 1 \<le> Val timer_sample2 2" "\<not> t_Loop (tc_task timer_sample2 1)"
    "list_all (\<lambda>i. mh_index (tc_heap timer_sample2) (mh_data (tc_heap timer_sample2) ! i) = int i) [0, 1]"
    by code_simp+
  then have "ctl_ok timer_sample2" "synced (tc_heap timer_sample2)" "\<not> t_Loop (tc_task timer_sample2 1)"
    by (auto simp: ctl_ok_def synced_def d ordered_def parent_def less_Suc_eq numeral_2_eq_2)
  then show ?thesis
    using fired_task_stale [of timer_sample2 1 2 "[]" "\<lambda>_ t. t" 9] d by (simp add: still_def)
qed

end
