(* ===== verification/Codec.thy ===== *)
theory Codec
  imports Prelude
begin

text \<open>
  \<open>codec/message.go\<close>, \<open>codec/parser.go\<close> and \<open>codec/encrypt.go\<close>: the 13 byte header, the packet
  (header, command, payload), its checksum, and reading packets from a TCP stream or a WebSocket
  frame. A reader is the list of bytes that will still arrive before its end. What the WebSocket
  library returns, and the cipher of the standard library, are parameters.
\<close>

abbreviation (input) HeaderLen :: nat where "HeaderLen \<equiv> 13"
abbreviation (input) magicNumber :: u8 where "magicNumber \<equiv> 0x12"
abbreviation (input) FlagsCompress :: u8 where "FlagsCompress \<equiv> 0x1"
abbreviation (input) FlagsEncrypt :: u8 where "FlagsEncrypt \<equiv> 0x2"
abbreviation (input) FlagsHeartBeat :: u8 where "FlagsHeartBeat \<equiv> 0x4"
abbreviation (input) MaxMessageSize :: u16 where "MaxMessageSize \<equiv> 65535"

record Header =
  h_MagicNumber :: u8
  h_Version :: u8
  h_Flags :: u8
  h_Seq :: u16
  h_Timestamp :: u32
  h_Len :: u16
  h_CheckSum :: u16

text \<open>The message embeds the header.\<close>

record Message = Header +
  m_Cmd :: u16
  m_Payload :: "u8 list"
  m_All :: "u8 list"

definition zero_Message :: Message where
  "zero_Message = \<lparr>h_MagicNumber = 0, h_Version = 0, h_Flags = 0, h_Seq = 0, h_Timestamp = 0,
     h_Len = 0, h_CheckSum = 0, m_Cmd = 0, m_Payload = [], m_All = []\<rparr>"

text \<open>\<open>AcquireMessage\<close> and \<open>ReleaseMessage\<close> hand out and take back reset messages.\<close>

definition Message_Reset :: "Message \<Rightarrow> Message" where
  "Message_Reset m = zero_Message\<lparr>h_MagicNumber := magicNumber\<rparr>"

definition NewHearBeatMessage :: "u32 \<Rightarrow> Message" where
  "NewHearBeatMessage now =
     zero_Message\<lparr>h_MagicNumber := magicNumber, h_Version := 1, h_Flags := FlagsHeartBeat, h_Timestamp := now\<rparr>"

definition NewMessageWithPayload :: "u32 \<Rightarrow> u16 \<Rightarrow> u8 list \<Rightarrow> Message" where
  "NewMessageWithPayload now cmd payload =
     zero_Message\<lparr>h_MagicNumber := magicNumber, h_Version := 1, h_Timestamp := now,
       h_Len := of_nat (length payload), m_Cmd := cmd, m_Payload := payload\<rparr>"

text \<open>\<open>pro\<close> is \<open>None\<close> for nil; its marshalled bytes are \<open>None\<close> when marshalling fails.\<close>

definition NewMessage :: "u32 \<Rightarrow> u16 \<Rightarrow> u8 list option option \<Rightarrow> Message option" where
  "NewMessage now cmd pro =
     (let msg = zero_Message\<lparr>h_MagicNumber := magicNumber, h_Version := 1, h_Timestamp := now, m_Cmd := cmd\<rparr>
      in case pro of
           None \<Rightarrow> Some msg
         | Some None \<Rightarrow> None
         | Some (Some body) \<Rightarrow> Some (msg\<lparr>m_Payload := body\<rparr>))"

definition IsHeartBeat :: "Message \<Rightarrow> bool" where
  "IsHeartBeat m \<longleftrightarrow> h_Flags m AND FlagsHeartBeat \<noteq> 0"

definition IsCompressed :: "Message \<Rightarrow> bool" where
  "IsCompressed m \<longleftrightarrow> h_Flags m AND FlagsCompress \<noteq> 0"

definition IsEncrypted :: "Message \<Rightarrow> bool" where
  "IsEncrypted m \<longleftrightarrow> h_Flags m AND FlagsEncrypt \<noteq> 0"

definition SetFlags :: "Message \<Rightarrow> u8 list \<Rightarrow> Message" where
  "SetFlags m flags = foldl (\<lambda>m f. m\<lparr>h_Flags := h_Flags m OR f\<rparr>) m flags"

subsection \<open>The checksum\<close>

fun payload_sum :: "u8 list \<Rightarrow> u32 \<Rightarrow> u32" where
  "payload_sum [] s = s"
| "payload_sum [b] s = s + push_bit 8 (ucast b)"
| "payload_sum (a # b # ps) s = payload_sum ps (s + (push_bit 8 (ucast a) + ucast b))"

function fold_sum :: "u32 \<Rightarrow> u32" where
  "fold_sum s = (if drop_bit 16 s > 0 then fold_sum ((s AND 0xFFFF) + drop_bit 16 s) else s)"
  by pat_completeness auto

text \<open>Folding the upper half onto the lower one makes the sum smaller.\<close>

lemma low_half: "unat (s AND 0xFFFF :: u32) = unat s mod 65536"
proof -
  have e: "s AND 0xFFFF = take_bit 16 s" by (simp add: take_bit_eq_mask mask_eq_exp_minus_1)
  have "unat (take_bit 16 s) = take_bit 16 (unat s)" by (rule unsigned_take_bit_eq)
  then show ?thesis by (simp add: e take_bit_eq_mod)
qed

lemma high_half: "unat (drop_bit 16 s :: u32) = unat s div 65536"
  by (simp add: drop_bit_eq_div unat_div)

lemma fold_step: "unat ((s AND 0xFFFF) + drop_bit 16 s :: u32) = unat s mod 65536 + unat s div 65536"
proof -
  have "unat s < 4294967296" by (rule unsigned_less [of s, simplified])
  moreover have "unat s = 65536 * (unat s div 65536) + unat s mod 65536" by simp
  ultimately have "unat s mod 65536 + unat s div 65536 < 4294967296" by linarith
  then show ?thesis by (simp add: unat_word_ariths low_half high_half)
qed

termination fold_sum
proof (relation "measure unat")
  fix s :: u32
  assume "0 < drop_bit 16 s"
  then have "0 < unat s div 65536" by (metis high_half unat_gt_0 word_neq_0_conv)
  moreover have "unat s = 65536 * (unat s div 65536) + unat s mod 65536" by simp
  ultimately show "((s AND 0xFFFF) + drop_bit 16 s, s) \<in> measure unat"
    unfolding in_measure fold_step by linarith
qed simp

declare fold_sum.simps [simp del]

definition calculateCheckSum :: "Message \<Rightarrow> u16" where
  "calculateCheckSum m =
     (let s = ucast (h_MagicNumber m) + ucast (h_Version m) + ucast (h_Flags m) + ucast (h_Seq m)
              + ucast (drop_bit 16 (h_Timestamp m)) + ucast (h_Timestamp m AND 0xFFFF)
              + ucast (h_Len m) + ucast (m_Cmd m);
          s = payload_sum (m_Payload m) s
      in ucast (NOT (fold_sum s)))"

subsection \<open>Packing\<close>

text \<open>Big endian bytes.\<close>

definition put16 :: "u16 \<Rightarrow> u8 list" where
  "put16 v = [ucast (drop_bit 8 v), ucast v]"

definition put32 :: "u32 \<Rightarrow> u8 list" where
  "put32 v = [ucast (drop_bit 24 v), ucast (drop_bit 16 v), ucast (drop_bit 8 v), ucast v]"

definition get16 :: "u8 list \<Rightarrow> nat \<Rightarrow> panic + u16" where
  "get16 b i = (if i + 1 < length b then Inr (ucast (b ! (i + 1)) OR push_bit 8 (ucast (b ! i)))
                else Inl IndexOutOfRange)"

definition get32 :: "u8 list \<Rightarrow> nat \<Rightarrow> panic + u32" where
  "get32 b i =
     (if i + 3 < length b then
        Inr (ucast (b ! (i + 3)) OR push_bit 8 (ucast (b ! (i + 2))) OR push_bit 16 (ucast (b ! (i + 1)))
             OR push_bit 24 (ucast (b ! i)))
      else Inl IndexOutOfRange)"

text \<open>The buffer \<open>All\<close> is reused when it is large enough; every byte of it is written.\<close>

definition Pack :: "Message \<Rightarrow> u8 list \<times> Message" where
  "Pack m =
     (let m = m\<lparr>h_Len := of_nat (length (m_Payload m))\<rparr>;
          m = m\<lparr>h_CheckSum := calculateCheckSum m\<rparr>;
          all = [h_MagicNumber m, h_Version m, h_Flags m] @ put16 (h_Seq m) @ put32 (h_Timestamp m) @
                put16 (h_Len m) @ put16 (h_CheckSum m) @ put16 (m_Cmd m) @ m_Payload m
      in (all, m\<lparr>m_All := all\<rparr>))"

text \<open>\<open>unmarshal\<close> fills the protobuf message or fails.\<close>

definition Unpack :: "(u8 list \<Rightarrow> 'p option) \<Rightarrow> Message \<Rightarrow> 'p \<Rightarrow> 'p option" where
  "Unpack unmarshal m pro = (if length (m_Payload m) = 0 then Some pro else unmarshal (m_Payload m))"

subsection \<open>Reading\<close>

datatype codec_error =
    ReadHeaderFailed | InvalidMagic u8 | TooLarge | ReadCmdFailed | ReadPayloadFailed
  | CheckSumMismatch u16 u16 | ReadTimeout | WsReadError | WsClosed | TooShort nat
  | NilMessage | WriteFailed

text \<open>\<open>io.ReadFull\<close>: all \<open>n\<close> bytes, or a failure that has consumed what there was.\<close>

definition ReadFull :: "nat \<Rightarrow> u8 list \<Rightarrow> u8 list option \<times> u8 list" where
  "ReadFull n r = (if n \<le> length r then (Some (take n r), drop n r) else (None, []))"

text \<open>The header fields at their offsets; the source reads them one by one from at least 13 bytes.\<close>

definition parse_header :: "u8 list \<Rightarrow> panic + Message" where
  "parse_header b =
     bindE (index b 0) (\<lambda>magic. bindE (index b 1) (\<lambda>ver. bindE (index b 2) (\<lambda>fl.
     bindE (get16 b 3) (\<lambda>sq. bindE (get32 b 5) (\<lambda>ts. bindE (get16 b 9) (\<lambda>ln. bindE (get16 b 11) (\<lambda>ck.
       Inr (zero_Message\<lparr>h_MagicNumber := magic, h_Version := ver, h_Flags := fl, h_Seq := sq,
              h_Timestamp := ts, h_Len := ln, h_CheckSum := ck\<rparr>))))))))"

definition read_payload :: "u16 \<Rightarrow> u8 list \<Rightarrow> u8 list option \<times> u8 list" where
  "read_payload len r = (if len > 0 then ReadFull (unat len) r else (Some [], r))"

definition TcpRead :: "u8 list \<Rightarrow> (panic + (codec_error + Message)) \<times> u8 list" where
  "TcpRead r =
     (case ReadFull HeaderLen r of
        (None, r) \<Rightarrow> (Inr (Inl ReadHeaderFailed), r)
      | (Some hb, r) \<Rightarrow>
        (case parse_header hb of
           Inl p \<Rightarrow> (Inl p, r)
         | Inr msg \<Rightarrow>
           if h_MagicNumber msg \<noteq> magicNumber then (Inr (Inl (InvalidMagic (h_MagicNumber msg))), r)
           else if h_Len msg > MaxMessageSize then (Inr (Inl TooLarge), r)
           else
             (case ReadFull 2 r of
                (None, r) \<Rightarrow> (Inr (Inl ReadCmdFailed), r)
              | (Some cb, r) \<Rightarrow>
                (case get16 cb 0 of
                   Inl p \<Rightarrow> (Inl p, r)
                 | Inr cmd \<Rightarrow>
                   (let msg = msg\<lparr>m_Cmd := cmd\<rparr>
                    in case read_payload (h_Len msg) r of
                         (None, r) \<Rightarrow> (Inr (Inl ReadPayloadFailed), r)
                       | (Some pb, r) \<Rightarrow>
                         (let msg = msg\<lparr>m_Payload := pb\<rparr>; want = calculateCheckSum msg
                          in if h_CheckSum msg \<noteq> want
                             then (Inr (Inl (CheckSumMismatch want (h_CheckSum msg))), r)
                             else (Inr (Inr msg), r)))))))"

text \<open>What the WebSocket library hands over.\<close>

datatype ws_data = WsErr bool | WsFrame bool "u8 list"

text \<open>\<open>WsErr timeout\<close>; \<open>WsFrame closing bytes\<close>. A frame of 14 bytes has one byte behind the header.\<close>

definition ws_payload :: "u8 list \<Rightarrow> u8 list" where
  "ws_payload all = (if length all > HeaderLen + 2 then drop (HeaderLen + 2) all else [])"

definition WsRead :: "ws_data \<Rightarrow> panic + (codec_error + Message)" where
  "WsRead d =
     (case d of
        WsErr timeout \<Rightarrow> Inr (Inl (if timeout then ReadTimeout else WsReadError))
      | WsFrame closing all \<Rightarrow>
        if closing then Inr (Inl WsClosed)
        else if length all < HeaderLen then Inr (Inl (TooShort (length all)))
        else
          bindE (index all 0) (\<lambda>magic.
            if magic \<noteq> magicNumber then Inr (Inl (InvalidMagic magic))
            else bindE (parse_header all) (\<lambda>msg.
              if h_Len msg > MaxMessageSize then Inr (Inl TooLarge)
              else bindE
                (if length all > HeaderLen then
                   bindE (get16 all HeaderLen) (\<lambda>cmd.
                     Inr (msg\<lparr>m_Cmd := cmd, m_Payload := ws_payload all\<rparr>))
                 else Inr msg)
                (\<lambda>msg. let want = calculateCheckSum msg
                  in if h_CheckSum msg \<noteq> want then Inr (Inl (CheckSumMismatch want (h_CheckSum msg)))
                     else Inr (Inr (msg\<lparr>m_All := all\<rparr>))))))"

text \<open>Writing: \<open>wr\<close> says whether the write of these bytes succeeds.\<close>

definition TcpWrite :: "(u8 list \<Rightarrow> bool) \<Rightarrow> Message option \<Rightarrow> codec_error + (u8 list \<times> Message)" where
  "TcpWrite wr msg =
     (case msg of
        None \<Rightarrow> Inl NilMessage
      | Some m \<Rightarrow> (case Pack m of (data, m) \<Rightarrow> if wr data then Inr (data, m) else Inl WriteFailed))"

definition WsWrite :: "(u8 list \<Rightarrow> bool) \<Rightarrow> Message option \<Rightarrow> codec_error + (u8 list \<times> Message)" where
  "WsWrite wr msg =
     (case msg of
        None \<Rightarrow> Inl NilMessage
      | Some m \<Rightarrow> (case Pack m of (data, m) \<Rightarrow> if wr data then Inr (data, m) else Inl WriteFailed))"

subsection \<open>Encryption\<close>

text \<open>The random source fills the key or fails, and then the process ends.\<close>

definition generateKey :: "(nat \<Rightarrow> u8 list option) \<Rightarrow> u8 list option" where
  "generateKey read = read 32"

text \<open>
  The cipher is a parameter: \<open>enc key iv\<close> and \<open>dec key iv\<close> are the key streams of the block cipher in
  CFB mode, \<open>good\<close> says which keys the library accepts.
\<close>

definition encrypt :: "('k \<Rightarrow> bool) \<Rightarrow> ('k \<Rightarrow> u8 list \<Rightarrow> u8 list \<Rightarrow> u8 list) \<Rightarrow> u8 list \<Rightarrow> u8 list \<Rightarrow> 'k \<Rightarrow>
    u8 list option" where
  "encrypt good enc iv data key = (if good key then Some (iv @ enc key iv data) else None)"

text \<open>The result of \<open>decrypt\<close> is the data (\<open>None\<close> when nil) and whether there is an error.\<close>

definition decrypt :: "('k \<Rightarrow> bool) \<Rightarrow> ('k \<Rightarrow> u8 list \<Rightarrow> u8 list \<Rightarrow> u8 list) \<Rightarrow> u8 list \<Rightarrow> 'k \<Rightarrow>
    u8 list option \<times> bool" where
  "decrypt good dec data key =
     (if \<not> good key then (None, True)
      else if length data < 16 then (None, False)
      else (Some (dec key (take 16 data) (drop 16 data)), False))"

end
