(* ===== verification/CoreConfig.thy ===== *)
theory CoreConfig
  imports Prelude
begin

text \<open>
  \<open>core/config.go\<close>: the address of a server and its number (\<open>Svid\<close>), one \<open>uint16\<close> made of the type of
  the server and its id; and the key of a server in the registry (\<open>parseKey\<close> of \<open>third/etcd.go\<close>).
\<close>

record ServerConfig =
  sc_Addr :: string
  sc_WsAddr :: string
  sc_ServerType :: u8
  sc_ServerId :: u8

text \<open>\<open>strings.Split\<close> at one character, and \<open>strconv.Atoi\<close> (\<open>None\<close> is a syntax error).\<close>

fun split_at :: "char \<Rightarrow> string \<Rightarrow> string list" where
  "split_at c [] = [[]]"
| "split_at c (x # xs) =
     (if x = c then [] # split_at c xs
      else case split_at c xs of [] \<Rightarrow> [[x]] | y # ys \<Rightarrow> (x # y) # ys)"

definition digit :: "char \<Rightarrow> nat option" where
  "digit c = (let n = of_char c :: nat in if 48 \<le> n \<and> n \<le> 57 then Some (n - 48) else None)"

fun digits :: "int \<Rightarrow> string \<Rightarrow> int option" where
  "digits acc [] = Some acc"
| "digits acc (c # cs) = (case digit c of None \<Rightarrow> None | Some d \<Rightarrow> digits (10 * acc + int d) cs)"

text \<open>Out of range, \<open>Atoi\<close> reports an error and its number is the nearest bound.\<close>

definition atoi_full :: "string \<Rightarrow> int \<times> bool" where
  "atoi_full s =
     (let neg = (s \<noteq> [] \<and> hd s = CHR ''-'');
          body = (if s \<noteq> [] \<and> (hd s = CHR ''-'' \<or> hd s = CHR ''+'') then tl s else s)
      in if body = [] then (0, False)
         else case digits 0 body of
                None \<Rightarrow> (0, False)
              | Some v \<Rightarrow>
                  (let v = (if neg then - v else v)
                   in if v > 2 ^ 63 - 1 then (2 ^ 63 - 1, False)
                      else if v < - (2 ^ 63) then (- (2 ^ 63), False) else (v, True)))"

definition IP :: "ServerConfig \<Rightarrow> u8 list" where
  "IP s = map of_char (hd (split_at CHR '':'' (sc_Addr s)))"

text \<open>The port after the first colon; an address without a colon panics.\<close>

definition Port :: "ServerConfig \<Rightarrow> panic + int" where
  "Port s = bindE (index (split_at CHR '':'' (sc_Addr s)) 1) (\<lambda>p. Inr (fst (atoi_full p)))"

definition Svid :: "u8 \<Rightarrow> u8 \<Rightarrow> u16" where
  "Svid serverType serverId = ucast serverType * 100 + ucast serverId"

definition SC_Svid :: "ServerConfig \<Rightarrow> u16" where
  "SC_Svid s = ucast (sc_ServerType s) * 100 + ucast (sc_ServerId s)"

definition SC_Equal :: "ServerConfig \<Rightarrow> ServerConfig \<Rightarrow> bool" where
  "SC_Equal s other \<longleftrightarrow> sc_ServerType s = sc_ServerType other \<and> sc_ServerId s = sc_ServerId other"

definition ServerType :: "u16 \<Rightarrow> u8" where
  "ServerType svid = ucast (svid div 100)"

definition ServerId :: "u16 \<Rightarrow> u8" where
  "ServerId svid = ucast (svid mod 100)"

text \<open>A registry key \<open>server/<number>\<close>; every other key is number 0.\<close>

definition parseKey :: "string \<Rightarrow> u16" where
  "parseKey key =
     (let strs = split_at CHR ''/'' key
      in if length strs \<noteq> 2 then 0
         else if strs ! 0 \<noteq> ''server'' then 0
         else case atoi_full (strs ! 1) of (v, ok) \<Rightarrow> if ok then of_int v else 0)"

subsection \<open>The number of a server\<close>

lemma u8_bound: "unat (x :: u8) < 256"
  using unsigned_less [of x] by simp

lemma unat_Svid: "unat (Svid t i) = unat t * 100 + unat i"
proof -
  have "unat t * 100 + unat i < 65536" using u8_bound [of t] u8_bound [of i] by linarith
  then have "unat (of_nat (unat t * 100 + unat i) :: u16) = unat t * 100 + unat i"
    by (rule len16)
  moreover have "Svid t i = of_nat (unat t * 100 + unat i)" by (simp add: Svid_def)
  ultimately show ?thesis by (simp only:)
qed

lemma unat_ServerType: "unat (ServerType s) = unat s div 100 mod 256"
  by (simp add: ServerType_def unsigned_ucast_eq take_bit_eq_mod unat_div)

lemma unat_ServerId: "unat (ServerId s) = unat s mod 100"
proof -
  have "unat (ServerId s) = unat s mod 100 mod 256"
    by (simp add: ServerId_def unsigned_ucast_eq take_bit_eq_mod unat_mod)
  then show ?thesis by (simp add: mod_mod_cancel less_imp_le)
qed

text \<open>
  The number of a server gives back its type and id exactly for ids below 100, and a number gives
  itself back from its type and id exactly below 25600; a larger id reads as an id of another type
  (type 3 with id 100 is type 4 with id 0).
\<close>

theorem Svid_roundtrip:
  "(ServerType (Svid t i) = t \<and> ServerId (Svid t i) = i \<longleftrightarrow> i < 100) \<and>
   (Svid (ServerType s) (ServerId s) = s \<longleftrightarrow> s < 25600) \<and>
   SC_Svid \<lparr>sc_Addr = addr, sc_WsAddr = ws, sc_ServerType = t, sc_ServerId = i\<rparr> = Svid t i"
proof (intro conjI)
  have div: "(unat t * 100 + unat i) div 100 = unat t + unat i div 100" by simp
  have md: "(unat t * 100 + unat i) mod 100 = unat i mod 100" by simp
  show "ServerType (Svid t i) = t \<and> ServerId (Svid t i) = i \<longleftrightarrow> i < 100"
    unfolding word_unat_eq_iff word_less_nat_alt unat_ServerType unat_ServerId unat_Svid div md
    using u8_bound [of t] by (auto simp: mod_less_divisor)
  have b: "unat s < 65536" using unsigned_less [of s] by simp
  show "Svid (ServerType s) (ServerId s) = s \<longleftrightarrow> s < 25600"
    unfolding word_unat_eq_iff word_less_nat_alt unat_Svid unat_ServerType unat_ServerId
  proof
    assume "unat s div 100 mod 256 * 100 + unat s mod 100 = unat s"
    then have "unat s div 100 mod 256 * 100 = unat s div 100 * 100"
      by (metis add_right_cancel div_mult_mod_eq)
    then have "unat s div 100 < 256" by simp
    then show "unat s < unat (25600 :: u16)" by simp
  next
    assume "unat s < unat (25600 :: u16)"
    then have "unat s div 100 < 256" by simp
    then show "unat s div 100 mod 256 * 100 + unat s mod 100 = unat s" by simp
  qed
qed (simp add: SC_Svid_def Svid_def)

end
