(* ===== verification/Queues.thy ===== *)
theory Queues
  imports Prelude
begin

text \<open>
  The queues: the ring buffer \<open>util/queue.go\<close> behind the interface \<open>bqueue\<close>, and the two mailboxes
  \<open>util/esqueue.go\<close> and \<open>evio/internal/notequeue.go\<close> behind the interface \<open>mailbox\<close>. A mailbox is used
  by several goroutines; its locked sections are atomic steps, which a run interleaves freely.
\<close>

subsection \<open>A bounded first-in first-out queue\<close>

locale bqueue =
  fixes ok :: "'q \<Rightarrow> bool" and contents :: "'q \<Rightarrow> 'a list" and room :: "'q \<Rightarrow> nat"
    and enq :: "'q \<Rightarrow> 'a \<Rightarrow> 'q option" and deq :: "'q \<Rightarrow> ('a \<times> 'q) option"
  assumes enq_none: "ok q \<Longrightarrow> enq q x = None \<longleftrightarrow> length (contents q) = room q"
    and enq_some: "ok q \<Longrightarrow> enq q x = Some q' \<Longrightarrow>
      ok q' \<and> contents q' = contents q @ [x] \<and> room q' = room q"
    and deq_none: "ok q \<Longrightarrow> deq q = None \<longleftrightarrow> contents q = []"
    and deq_some: "ok q \<Longrightarrow> deq q = Some (x, q') \<Longrightarrow>
      ok q' \<and> contents q = x # contents q' \<and> room q' = room q"
    and within: "ok q \<Longrightarrow> length (contents q) \<le> room q"

text \<open>Adding all of a list, and taking until the queue is empty (at most \<open>n\<close> times).\<close>

fun enqs :: "('q \<Rightarrow> 'a \<Rightarrow> 'q option) \<Rightarrow> 'q \<Rightarrow> 'a list \<Rightarrow> 'q option" where
  "enqs enq q [] = Some q"
| "enqs enq q (x # xs) = (case enq q x of None \<Rightarrow> None | Some q' \<Rightarrow> enqs enq q' xs)"

fun deqs :: "('q \<Rightarrow> ('a \<times> 'q) option) \<Rightarrow> nat \<Rightarrow> 'q \<Rightarrow> 'a list" where
  "deqs deq 0 q = []"
| "deqs deq (Suc n) q = (case deq q of None \<Rightarrow> [] | Some (x, q') \<Rightarrow> x # deqs deq n q')"

context bqueue
begin

lemma enqs_ok:
  "ok q \<Longrightarrow> length (contents q) + length xs \<le> room q \<Longrightarrow>
   \<exists>q'. enqs enq q xs = Some q' \<and> ok q' \<and> contents q' = contents q @ xs \<and> room q' = room q"
proof (induction xs arbitrary: q)
  case Nil
  then show ?case by simp
next
  case (Cons x xs)
  then have "enq q x \<noteq> None" using enq_none by auto
  then obtain q' where q': "enq q x = Some q'" by auto
  note s = enq_some [OF Cons.prems(1) q']
  then show ?case using Cons.IH [of q'] Cons.prems q' by auto
qed

lemma enqs_full:
  "ok q \<Longrightarrow> room q < length (contents q) + length xs \<Longrightarrow> enqs enq q xs = None"
proof (induction xs arbitrary: q)
  case Nil
  then show ?case using within [of q] by simp
next
  case (Cons x xs)
  then show ?case using enq_some [OF Cons.prems(1)] by (auto split: option.split)
qed

lemma deqs_all: "ok q \<Longrightarrow> length (contents q) \<le> n \<Longrightarrow> deqs deq n q = contents q"
proof (induction n arbitrary: q)
  case 0
  then show ?case by simp
next
  case (Suc n)
  show ?case
  proof (cases "deq q")
    case None
    then show ?thesis using deq_none [OF Suc.prems(1)] by simp
  next
    case (Some p)
    obtain x q' where p: "p = (x, q')" by (cases p)
    note d = deq_some [OF Suc.prems(1), of x q']
    then show ?thesis using Suc.IH [of q'] Suc.prems Some p by simp
  qed
qed

lemma fifo:
  "ok q \<Longrightarrow> contents q = [] \<Longrightarrow>
   (case enqs enq q xs of None \<Rightarrow> room q < length xs
    | Some q' \<Rightarrow> length xs \<le> room q \<and> deqs deq (length xs) q' = xs)"
  using enqs_ok [of q xs] enqs_full [of q xs] deqs_all by (cases "length xs \<le> room q") auto

end

subsection \<open>The ring buffer\<close>

record 'a ArrayQueue =
  aq_capacity :: nat
  aq_array :: "'a option list"
  aq_front :: nat
  aq_rear :: nat

definition NewArrayQueue :: "int \<Rightarrow> 'a ArrayQueue" where
  "NewArrayQueue capacity =
     (let c = nat (if capacity < 2 then 2 else capacity)
      in \<lparr>aq_capacity = c, aq_array = replicate c None, aq_front = 0, aq_rear = 0\<rparr>)"

definition IsFull :: "'a ArrayQueue \<Rightarrow> bool" where
  "IsFull q \<longleftrightarrow> (aq_rear q + 1) mod aq_capacity q = aq_front q"

definition IsEmpty :: "'a ArrayQueue \<Rightarrow> bool" where
  "IsEmpty q \<longleftrightarrow> aq_front q = aq_rear q"

definition Enqueue :: "'a ArrayQueue \<Rightarrow> 'a option \<Rightarrow> 'a ArrayQueue option" where
  "Enqueue q item =
     (if (aq_rear q + 1) mod aq_capacity q = aq_front q then None
      else Some (q\<lparr>aq_array := (aq_array q)[aq_rear q := item],
                   aq_rear := (aq_rear q + 1) mod aq_capacity q\<rparr>))"

definition Dequeue :: "'a ArrayQueue \<Rightarrow> ('a option \<times> 'a ArrayQueue) option" where
  "Dequeue q =
     (if aq_front q = aq_rear q then None
      else let item = aq_array q ! aq_front q
           in Some (item, q\<lparr>aq_array := (aq_array q)[aq_front q := None],
                            aq_front := (aq_front q + 1) mod aq_capacity q\<rparr>))"

definition Front :: "'a ArrayQueue \<Rightarrow> 'a option option" where
  "Front q = (if aq_front q = aq_rear q then None else Some (aq_array q ! aq_front q))"

text \<open>\<open>(rear - front + capacity) % capacity\<close>; the sum is never negative.\<close>

definition Size :: "'a ArrayQueue \<Rightarrow> nat" where
  "Size q = nat ((int (aq_rear q) - int (aq_front q) + int (aq_capacity q)) mod int (aq_capacity q))"

definition aq_ok :: "'a ArrayQueue \<Rightarrow> bool" where
  "aq_ok q \<longleftrightarrow> 2 \<le> aq_capacity q \<and> length (aq_array q) = aq_capacity q \<and>
     aq_front q < aq_capacity q \<and> aq_rear q < aq_capacity q"

text \<open>The indices in use, in order, and what they hold.\<close>

definition used :: "'a ArrayQueue \<Rightarrow> nat list" where
  "used q = (if aq_front q \<le> aq_rear q then [aq_front q..<aq_rear q]
             else [aq_front q..<aq_capacity q] @ [0..<aq_rear q])"

definition aq_contents :: "'a ArrayQueue \<Rightarrow> 'a option list" where
  "aq_contents q = map (\<lambda>i. aq_array q ! i) (used q)"

lemma next_index: "i < c \<Longrightarrow> Suc i mod c = (if Suc i = c then 0 else Suc i)"
  by (auto simp: mod_Suc)

lemma length_used: "aq_ok q \<Longrightarrow> length (used q) = Size q"
proof -
  assume ok: "aq_ok q"
  show ?thesis
  proof (cases "aq_front q \<le> aq_rear q")
    case True
    then have "(int (aq_rear q) - int (aq_front q) + int (aq_capacity q)) mod int (aq_capacity q) =
        int (aq_rear q - aq_front q)"
      using ok by (subst mod_add_self2) (auto simp: aq_ok_def of_nat_diff intro!: mod_pos_pos_trivial)
    with True show ?thesis by (simp add: used_def Size_def)
  next
    case False
    then have "(int (aq_rear q) - int (aq_front q) + int (aq_capacity q)) mod int (aq_capacity q) =
        int (aq_rear q + aq_capacity q - aq_front q)"
      using ok by (subst mod_pos_pos_trivial) (auto simp: aq_ok_def of_nat_diff)
    with False ok show ?thesis by (simp add: used_def Size_def aq_ok_def)
  qed
qed

lemma length_contents: "aq_ok q \<Longrightarrow> length (aq_contents q) = Size q"
  by (simp add: aq_contents_def length_used)

lemma used_full: "aq_ok q \<Longrightarrow> IsFull q \<longleftrightarrow> length (used q) = aq_capacity q - 1"
  by (auto simp: IsFull_def next_index aq_ok_def used_def)

lemma Enqueue_spec:
  assumes "aq_ok q" "Enqueue q x = Some q'"
  shows "aq_ok q' \<and> aq_contents q' = aq_contents q @ [x] \<and> aq_capacity q' = aq_capacity q"
proof -
  have nf: "\<not> IsFull q"
    and q': "q' = q\<lparr>aq_array := (aq_array q)[aq_rear q := x], aq_rear := (aq_rear q + 1) mod aq_capacity q\<rparr>"
    using assms(2) by (auto simp: Enqueue_def IsFull_def split: if_splits)
  have r: "aq_rear q < aq_capacity q" using assms(1) by (simp add: aq_ok_def)
  have u: "used q' = used q @ [aq_rear q]"
  proof (cases "Suc (aq_rear q) = aq_capacity q")
    case True
    then have "aq_front q \<noteq> 0" "aq_front q \<le> aq_rear q"
      using nf assms(1) by (auto simp: IsFull_def aq_ok_def)
    then show ?thesis using True by (simp add: used_def q' flip: True)
  next
    case False
    then have "Suc (aq_rear q) mod aq_capacity q = Suc (aq_rear q)" using r by (simp add: next_index)
    moreover from this have "aq_front q \<noteq> Suc (aq_rear q)" using nf by (simp add: IsFull_def)
    ultimately show ?thesis by (auto simp: used_def q')
  qed
  have "aq_rear q \<notin> set (used q)" by (auto simp: used_def)
  then have "aq_contents q' = aq_contents q @ [x]"
    using assms(1) unfolding aq_contents_def u by (auto simp: q' aq_ok_def nth_list_update)
  then show ?thesis using assms(1) by (simp add: q' aq_ok_def)
qed

lemma Dequeue_spec:
  assumes "aq_ok q" "Dequeue q = Some (x, q')"
  shows "aq_ok q' \<and> aq_contents q = x # aq_contents q' \<and> aq_capacity q' = aq_capacity q"
proof -
  have ne: "aq_front q \<noteq> aq_rear q" and x: "x = aq_array q ! aq_front q"
    and q': "q' = q\<lparr>aq_array := (aq_array q)[aq_front q := None], aq_front := (aq_front q + 1) mod aq_capacity q\<rparr>"
    using assms(2) by (auto simp: Dequeue_def Let_def split: if_splits)
  have f: "aq_front q < aq_capacity q" using assms(1) by (simp add: aq_ok_def)
  have u: "used q = aq_front q # used q'"
  proof (cases "Suc (aq_front q) = aq_capacity q")
    case True
    then have "\<not> aq_front q \<le> aq_rear q" using assms(1) ne by (auto simp: aq_ok_def)
    then show ?thesis by (simp add: used_def q' flip: True)
  next
    case False
    then have "Suc (aq_front q) mod aq_capacity q = Suc (aq_front q)" using f by (simp add: next_index)
    then show ?thesis using ne f by (auto simp: used_def q' upt_rec [of "aq_front q"])
  qed
  have "distinct (used q)" using assms(1) by (auto simp: used_def aq_ok_def)
  then have "aq_front q \<notin> set (used q')" by (simp add: u)
  then have "aq_contents q = x # aq_contents q'"
    using x unfolding aq_contents_def u
    by (auto simp: q' intro!: nth_list_update_neq [symmetric])
  then show ?thesis using assms(1) by (simp add: q' aq_ok_def)
qed

interpretation aq: bqueue aq_ok aq_contents "\<lambda>q. aq_capacity q - 1" Enqueue Dequeue
proof
  fix q :: "'a ArrayQueue" and x q'
  assume ok: "aq_ok q"
  show "(Enqueue q x = None) = (length (aq_contents q) = aq_capacity q - 1)"
    using used_full [OF ok] by (auto simp: Enqueue_def IsFull_def aq_contents_def)
  show "aq_ok q' \<and> aq_contents q' = aq_contents q @ [x] \<and> aq_capacity q' - 1 = aq_capacity q - 1"
    if "Enqueue q x = Some q'" using Enqueue_spec [OF ok that] by simp
  show "(Dequeue q = None) = (aq_contents q = [])"
    using ok by (auto simp: Dequeue_def Let_def aq_contents_def used_def aq_ok_def)
  show "aq_ok q' \<and> aq_contents q = x # aq_contents q' \<and> aq_capacity q' - 1 = aq_capacity q - 1"
    if "Dequeue q = Some (x, q')" using Dequeue_spec [OF ok that] by simp
  show "length (aq_contents q) \<le> aq_capacity q - 1"
    using ok by (auto simp: aq_contents_def used_def aq_ok_def)
qed

lemma IsEmpty_contents: "aq_ok q \<Longrightarrow> IsEmpty q \<longleftrightarrow> aq_contents q = []"
  using aq.deq_none [of q] by (simp add: Dequeue_def Let_def IsEmpty_def split: if_split_asm)

lemma Front_contents:
  assumes "aq_ok q"
  shows "Front q = (case aq_contents q of [] \<Rightarrow> None | x # _ \<Rightarrow> Some x)"
proof (cases "aq_contents q")
  case Nil
  then show ?thesis using IsEmpty_contents [OF assms] by (simp add: Front_def IsEmpty_def)
next
  case (Cons x xs)
  then have ne: "aq_front q \<noteq> aq_rear q" using IsEmpty_contents [OF assms] by (simp add: IsEmpty_def)
  then obtain q' where "Dequeue q = Some (aq_array q ! aq_front q, q')"
    by (simp add: Dequeue_def Let_def)
  from Dequeue_spec [OF assms this] Cons ne show ?thesis by (simp add: Front_def)
qed

lemma New_ok: "aq_ok (NewArrayQueue c)" "aq_contents (NewArrayQueue c) = []"
  "aq_capacity (NewArrayQueue c) = nat (max 2 c)"
  by (auto simp: NewArrayQueue_def aq_ok_def aq_contents_def used_def Let_def max_def)

text \<open>
  The ring buffer is a first-in first-out queue of capacity one less than its array (two for a
  requested capacity below 2): adding a list to a new queue succeeds exactly when it has at most that
  many elements, and then taking as many gives the list back in order; along the way \<open>Size\<close> is the
  number of elements held, and \<open>IsEmpty\<close>, \<open>IsFull\<close> and \<open>Front\<close> agree with it.
\<close>

theorem ArrayQueue_fifo:
  "(case enqs Enqueue (NewArrayQueue c) xs of
      None \<Rightarrow> nat (max 2 c) - 1 < length xs
    | Some q \<Rightarrow> length xs \<le> nat (max 2 c) - 1 \<and> deqs Dequeue (length xs) q = xs \<and> Size q = length xs \<and>
        IsEmpty q = (xs = []) \<and> IsFull q = (length xs = nat (max 2 c) - 1) \<and>
        Front q = (case xs of [] \<Rightarrow> None | x # _ \<Rightarrow> Some x))"
proof (cases "length xs \<le> nat (max 2 c) - 1")
  case True
  obtain q where q: "enqs Enqueue (NewArrayQueue c) xs = Some q" "aq_ok q" "aq_contents q = xs"
    and room: "aq_capacity q - 1 = nat (max 2 c) - 1"
    using aq.enqs_ok [OF New_ok(1), of c xs] True by (auto simp: New_ok)
  have "2 \<le> aq_capacity q" "2 \<le> nat (max 2 c)" using q(2) by (simp_all add: aq_ok_def)
  with room have cap: "aq_capacity q = nat (max 2 c)" by linarith
  have e: "IsEmpty q = (xs = [])" using IsEmpty_contents [OF q(2)] q(3) by simp
  have f: "Front q = (case xs of [] \<Rightarrow> None | x # _ \<Rightarrow> Some x)"
    using Front_contents [OF q(2)] q(3) by simp
  have "IsFull q = (length xs = nat (max 2 c) - 1)"
    using used_full [OF q(2)] cap q(3) by (auto simp: aq_contents_def)
  moreover have "deqs Dequeue (length xs) q = xs" using aq.deqs_all [OF q(2)] q(3) by simp
  ultimately show ?thesis using q True length_contents [OF q(2)] e f by auto
next
  case False
  then show ?thesis using aq.enqs_full [OF New_ok(1), of c xs] by (auto simp: New_ok split: option.split)
qed

subsection \<open>A mailbox\<close>

locale mailbox =
  fixes pending :: "'q \<Rightarrow> 'a list" and add :: "'q \<Rightarrow> 'a \<Rightarrow> bool \<times> 'q"
    and grab :: "'q \<Rightarrow> 'a list \<times> 'q" and restore :: "'q \<Rightarrow> 'q"
  assumes add_pending: "pending (snd (add q x)) = pending q @ [x]"
    and add_one: "fst (add q x) \<longleftrightarrow> pending q = []"
    and grab_all: "fst (grab q) = pending q"
    and grab_pending: "pending (snd (grab q)) = []"
    and back_pending: "pending (restore q) = pending q"

text \<open>
  The locked sections in the order they run: adding, grabbing the batch, giving the slice back. A run
  returns the batches grabbed, whether a wake-up is due (the last \<open>Add\<close> since the last grab that
  answered true), and the queue.
\<close>

datatype 'a locked = AddNode 'a | Grab | GiveBack

fun mail_run ::
  "('q \<Rightarrow> 'a \<Rightarrow> bool \<times> 'q) \<Rightarrow> ('q \<Rightarrow> 'a list \<times> 'q) \<Rightarrow> ('q \<Rightarrow> 'q) \<Rightarrow> 'a locked list \<Rightarrow> bool \<Rightarrow> 'q \<Rightarrow>
   'a list list \<times> bool \<times> 'q" where
  "mail_run add grab restore [] woken q = ([], woken, q)"
| "mail_run add grab restore (AddNode x # ss) woken q =
     (case add q x of (one, q') \<Rightarrow> mail_run add grab restore ss (woken \<or> one) q')"
| "mail_run add grab restore (Grab # ss) woken q =
     (case grab q of (b, q') \<Rightarrow>
        (case mail_run add grab restore ss False q' of (bs, w, q'') \<Rightarrow> (b # bs, w, q'')))"
| "mail_run add grab restore (GiveBack # ss) woken q = mail_run add grab restore ss woken (restore q)"

fun added :: "'a locked list \<Rightarrow> 'a list" where
  "added [] = []"
| "added (AddNode x # ss) = x # added ss"
| "added (_ # ss) = added ss"

context mailbox
begin

lemma mail_all:
  "mail_run add grab restore ss woken q = (bs, w, q') \<Longrightarrow> concat bs @ pending q' = pending q @ added ss"
proof (induction ss arbitrary: woken q bs w q')
  case (Cons s ss)
  show ?case
  proof (cases s)
    case (AddNode x)
    then show ?thesis
      using Cons.IH [of "woken \<or> fst (add q x)" "snd (add q x)" bs w q'] Cons.prems add_pending [of q x]
      by (simp add: prod.case_eq_if)
  next
    case Grab
    obtain bs' where "mail_run add grab restore ss False (snd (grab q)) = (bs', w, q')" "bs = fst (grab q) # bs'"
      using Cons.prems Grab by (auto split: prod.splits)
    then show ?thesis using Cons.IH Grab by (simp add: grab_all grab_pending)
  next
    case GiveBack
    then show ?thesis using Cons by (simp add: back_pending)
  qed
qed simp

lemma mail_woken:
  "mail_run add grab restore ss woken q = (bs, w, q') \<Longrightarrow> (pending q \<noteq> [] \<longrightarrow> woken) \<Longrightarrow> pending q' \<noteq> [] \<longrightarrow> w"
proof (induction ss arbitrary: woken q bs w q')
  case (Cons s ss)
  show ?case
  proof (cases s)
    case (AddNode x)
    then show ?thesis
      using Cons.IH [of "woken \<or> fst (add q x)" "snd (add q x)" bs w q'] Cons.prems add_one [of q x]
      by (cases "pending q = []") (simp_all add: prod.case_eq_if)
  next
    case Grab
    obtain bs' where "mail_run add grab restore ss False (snd (grab q)) = (bs', w, q')"
      using Cons.prems(1) Grab by (auto split: prod.splits)
    then show ?thesis using Cons.IH [of False "snd (grab q)" bs' w q'] by (simp add: grab_pending)
  next
    case GiveBack
    then show ?thesis using Cons.IH [of woken "restore q" bs w q'] Cons.prems by (simp add: back_pending)
  qed
qed simp

end

text \<open>
  \<open>util/esqueue.go\<close>. The slice of nodes is \<open>None\<close> when nil; \<open>Esq_grab\<close> and \<open>Esq_back\<close> are the first and
  the last locked section of \<open>ForEach\<close> on a queue that is not empty. The last one only keeps the
  memory of the batch: it sets an empty slice where the queue is nil.
\<close>

record 'a Esqueue =
  es_nodes :: "'a list option"

definition es_pending :: "'a Esqueue \<Rightarrow> 'a list" where
  "es_pending q = (case es_nodes q of None \<Rightarrow> [] | Some ns \<Rightarrow> ns)"

definition Esq_Add :: "'a Esqueue \<Rightarrow> 'a \<Rightarrow> bool \<times> 'a Esqueue" where
  "Esq_Add q node =
     (let ns = es_pending q @ [node] in (length ns = 1, q\<lparr>es_nodes := Some ns\<rparr>))"

definition Esq_grab :: "'a Esqueue \<Rightarrow> 'a list \<times> 'a Esqueue" where
  "Esq_grab q = (es_pending q, if es_pending q = [] then q else q\<lparr>es_nodes := None\<rparr>)"

definition Esq_back :: "'a Esqueue \<Rightarrow> 'a Esqueue" where
  "Esq_back q = (if es_nodes q = None then q\<lparr>es_nodes := Some []\<rparr> else q)"

text \<open>The loop over a batch: the nodes handed to \<open>iter\<close> until its first error.\<close>

fun iterate :: "('a \<Rightarrow> 'err option) \<Rightarrow> 'a list \<Rightarrow> 'a list \<times> 'err option" where
  "iterate iter [] = ([], None)"
| "iterate iter (x # xs) =
     (case iter x of Some e \<Rightarrow> ([x], Some e)
      | None \<Rightarrow> (case iterate iter xs of (seen, r) \<Rightarrow> (x # seen, r)))"

text \<open>
  \<open>ForEach\<close>, while other goroutines add the nodes \<open>mid\<close> between its two locked sections: the nodes
  handed to \<open>iter\<close>, the error, and the queue.
\<close>

definition Esq_ForEach ::
  "('a \<Rightarrow> 'err option) \<Rightarrow> 'a list \<Rightarrow> 'a Esqueue \<Rightarrow> 'a list \<times> 'err option \<times> 'a Esqueue" where
  "Esq_ForEach iter mid q =
     (if es_pending q = [] then ([], None, q)
      else case Esq_grab q of (nodes, q) \<Rightarrow>
        (case iterate iter nodes of (seen, err) \<Rightarrow>
           let q = foldl (\<lambda>q x. snd (Esq_Add q x)) q mid
           in (case err of Some e \<Rightarrow> (seen, Some e, q) | None \<Rightarrow> (seen, None, Esq_back q))))"

interpretation esq: mailbox es_pending Esq_Add Esq_grab Esq_back
  by unfold_locales
    (auto simp: es_pending_def Esq_Add_def Esq_grab_def Esq_back_def Let_def split: option.splits)

text \<open>\<open>evio/internal/notequeue.go\<close>, the same code on its own type.\<close>

record 'a noteQueue =
  nq_notes :: "'a list option"

definition nq_pending :: "'a noteQueue \<Rightarrow> 'a list" where
  "nq_pending q = (case nq_notes q of None \<Rightarrow> [] | Some ns \<Rightarrow> ns)"

definition nq_Add :: "'a noteQueue \<Rightarrow> 'a \<Rightarrow> bool \<times> 'a noteQueue" where
  "nq_Add q note =
     (let ns = nq_pending q @ [note] in (length ns = 1, q\<lparr>nq_notes := Some ns\<rparr>))"

definition nq_grab :: "'a noteQueue \<Rightarrow> 'a list \<times> 'a noteQueue" where
  "nq_grab q = (nq_pending q, if nq_pending q = [] then q else q\<lparr>nq_notes := None\<rparr>)"

definition nq_back :: "'a noteQueue \<Rightarrow> 'a noteQueue" where
  "nq_back q = (if nq_notes q = None then q\<lparr>nq_notes := Some []\<rparr> else q)"

definition nq_ForEach ::
  "('a \<Rightarrow> 'err option) \<Rightarrow> 'a list \<Rightarrow> 'a noteQueue \<Rightarrow> 'a list \<times> 'err option \<times> 'a noteQueue" where
  "nq_ForEach iter mid q =
     (if nq_pending q = [] then ([], None, q)
      else case nq_grab q of (notes, q) \<Rightarrow>
        (case iterate iter notes of (seen, err) \<Rightarrow>
           let q = foldl (\<lambda>q x. snd (nq_Add q x)) q mid
           in (case err of Some e \<Rightarrow> (seen, Some e, q) | None \<Rightarrow> (seen, None, nq_back q))))"

interpretation nq: mailbox nq_pending nq_Add nq_grab nq_back
  by unfold_locales
    (auto simp: nq_pending_def nq_Add_def nq_grab_def nq_back_def Let_def split: option.splits)

text \<open>
  Whatever the goroutines of the event loops do with an \<open>Esqueue\<close> that starts empty, in any
  interleaving of the locked sections of \<open>Add\<close> and \<open>ForEach\<close>: the batches taken out followed by what is
  still queued are the nodes added, in order, each once; and when something is queued, an \<open>Add\<close> since
  the last batch answered true, so its caller has woken the loop.
\<close>

theorem Esqueue_delivers:
  "case mail_run Esq_Add Esq_grab Esq_back ss False \<lparr>es_nodes = None\<rparr> of (batches, woken, q) \<Rightarrow>
     concat batches @ es_pending q = added ss \<and> (es_pending q = [] \<or> woken)"
proof -
  obtain bs w q where r: "mail_run Esq_Add Esq_grab Esq_back ss False \<lparr>es_nodes = None\<rparr> = (bs, w, q)"
    by (metis prod_cases3)
  show ?thesis using esq.mail_all [OF r] esq.mail_woken [OF r] by (auto simp: r es_pending_def)
qed

text \<open>
  \<open>ForEach\<close> of the note queue of the event loops hands every queued note to its function, in order,
  and keeps the notes added meanwhile; but when the function fails on a note, the notes behind it
  are lost: they are neither handed over nor queued again.
\<close>

theorem noteQueue_ForEach:
  "case nq_ForEach iter mid q of (seen, err, q') \<Rightarrow>
     (if nq_pending q = [] then seen = [] \<and> err = None \<and> q' = q
      else nq_pending q' = mid \<and>
        (case err of
           None \<Rightarrow> seen = nq_pending q \<and> list_all (\<lambda>x. iter x = None) seen
         | Some e \<Rightarrow> \<exists>lost. nq_pending q = seen @ lost \<and> iter (last seen) = Some e \<and>
             list_all (\<lambda>x. iter x = None) (butlast seen)))"
proof -
  have it: "case iterate iter xs of (seen, err) \<Rightarrow> (case err of
       None \<Rightarrow> seen = xs \<and> list_all (\<lambda>x. iter x = None) seen
     | Some e \<Rightarrow> \<exists>lost. xs = seen @ lost \<and> seen \<noteq> [] \<and> iter (last seen) = Some e \<and>
         list_all (\<lambda>x. iter x = None) (butlast seen))" for xs
    by (induction xs) (auto split: option.splits prod.splits)
  have mid: "nq_pending (foldl (\<lambda>q x. snd (nq_Add q x)) q' mid) = nq_pending q' @ mid" for q'
    by (induction mid arbitrary: q') (simp_all add: nq.add_pending)
  have "nq_pending (snd (nq_grab q)) = []" by (rule nq.grab_pending)
  with it [of "nq_pending q"] mid show ?thesis
    by (auto simp: nq_ForEach_def Let_def nq.grab_all nq.back_pending prod.case_eq_if split: option.splits)
qed

end
