(* ===== verification/CoreNet.thy ===== *)
theory CoreNet
  imports Codec CoreConfig Queues
begin

text \<open>
  \<open>core/conn.go\<close>, \<open>core/mgr_conn.go\<close>, \<open>core/mgr_rpc.go\<close> and \<open>core/epoll.go\<close>: connections, the two
  registries and the poll. A connection is a reference (a natural number) into a store, as the source
  shares pointers; the registries of the process are part of the state \<open>Net\<close>. The operating system
  and the network are seen through the bytes and frames that have arrived on a connection, the file
  descriptors registered with epoll, and the outcome of each system call, which is an argument. The
  handler's callbacks are recorded in \<open>n_calls\<close>.
\<close>

subsection \<open>State\<close>

record Conn =
  c_fd :: int
  c_ws :: bool
  c_activeTime :: int
  c_svid :: u16
  c_ctx :: "u32 option"
  c_open :: bool
  c_bytes :: "u8 list"
  c_frames :: "ws_data list"
  c_sent :: "u8 list list"

record ConnMgr =
  cm_conns :: "int \<Rightarrow> nat option"
  cm_servers :: "u16 \<Rightarrow> nat option"

text \<open>A response channel holds at most one message. A callback is a reference.\<close>

record RpcMgr =
  rp_responses :: "u16 \<Rightarrow> nat option"
  rp_callbacks :: "u16 \<Rightarrow> nat option"

datatype call = Called_Close nat | Called_Push nat Message | Called_OnConnect nat | Called_Back nat Message

text \<open>What \<open>Trigger\<close> queues: an event type, or a value of any other type.\<close>

datatype notice = EventType int | OtherNote

record Net =
  n_store :: "nat \<Rightarrow> Conn"
  n_next :: nat
  n_mgr :: ConnMgr
  n_rpc :: RpcMgr
  n_chan :: "nat \<Rightarrow> Message list"
  n_seq :: u32
  n_epoll :: "int list"
  n_connNum :: int
  n_calls :: "call list"
  n_queue :: "notice Esqueue"

datatype net_error =
    EpollDelError | EpollAddError | SocketFdError | NonblockError | LimitExceeded | FdExists
  | UnknownFd int | EventFdError | CodecError codec_error | DialError | DeadlineError
  | SendFailed | RpcTimeout | SignalClose | SignalError | UnknownEvent

subsection \<open>The registry of connections\<close>

definition NewServerMgr :: ConnMgr where
  "NewServerMgr = \<lparr>cm_conns = Map.empty, cm_servers = Map.empty\<rparr>"

definition GetBySid :: "ConnMgr \<Rightarrow> u16 \<Rightarrow> nat option" where
  "GetBySid s svid = cm_servers s svid"

definition GetByFd :: "ConnMgr \<Rightarrow> int \<Rightarrow> nat option" where
  "GetByFd s fd = cm_conns s fd"

definition AddConn :: "(nat \<Rightarrow> Conn) \<Rightarrow> nat \<Rightarrow> ConnMgr \<Rightarrow> ConnMgr" where
  "AddConn store c s =
     (let s = s\<lparr>cm_conns := (cm_conns s)(c_fd (store c) \<mapsto> c)\<rparr>
      in if c_svid (store c) > 0 then s\<lparr>cm_servers := (cm_servers s)(c_svid (store c) \<mapsto> c)\<rparr> else s)"

definition DelBySid :: "(nat \<Rightarrow> Conn) \<Rightarrow> u16 \<Rightarrow> ConnMgr \<Rightarrow> ConnMgr" where
  "DelBySid store svid s =
     (case cm_servers s svid of
        None \<Rightarrow> s
      | Some c \<Rightarrow> s\<lparr>cm_conns := (cm_conns s)(c_fd (store c) := None),
                     cm_servers := (cm_servers s)(svid := None)\<rparr>)"

definition DelByFd :: "(nat \<Rightarrow> Conn) \<Rightarrow> int \<Rightarrow> ConnMgr \<Rightarrow> nat option \<times> ConnMgr" where
  "DelByFd store fd s =
     (case cm_conns s fd of
        None \<Rightarrow> (None, s)
      | Some c \<Rightarrow>
          let s = (if c_svid (store c) > 0
                   then s\<lparr>cm_servers := (cm_servers s)(c_svid (store c) := None)\<rparr> else s)
          in (Some c, s\<lparr>cm_conns := (cm_conns s)(fd := None)\<rparr>))"

text \<open>
  \<open>Range\<close> and \<open>Servers\<close> visit a Go map in an arbitrary order: the order of the keys is an argument.
\<close>

definition Range :: "int list \<Rightarrow> ConnMgr \<Rightarrow> nat list" where
  "Range fds s = concat (map (\<lambda>fd. case cm_conns s fd of None \<Rightarrow> [] | Some c \<Rightarrow> [c]) fds)"

definition Servers :: "u16 list \<Rightarrow> ConnMgr \<Rightarrow> nat list" where
  "Servers ids s = concat (map (\<lambda>i. case cm_servers s i of None \<Rightarrow> [] | Some c \<Rightarrow> [c]) ids)"

subsection \<open>The registry of remote calls\<close>

definition NewRpcMgr :: RpcMgr where
  "NewRpcMgr = \<lparr>rp_responses = Map.empty, rp_callbacks = Map.empty\<rparr>"

definition RegisterRpc :: "u16 \<Rightarrow> nat \<Rightarrow> RpcMgr \<Rightarrow> RpcMgr" where
  "RegisterRpc sq ch p = p\<lparr>rp_responses := (rp_responses p)(sq \<mapsto> ch)\<rparr>"

definition UnregisterRpc :: "u16 \<Rightarrow> RpcMgr \<Rightarrow> RpcMgr" where
  "UnregisterRpc sq p = p\<lparr>rp_responses := (rp_responses p)(sq := None)\<rparr>"

definition RegisterRpcCallback :: "u16 \<Rightarrow> nat \<Rightarrow> RpcMgr \<Rightarrow> RpcMgr" where
  "RegisterRpcCallback sq cb p = p\<lparr>rp_callbacks := (rp_callbacks p)(sq \<mapsto> cb)\<rparr>"

definition UnregisterRpcCallback :: "u16 \<Rightarrow> RpcMgr \<Rightarrow> RpcMgr" where
  "UnregisterRpcCallback sq p = p\<lparr>rp_callbacks := (rp_callbacks p)(sq := None)\<rparr>"

text \<open>The answer of \<open>HandleRpcResponse\<close>; sending to a full channel blocks the caller.\<close>

datatype handled = Handled | NotRpc | Blocks

definition HandleRpcResponse :: "Message \<Rightarrow> Net \<Rightarrow> handled \<times> Net" where
  "HandleRpcResponse msg n =
     (let sq = h_Seq msg
      in case rp_responses (n_rpc n) sq of
           Some ch \<Rightarrow>
             if n_chan n ch = [] then (Handled, n\<lparr>n_chan := (n_chan n)(ch := [msg])\<rparr>) else (Blocks, n)
         | None \<Rightarrow>
           (case rp_callbacks (n_rpc n) sq of
              Some cb \<Rightarrow> (Handled, n\<lparr>n_calls := n_calls n @ [Called_Back cb msg]\<rparr>)
            | None \<Rightarrow> (NotRpc, n)))"

subsection \<open>Connections\<close>

definition upd_conn :: "nat \<Rightarrow> (Conn \<Rightarrow> Conn) \<Rightarrow> Net \<Rightarrow> Net" where
  "upd_conn c f n = n\<lparr>n_store := (n_store n)(c := f (n_store n c))\<rparr>"

definition SetActiveTime :: "nat \<Rightarrow> int \<Rightarrow> Net \<Rightarrow> Net" where
  "SetActiveTime c t = upd_conn c (\<lambda>k. k\<lparr>c_activeTime := t\<rparr>)"

definition SetSvid :: "nat \<Rightarrow> u16 \<Rightarrow> Net \<Rightarrow> Net" where
  "SetSvid c svid = upd_conn c (\<lambda>k. k\<lparr>c_svid := svid\<rparr>)"

definition SetContext :: "nat \<Rightarrow> u32 \<Rightarrow> Net \<Rightarrow> Net" where
  "SetContext c ctx = upd_conn c (\<lambda>k. k\<lparr>c_ctx := Some ctx\<rparr>)"

definition Context :: "nat \<Rightarrow> Net \<Rightarrow> u32 option" where
  "Context c n = c_ctx (n_store n c)"

text \<open>
  \<open>Poll.Del\<close>: nothing but an error when epoll does not know the descriptor; a descriptor epoll knows
  but the registry does not makes the log call on a nil connection panic.
\<close>

definition Poll_Del :: "int \<Rightarrow> (Net, net_error option) act" where
  "Poll_Del fd =
     seq get_st (\<lambda>n.
     if fd \<notin> set (n_epoll n) then ret (Some EpollDelError)
     else
       seq (modify (\<lambda>n. n\<lparr>n_epoll := removeAll fd (n_epoll n), n_connNum := n_connNum n - 1\<rparr>)) (\<lambda>_.
       (case DelByFd (n_store n) fd (n_mgr n) of
          (None, _) \<Rightarrow> throw NilDereference
        | (Some c, mgr) \<Rightarrow>
            seq (modify (\<lambda>n. n\<lparr>n_mgr := mgr, n_calls := n_calls n @ [Called_Close c]\<rparr>)) (\<lambda>_.
            seq (modify (upd_conn c (\<lambda>k. k\<lparr>c_open := False\<rparr>))) (\<lambda>_.
            ret None)))))"

text \<open>
  Reading a connection: the packet at the front of what has arrived. With too few bytes the read runs
  into its deadline of a second and has consumed them.
\<close>

definition TcpConn_Read :: "int \<Rightarrow> nat \<Rightarrow> (Net, codec_error + Message) act" where
  "TcpConn_Read now c =
     seq get_st (\<lambda>n.
     case TcpRead (c_bytes (n_store n c)) of
       (r, bs) \<Rightarrow>
         seq (modify (upd_conn c (\<lambda>k. k\<lparr>c_bytes := bs\<rparr>))) (\<lambda>_.
         seq (lift r) (\<lambda>r.
         case r of Inl e \<Rightarrow> ret (Inl e)
         | Inr msg \<Rightarrow> seq (modify (SetActiveTime c now)) (\<lambda>_. ret (Inr msg)))))"

definition WsConn_Read :: "int \<Rightarrow> nat \<Rightarrow> (Net, codec_error + Message) act" where
  "WsConn_Read now c =
     seq get_st (\<lambda>n.
     case c_frames (n_store n c) of
       [] \<Rightarrow> ret (Inl ReadTimeout)
     | d # ds \<Rightarrow>
         seq (modify (upd_conn c (\<lambda>k. k\<lparr>c_frames := ds\<rparr>))) (\<lambda>_.
         seq (lift (WsRead d)) (\<lambda>r.
         case r of Inl e \<Rightarrow> ret (Inl e)
         | Inr msg \<Rightarrow> seq (modify (SetActiveTime c now)) (\<lambda>_. ret (Inr msg)))))"

text \<open>What the interface \<open>IConn\<close> calls depends on the type of the connection.\<close>

definition Conn_Read :: "int \<Rightarrow> nat \<Rightarrow> (Net, codec_error + Message) act" where
  "Conn_Read now c =
     seq get_st (\<lambda>n. if c_ws (n_store n c) then WsConn_Read now c else TcpConn_Read now c)"

lemmas Conn_Read_defs = Conn_Read_def TcpConn_Read_def WsConn_Read_def

text \<open>
  Writing: \<open>dl\<close> says whether the deadline could be set, \<open>wr\<close> whether the write of these bytes succeeds.
  Any failure deletes the connection, a nil message included.
\<close>

definition TcpConn_Write :: "bool \<Rightarrow> (u8 list \<Rightarrow> bool) \<Rightarrow> int \<Rightarrow> Message option \<Rightarrow> nat \<Rightarrow> (Net, net_error option) act" where
  "TcpConn_Write dl wr now msg c =
     seq get_st (\<lambda>n.
     (let r = (if dl then (case TcpWrite wr msg of Inl e \<Rightarrow> Inl (CodecError e) | Inr (data, _) \<Rightarrow> Inr data)
               else Inl DeadlineError)
      in case r of
           Inl e \<Rightarrow> seq (Poll_Del (c_fd (n_store n c))) (\<lambda>_. ret (Some e))
         | Inr data \<Rightarrow>
             seq (modify (upd_conn c (\<lambda>k. k\<lparr>c_sent := c_sent k @ [data]\<rparr>))) (\<lambda>_.
             seq (modify (SetActiveTime c now)) (\<lambda>_. ret None))))"

definition WsConn_Write :: "bool \<Rightarrow> (u8 list \<Rightarrow> bool) \<Rightarrow> int \<Rightarrow> Message option \<Rightarrow> nat \<Rightarrow> (Net, net_error option) act" where
  "WsConn_Write dl wr now msg c =
     seq get_st (\<lambda>n.
     (let r = (if dl then (case WsWrite wr msg of Inl e \<Rightarrow> Inl (CodecError e) | Inr (data, _) \<Rightarrow> Inr data)
               else Inl DeadlineError)
      in case r of
           Inl e \<Rightarrow> seq (Poll_Del (c_fd (n_store n c))) (\<lambda>_. ret (Some e))
         | Inr data \<Rightarrow>
             seq (modify (upd_conn c (\<lambda>k. k\<lparr>c_sent := c_sent k @ [data]\<rparr>))) (\<lambda>_.
             seq (modify (SetActiveTime c now)) (\<lambda>_. ret None))))"

definition Conn_Write :: "bool \<Rightarrow> (u8 list \<Rightarrow> bool) \<Rightarrow> int \<Rightarrow> Message option \<Rightarrow> nat \<Rightarrow> (Net, net_error option) act" where
  "Conn_Write dl wr now msg c =
     seq get_st (\<lambda>n. if c_ws (n_store n c) then WsConn_Write dl wr now msg c else TcpConn_Write dl wr now msg c)"

text \<open>\<open>WriteBy\<close> of both types makes the message and calls the \<open>Write\<close> of its own type.\<close>

definition TcpConn_WriteBy :: "bool \<Rightarrow> (u8 list \<Rightarrow> bool) \<Rightarrow> int \<Rightarrow> u16 \<Rightarrow> u8 list option option \<Rightarrow> nat \<Rightarrow>
    (Net, net_error option) act" where
  "TcpConn_WriteBy dl wr now cmd pro c = TcpConn_Write dl wr now (NewMessage (of_int now) cmd pro) c"

definition WsConn_WriteBy :: "bool \<Rightarrow> (u8 list \<Rightarrow> bool) \<Rightarrow> int \<Rightarrow> u16 \<Rightarrow> u8 list option option \<Rightarrow> nat \<Rightarrow>
    (Net, net_error option) act" where
  "WsConn_WriteBy dl wr now cmd pro c = WsConn_Write dl wr now (NewMessage (of_int now) cmd pro) c"

definition Conn_WriteBy :: "bool \<Rightarrow> (u8 list \<Rightarrow> bool) \<Rightarrow> int \<Rightarrow> u16 \<Rightarrow> u8 list option option \<Rightarrow> nat \<Rightarrow>
    (Net, net_error option) act" where
  "Conn_WriteBy dl wr now cmd pro c =
     seq get_st (\<lambda>n. if c_ws (n_store n c) then WsConn_WriteBy dl wr now cmd pro c else TcpConn_WriteBy dl wr now cmd pro c)"

lemmas Conn_Write_defs = Conn_Write_def TcpConn_Write_def WsConn_Write_def
lemmas Conn_WriteBy_defs = Conn_WriteBy_def TcpConn_WriteBy_def WsConn_WriteBy_def

text \<open>\<open>WriteBy\<close> of the interface writes the message it makes.\<close>

lemma Conn_WriteBy_Write:
  "Conn_WriteBy dl wr now cmd pro c = Conn_Write dl wr now (NewMessage (of_int now) cmd pro) c"
  unfolding Conn_WriteBy_defs Conn_Write_def ..

text \<open>\<open>seq.Add(1)\<close>: the process counts its calls in 32 bits and sends the low 16 of them.\<close>

definition next_seq :: "(Net, u16) act" where
  "next_seq =
     seq (modify (\<lambda>n. n\<lparr>n_seq := n_seq n + 1\<rparr>)) (\<lambda>_. seq get_st (\<lambda>n. ret (ucast (n_seq n))))"

text \<open>
  \<open>RpcWrite\<close> up to its wait: the sequence number under which it waits, or the error of the send, after
  which it no longer waits. A request that does not marshal is a nil message, and setting its sequence
  number panics. A WebSocket inherits the method from its embedded \<open>Conn\<close>, whose \<open>Write\<close> writes a TCP packet.
\<close>

definition RpcWrite_start :: "bool \<Rightarrow> (u8 list \<Rightarrow> bool) \<Rightarrow> int \<Rightarrow> u16 \<Rightarrow> u8 list option option \<Rightarrow> nat \<Rightarrow> nat \<Rightarrow>
    (Net, net_error + u16) act" where
  "RpcWrite_start dl wr now cmd req ch c =
     seq next_seq (\<lambda>sq.
     case NewMessage (of_int now) cmd req of
       None \<Rightarrow> throw NilDereference
     | Some msg \<Rightarrow>
         seq (modify (\<lambda>n. n\<lparr>n_rpc := RegisterRpc sq ch (n_rpc n), n_chan := (n_chan n)(ch := [])\<rparr>)) (\<lambda>_.
         seq (TcpConn_Write dl wr now (Some (msg\<lparr>h_Seq := sq\<rparr>)) c) (\<lambda>e.
         case e of
           Some _ \<Rightarrow> seq (modify (\<lambda>n. n\<lparr>n_rpc := UnregisterRpc sq (n_rpc n)\<rparr>)) (\<lambda>_. ret (Inl SendFailed))
         | None \<Rightarrow> ret (Inr sq))))"

text \<open>The end of the wait: the message in the channel, or the timeout.\<close>

definition RpcWrite_end :: "u16 \<Rightarrow> nat \<Rightarrow> (Net, net_error + Message) act" where
  "RpcWrite_end sq ch =
     seq get_st (\<lambda>n.
     seq (modify (\<lambda>n. n\<lparr>n_rpc := UnregisterRpc sq (n_rpc n)\<rparr>)) (\<lambda>_.
     case n_chan n ch of
       [] \<Rightarrow> ret (Inl RpcTimeout)
     | m # ms \<Rightarrow> seq (modify (\<lambda>n. n\<lparr>n_chan := (n_chan n)(ch := ms)\<rparr>)) (\<lambda>_. ret (Inr m))))"

definition RpcWriteAsync :: "bool \<Rightarrow> (u8 list \<Rightarrow> bool) \<Rightarrow> int \<Rightarrow> u16 \<Rightarrow> u8 list option option \<Rightarrow> nat \<Rightarrow> nat \<Rightarrow>
    (Net, net_error option) act" where
  "RpcWriteAsync dl wr now cmd req cb c =
     seq next_seq (\<lambda>sq.
     case NewMessage (of_int now) cmd req of
       None \<Rightarrow> throw NilDereference
     | Some msg \<Rightarrow>
         seq (modify (\<lambda>n. n\<lparr>n_rpc := RegisterRpcCallback sq cb (n_rpc n)\<rparr>)) (\<lambda>_.
         seq (TcpConn_Write dl wr now (Some (msg\<lparr>h_Seq := sq\<rparr>)) c) (\<lambda>e.
         ret (case e of Some _ \<Rightarrow> Some SendFailed | None \<Rightarrow> None))))"

end
