(* ===== verification/CorePoll.thy ===== *)
theory CorePoll
  imports CoreNet
begin

text \<open>
  The poll of \<open>core/epoll.go\<close>: starting and closing, the events of the epoll descriptor, accepting and
  dialling connections, reading them, and the two tickers. Every system call is an argument: whether
  it succeeds, and the descriptor it returns. The descriptors of connections that epoll watches are
  \<open>n_epoll\<close>; adding one it already watches fails. The listeners and the event descriptor are watched
  from the start to the end and are no part of that list.
\<close>

record PollConfig =
  pc_MaxConn :: int
  pc_HeartBeat :: int
  pc_Etcd :: bool

record Poll =
  p_epollFd :: int
  p_eventFd :: int
  p_tcpListenFd :: int
  p_wsListenFd :: int
  p_config :: PollConfig
  p_conf :: "ServerConfig option"

subsection \<open>Starting and closing\<close>

definition NewPollConfig :: PollConfig where
  "NewPollConfig = \<lparr>pc_MaxConn = 10000, pc_HeartBeat = 60, pc_Etcd = False\<rparr>"

definition must :: "'a option \<Rightarrow> panic + 'a" where
  "must r = (case r of None \<Rightarrow> Inl Explicit | Some a \<Rightarrow> Inr a)"

text \<open>
  \<open>create\<close> and \<open>eventfd\<close> are the descriptors the system hands out, \<open>ctl\<close> says whether epoll takes the
  event descriptor. \<open>Attach\<close> only stores the poll in the handler.
\<close>

definition NewPoll :: "int option \<Rightarrow> int option \<Rightarrow> bool \<Rightarrow> ServerConfig option \<Rightarrow> PollConfig \<Rightarrow> panic + Poll" where
  "NewPoll create eventfd ctl sconf pconf =
     bindE (must create) (\<lambda>epollFd.
     bindE (must eventfd) (\<lambda>eventFd.
     bindE (must (if ctl then Some () else None)) (\<lambda>_.
     Inr \<lparr>p_epollFd = epollFd, p_eventFd = eventFd, p_tcpListenFd = 0, p_wsListenFd = 0,
          p_config = pconf, p_conf = sconf\<rparr>)))"

text \<open>
  A listener as the library returns it: whether it is one of TCP, and the descriptor of its file if that
  can be had.
\<close>

record netListener =
  nl_tcp :: bool
  nl_file :: "int option"

datatype listener_error = NoTCPListener | NoListenerFile | InvalidFd int

definition GetListenerFd :: "netListener \<Rightarrow> listener_error + int" where
  "GetListenerFd l =
     (if \<not> nl_tcp l then Inl NoTCPListener
      else case nl_file l of
             None \<Rightarrow> Inl NoListenerFile
           | Some fd \<Rightarrow> if fd < 0 then Inl (InvalidFd fd) else Inr fd)"

text \<open>
  \<open>lo_listen\<close> is the listener on an address, if there is one, and \<open>lo_ctl\<close> says which descriptors epoll
  takes. The result of \<open>Start\<close> is the poll when it runs, with what it put into the server registry. The
  address of the WebSocket listener is the IP of the configuration with its port plus one.
\<close>

record listen_env =
  lo_listen :: "string \<Rightarrow> netListener option"
  lo_ctl :: "int \<Rightarrow> bool"

definition Listen :: "listen_env \<Rightarrow> string \<Rightarrow> panic + int" where
  "Listen lo addr =
     bindE (must (lo_listen lo addr)) (\<lambda>l.
     bindE (must (case GetListenerFd l of Inl _ \<Rightarrow> None | Inr fd \<Rightarrow> Some fd)) (\<lambda>fd.
     bindE (must (if lo_ctl lo fd then Some () else None)) (\<lambda>_. Inr fd)))"

definition ws_addr :: "(int \<Rightarrow> string) \<Rightarrow> ServerConfig \<Rightarrow> panic + string" where
  "ws_addr dec conf =
     bindE (Port conf) (\<lambda>port. Inr (hd (split_at CHR '':'' (sc_Addr conf)) @ '':'' @ dec (port + 1)))"

definition Poll_Start :: "listen_env \<Rightarrow> (int \<Rightarrow> string) \<Rightarrow> Poll \<Rightarrow>
    panic + (Poll option \<times> (u16 \<times> string) list)" where
  "Poll_Start lo dec p =
     (case p_conf p of
        None \<Rightarrow> Inl NilDereference
      | Some conf \<Rightarrow>
        if sc_Addr conf = '''' then Inr (None, [])
        else
          (let g = p_config p;
               g = (if pc_HeartBeat g = 0 then g\<lparr>pc_HeartBeat := 60\<rparr> else g);
               g = (if pc_MaxConn g = 0 then g\<lparr>pc_MaxConn := 100\<rparr> else g);
               puts = (if pc_Etcd g then [(SC_Svid conf, sc_Addr conf)] else [])
           in bindE (Listen lo (sc_Addr conf)) (\<lambda>tcp.
              bindE (if sc_ServerType conf = 3
                     then bindE (ws_addr dec conf) (Listen lo) else Inr (p_wsListenFd p)) (\<lambda>wsfd.
              Inr (Some (p\<lparr>p_config := g, p_tcpListenFd := tcp, p_wsListenFd := wsfd\<rparr>), puts)))))"

text \<open>A poll that starts has limits of its own or the default ones, never zero.\<close>

lemma Poll_Start_limits:
  assumes "Poll_Start lo dec p = Inr (Some p', puts)"
  shows "pc_HeartBeat (p_config p') \<noteq> 0 \<and> pc_MaxConn (p_config p') \<noteq> 0 \<and>
    p_conf p' = p_conf p \<and> p_eventFd p' = p_eventFd p \<and> p_tcpListenFd p' \<ge> 0"
  using assms
  by (auto simp: Poll_Start_def Listen_def GetListenerFd_def must_def bindE_def Let_def
      split: option.splits sum.splits if_splits)

text \<open>
  The descriptor of a socket: whether the library gives access to the system's connection, and the
  descriptor read there.
\<close>

definition socketFD :: "bool \<Rightarrow> int option \<Rightarrow> int" where
  "socketFD sys fd = (if sys then (case fd of Some fd \<Rightarrow> fd | None \<Rightarrow> - 1) else - 1)"

text \<open>
  \<open>Close\<close>: every connection is closed, the registries are left as they are; the errors of the system
  calls that failed are collected. \<open>order\<close> is the order in which the registry is visited.
\<close>

definition Poll_Close :: "bool \<Rightarrow> (int \<Rightarrow> bool) \<Rightarrow> int list \<Rightarrow> Poll \<Rightarrow> Net \<Rightarrow> nat \<times> Net" where
  "Poll_Close etcd_ok close_ok order p n =
     (let errs = (if pc_Etcd (p_config p) \<and> \<not> etcd_ok then 1 else 0)
            + length (filter (\<lambda>fd. fd > 0 \<and> \<not> close_ok fd) [p_epollFd p, p_eventFd p, p_tcpListenFd p, p_wsListenFd p])
      in (errs, foldl (\<lambda>n c. upd_conn c (\<lambda>k. k\<lparr>c_open := False\<rparr>) n) n (Range order (n_mgr n))))"

subsection \<open>The queue of notes\<close>

definition Trigger :: "notice \<Rightarrow> Net \<Rightarrow> Net" where
  "Trigger t n = n\<lparr>n_queue := snd (Esq_Add (n_queue n) t)\<rparr>"

text \<open>
  Event type 0 closes, 1 is an error and 2 is the timer, for which the call of \<open>Tick\<close> is commented out.
  \<open>mid\<close> are the notes other goroutines add meanwhile.
\<close>

definition note_error :: "notice \<Rightarrow> net_error option" where
  "note_error t =
     (case t of
        EventType e \<Rightarrow> (if e = 2 then None else if e = 0 then Some SignalClose
                        else if e = 1 then Some SignalError else Some UnknownEvent)
      | OtherNote \<Rightarrow> Some UnknownEvent)"

definition processQueueEvents :: "notice list \<Rightarrow> (Net, net_error option) act" where
  "processQueueEvents mid =
     seq get_st (\<lambda>n.
     case Esq_ForEach note_error mid (n_queue n) of
       (_, err, q) \<Rightarrow> seq (modify (\<lambda>n. n\<lparr>n_queue := q\<rparr>)) (\<lambda>_. ret err))"

subsection \<open>New connections\<close>

definition getConnNum :: "Net \<Rightarrow> int" where
  "getConnNum n = n_connNum n"

definition incrConnNum :: "Net \<Rightarrow> Net" where
  "incrConnNum n = n\<lparr>n_connNum := n_connNum n + 1\<rparr>"

definition decrConnNum :: "Net \<Rightarrow> Net" where
  "decrConnNum n = n\<lparr>n_connNum := n_connNum n - 1\<rparr>"

definition EpollAdd :: "bool \<Rightarrow> int \<Rightarrow> (Net, bool) act" where
  "EpollAdd ok fd =
     seq get_st (\<lambda>n.
     if ok \<and> fd \<notin> set (n_epoll n)
     then seq (modify (\<lambda>n. n\<lparr>n_epoll := fd # n_epoll n\<rparr>)) (\<lambda>_. ret True) else ret False)"

text \<open>A new connection object, entered into the registry.\<close>

definition new_Conn :: "int \<Rightarrow> bool \<Rightarrow> int \<Rightarrow> u16 \<Rightarrow> Conn" where
  "new_Conn fd ws now svid =
     \<lparr>c_fd = fd, c_ws = ws, c_activeTime = now, c_svid = svid, c_ctx = None, c_open = True,
      c_bytes = [], c_frames = [], c_sent = []\<rparr>"

definition add_new :: "Conn \<Rightarrow> (Net, nat) act" where
  "add_new k =
     seq get_st (\<lambda>n.
     seq (modify (\<lambda>n. n\<lparr>n_store := (n_store n)(n_next n := k), n_next := n_next n + 1\<rparr>)) (\<lambda>_.
     seq (modify (\<lambda>m. m\<lparr>n_mgr := AddConn (n_store m) (n_next n) (n_mgr m)\<rparr>)) (\<lambda>_.
     ret (n_next n))))"

text \<open>
  How the system calls for an accepted connection turn out: the access to its descriptor, the
  non-blocking mode, epoll, and the upgrade to a WebSocket.
\<close>

record accept =
  a_sys :: bool
  a_control :: "int option"
  a_nonblock :: bool
  a_ctl :: bool
  a_upgrade :: bool

definition a_fd :: "accept \<Rightarrow> int" where
  "a_fd a = socketFD (a_sys a) (a_control a)"

definition processAcceptTcp :: "int \<Rightarrow> accept option \<Rightarrow> (Net, net_error option) act" where
  "processAcceptTcp now acc =
     (case acc of
        None \<Rightarrow> ret None
      | Some a \<Rightarrow>
        if a_fd a = - 1 then ret (Some SocketFdError)
        else if \<not> a_nonblock a then ret (Some NonblockError)
        else
          seq (EpollAdd (a_ctl a) (a_fd a)) (\<lambda>ok.
          if \<not> ok then ret (Some EpollAddError)
          else seq (add_new (new_Conn (a_fd a) False now 0)) (\<lambda>_. ret None)))"

definition processAcceptWebSocket :: "Poll \<Rightarrow> int \<Rightarrow> accept option \<Rightarrow> (Net, net_error option) act" where
  "processAcceptWebSocket p now acc =
     (case acc of
        None \<Rightarrow> ret None
      | Some a \<Rightarrow>
        seq get_st (\<lambda>n.
        if getConnNum n \<ge> pc_MaxConn (p_config p) then ret (Some LimitExceeded)
        else if a_fd a = - 1 then ret (Some SocketFdError)
        else if \<not> a_upgrade a then ret None
        else if GetByFd (n_mgr n) (a_fd a) \<noteq> None then ret (Some FdExists)
        else if \<not> a_nonblock a then ret (Some NonblockError)
        else
          seq (EpollAdd (a_ctl a) (a_fd a)) (\<lambda>ok.
          if \<not> ok then ret (Some EpollAddError)
          else
            seq (add_new (new_Conn (a_fd a) True now 0)) (\<lambda>_.
            seq (modify incrConnNum) (\<lambda>_. ret None)))))"

subsection \<open>Data of a connection\<close>

text \<open>An event either is dealt with, or blocks the loop for good.\<close>

datatype dealt = Dealt "net_error option" | Hangs

definition processClientData :: "int \<Rightarrow> nat \<Rightarrow> (Net, dealt) act" where
  "processClientData now c =
     seq get_st (\<lambda>n. let fd = c_fd (n_store n c) in
     seq (Conn_Read now c) (\<lambda>r.
     case r of
       Inl _ \<Rightarrow> seq (Poll_Del fd) (\<lambda>_. ret (Dealt None))
     | Inr msg \<Rightarrow>
         seq (modify (SetActiveTime c now)) (\<lambda>_.
         if IsHeartBeat msg then ret (Dealt None)
         else
           seq get_st (\<lambda>n.
           case HandleRpcResponse msg n of
             (Blocks, _) \<Rightarrow> ret Hangs
           | (Handled, n) \<Rightarrow> seq (modify (\<lambda>_. n)) (\<lambda>_. ret (Dealt None))
           | (NotRpc, _) \<Rightarrow>
               seq (modify (\<lambda>n. n\<lparr>n_calls := n_calls n @ [Called_Push c msg]\<rparr>)) (\<lambda>_. ret (Dealt None))))))"

subsection \<open>The loop\<close>

definition processEventFd :: "bool \<Rightarrow> (Net, net_error option) act" where
  "processEventFd ok = ret (if ok then None else Some EventFdError)"

text \<open>\<open>e_pad\<close> is set for the listeners, whose descriptors may clash with others.\<close>

record event =
  e_fd :: int
  e_pad :: int
  e_read :: bool
  e_accept :: "accept option"

definition processNetworkEvent :: "Poll \<Rightarrow> int \<Rightarrow> event \<Rightarrow> (Net, dealt) act" where
  "processNetworkEvent p now e =
     (let fd = e_fd e in
      if fd = p_eventFd p then seq (processEventFd (e_read e)) (\<lambda>r. ret (Dealt r))
      else if e_pad e > 0 then
        (if fd = p_tcpListenFd p then seq (processAcceptTcp now (e_accept e)) (\<lambda>r. ret (Dealt r))
         else if fd = p_wsListenFd p then seq (processAcceptWebSocket p now (e_accept e)) (\<lambda>r. ret (Dealt r))
         else ret (Dealt (Some (UnknownFd fd))))
      else
        seq get_st (\<lambda>n.
        case GetByFd (n_mgr n) fd of
          Some c \<Rightarrow> processClientData now c
        | None \<Rightarrow> ret (Dealt (Some (UnknownFd fd)))))"

text \<open>The events of one wait, in order; errors are logged. The answer says whether the loop hangs.\<close>

fun network_events :: "Poll \<Rightarrow> int \<Rightarrow> event list \<Rightarrow> (Net, bool) act" where
  "network_events p now [] = ret False"
| "network_events p now (e # es) =
     seq (processNetworkEvent p now e) (\<lambda>d.
     case d of Hangs \<Rightarrow> ret True | Dealt _ \<Rightarrow> network_events p now es)"

text \<open>One wait: \<open>None\<close> is an error other than an interruption.\<close>

record wait =
  w_now :: int
  w_mid :: "notice list"
  w_events :: "event list option"

datatype loop = Goes | Stops | Stuck

fun LoopRun :: "Poll \<Rightarrow> wait list \<Rightarrow> (Net, loop) act" where
  "LoopRun p [] = ret Goes"
| "LoopRun p (w # ws) =
     (case w_events w of
        None \<Rightarrow> ret Stops
      | Some es \<Rightarrow>
          seq (processQueueEvents (w_mid w)) (\<lambda>err.
          case err of
            Some _ \<Rightarrow> ret Stops
          | None \<Rightarrow>
              seq (network_events p (w_now w) es) (\<lambda>stuck.
              if stuck then ret Stuck else LoopRun p ws)))"

subsection \<open>The tickers\<close>

definition timeout_fds :: "Poll \<Rightarrow> int \<Rightarrow> int list \<Rightarrow> Net \<Rightarrow> int list" where
  "timeout_fds p now order n =
     map (\<lambda>c. c_fd (n_store n c))
       (filter (\<lambda>c. now - c_activeTime (n_store n c) > pc_HeartBeat (p_config p)) (Range order (n_mgr n)))"

definition CheckTimeout :: "Poll \<Rightarrow> int \<Rightarrow> int list \<Rightarrow> (Net, unit) act" where
  "CheckTimeout p now order =
     seq get_st (\<lambda>n. for_each (\<lambda>fd. seq (Poll_Del fd) (\<lambda>_. ret ())) (timeout_fds p now order n))"

definition ConnTick :: "(nat \<Rightarrow> bool) \<Rightarrow> (nat \<Rightarrow> u8 list \<Rightarrow> bool) \<Rightarrow> int \<Rightarrow> u16 list \<Rightarrow> (Net, unit) act" where
  "ConnTick dl wr now ids =
     seq get_st (\<lambda>n.
     for_each (\<lambda>c. seq (Conn_Write (dl c) (wr c) now (Some (NewHearBeatMessage (of_int now))) c) (\<lambda>_. ret ()))
       (Servers ids (n_mgr n)))"

subsection \<open>Dialling\<close>

text \<open>
  The address given to the dialler is the text of the address read as the bytes of an IP: the library
  refuses it unless it has the length of no address, of an IPv4 or of an IPv6 address.
\<close>

definition DialTCP :: "(u8 list \<Rightarrow> int \<Rightarrow> int option) \<Rightarrow> u8 list \<Rightarrow> int \<Rightarrow> int option" where
  "DialTCP dial ip port = (if length ip = 0 \<or> length ip = 4 \<or> length ip = 16 then dial ip port else None)"

definition Connect :: "(u8 list \<Rightarrow> int \<Rightarrow> int option) \<Rightarrow> bool \<Rightarrow> int \<Rightarrow> ServerConfig \<Rightarrow> (Net, net_error + nat) act" where
  "Connect dial ctl now conf =
     seq (lift (Port conf)) (\<lambda>port.
     case DialTCP dial (IP conf) port of
       None \<Rightarrow> ret (Inl DialError)
     | Some fd \<Rightarrow>
         seq (EpollAdd ctl fd) (\<lambda>ok.
         if \<not> ok then ret (Inl EpollAddError)
         else
           seq (add_new (new_Conn fd False now (SC_Svid conf))) (\<lambda>c.
           seq (modify incrConnNum) (\<lambda>_.
           seq (modify (\<lambda>n. n\<lparr>n_calls := n_calls n @ [Called_OnConnect c]\<rparr>)) (\<lambda>_. ret (Inr c))))))"

text \<open>\<open>reg\<close> is the address the server registry has for a number, the empty text for none.\<close>

definition GetServer :: "(u16 \<Rightarrow> string) \<Rightarrow> (u8 list \<Rightarrow> int \<Rightarrow> int option) \<Rightarrow> bool \<Rightarrow> int \<Rightarrow> u16 \<Rightarrow> (Net, nat option) act" where
  "GetServer reg dial ctl now svid =
     seq get_st (\<lambda>n.
     case GetBySid (n_mgr n) svid of
       Some c \<Rightarrow> ret (Some c)
     | None \<Rightarrow>
         if reg svid = '''' then ret None
         else
           seq (Connect dial ctl now
                  \<lparr>sc_Addr = reg svid, sc_WsAddr = '''', sc_ServerType = ServerType svid, sc_ServerId = ServerId svid\<rparr>) (\<lambda>r.
           ret (case r of Inr c \<Rightarrow> Some c | Inl _ \<Rightarrow> None)))"

text \<open>A process without connections.\<close>

definition new_Net :: Net where
  "new_Net = \<lparr>n_store = (\<lambda>_. new_Conn 0 False 0 0), n_next = 0, n_mgr = NewServerMgr, n_rpc = NewRpcMgr,
     n_chan = (\<lambda>_. []), n_seq = 0, n_epoll = [], n_connNum = 0, n_calls = [], n_queue = \<lparr>es_nodes = None\<rparr>\<rparr>"

subsection \<open>The client\<close>

text \<open>
  \<open>core/client.go\<close>: a process that starts a poll, dials one server, waits for a signal and closes. What
  the loop and the peers do until the signal comes is the argument \<open>meanwhile\<close>.
\<close>

datatype signal = SIGHUP | SIGQUIT | SIGTERM | SIGINT

record client_env =
  ce_create :: "int option"
  ce_eventfd :: "int option"
  ce_ctl :: bool
  ce_listening :: listen_env
  ce_dial :: "u8 list \<Rightarrow> int \<Rightarrow> int option"
  ce_dial_ctl :: bool
  ce_now :: int
  ce_meanwhile :: "Net \<Rightarrow> Net"
  ce_signal :: signal
  ce_etcd :: bool
  ce_close :: "int \<Rightarrow> bool"
  ce_order :: "int list"

definition Client :: "client_env \<Rightarrow> (int \<Rightarrow> string) \<Rightarrow> ServerConfig option \<Rightarrow> PollConfig \<Rightarrow> (Net, nat) act" where
  "Client env dec sconf pconf =
     seq (lift (NewPoll (ce_create env) (ce_eventfd env) (ce_ctl env) sconf pconf)) (\<lambda>poll.
     seq (lift (Poll_Start (ce_listening env) dec poll)) (\<lambda>(started, _).
     let poll = (case started of None \<Rightarrow> poll | Some p \<Rightarrow> p)
     in case sconf of
          None \<Rightarrow> throw NilDereference
        | Some conf \<Rightarrow>
            seq (Connect (ce_dial env) (ce_dial_ctl env) (ce_now env) conf) (\<lambda>_.
            seq (modify (ce_meanwhile env)) (\<lambda>_.
            seq (if ce_signal env \<in> {SIGQUIT, SIGTERM, SIGINT} then modify (Trigger (EventType 0)) else ret ()) (\<lambda>_.
            seq get_st (\<lambda>n.
            case Poll_Close (ce_etcd env) (ce_close env) (ce_order env) poll n of
              (errs, n) \<Rightarrow> seq (modify (\<lambda>_. n)) (\<lambda>_. ret errs)))))))"

text \<open>Closing a poll closes every connection that is visited, and every one is when the order is complete.\<close>

lemma foldl_close:
  "c_open (n_store (foldl (\<lambda>n c. upd_conn c (\<lambda>k. k\<lparr>c_open := False\<rparr>) n) n cs) c)
     = (c \<notin> set cs \<and> c_open (n_store n c))"
  by (induction cs arbitrary: n) (auto simp: upd_conn_def)

lemma Poll_Close_closes:
  assumes "cm_conns (n_mgr n) fd = Some c" and "fd \<in> set order"
  shows "\<not> c_open (n_store (snd (Poll_Close etcd_ok close_ok order p n)) c)"
  using assms by (force simp: Poll_Close_def foldl_close Range_def)

end
