(* ===== verification/CodecProps.thy ===== *)
theory CodecProps
  imports Codec
begin

text \<open>
  The properties of the codec: packing and reading are inverse, on single packets and on a stream;
  what the checksum detects; the frames on which reading panics, and the payloads that do not fit.
\<close>

subsection \<open>Byte order\<close>

lemma join16 [simp]: "ucast (ucast v :: u8) OR push_bit 8 (ucast (ucast (drop_bit 8 v) :: u8)) = (v :: u16)"
  by (rule bit_eqI) (auto simp: bit_simps)

lemma join32 [simp]:
  "ucast (ucast v :: u8) OR push_bit 8 (ucast (ucast (drop_bit 8 v) :: u8)) OR
   push_bit 16 (ucast (ucast (drop_bit 16 v) :: u8)) OR
   push_bit 24 (ucast (ucast (drop_bit 24 v) :: u8)) = (v :: u32)"
proof (rule bit_eqI)
  fix n
  assume "possible_bit TYPE(u32) n"
  then have "n < 32" by simp
  then consider "n < 8" | "8 \<le> n" "n < 16" | "16 \<le> n" "n < 24" | "24 \<le> n" "n < 32"
    by fastforce
  then show "bit (ucast (ucast v :: u8) OR push_bit 8 (ucast (ucast (drop_bit 8 v) :: u8)) OR
      push_bit 16 (ucast (ucast (drop_bit 16 v) :: u8)) OR
      push_bit 24 (ucast (ucast (drop_bit 24 v) :: u8)) :: u32) n = bit v n"
    by cases (auto simp: bit_simps)
qed

text \<open>The message as \<open>Pack\<close> leaves it, apart from its buffer.\<close>

definition sealed :: "Message \<Rightarrow> Message" where
  "sealed m =
     (let m = m\<lparr>h_Len := of_nat (length (m_Payload m))\<rparr> in m\<lparr>h_CheckSum := calculateCheckSum m\<rparr>)"

definition head_bytes :: "Message \<Rightarrow> u8 list" where
  "head_bytes m = [h_MagicNumber m, h_Version m, h_Flags m] @ put16 (h_Seq m) @ put32 (h_Timestamp m) @
     put16 (h_Len m) @ put16 (h_CheckSum m)"

lemma Pack_bytes: "fst (Pack m) = head_bytes (sealed m) @ put16 (m_Cmd m) @ m_Payload m"
  by (simp add: Pack_def sealed_def head_bytes_def Let_def)

lemma length_head [simp]: "length (head_bytes m) = 13"
  by (simp add: head_bytes_def put16_def put32_def)

definition header_of :: "Message \<Rightarrow> Message" where
  "header_of m = zero_Message\<lparr>h_MagicNumber := h_MagicNumber m, h_Version := h_Version m,
     h_Flags := h_Flags m, h_Seq := h_Seq m, h_Timestamp := h_Timestamp m, h_Len := h_Len m,
     h_CheckSum := h_CheckSum m\<rparr>"

lemma parse_head: "parse_header (head_bytes m @ xs) = Inr (header_of m)"
  by (simp add: parse_header_def head_bytes_def header_of_def put16_def put32_def get16_def get32_def)

lemma checksum_fields:
  "h_MagicNumber a = h_MagicNumber b \<Longrightarrow> h_Version a = h_Version b \<Longrightarrow> h_Flags a = h_Flags b \<Longrightarrow>
   h_Seq a = h_Seq b \<Longrightarrow> h_Timestamp a = h_Timestamp b \<Longrightarrow> h_Len a = h_Len b \<Longrightarrow>
   m_Cmd a = m_Cmd b \<Longrightarrow> m_Payload a = m_Payload b \<Longrightarrow> calculateCheckSum a = calculateCheckSum b"
  by (simp add: calculateCheckSum_def)

lemma sealed_sum: "calculateCheckSum (sealed m) = h_CheckSum (sealed m)"
  by (simp add: sealed_def Let_def) (rule checksum_fields, simp_all)

lemma sealed_fields [simp]:
  "h_MagicNumber (sealed m) = h_MagicNumber m" "m_Payload (sealed m) = m_Payload m"
  "m_Cmd (sealed m) = m_Cmd m" "h_Len (sealed m) = of_nat (length (m_Payload m))"
  by (simp_all add: sealed_def Let_def)

lemma get16_put [simp]: "get16 (put16 v @ xs) 0 = Inr v"
  by (simp add: get16_def put16_def)

lemma rebuild:
  "(header_of m)\<lparr>m_Cmd := m_Cmd m, m_Payload := m_Payload m\<rparr> = m\<lparr>m_All := []\<rparr>"
  by (simp add: header_of_def zero_Message_def)

text \<open>Reading the bytes of any frame whose length field is that of its payload.\<close>

lemma TcpRead_frame:
  assumes "h_MagicNumber s = magicNumber" "unat (h_Len s) = length (m_Payload s)"
  shows "TcpRead (head_bytes s @ put16 (m_Cmd s) @ m_Payload s @ rest) =
    (Inr (if h_CheckSum s \<noteq> calculateCheckSum s then Inl (CheckSumMismatch (calculateCheckSum s) (h_CheckSum s))
          else Inr (s\<lparr>m_All := []\<rparr>)), rest)"
proof -
  have rd: "read_payload (h_Len s) (m_Payload s @ rest) = (Some (m_Payload s), rest)"
    using assms(2) by (cases "m_Payload s") (auto simp: read_payload_def ReadFull_def word_greater_zero_iff unat_eq_0)
  have ck: "calculateCheckSum (s\<lparr>m_All := []\<rparr>) = calculateCheckSum s" by (rule checksum_fields) simp_all
  have "unat (h_Len s) < 2 ^ LENGTH(16)" by (rule unsigned_less)
  then have big: "\<not> 65535 < h_Len s" by (simp add: word_less_nat_alt)
  have rh: "ReadFull 13 (head_bytes s @ put16 (m_Cmd s) @ m_Payload s @ rest) =
      (Some (head_bytes s), put16 (m_Cmd s) @ m_Payload s @ rest)" by (simp add: ReadFull_def)
  have rc: "ReadFull 2 (put16 (m_Cmd s) @ m_Payload s @ rest) = (Some (put16 (m_Cmd s)), m_Payload s @ rest)"
    by (simp add: ReadFull_def put16_def)
  have hd: "h_MagicNumber (header_of s) = magicNumber" "h_Len (header_of s) = h_Len s"
    "h_CheckSum (header_of s) = h_CheckSum s" using assms(1) by (simp_all add: header_of_def)
  have ph: "parse_header (head_bytes s) = Inr (header_of s)" using parse_head [of s "[]"] by simp
  have gc: "get16 (put16 (m_Cmd s)) 0 = Inr (m_Cmd s)" using get16_put [of "m_Cmd s" "[]"] by simp
  show ?thesis
    using ck rebuild [of s] by (simp add: TcpRead_def rh ph hd big rc gc rd Let_def)
qed

lemma TcpRead_Pack:
  assumes "h_MagicNumber m = magicNumber" "length (m_Payload m) < 65536"
  shows "TcpRead (fst (Pack m) @ rest) = (Inr (Inr (sealed m\<lparr>m_All := []\<rparr>)), rest)"
  using TcpRead_frame [of "sealed m" rest] assms by (simp add: Pack_bytes len16 sealed_sum)

text \<open>
  C31. A packet written to a TCP stream is read back: \<open>TcpRead\<close> on the bytes of \<open>Pack\<close>, whatever follows
  them, returns the message with its length and checksum filled in and leaves exactly what follows,
  for a message with the magic number and a payload of at most 65535 bytes.
\<close>

theorem TcpRead_of_Pack:
  assumes "h_MagicNumber m = magicNumber" and "length (m_Payload m) < 65536"
  shows "TcpRead (fst (Pack m) @ rest) =
    (Inr (Inr (m\<lparr>h_Len := of_nat (length (m_Payload m)), h_CheckSum := h_CheckSum (snd (Pack m)),
                 m_All := []\<rparr>)), rest)"
  using TcpRead_Pack [OF assms, of rest] by (simp add: sealed_def Pack_def Let_def)

lemma TcpRead_of_Pack_witness:
  "TcpRead (fst (Pack (NewMessageWithPayload 7 1001 [1, 2, 3])) @ [9]) =
    (Inr (Inr ((NewMessageWithPayload 7 1001 [1, 2, 3])\<lparr>h_Len := 3,
       h_CheckSum := h_CheckSum (snd (Pack (NewMessageWithPayload 7 1001 [1, 2, 3]))), m_All := []\<rparr>)), [9])"
  using TcpRead_of_Pack [of "NewMessageWithPayload 7 1001 [1, 2, 3]" "[9]"]
  by (simp add: NewMessageWithPayload_def zero_Message_def)

text \<open>The packets of a stream, until the first that does not read.\<close>

fun read_stream :: "nat \<Rightarrow> u8 list \<Rightarrow> Message list" where
  "read_stream 0 r = []"
| "read_stream (Suc n) r =
     (case TcpRead r of (Inr (Inr m), r) \<Rightarrow> m # read_stream n r | _ \<Rightarrow> [])"

text \<open>
  The stream keeps its frames: from the packets of any list of messages written one after the
  other, with anything behind them, as many reads give back these messages in order.
\<close>

theorem read_stream_packs:
  assumes "\<forall>m \<in> set ms. h_MagicNumber m = magicNumber \<and> length (m_Payload m) < 65536"
  shows "read_stream (length ms) (concat (map (\<lambda>m. fst (Pack m)) ms) @ rest) =
    map (\<lambda>m. (snd (Pack m))\<lparr>m_All := []\<rparr>) ms"
  using assms
proof (induction ms)
  case (Cons m ms)
  have "(snd (Pack m))\<lparr>m_All := []\<rparr> = sealed m\<lparr>m_All := []\<rparr>" by (simp add: sealed_def Pack_def Let_def)
  then show ?case using Cons TcpRead_Pack [of m] by simp
qed simp

lemma read_stream_packs_witness:
  "read_stream 2 (fst (Pack (NewHearBeatMessage 1)) @ fst (Pack (NewMessageWithPayload 2 5 [8])) @ [0]) =
    [(snd (Pack (NewHearBeatMessage 1)))\<lparr>m_All := []\<rparr>,
     (snd (Pack (NewMessageWithPayload 2 5 [8])))\<lparr>m_All := []\<rparr>]"
  using read_stream_packs [of "[NewHearBeatMessage 1, NewMessageWithPayload 2 5 [8]]" "[0]"]
  by (simp add: NewHearBeatMessage_def NewMessageWithPayload_def zero_Message_def numeral_2_eq_2)

subsection \<open>WebSocket frames\<close>

lemma parse_header_magic: "parse_header b = Inr m \<Longrightarrow> h_MagicNumber m = b ! 0"
  by (auto simp: parse_header_def bindE_Inr_iff index_Inr_iff zero_Message_def)

lemma parse_header_total: "13 \<le> length b \<Longrightarrow> \<exists>m. parse_header b = Inr m"
  by (auto simp: parse_header_def index_def get16_def get32_def)

lemma WsRead_Pack:
  assumes "h_MagicNumber m = magicNumber" and "length (m_Payload m) < 65536"
  shows "WsRead (WsFrame False (fst (Pack m))) = Inr (Inr (snd (Pack m)))"
proof -
  let ?s = "sealed m" and ?all = "fst (Pack m)"
  have l: "unat (h_Len ?s) = length (m_Payload m)" using assms(2) by (simp add: len16)
  have big: "\<not> 65535 < h_Len ?s" unfolding word_less_nat_alt l using assms(2) by simp
  have len: "length ?all = 15 + length (m_Payload m)" by (simp add: Pack_bytes put16_def)
  have idx: "index ?all 0 = Inr magicNumber"
    by (simp add: index_def Pack_bytes head_bytes_def assms(1))
  have ph: "parse_header ?all = Inr (header_of ?s)" by (simp add: Pack_bytes parse_head)
  have gc: "get16 ?all 13 = Inr (m_Cmd m)"
    by (simp add: Pack_bytes get16_def put16_def nth_append)
  have dr: "ws_payload ?all = m_Payload m"
    using len by (auto simp: ws_payload_def Pack_bytes put16_def)
  have hd: "h_Len (header_of ?s) = h_Len ?s" "h_CheckSum (header_of ?s) = h_CheckSum ?s"
    by (simp_all add: header_of_def)
  have rb: "(header_of ?s)\<lparr>m_Cmd := m_Cmd m, m_Payload := m_Payload m\<rparr> = ?s\<lparr>m_All := []\<rparr>"
    using rebuild [of ?s] by simp
  then have rb': "(header_of ?s)\<lparr>m_Cmd := m_Cmd m, m_Payload := m_Payload m, m_All := ?all\<rparr> = ?s\<lparr>m_All := ?all\<rparr>"
    by simp
  have ck: "calculateCheckSum (?s\<lparr>m_All := []\<rparr>) = h_CheckSum ?s"
    using sealed_sum [of m] checksum_fields [of "?s\<lparr>m_All := []\<rparr>" ?s] by simp
  have fin: "?s\<lparr>m_All := ?all\<rparr> = snd (Pack m)" by (simp add: sealed_def Pack_def Let_def)
  show ?thesis
    using len rb' ck fin
    by (simp add: WsRead_def ph gc hd idx big dr rb Let_def del: sealed_fields(4))
qed

text \<open>
  A packed message sent as one WebSocket frame is read back as it was, buffer included.
\<close>

theorem WsRead_of_Pack:
  assumes "h_MagicNumber m = magicNumber" and "length (m_Payload m) < 65536"
  shows "WsRead (WsFrame False (fst (Pack m))) = Inr (Inr (snd (Pack m)))"
  using assms by (rule WsRead_Pack)

lemma WsRead_of_Pack_witness:
  "WsRead (WsFrame False (fst (Pack (NewMessageWithPayload 7 1001 [1, 2, 3])))) =
     Inr (Inr (snd (Pack (NewMessageWithPayload 7 1001 [1, 2, 3]))))"
  by (rule WsRead_of_Pack) (simp_all add: NewMessageWithPayload_def zero_Message_def)

text \<open>
  C40. Reading a WebSocket frame panics exactly when the frame has 14 bytes, starts with the magic number
  and is no close frame: there is then one byte behind the header where the two bytes of the command
  are read. Reading from a TCP stream never panics, and the test against the maximal message size never
  rejects anything, since no 16 bit length is above 65535.
\<close>

theorem read_panics:
  "(isl (WsRead (WsFrame closing all)) \<longleftrightarrow> \<not> closing \<and> length all = 14 \<and> all ! 0 = magicNumber) \<and>
   \<not> isl (fst (TcpRead r)) \<and> fst (TcpRead r) \<noteq> Inr (Inl TooLarge) \<and> WsRead d \<noteq> Inr (Inl TooLarge)"
proof -
  have big: "\<not> 65535 < (w :: u16)" for w
  proof -
    have "unat w < 2 ^ LENGTH(16)" by (rule unsigned_less)
    then show ?thesis by (simp add: word_less_nat_alt)
  qed
  have "isl (WsRead (WsFrame closing all)) \<longleftrightarrow> \<not> closing \<and> length all = 14 \<and> all ! 0 = magicNumber"
  proof (cases "length all < 13")
    case False
    then obtain h where h: "parse_header all = Inr h" using parse_header_total [of all] by auto
    then show ?thesis using False by (auto simp: WsRead_def index_def get16_def Let_def big)
  next
    case True
    then show ?thesis by (cases closing) (simp_all add: WsRead_def)
  qed
  moreover have "\<not> isl (fst (TcpRead r)) \<and> fst (TcpRead r) \<noteq> Inr (Inl TooLarge)"
  proof (cases "13 \<le> length r")
    case True
    then obtain h where h: "parse_header (take 13 r) = Inr h"
      using parse_header_total [of "take 13 r"] by auto
    then show ?thesis
      using True by (auto simp: TcpRead_def ReadFull_def get16_def Let_def big split: option.split prod.split)
  qed (simp add: TcpRead_def ReadFull_def)
  moreover have "WsRead d \<noteq> Inr (Inl TooLarge)"
    by (auto simp: WsRead_def Let_def big bindE_def split: ws_data.split sum.split)
  ultimately show ?thesis by blast
qed

subsection \<open>What the checksum detects\<close>

fun psum :: "u8 list \<Rightarrow> nat" where
  "psum [] = 0"
| "psum [b] = 256 * unat b"
| "psum (a # b # ps) = 256 * unat a + unat b + psum ps"

definition raw_sum :: "Message \<Rightarrow> nat" where
  "raw_sum m = unat (h_MagicNumber m) + unat (h_Version m) + unat (h_Flags m) + unat (h_Seq m) +
     unat (h_Timestamp m) div 65536 + unat (h_Timestamp m) mod 65536 + unat (h_Len m) +
     unat (m_Cmd m) + psum (m_Payload m)"

lemma shifted_byte: "(push_bit 8 (ucast (a :: u8)) :: u32) = of_nat (256 * unat a)"
  by (simp add: push_bit_eq_mult)

lemma payload_sum_nat: "payload_sum ps s = s + of_nat (psum ps)"
  by (induction ps s rule: payload_sum.induct) (simp_all add: shifted_byte algebra_simps)

lemma ucast_nat: "(ucast (a :: 'a::len word) :: u32) = of_nat (unat a)"
  by simp

lemma calculateCheckSum_raw: "calculateCheckSum m = ucast (NOT (fold_sum (of_nat (raw_sum m))))"
proof -
  have hi: "(ucast (drop_bit 16 (h_Timestamp m)) :: u32) = of_nat (unat (h_Timestamp m) div 65536)"
    unfolding ucast_nat high_half ..
  have lo: "(ucast (h_Timestamp m AND 0xFFFF) :: u32) = of_nat (unat (h_Timestamp m) mod 65536)"
    unfolding ucast_nat low_half ..
  show ?thesis
    unfolding calculateCheckSum_def Let_def payload_sum_nat hi lo raw_sum_def
    by (simp add: algebra_simps)
qed

lemma fold_sum_spec:
  "unat (fold_sum s) < 65536 \<and> unat (fold_sum s) mod 65535 = unat s mod 65535 \<and> (fold_sum s = 0 \<longleftrightarrow> s = 0)"
proof (induction s rule: fold_sum.induct)
  case (1 s)
  let ?t = "(s AND 0xFFFF) + drop_bit 16 s"
  have eq: "unat s = 65536 * (unat s div 65536) + unat s mod 65536" by simp
  show ?case
  proof (cases "0 < drop_bit 16 s")
    case True
    have t: "unat ?t = unat s mod 65536 + unat s div 65536" by (rule fold_step)
    have "unat s = unat ?t + 65535 * (unat s div 65536)" using eq t by linarith
    then have "unat ?t mod 65535 = unat s mod 65535" by (metis mod_mult_self2)
    moreover have "(b + a = 0) = (65536 * a + b = 0)" for a b :: nat by auto
    then have "unat ?t = 0 \<longleftrightarrow> unat s = 0" using t eq by metis
    then have "?t = 0 \<longleftrightarrow> s = 0" by (simp only: unat_eq_0)
    moreover have "fold_sum s = fold_sum ?t"
      by (subst fold_sum.simps) (simp only: True if_True)
    ultimately show ?thesis using "1.IH" [OF True] by simp
  next
    case False
    then have "fold_sum s = s" by (subst fold_sum.simps) (simp only: if_False)
    moreover have "unat s div 65536 = 0" using False high_half [of s] by (simp add: word_gt_0_no word_greater_zero_iff)
    ultimately show ?thesis by (metis div_eq_0_iff zero_neq_numeral)
  qed
qed

lemma fold_sum_eq:
  assumes "s \<noteq> 0" "t \<noteq> 0"
  shows "fold_sum s = fold_sum t \<longleftrightarrow> unat s mod 65535 = unat t mod 65535"
proof
  assume "unat s mod 65535 = unat t mod 65535"
  then have m: "unat (fold_sum s) mod 65535 = unat (fold_sum t) mod 65535" using fold_sum_spec by simp
  have *: "0 < unat (fold_sum u)" "unat (fold_sum u) \<le> 65535" if "u \<noteq> 0" for u
    using fold_sum_spec [of u] that by (auto simp: unat_gt_0)
  have one: "a = b" if "a mod 65535 = b mod 65535" "0 < a" "a \<le> 65535" "0 < b" "b \<le> (65535 :: nat)" for a b
    using that by (cases "a = 65535"; cases "b = 65535") auto
  show "fold_sum s = fold_sum t"
    using one [OF m] * assms by (simp add: word_unat_eq_iff)
qed (metis fold_sum_spec)

lemma low_bits:
  assumes "unat x < 65536" "unat y < 65536"
  shows "(ucast (NOT x :: u32) :: u16) = ucast (NOT y) \<longleftrightarrow> x = y"
proof
  assume e: "(ucast (NOT x) :: u16) = ucast (NOT y)"
  show "x = y"
  proof (rule bit_eqI)
    fix n
    assume "possible_bit TYPE(u32) n"
    then have n: "n < 32" by simp
    have tb: "take_bit 16 z = z" if "unat z < 65536" for z :: u32
      using that by (simp add: word_unat_eq_iff unsigned_take_bit_eq) (simp add: take_bit_eq_mod)
    show "bit x n = bit y n"
    proof (cases "n < 16")
      case True
      then have "bit (ucast (NOT x) :: u16) n = bit (ucast (NOT y) :: u16) n" using e by simp
      with True show ?thesis by (simp add: bit_simps)
    next
      case False
      then show ?thesis using tb [OF assms(1)] tb [OF assms(2)] by (metis bit_take_bit_iff)
    qed
  qed
qed simp

lemma checksum_eq:
  assumes "0 < raw_sum a" "raw_sum a < 4294967296" "0 < raw_sum b" "raw_sum b < 4294967296"
  shows "calculateCheckSum a = calculateCheckSum b \<longleftrightarrow> raw_sum a mod 65535 = raw_sum b mod 65535"
proof -
  have un: "unat (of_nat (raw_sum c) :: u32) = raw_sum c" if "raw_sum c < 4294967296" for c
    using that by (simp add: unat_of_nat take_bit_eq_mod)
  have nz: "(of_nat (raw_sum c) :: u32) \<noteq> 0" if "0 < raw_sum c" "raw_sum c < 4294967296" for c
    using that un by (metis less_irrefl unat_0)
  show ?thesis
    unfolding calculateCheckSum_raw
    using low_bits fold_sum_spec fold_sum_eq [OF nz nz] assms un by simp
qed

lemma raw_sum_pos: "h_MagicNumber m = magicNumber \<Longrightarrow> 0 < raw_sum m"
  by (simp add: raw_sum_def)

lemma psum_bound: "psum ps \<le> 65535 * ((length ps + 1) div 2)"
proof (induction ps rule: psum.induct)
  case (2 b)
  have "unat b < 2 ^ LENGTH(8)" by (rule unsigned_less)
  then show ?case by simp
next
  case (3 a b ps)
  have "unat a < 2 ^ LENGTH(8)" "unat b < 2 ^ LENGTH(8)" by (rule unsigned_less)+
  then have "256 * unat a + unat b \<le> 65535" by simp
  with 3 show ?case by simp
qed simp

lemma raw_sum_bound:
  assumes "length (m_Payload m) < 65536"
  shows "raw_sum m < 4294967296"
proof -
  have "unat (h_MagicNumber m) < 2 ^ LENGTH(8)" "unat (h_Version m) < 2 ^ LENGTH(8)"
    "unat (h_Flags m) < 2 ^ LENGTH(8)" "unat (h_Seq m) < 2 ^ LENGTH(16)"
    "unat (h_Timestamp m) < 2 ^ LENGTH(32)" "unat (h_Len m) < 2 ^ LENGTH(16)"
    "unat (m_Cmd m) < 2 ^ LENGTH(16)"
    by (rule unsigned_less)+
  moreover from this have "unat (h_Timestamp m) div 65536 < 65536" by simp
  moreover have "unat (h_Timestamp m) mod 65536 < 65536" by simp
  moreover have "(length (m_Payload m) + 1) div 2 \<le> 32768" using assms by simp
  then have "psum (m_Payload m) \<le> 65535 * 32768"
    using psum_bound [of "m_Payload m"] by linarith
  ultimately show ?thesis by (simp add: raw_sum_def)
qed

text \<open>Changing one byte changes the sum by less than 65535 and not by 0.\<close>

lemma psum_update:
  "i < length ps \<Longrightarrow> \<exists>c \<in> {1, 256}. int (psum (ps[i := b])) - int (psum ps) = c * (int (unat b) - int (unat (ps ! i)))"
proof (induction ps arbitrary: i rule: psum.induct)
  case (3 x y ps)
  consider "i = 0" | "i = 1" | j where "i = Suc (Suc j)" by (metis One_nat_def not0_implies_Suc)
  then show ?case
  proof cases
    case 3
    then show ?thesis using "3.IH" [of j] "3.prems" by auto
  qed (auto simp: algebra_simps)
qed auto

lemma nat_mod_eq_dvd: "a mod n = b mod n \<Longrightarrow> int n dvd int a - int b"
  by (metis mod_eq_dvd_iff zmod_int)

lemma one_byte_detected:
  assumes "h_MagicNumber m = magicNumber" "length (m_Payload m) < 65536"
    and "i < length (m_Payload m)" "b \<noteq> m_Payload m ! i"
  shows "calculateCheckSum (m\<lparr>m_Payload := (m_Payload m)[i := b]\<rparr>) \<noteq> calculateCheckSum m"
proof -
  let ?m = "m\<lparr>m_Payload := (m_Payload m)[i := b]\<rparr>"
  have pos: "0 < raw_sum m" "0 < raw_sum ?m" using assms(1) by (simp_all add: raw_sum_pos)
  have bnd: "raw_sum m < 4294967296" "raw_sum ?m < 4294967296"
    using assms(2) by (simp_all add: raw_sum_bound)
  let ?d = "int (unat b) - int (unat (m_Payload m ! i))"
  obtain c where c: "c \<in> {1, 256}" "int (psum ((m_Payload m)[i := b])) - int (psum (m_Payload m)) = c * ?d"
    using psum_update [OF assms(3)] by blast
  have diff: "int (raw_sum ?m) - int (raw_sum m) = c * ?d" using c(2) by (simp add: raw_sum_def)
  have "unat b < 2 ^ LENGTH(8)" "unat (m_Payload m ! i) < 2 ^ LENGTH(8)" by (rule unsigned_less)+
  then have "unat b < 256" "unat (m_Payload m ! i) < 256" by simp_all
  then have r: "\<bar>?d\<bar> \<le> 255" by linarith
  have nz: "?d \<noteq> 0" using assms(4) by (metis eq_iff_diff_eq_0 of_nat_eq_iff word_unat_eq_iff)
  have lt: "\<bar>c * ?d\<bar> < 65535" "c * ?d \<noteq> 0" using c(1) r nz by (auto simp: abs_mult)
  have "raw_sum ?m mod 65535 \<noteq> raw_sum m mod 65535"
  proof
    assume "raw_sum ?m mod 65535 = raw_sum m mod 65535"
    then have "int 65535 dvd int (raw_sum ?m) - int (raw_sum m)" by (rule nat_mod_eq_dvd)
    then have "65535 dvd c * ?d" unfolding diff by (simp only: of_nat_numeral)
    then have "\<bar>65535 :: int\<bar> \<le> \<bar>c * ?d\<bar>" by (rule dvd_imp_le_int [OF lt(2)])
    then show False using lt(1) by linarith
  qed
  then show ?thesis using checksum_eq [OF pos(2) bnd(2) pos(1) bnd(1)] by simp
qed

text \<open>
  C32. The checksum detects a damaged byte: when one byte of the payload of a packed message arrives
  changed, whichever it is and whatever it has become, \<open>TcpRead\<close> refuses the packet with a checksum
  mismatch (and stays in step with the stream).
\<close>

theorem TcpRead_damaged:
  assumes "h_MagicNumber m = magicNumber" and "length (m_Payload m) < 65536"
    and "i < length (m_Payload m)" and "b \<noteq> m_Payload m ! i"
  shows "\<exists>want got. want \<noteq> got \<and>
    TcpRead ((fst (Pack m))[15 + i := b] @ rest) = (Inr (Inl (CheckSumMismatch want got)), rest)"
proof -
  let ?s = "(sealed m)\<lparr>m_Payload := (m_Payload m)[i := b]\<rparr>"
  have "(fst (Pack m))[15 + i := b] = head_bytes (sealed m) @ put16 (m_Cmd m) @ (m_Payload m)[i := b]"
    by (simp add: Pack_bytes list_update_append put16_def)
  also have "head_bytes (sealed m) = head_bytes ?s" by (simp add: head_bytes_def)
  finally have eq: "(fst (Pack m))[15 + i := b] @ rest = head_bytes ?s @ put16 (m_Cmd ?s) @ m_Payload ?s @ rest"
    by simp
  have "calculateCheckSum ?s \<noteq> h_CheckSum ?s"
    using one_byte_detected [of "sealed m" i b] assms sealed_sum [of m] by simp
  then show ?thesis
    unfolding eq using TcpRead_frame [of ?s rest] assms(1,2) by (auto simp: len16)
qed

lemma TcpRead_damaged_witness:
  "\<exists>want got. want \<noteq> got \<and>
    TcpRead ((fst (Pack (NewMessageWithPayload 7 1001 [1, 2, 3])))[15 + 1 := 5] @ [9]) =
      (Inr (Inl (CheckSumMismatch want got)), [9])"
  by (rule TcpRead_damaged) (simp_all add: NewMessageWithPayload_def zero_Message_def)

lemma read_payload_length: "read_payload len r = (Some pb, r') \<Longrightarrow> length pb < 65536"
proof -
  assume "read_payload len r = (Some pb, r')"
  then have "length pb = unat len"
    by (auto simp: read_payload_def ReadFull_def word_greater_zero_iff split: if_splits)
  moreover have "unat len < 2 ^ LENGTH(16)" by (rule unsigned_less)
  ultimately show ?thesis by simp
qed

lemma TcpRead_length: "TcpRead r = (Inr (Inr m'), r') \<Longrightarrow> length (m_Payload m') < 65536"
  by (auto simp: TcpRead_def Let_def split: option.splits prod.splits sum.splits if_splits
      dest!: read_payload_length)

text \<open>
  A payload of more than 65535 bytes is packed without an error but never arrives: \<open>Pack\<close> writes
  all of it behind a length that has wrapped around, and whatever \<open>TcpRead\<close> makes of the bytes, it does
  not return that payload.
\<close>

theorem oversized_payload_lost:
  assumes "65536 \<le> length (m_Payload m)"
  shows "length (fst (Pack m)) = 15 + length (m_Payload m) \<and>
    unat (h_Len (snd (Pack m))) = length (m_Payload m) mod 65536 \<and>
    (\<forall>m' r. TcpRead (fst (Pack m) @ rest) = (Inr (Inr m'), r) \<longrightarrow> m_Payload m' \<noteq> m_Payload m)"
proof (intro conjI allI impI)
  show "length (fst (Pack m)) = 15 + length (m_Payload m)" by (simp add: Pack_bytes put16_def)
  show "unat (h_Len (snd (Pack m))) = length (m_Payload m) mod 65536"
    by (simp add: Pack_def Let_def unat_of_nat take_bit_eq_mod)
next
  fix m' r
  assume "TcpRead (fst (Pack m) @ rest) = (Inr (Inr m'), r)"
  then have "length (m_Payload m') < 65536" by (rule TcpRead_length)
  with assms show "m_Payload m' \<noteq> m_Payload m" by auto
qed

lemma oversized_payload_lost_witness:
  "unat (h_Len (snd (Pack (NewMessageWithPayload 7 1 (replicate 65537 1))))) = 1"
  using oversized_payload_lost [of "NewMessageWithPayload 7 1 (replicate 65537 1)" "[]"]
  by (simp add: NewMessageWithPayload_def zero_Message_def)

subsection \<open>Encryption\<close>

text \<open>
  With a cipher whose decryption inverts its encryption for the same key and initial vector, and a
  key it accepts, \<open>decrypt\<close> gives back what \<open>encrypt\<close> was given; but on data shorter than the initial
  vector, \<open>decrypt\<close> returns nil without an error.
\<close>

theorem decrypt_encrypt:
  assumes cipher: "\<And>key iv data. dec key iv (enc key iv data) = data"
    and "good key" and "length iv = 16"
  shows "(case encrypt good enc iv data key of None \<Rightarrow> False
          | Some c \<Rightarrow> decrypt good dec c key = (Some data, False)) \<and>
    (length short < 16 \<longrightarrow> decrypt good dec short key = (None, False))"
  using assms by (simp add: encrypt_def decrypt_def)

lemma decrypt_encrypt_witness:
  "(case encrypt (\<lambda>_. True) (\<lambda>k iv d. map (\<lambda>b. b XOR k) d) (replicate 16 0) [1, 2] (5 :: u8) of None \<Rightarrow> False
    | Some c \<Rightarrow> decrypt (\<lambda>_. True) (\<lambda>k iv d. map (\<lambda>b. b XOR k) d) c 5 = (Some [1, 2], False)) \<and>
   decrypt (\<lambda>_. True) (\<lambda>k iv d. map (\<lambda>b. b XOR k) d) [9] (5 :: u8) = (None, False)"
  using decrypt_encrypt [of "\<lambda>k iv d. map (\<lambda>b. b XOR k) d" "\<lambda>k iv d. map (\<lambda>b. b XOR (k :: u8)) d"
      "\<lambda>_. True" 5 "replicate 16 0" "[1, 2]" "[9]"]
  by (simp add: comp_def xor.assoc)

end
