(* ===== verification/CorePollProps.thy ===== *)
theory CorePollProps
  imports CorePoll CodecProps
begin

text \<open>
  Properties of the poll: the registry, epoll and the connection counter in every reachable state, what
  the timeout pass removes, the way of a packet from a peer to the handler, and remote calls.
\<close>

subsection \<open>The registry agrees with epoll\<close>

text \<open>
  \<open>k\<close> counts the TCP connections accepted so far. Every registered connection is known to epoll under
  its own descriptor and the other way round, and every server number belongs to a registered
  connection.
\<close>

definition net_ok :: "int \<Rightarrow> Net \<Rightarrow> bool" where
  "net_ok k n \<longleftrightarrow>
     (\<forall>fd c. cm_conns (n_mgr n) fd = Some c \<longrightarrow>
        c < n_next n \<and> c_fd (n_store n c) = fd \<and> fd \<in> set (n_epoll n)) \<and>
     (\<forall>fd \<in> set (n_epoll n). cm_conns (n_mgr n) fd \<noteq> None) \<and> distinct (n_epoll n) \<and>
     (\<forall>s c. cm_servers (n_mgr n) s = Some c \<longrightarrow>
        s > 0 \<and> c_svid (n_store n c) = s \<and> cm_conns (n_mgr n) (c_fd (n_store n c)) = Some c) \<and>
     n_connNum n + k = int (length (n_epoll n))"

text \<open>What the invariant does not look at.\<close>

lemma net_ok_frame [simp]:
  "net_ok k (n\<lparr>n_rpc := a\<rparr>) = net_ok k n" "net_ok k (n\<lparr>n_chan := b\<rparr>) = net_ok k n"
  "net_ok k (n\<lparr>n_rpc := a, n_chan := b\<rparr>) = net_ok k n"
  "net_ok k (n\<lparr>n_seq := d\<rparr>) = net_ok k n" "net_ok k (n\<lparr>n_calls := e\<rparr>) = net_ok k n"
  "net_ok k (n\<lparr>n_queue := f\<rparr>) = net_ok k n"
  by (simp_all add: net_ok_def)

lemma net_ok_upd [simp]:
  assumes "\<And>x. c_fd (g x) = c_fd x" "\<And>x. c_svid (g x) = c_svid x"
  shows "net_ok k (upd_conn c g n) = net_ok k n"
proof -
  have "c_fd (n_store (upd_conn c g n) d) = c_fd (n_store n d)"
    "c_svid (n_store (upd_conn c g n) d) = c_svid (n_store n d)" for d
    using assms by (simp_all add: upd_conn_def)
  moreover have "n_mgr (upd_conn c g n) = n_mgr n" "n_epoll (upd_conn c g n) = n_epoll n"
    "n_connNum (upd_conn c g n) = n_connNum n" "n_next (upd_conn c g n) = n_next n"
    by (simp_all add: upd_conn_def)
  ultimately show ?thesis by (simp add: net_ok_def)
qed

lemma net_ok_active [simp]: "net_ok k (SetActiveTime c t n) = net_ok k n"
  by (simp add: SetActiveTime_def)

lemma net_ok_new: "net_ok 0 new_Net"
  by (simp add: net_ok_def new_Net_def NewServerMgr_def)

text \<open>Deleting a registered connection.\<close>

definition deleted :: "int \<Rightarrow> nat \<Rightarrow> Net \<Rightarrow> Net" where
  "deleted fd c n = upd_conn c (\<lambda>k. k\<lparr>c_open := False\<rparr>)
     (n\<lparr>n_epoll := removeAll fd (n_epoll n), n_connNum := n_connNum n - 1,
        n_mgr := snd (DelByFd (n_store n) fd (n_mgr n)), n_calls := n_calls n @ [Called_Close c]\<rparr>)"

lemma Poll_Del_eq:
  assumes "net_ok k n"
  shows "Poll_Del fd n =
    (case cm_conns (n_mgr n) fd of
       None \<Rightarrow> (Inr (Some EpollDelError), n) | Some c \<Rightarrow> (Inr None, deleted fd c n))"
proof (cases "cm_conns (n_mgr n) fd")
  case None
  then have "fd \<notin> set (n_epoll n)" using assms by (auto simp: net_ok_def)
  then show ?thesis using None by (simp add: Poll_Del_def seq_def get_st_def ret_def)
next
  case (Some c)
  then have "fd \<in> set (n_epoll n)" using assms by (auto simp: net_ok_def)
  then show ?thesis using Some
    by (simp add: Poll_Del_def seq_def get_st_def ret_def modify_def DelByFd_def Let_def deleted_def)
qed

lemma deleted_conns: "cm_conns (n_mgr n) fd = Some c \<Longrightarrow>
    cm_conns (n_mgr (deleted fd c n)) = (cm_conns (n_mgr n))(fd := None)"
  by (simp add: deleted_def upd_conn_def DelByFd_def Let_def)

lemma deleted_servers: "cm_conns (n_mgr n) fd = Some c \<Longrightarrow>
    cm_servers (n_mgr (deleted fd c n)) =
      (if c_svid (n_store n c) > 0 then (cm_servers (n_mgr n))(c_svid (n_store n c) := None) else cm_servers (n_mgr n))"
  by (simp add: deleted_def upd_conn_def DelByFd_def Let_def)

lemma deleted_frame [simp]:
  "n_epoll (deleted fd c n) = removeAll fd (n_epoll n)" "n_connNum (deleted fd c n) = n_connNum n - 1"
  "n_next (deleted fd c n) = n_next n" "n_calls (deleted fd c n) = n_calls n @ [Called_Close c]"
  "c_fd (n_store (deleted fd c n) d) = c_fd (n_store n d)"
  "c_svid (n_store (deleted fd c n) d) = c_svid (n_store n d)"
  "c_activeTime (n_store (deleted fd c n) d) = c_activeTime (n_store n d)"
  by (simp_all add: deleted_def upd_conn_def)

lemma net_ok_deleted:
  assumes ok: "net_ok k n" and c: "cm_conns (n_mgr n) fd = Some c"
  shows "net_ok k (deleted fd c n)"
proof -
  let ?n = "deleted fd c n"
  have conns: "cm_conns (n_mgr ?n) = (cm_conns (n_mgr n))(fd := None)" by (rule deleted_conns [OF c])
  have fd: "c_fd (n_store n c) = fd" "fd \<in> set (n_epoll n)" "distinct (n_epoll n)"
    using ok c by (auto simp: net_ok_def)
  have serv: "s > 0 \<and> c_svid (n_store n d) = s \<and> cm_conns (n_mgr ?n) (c_fd (n_store n d)) = Some d"
    if "cm_servers (n_mgr ?n) s = Some d" for s d
  proof -
    have old: "cm_servers (n_mgr n) s = Some d" "c_svid (n_store n c) > 0 \<longrightarrow> s \<noteq> c_svid (n_store n c)"
      using that by (auto simp: deleted_servers [OF c] split: if_splits)
    then have s: "s > 0" "c_svid (n_store n d) = s" "cm_conns (n_mgr n) (c_fd (n_store n d)) = Some d"
      using ok by (auto simp: net_ok_def)
    then have "d \<noteq> c" using old(2) by auto
    then have "c_fd (n_store n d) \<noteq> fd" using s(3) c by auto
    then show ?thesis using s by (simp add: conns)
  qed
  have "length (removeAll fd (n_epoll n)) = length (n_epoll n) - 1"
    using fd(2,3) by (simp add: distinct_remove1_removeAll [symmetric] length_remove1)
  moreover have "0 < length (n_epoll n)" using fd(2) by (cases "n_epoll n") auto
  ultimately have len: "int (length (removeAll fd (n_epoll n))) = int (length (n_epoll n)) - 1"
    by (simp add: of_nat_diff Suc_leI)
  have "c < n_next n" if "cm_conns (n_mgr n) fd' = Some c" for fd' c
    using ok that by (auto simp: net_ok_def)
  with ok serv show ?thesis
    unfolding net_ok_def deleted_frame len conns by (auto simp: distinct_removeAll)
qed

lemma wp_Poll_Del:
  assumes "net_ok k n" and "\<And>r m. net_ok k m \<Longrightarrow> Q r m"
  shows "wp (Poll_Del fd) Q E n"
  using assms net_ok_deleted [OF assms(1)]
  by (auto simp: wp_def Poll_Del_eq [OF assms(1)] split: option.splits)

text \<open>A new connection: epoll takes its descriptor, then it is registered.\<close>

definition admitted :: "Conn \<Rightarrow> Net \<Rightarrow> Net" where
  "admitted x n =
     (let n = n\<lparr>n_epoll := c_fd x # n_epoll n, n_store := (n_store n)(n_next n := x), n_next := n_next n + 1\<rparr>
      in n\<lparr>n_mgr := AddConn (n_store n) (n_next n - 1) (n_mgr n)\<rparr>)"

lemma EpollAdd_eq:
  "EpollAdd ok fd n =
     (if ok \<and> fd \<notin> set (n_epoll n) then (Inr True, n\<lparr>n_epoll := fd # n_epoll n\<rparr>) else (Inr False, n))"
  by (simp add: EpollAdd_def seq_def get_st_def ret_def modify_def)

lemma add_new_eq: "add_new x (n\<lparr>n_epoll := c_fd x # n_epoll n\<rparr>) = (Inr (n_next n), admitted x n)"
  by (simp add: add_new_def admitted_def seq_def get_st_def ret_def modify_def Let_def)

lemma admitted_frame:
  "cm_conns (n_mgr (admitted x n)) = (cm_conns (n_mgr n))(c_fd x \<mapsto> n_next n)"
  "cm_servers (n_mgr (admitted x n)) =
     (if c_svid x > 0 then (cm_servers (n_mgr n))(c_svid x \<mapsto> n_next n) else cm_servers (n_mgr n))"
  "n_store (admitted x n) = (n_store n)(n_next n := x)" "n_next (admitted x n) = Suc (n_next n)"
  "n_epoll (admitted x n) = c_fd x # n_epoll n" "n_connNum (admitted x n) = n_connNum n"
  by (simp_all add: admitted_def AddConn_def Let_def)

lemma net_ok_admitted:
  assumes ok: "net_ok k n" and new: "c_fd x \<notin> set (n_epoll n)"
  shows "net_ok (k + 1) (admitted x n)"
proof -
  have old: "c < n_next n \<and> c_fd (n_store n c) = fd \<and> fd \<in> set (n_epoll n)"
    if "cm_conns (n_mgr n) fd = Some c" for fd c
    using ok that by (auto simp: net_ok_def)
  have serv: "s > 0 \<and> c_svid (n_store n c) = s \<and> cm_conns (n_mgr n) (c_fd (n_store n c)) = Some c \<and>
      c \<noteq> n_next n \<and> c_fd (n_store n c) \<noteq> c_fd x"
    if "cm_servers (n_mgr n) s = Some c" for s c
  proof -
    have "s > 0 \<and> c_svid (n_store n c) = s \<and> cm_conns (n_mgr n) (c_fd (n_store n c)) = Some c"
      using ok that unfolding net_ok_def by blast
    with old [of "c_fd (n_store n c)" c] new show ?thesis by auto
  qed
  show ?thesis
    unfolding net_ok_def
  proof (intro conjI allI impI ballI)
    fix fd c assume c: "cm_conns (n_mgr (admitted x n)) fd = Some c"
    show "c < n_next (admitted x n)" "c_fd (n_store (admitted x n) c) = fd" "fd \<in> set (n_epoll (admitted x n))"
      using c old [of fd c] by (auto simp: admitted_frame split: if_splits)
  next
    fix s c assume c: "cm_servers (n_mgr (admitted x n)) s = Some c"
    show "s > 0" "c_svid (n_store (admitted x n) c) = s"
      "cm_conns (n_mgr (admitted x n)) (c_fd (n_store (admitted x n) c)) = Some c"
      using c serv [of s c] by (auto simp: admitted_frame split: if_splits)
  qed (use ok new in \<open>auto simp: admitted_frame net_ok_def\<close>)
qed

lemma net_ok_incr: "net_ok k (incrConnNum n) = net_ok (k + 1) n"
  by (auto simp: net_ok_def incrConnNum_def)

lemma admitted_incr [simp]: "net_ok k n \<Longrightarrow> c_fd x \<notin> set (n_epoll n) \<Longrightarrow> net_ok k (incrConnNum (admitted x n))"
  by (simp add: net_ok_incr net_ok_admitted)

subsection \<open>Every operation keeps the registry in order\<close>

text \<open>How many TCP connections a call of \<open>processAcceptTcp\<close> has accepted.\<close>

definition accepted :: "accept option \<Rightarrow> net_error option \<Rightarrow> int" where
  "accepted acc r = (if acc \<noteq> None \<and> r = None then 1 else 0)"

lemma processAcceptTcp_ok:
  assumes "net_ok k n"
  shows "wp (processAcceptTcp now acc) (\<lambda>r. net_ok (k + accepted acc r)) (\<lambda>_ _. False) n"
  using assms add_new_eq [of "new_Conn fd False now 0" n for fd]
  by (cases acc) (auto simp: processAcceptTcp_def wp_def seq_def EpollAdd_eq ret_def accepted_def new_Conn_def
      net_ok_admitted)

lemma processAcceptWebSocket_ok:
  assumes "net_ok k n"
  shows "wp (processAcceptWebSocket p now acc) (\<lambda>_. net_ok k) (\<lambda>_ _. False) n"
  using assms add_new_eq [of "new_Conn fd True now 0" n for fd]
  by (cases acc) (auto simp: processAcceptWebSocket_def wp_def seq_def EpollAdd_eq ret_def get_st_def modify_def
      new_Conn_def)

lemma Connect_ok:
  assumes "net_ok k n"
  shows "wp (Connect dial ctl now conf) (\<lambda>_. net_ok k) (\<lambda>_. net_ok k) n"
  using assms add_new_eq [of "new_Conn fd False now (SC_Svid conf)" n for fd]
  by (cases "Port conf") (auto simp: Connect_def wp_def seq_def EpollAdd_eq ret_def lift_def throw_def modify_def
      new_Conn_def split: option.split)

lemma GetServer_ok:
  assumes "net_ok k n"
  shows "wp (GetServer reg dial ctl now svid) (\<lambda>_. net_ok k) (\<lambda>_. net_ok k) n"
  unfolding GetServer_def wp_simps
  using assms by (auto simp: wp_simps split: option.split intro: wp_mono [OF Connect_ok])

lemma Conn_Read_ok:
  assumes "net_ok k n"
  shows "wp (Conn_Read now c) (\<lambda>_. net_ok k) (\<lambda>_. net_ok k) n"
  using assms
  by (simp add: Conn_Read_defs wp_simps split: list.split sum.split prod.split)

lemma TcpConn_Write_ok:
  assumes "net_ok k n"
  shows "wp (TcpConn_Write dl wr now msg c) (\<lambda>_. net_ok k) (\<lambda>_ _. False) n"
  using assms
  by (simp add: TcpConn_Write_def wp_simps wp_Poll_Del [OF assms] Let_def split: sum.split prod.split)

lemma WsConn_Write_ok:
  assumes "net_ok k n"
  shows "wp (WsConn_Write dl wr now msg c) (\<lambda>_. net_ok k) (\<lambda>_ _. False) n"
  using assms
  by (simp add: WsConn_Write_def wp_simps wp_Poll_Del [OF assms] Let_def split: sum.split prod.split)

lemma Conn_Write_ok:
  assumes "net_ok k n"
  shows "wp (Conn_Write dl wr now msg c) (\<lambda>_. net_ok k) (\<lambda>_ _. False) n"
  using TcpConn_Write_ok [OF assms] WsConn_Write_ok [OF assms] by (simp add: Conn_Write_def wp_simps)

lemma RpcWrite_start_ok:
  assumes "net_ok k n"
  shows "wp (RpcWrite_start dl wr now cmd req ch c) (\<lambda>_. net_ok k) (\<lambda>_. net_ok k) n"
  using assms unfolding RpcWrite_start_def next_seq_def
  by (auto simp: wp_simps split: option.split intro!: wp_mono [OF TcpConn_Write_ok])

lemma RpcWrite_end_ok:
  assumes "net_ok k n"
  shows "wp (RpcWrite_end sq ch) (\<lambda>_. net_ok k) (\<lambda>_ _. False) n"
  using assms by (simp add: RpcWrite_end_def wp_simps split: list.split)

lemma RpcWriteAsync_ok:
  assumes "net_ok k n"
  shows "wp (RpcWriteAsync dl wr now cmd req cb c) (\<lambda>_. net_ok k) (\<lambda>_. net_ok k) n"
  using assms unfolding RpcWriteAsync_def next_seq_def
  by (auto simp: wp_simps split: option.split intro!: wp_mono [OF TcpConn_Write_ok])

lemma processClientData_ok:
  assumes "net_ok k n"
  shows "wp (processClientData now c) (\<lambda>_. net_ok k) (\<lambda>_. net_ok k) n"
proof -
  have h: "net_ok k m'" if "HandleRpcResponse msg m = (r, m')" "net_ok k m" for msg m r m'
    using that by (auto simp: HandleRpcResponse_def Let_def split: option.splits if_splits)
  show ?thesis
    unfolding processClientData_def Let_def wp_simps
    by (rule wp_mono [OF Conn_Read_ok [OF assms]])
      (auto simp: wp_simps wp_Poll_Del split: sum.split prod.split handled.split intro: h)
qed

lemma processQueueEvents_ok:
  assumes "net_ok k n"
  shows "wp (processQueueEvents mid) (\<lambda>_. net_ok k) (\<lambda>_ _. False) n"
  using assms by (simp add: processQueueEvents_def wp_simps split: prod.split)

lemma CheckTimeout_ok:
  assumes "net_ok k n"
  shows "wp (CheckTimeout p now order) (\<lambda>_. net_ok k) (\<lambda>_ _. False) n"
  unfolding CheckTimeout_def wp_simps
  by (rule wp_for_each [where I = "net_ok k"]) (simp_all add: wp_simps wp_Poll_Del assms)

lemma ConnTick_ok:
  assumes "net_ok k n"
  shows "wp (ConnTick dl wr now ids) (\<lambda>_. net_ok k) (\<lambda>_ _. False) n"
  unfolding ConnTick_def wp_simps
  by (rule wp_for_each [where I = "net_ok k"]) (auto simp: wp_simps assms intro: wp_mono [OF Conn_Write_ok])

text \<open>
  What can happen to a process, one step at a time: bytes and frames arrive, a connection is accepted,
  its data is processed, it is deleted, written to or dialled, remote calls start and end, the tickers
  tick, notes are queued and dealt with. A step that panics leaves the state it has reached, as a
  recovered panic of a handler does. The counter is that of the accepted TCP connections.
\<close>

inductive net_reach :: "int \<Rightarrow> Net \<Rightarrow> bool" where
  start: "net_reach 0 new_Net"
| arrives: "net_reach k n \<Longrightarrow>
    net_reach k (upd_conn c (\<lambda>x. x\<lparr>c_bytes := c_bytes x @ bs, c_frames := c_frames x @ ds\<rparr>) n)"
| accept_tcp: "net_reach k n \<Longrightarrow> processAcceptTcp now acc n = (Inr r, m) \<Longrightarrow> net_reach (k + accepted acc r) m"
| accept_ws: "net_reach k n \<Longrightarrow> net_reach k (snd (processAcceptWebSocket p now acc n))"
| data: "net_reach k n \<Longrightarrow> net_reach k (snd (processClientData now c n))"
| queued: "net_reach k n \<Longrightarrow> net_reach k (snd (processQueueEvents mid n))"
| trigger: "net_reach k n \<Longrightarrow> net_reach k (Trigger t n)"
| del: "net_reach k n \<Longrightarrow> net_reach k (snd (Poll_Del fd n))"
| written: "net_reach k n \<Longrightarrow> net_reach k (snd (Conn_Write dl wr now msg c n))"
| calls: "net_reach k n \<Longrightarrow> net_reach k (snd (RpcWrite_start dl wr now cmd req ch c n))"
| returns: "net_reach k n \<Longrightarrow> net_reach k (snd (RpcWrite_end sq ch n))"
| async: "net_reach k n \<Longrightarrow> net_reach k (snd (RpcWriteAsync dl wr now cmd req cb c n))"
| server: "net_reach k n \<Longrightarrow> net_reach k (snd (GetServer reg dial ctl now svid n))"
| connects: "net_reach k n \<Longrightarrow> net_reach k (snd (Connect dial ctl now conf n))"
| set_context: "net_reach k n \<Longrightarrow> net_reach k (SetContext c ctx n)"
| timeout: "net_reach k n \<Longrightarrow> net_reach k (snd (CheckTimeout p now order n))"
| tick: "net_reach k n \<Longrightarrow> net_reach k (snd (ConnTick dls wrs now ids n))"

lemma net_reach_net_ok: "net_reach k n \<Longrightarrow> net_ok k n"
proof (induction rule: net_reach.induct)
  case (accept_tcp k n now acc r m)
  then show ?case using processAcceptTcp_ok [of k n now acc] by (simp add: wp_def)
next
  case (del k n fd)
  show ?case by (rule wp_inv [OF wp_Poll_Del [OF del.IH]])
qed (auto simp: net_ok_new Trigger_def SetContext_def
    intro: wp_safe [OF processAcceptWebSocket_ok] wp_inv [OF processClientData_ok]
      wp_safe [OF processQueueEvents_ok] wp_safe [OF Conn_Write_ok] wp_inv [OF RpcWrite_start_ok]
      wp_safe [OF RpcWrite_end_ok] wp_inv [OF RpcWriteAsync_ok] wp_inv [OF GetServer_ok]
      wp_inv [OF Connect_ok] wp_safe [OF CheckTimeout_ok] wp_safe [OF ConnTick_ok])

text \<open>
  C19. In every state a process can reach, the registry and epoll agree: a connection is registered under
  its own descriptor exactly when epoll watches it, a server number always leads to a registered
  connection with that number, so deleting any descriptor never panics. The connection counter is the
  number of connections minus all TCP connections ever accepted: accepting one does not count it,
  although deleting it does.
\<close>

theorem registry_agrees:
  assumes "net_reach k n"
  shows "(cm_conns (n_mgr n) fd \<noteq> None \<longleftrightarrow> fd \<in> set (n_epoll n)) \<and>
    (\<forall>c. cm_conns (n_mgr n) fd = Some c \<longrightarrow> c_fd (n_store n c) = fd) \<and>
    (\<forall>c. cm_servers (n_mgr n) s = Some c \<longrightarrow>
       s > 0 \<and> c_svid (n_store n c) = s \<and> cm_conns (n_mgr n) (c_fd (n_store n c)) = Some c) \<and>
    \<not> isl (fst (Poll_Del fd n)) \<and> distinct (n_epoll n) \<and> getConnNum n = int (length (n_epoll n)) - k"
proof -
  have ok: "net_ok k n" by (rule net_reach_net_ok [OF assms])
  then show ?thesis by (auto simp: Poll_Del_eq [OF ok] getConnNum_def net_ok_def split: option.split)
qed

text \<open>One accepted connection, deleted again: the counter is -1.\<close>

definition one_tcp :: Net where
  "one_tcp = admitted (new_Conn 7 False 5 0) new_Net"

lemma one_tcp_accept:
  "processAcceptTcp 5 (Some \<lparr>a_sys = True, a_control = Some 7, a_nonblock = True, a_ctl = True, a_upgrade = False\<rparr>) new_Net =
     (Inr None, one_tcp)"
  using add_new_eq [of "new_Conn 7 False 5 0" new_Net]
  by (simp add: processAcceptTcp_def a_fd_def socketFD_def seq_def EpollAdd_eq one_tcp_def new_Conn_def new_Net_def ret_def)

lemma one_tcp_reach: "net_reach 1 one_tcp"
  using net_reach.accept_tcp [OF net_reach.start one_tcp_accept] by (simp add: accepted_def)

lemma registry_agrees_witness:
  "getConnNum one_tcp = 0 \<and> getConnNum (snd (Poll_Del 7 one_tcp)) = - 1"
proof
  show "getConnNum one_tcp = 0"
    using registry_agrees [OF one_tcp_reach, of 7 0] by (simp add: one_tcp_def admitted_frame new_Net_def new_Conn_def)
  have ok: "net_ok 1 one_tcp" by (rule net_reach_net_ok [OF one_tcp_reach])
  show "getConnNum (snd (Poll_Del 7 one_tcp)) = - 1"
    unfolding Poll_Del_eq [OF ok] by (simp add: one_tcp_def admitted_frame new_Conn_def getConnNum_def new_Net_def)
qed

subsection \<open>The timeout pass\<close>

definition silent :: "Poll \<Rightarrow> int \<Rightarrow> Net \<Rightarrow> nat \<Rightarrow> bool" where
  "silent p now n c \<longleftrightarrow> now - c_activeTime (n_store n c) > pc_HeartBeat (p_config p)"

text \<open>Deleting a list of registered descriptors, one after the other.\<close>

lemma for_each_Del:
  assumes "net_ok k n" "distinct fds" "\<forall>fd \<in> set fds. cm_conns (n_mgr n) fd \<noteq> None"
  shows "\<exists>m. for_each (\<lambda>fd. seq (Poll_Del fd) (\<lambda>_. ret ())) fds n = (Inr (), m) \<and>
    (\<forall>fd. cm_conns (n_mgr m) fd = (if fd \<in> set fds then None else cm_conns (n_mgr n) fd)) \<and>
    n_calls m = n_calls n @ map (\<lambda>fd. Called_Close (the (cm_conns (n_mgr n) fd))) fds"
  using assms
proof (induction fds arbitrary: n)
  case Nil
  then show ?case by (simp add: ret_def)
next
  case (Cons fd fds)
  obtain c where c: "cm_conns (n_mgr n) fd = Some c" using Cons.prems(3) by auto
  let ?n = "deleted fd c n"
  have conns: "cm_conns (n_mgr ?n) = (cm_conns (n_mgr n))(fd := None)" by (rule deleted_conns [OF c])
  have "\<forall>x \<in> set fds. cm_conns (n_mgr ?n) x \<noteq> None" using Cons.prems(2,3) by (auto simp: conns)
  from Cons.IH [OF net_ok_deleted [OF Cons.prems(1) c] _ this] Cons.prems(2)
  obtain m where m: "for_each (\<lambda>fd. seq (Poll_Del fd) (\<lambda>_. ret ())) fds ?n = (Inr (), m)"
    "\<And>x. cm_conns (n_mgr m) x = (if x \<in> set fds then None else cm_conns (n_mgr ?n) x)"
    "n_calls m = n_calls ?n @ map (\<lambda>fd. Called_Close (the (cm_conns (n_mgr ?n) fd))) fds"
    by auto
  have "seq (Poll_Del fd) (\<lambda>_. ret ()) n = (Inr (), ?n)"
    by (simp add: seq_def Poll_Del_eq [OF Cons.prems(1)] c ret_def)
  then have "for_each (\<lambda>fd. seq (Poll_Del fd) (\<lambda>_. ret ())) (fd # fds) n = (Inr (), m)"
    using m(1) by (simp add: seq_def)
  moreover have "map (\<lambda>fd. Called_Close (the (cm_conns (n_mgr ?n) fd))) fds =
      map (\<lambda>fd. Called_Close (the (cm_conns (n_mgr n) fd))) fds"
    using Cons.prems(2) by (auto simp: conns)
  ultimately show ?case using m(2,3) by (auto simp: conns c)
qed

lemma Range_fds:
  assumes "net_ok k n"
  shows "map (\<lambda>c. c_fd (n_store n c)) (filter Q (Range order (n_mgr n))) =
    filter (\<lambda>fd. \<exists>c. cm_conns (n_mgr n) fd = Some c \<and> Q c) order"
  using assms by (induction order) (auto simp: Range_def net_ok_def split: option.split)

lemma Range_calls:
  assumes "net_ok k n"
  shows "map (\<lambda>fd. Called_Close (the (cm_conns (n_mgr n) fd)))
      (filter (\<lambda>fd. \<exists>c. cm_conns (n_mgr n) fd = Some c \<and> Q c) order) =
    map Called_Close (filter Q (Range order (n_mgr n)))"
  using assms by (induction order) (auto simp: Range_def split: option.split)

text \<open>
  C20. A timeout pass in a reachable state, visiting every registered connection once in whatever order:
  it does not panic, it takes exactly the connections out of the registry that have been silent for
  longer than the heartbeat time, leaves all others, and tells the handler about each of them once.
\<close>

theorem CheckTimeout_exact:
  assumes "net_reach k n" and "distinct order" and "set order = dom (cm_conns (n_mgr n))"
  shows "\<exists>m. CheckTimeout p now order n = (Inr (), m) \<and>
    (\<forall>fd. cm_conns (n_mgr m) fd =
       (case cm_conns (n_mgr n) fd of None \<Rightarrow> None | Some c \<Rightarrow> if silent p now n c then None else Some c)) \<and>
    n_calls m = n_calls n @ map Called_Close (filter (silent p now n) (Range order (n_mgr n)))"
proof -
  have ok: "net_ok k n" by (rule net_reach_net_ok [OF assms(1)])
  let ?fds = "filter (\<lambda>fd. \<exists>c. cm_conns (n_mgr n) fd = Some c \<and> silent p now n c) order"
  have fds: "timeout_fds p now order n = ?fds"
    unfolding timeout_fds_def by (simp only: silent_def Range_fds [OF ok])
  have "distinct ?fds" "\<forall>fd \<in> set ?fds. cm_conns (n_mgr n) fd \<noteq> None" using assms(2) by auto
  from for_each_Del [OF ok this] obtain m where m:
    "for_each (\<lambda>fd. seq (Poll_Del fd) (\<lambda>_. ret ())) ?fds n = (Inr (), m)"
    "\<And>fd. cm_conns (n_mgr m) fd = (if fd \<in> set ?fds then None else cm_conns (n_mgr n) fd)"
    "n_calls m = n_calls n @ map Called_Close (filter (silent p now n) (Range order (n_mgr n)))"
    by (auto simp: Range_calls [OF ok])
  have "CheckTimeout p now order n = (Inr (), m)"
    using m(1) by (simp add: CheckTimeout_def seq_def get_st_def fds)
  moreover have "cm_conns (n_mgr m) fd =
       (case cm_conns (n_mgr n) fd of None \<Rightarrow> None | Some c \<Rightarrow> if silent p now n c then None else Some c)" for fd
    using assms(3) by (auto simp: m(2) dom_def split: option.split)
  ultimately show ?thesis using m(3) by blast
qed

definition plain_poll :: Poll where
  "plain_poll = \<lparr>p_epollFd = 3, p_eventFd = 4, p_tcpListenFd = 5, p_wsListenFd = 0,
     p_config = NewPollConfig, p_conf = None\<rparr>"

lemma CheckTimeout_exact_witness:
  "\<exists>m. CheckTimeout plain_poll 66 [7] one_tcp = (Inr (), m) \<and> cm_conns (n_mgr m) 7 = None"
proof -
  have "cm_conns (n_mgr one_tcp) = [7 \<mapsto> 0]" "n_store one_tcp 0 = new_Conn 7 False 5 0"
    by (simp_all add: one_tcp_def admitted_frame new_Net_def NewServerMgr_def new_Conn_def)
  then show ?thesis
    using CheckTimeout_exact [OF one_tcp_reach, of "[7]" plain_poll 66]
    by (auto simp: silent_def plain_poll_def NewPollConfig_def new_Conn_def)
qed

subsection \<open>Packets\<close>

text \<open>The packet of a message is next on a connection, with \<open>bs\<close> or \<open>ds\<close> behind it.\<close>

definition packet_next :: "Net \<Rightarrow> nat \<Rightarrow> Message \<Rightarrow> u8 list \<Rightarrow> ws_data list \<Rightarrow> bool" where
  "packet_next n c m bs ds \<longleftrightarrow>
     (if c_ws (n_store n c) then c_frames (n_store n c) = WsFrame False (fst (Pack m)) # ds
      else c_bytes (n_store n c) = fst (Pack m) @ bs)"

definition sendable :: "Message \<Rightarrow> bool" where
  "sendable m \<longleftrightarrow> h_MagicNumber m = magicNumber \<and> length (m_Payload m) < 65536"

text \<open>What is read: the message with its length and checksum, and the buffer only from a frame.\<close>

definition received :: "bool \<Rightarrow> Message \<Rightarrow> Message" where
  "received ws m = (if ws then snd (Pack m) else (snd (Pack m))\<lparr>m_All := []\<rparr>)"

definition consumed :: "bool \<Rightarrow> int \<Rightarrow> u8 list \<Rightarrow> ws_data list \<Rightarrow> Conn \<Rightarrow> Conn" where
  "consumed ws now bs ds x = (if ws then x\<lparr>c_frames := ds, c_activeTime := now\<rparr> else x\<lparr>c_bytes := bs, c_activeTime := now\<rparr>)"

lemma TcpRead_Packed: "sendable m \<Longrightarrow> TcpRead (fst (Pack m) @ bs) = (Inr (Inr ((snd (Pack m))\<lparr>m_All := []\<rparr>)), bs)"
  unfolding sendable_def by (simp add: TcpRead_Pack) (simp add: sealed_def Pack_def Let_def)

lemma Conn_Read_packet:
  assumes "packet_next n c m bs ds" "sendable m"
  shows "Conn_Read now c n =
    (Inr (Inr (received (c_ws (n_store n c)) m)), upd_conn c (consumed (c_ws (n_store n c)) now bs ds) n)"
proof (cases "c_ws (n_store n c)")
  case True
  then show ?thesis
    using assms WsRead_Pack [of m]
    by (simp add: packet_next_def sendable_def Conn_Read_defs seq_def get_st_def modify_def lift_def ret_def
        SetActiveTime_def upd_conn_def received_def consumed_def)
next
  case False
  then show ?thesis
    using assms TcpRead_Packed [of m bs]
    by (simp add: packet_next_def Conn_Read_defs seq_def get_st_def modify_def lift_def ret_def
        SetActiveTime_def upd_conn_def received_def consumed_def)
qed

lemma received_fields [simp]:
  "h_Flags (received ws m) = h_Flags m" "h_Seq (received ws m) = h_Seq m"
  "IsHeartBeat (received ws m) = IsHeartBeat m"
  by (simp_all add: received_def Pack_def Let_def IsHeartBeat_def)

lemma consumed_twice: "SetActiveTime c now (upd_conn c (consumed ws now bs ds) n) = upd_conn c (consumed ws now bs ds) n"
  by (simp add: SetActiveTime_def upd_conn_def consumed_def fun_upd_idem_iff)

text \<open>What becomes of a packet, by its sequence number.\<close>

lemma processClientData_packet:
  assumes "packet_next n c m bs ds" "sendable m"
  shows "processClientData now c n =
    (let r = received (c_ws (n_store n c)) m; n' = upd_conn c (consumed (c_ws (n_store n c)) now bs ds) n in
     if IsHeartBeat m then (Inr (Dealt None), n')
     else case HandleRpcResponse r n' of
       (Blocks, _) \<Rightarrow> (Inr Hangs, n')
     | (Handled, n'') \<Rightarrow> (Inr (Dealt None), n'')
     | (NotRpc, _) \<Rightarrow> (Inr (Dealt None), n'\<lparr>n_calls := n_calls n' @ [Called_Push c r]\<rparr>))"
  using Conn_Read_packet [OF assms, of now]
  by (auto simp: processClientData_def seq_def get_st_def modify_def ret_def Let_def consumed_twice
      split: prod.split handled.split)

lemma consumed_frame [simp]:
  "n_rpc (upd_conn c f n) = n_rpc n" "n_calls (upd_conn c f n) = n_calls n" "n_chan (upd_conn c f n) = n_chan n"
  by (simp_all add: upd_conn_def)

text \<open>
  C17. A message written on a connection reaches the handler of the peer: \<open>Write\<close> on a TCP connection
  whose socket takes the bytes sends the packet and marks the connection active; when these bytes
  have arrived on the peer's connection, which has nothing else unread, its poll hands exactly this
  message (with its length and checksum) to the handler, once, and marks the connection active;
  provided the message is no heartbeat and no remote call of the peer waits for its sequence number.
\<close>

theorem message_delivered:
  assumes "sendable m" and "\<not> IsHeartBeat m" and "\<not> c_ws (n_store a c)" and "\<not> c_ws (n_store b d)"
    and "c_bytes (n_store b d) = []"
    and "rp_responses (n_rpc b) (h_Seq m) = None" and "rp_callbacks (n_rpc b) (h_Seq m) = None"
  shows "\<exists>a'. Conn_Write True (\<lambda>_. True) now (Some m) c a = (Inr None, a') \<and>
    c_activeTime (n_store a' c) = now \<and> c_sent (n_store a' c) = c_sent (n_store a c) @ [fst (Pack m)] \<and>
    (let b1 = upd_conn d (\<lambda>x. x\<lparr>c_bytes := c_bytes x @ last (c_sent (n_store a' c))\<rparr>) b;
         (r, b') = processClientData later d b1
     in r = Inr (Dealt None) \<and> n_calls b' = n_calls b @ [Called_Push d ((snd (Pack m))\<lparr>m_All := []\<rparr>)] \<and>
        c_bytes (n_store b' d) = [] \<and> c_activeTime (n_store b' d) = later)"
proof -
  let ?a = "SetActiveTime c now (upd_conn c (\<lambda>k. k\<lparr>c_sent := c_sent k @ [fst (Pack m)]\<rparr>) a)"
  have w: "Conn_Write True (\<lambda>_. True) now (Some m) c a = (Inr None, ?a)"
    using assms(3) by (simp add: Conn_Write_defs TcpWrite_def seq_def get_st_def modify_def ret_def Let_def prod.case_eq_if)
  let ?b = "upd_conn d (\<lambda>x. x\<lparr>c_bytes := c_bytes x @ fst (Pack m)\<rparr>) b"
  have "packet_next ?b d m [] []" "\<not> c_ws (n_store ?b d)"
    using assms(4,5) by (simp_all add: packet_next_def upd_conn_def)
  from processClientData_packet [OF this(1) assms(1), of later] this(2)
  have "processClientData later d ?b =
    (let n' = upd_conn d (consumed False later [] []) ?b
     in (Inr (Dealt None), n'\<lparr>n_calls := n_calls n' @ [Called_Push d (received False m)]\<rparr>))"
    using assms(2,6,7) by (simp add: HandleRpcResponse_def Let_def)
  with w show ?thesis
    by (auto simp: SetActiveTime_def upd_conn_def Let_def received_def consumed_def)
qed

lemma message_delivered_witness:
  "\<exists>a'. Conn_Write True (\<lambda>_. True) 9 (Some (NewMessageWithPayload 9 1001 [1, 2])) 0 one_tcp = (Inr None, a') \<and>
    c_sent (n_store a' 0) = [fst (Pack (NewMessageWithPayload 9 1001 [1, 2]))]"
proof -
  let ?m = "NewMessageWithPayload 9 1001 [1, 2]"
  have "sendable ?m" "\<not> IsHeartBeat ?m"
    by (simp_all add: sendable_def NewMessageWithPayload_def zero_Message_def IsHeartBeat_def)
  moreover have "n_store one_tcp 0 = new_Conn 7 False 5 0" "n_rpc one_tcp = NewRpcMgr"
    by (simp_all add: one_tcp_def admitted_def AddConn_def new_Net_def Let_def)
  ultimately show ?thesis
    using message_delivered [of ?m one_tcp 0 one_tcp 0 9 10] by (auto simp: new_Conn_def NewRpcMgr_def)
qed

subsection \<open>Writing\<close>

text \<open>
  C22. Writing on a registered connection in a reachable state never panics and has two outcomes: the
  packed message is on its way, the connection is marked active and nothing else changes; or an error
  is returned, and then the connection has been deleted from the registry and closed, and its handler
  told. The second is also the outcome for a message that could not be marshalled, which is nil.
\<close>

theorem Write_sends_or_deletes:
  assumes "net_reach k n" and "cm_conns (n_mgr n) (c_fd (n_store n c)) = Some c"
  shows "\<exists>r m. Conn_WriteBy dl wr now cmd pro c n = (Inr r, m) \<and>
    (case r of
       None \<Rightarrow> dl \<and> pro \<noteq> Some None \<and> n_mgr m = n_mgr n \<and> n_calls m = n_calls n \<and>
         c_activeTime (n_store m c) = now \<and>
         c_sent (n_store m c) = c_sent (n_store n c) @ [fst (Pack (the (NewMessage (of_int now) cmd pro)))]
     | Some e \<Rightarrow> cm_conns (n_mgr m) = (cm_conns (n_mgr n))(c_fd (n_store n c) := None) \<and>
         n_calls m = n_calls n @ [Called_Close c] \<and> \<not> c_open (n_store m c))"
proof -
  have ok: "net_ok k n" by (rule net_reach_net_ok [OF assms(1)])
  have del: "Poll_Del (c_fd (n_store n c)) n = (Inr None, deleted (c_fd (n_store n c)) c n)"
    using assms(2) by (simp add: Poll_Del_eq [OF ok])
  have gone: "cm_conns (n_mgr (deleted (c_fd (n_store n c)) c n)) = (cm_conns (n_mgr n))(c_fd (n_store n c) := None)"
    "\<not> c_open (n_store (deleted (c_fd (n_store n c)) c n) c)"
    by (rule deleted_conns [OF assms(2)]) (simp add: deleted_def upd_conn_def)
  have nm: "NewMessage (of_int now) cmd pro = None \<longleftrightarrow> pro = Some None"
    by (auto simp: NewMessage_def Let_def split: option.split)
  show ?thesis
    using del gone nm
    by (cases "NewMessage (of_int now) cmd pro")
      (auto simp: Conn_WriteBy_defs Conn_Write_defs TcpWrite_def WsWrite_def seq_def get_st_def modify_def ret_def
        SetActiveTime_def upd_conn_def Let_def prod.case_eq_if)
qed

lemma one_tcp_conns: "cm_conns (n_mgr one_tcp) = [7 \<mapsto> 0]" "n_store one_tcp 0 = new_Conn 7 False 5 0"
  by (simp_all add: one_tcp_def admitted_frame new_Net_def NewServerMgr_def new_Conn_def)

lemma Write_sends_or_deletes_witness:
  "\<exists>r m. Conn_WriteBy True (\<lambda>_. True) 6 1001 (Some None) 0 one_tcp = (Inr (Some r), m) \<and> cm_conns (n_mgr m) 7 = None"
  using Write_sends_or_deletes [OF one_tcp_reach, of 0 True "\<lambda>_. True" 6 1001 "Some None"]
  by (auto simp: one_tcp_conns new_Conn_def split: option.splits)

subsection \<open>Remote calls\<close>

lemma RpcWrite_start_eq:
  assumes "NewMessage (of_int now) cmd req = Some msg"
  shows "RpcWrite_start True (\<lambda>_. True) now cmd req ch c n =
    (let sq = ucast (n_seq n + 1) in
     (Inr (Inr sq),
      upd_conn c (\<lambda>k. k\<lparr>c_sent := c_sent k @ [fst (Pack (msg\<lparr>h_Seq := sq\<rparr>))], c_activeTime := now\<rparr>)
        (n\<lparr>n_seq := n_seq n + 1, n_rpc := RegisterRpc sq ch (n_rpc n), n_chan := (n_chan n)(ch := [])\<rparr>)))"
  using assms
  by (simp add: RpcWrite_start_def next_seq_def TcpConn_Write_def TcpWrite_def seq_def get_st_def
      modify_def ret_def Let_def prod.case_eq_if SetActiveTime_def upd_conn_def)

text \<open>
  C21. A remote call: \<open>RpcWrite\<close> sends the request under a new sequence number; when the packet of an
  answer with that number is next on a connection, the poll puts it into the call's channel and calls
  no handler; the wait then returns this answer and nobody waits for the number any more. Without an
  answer the call ends with the timeout, and likewise leaves nobody waiting.
\<close>

theorem rpc_roundtrip:
  assumes "NewMessage (of_int now) cmd req = Some msg" and "sendable ans" and "\<not> IsHeartBeat ans"
    and "h_Seq ans = ucast (n_seq n + 1)"
  shows "\<exists>n1. RpcWrite_start True (\<lambda>_. True) now cmd req ch c n = (Inr (Inr (h_Seq ans)), n1) \<and>
    c_sent (n_store n1 c) = c_sent (n_store n c) @ [fst (Pack (msg\<lparr>h_Seq := h_Seq ans\<rparr>))] \<and>
    (packet_next n1 d ans bs ds \<longrightarrow>
       (\<exists>n2. processClientData later d n1 = (Inr (Dealt None), n2) \<and> n_calls n2 = n_calls n \<and>
         (\<exists>n3. RpcWrite_end (h_Seq ans) ch n2 = (Inr (Inr (received (c_ws (n_store n1 d)) ans)), n3) \<and>
           rp_responses (n_rpc n3) (h_Seq ans) = None))) \<and>
    (\<exists>n3. RpcWrite_end (h_Seq ans) ch n1 = (Inr (Inl RpcTimeout), n3) \<and> rp_responses (n_rpc n3) (h_Seq ans) = None)"
proof -
  let ?n0 = "n\<lparr>n_seq := n_seq n + 1, n_rpc := RegisterRpc (h_Seq ans) ch (n_rpc n), n_chan := (n_chan n)(ch := [])\<rparr>"
  let ?n1 = "upd_conn c (\<lambda>k. k\<lparr>c_sent := c_sent k @ [fst (Pack (msg\<lparr>h_Seq := h_Seq ans\<rparr>))], c_activeTime := now\<rparr>) ?n0"
  have start: "RpcWrite_start True (\<lambda>_. True) now cmd req ch c n = (Inr (Inr (h_Seq ans)), ?n1)"
    unfolding RpcWrite_start_eq [OF assms(1)] by (simp add: assms(4) Let_def)
  have regd: "rp_responses (n_rpc ?n1) (h_Seq ans) = Some ch" "n_chan ?n1 ch = []" "n_calls ?n1 = n_calls n"
    by (simp_all add: RegisterRpc_def)
  have late: "\<exists>n3. RpcWrite_end (h_Seq ans) ch ?n1 = (Inr (Inl RpcTimeout), n3) \<and> rp_responses (n_rpc n3) (h_Seq ans) = None"
    by (simp add: RpcWrite_end_def seq_def get_st_def modify_def ret_def UnregisterRpc_def)
  have sent: "c_sent (n_store ?n1 c) = c_sent (n_store n c) @ [fst (Pack (msg\<lparr>h_Seq := h_Seq ans\<rparr>))]"
    by (simp add: upd_conn_def)
  have reply: "\<exists>n2. processClientData later d ?n1 = (Inr (Dealt None), n2) \<and> n_calls n2 = n_calls n \<and>
      (\<exists>n3. RpcWrite_end (h_Seq ans) ch n2 = (Inr (Inr (received (c_ws (n_store ?n1 d)) ans)), n3) \<and>
        rp_responses (n_rpc n3) (h_Seq ans) = None)"
    if p: "packet_next ?n1 d ans bs ds"
  proof -
    let ?ws = "c_ws (n_store ?n1 d)"
    have "processClientData later d ?n1 =
      (let n' = upd_conn d (consumed ?ws later bs ds) ?n1
       in (Inr (Dealt None), n'\<lparr>n_chan := (n_chan n')(ch := [received ?ws ans])\<rparr>))"
      unfolding processClientData_packet [OF p assms(2)] using regd assms(3)
      by (simp add: HandleRpcResponse_def Let_def)
    then show ?thesis using regd(3)
      by (simp add: Let_def RpcWrite_end_def seq_def get_st_def modify_def ret_def UnregisterRpc_def)
  qed
  show ?thesis by (rule exI [of _ ?n1]) (intro conjI impI start sent reply late)
qed

lemma new_message: "NewMessage (of_int 6) 2002 None =
    Some (zero_Message\<lparr>h_MagicNumber := magicNumber, h_Version := 1, h_Timestamp := 6, m_Cmd := 2002\<rparr>)"
  by (simp add: NewMessage_def Let_def)

lemma rpc_roundtrip_witness:
  "\<exists>n1. RpcWrite_start True (\<lambda>_. True) 6 2002 None 4 0 one_tcp = (Inr (Inr 1), n1) \<and>
    (\<exists>n3. RpcWrite_end 1 4 n1 = (Inr (Inl RpcTimeout), n3))"
proof -
  let ?ans = "(NewMessageWithPayload 9 2002 [1])\<lparr>h_Seq := 1\<rparr>"
  have "sendable ?ans" "\<not> IsHeartBeat ?ans" "h_Seq ?ans = ucast (n_seq one_tcp + 1)"
    by (simp_all add: sendable_def NewMessageWithPayload_def zero_Message_def IsHeartBeat_def one_tcp_def
        admitted_def AddConn_def new_Net_def Let_def)
  from rpc_roundtrip [OF new_message this, of 4 0] show ?thesis by fastforce
qed

text \<open>
  The sequence number of a remote call is the low half of a 32 bit counter, and a callback is never
  unregistered: the asynchronous call whose number comes out as 0 (after 65535 others) makes the poll
  take every ordinary message, whose number is 0, on any connection and for good, for an answer to
  that call. The message goes to the callback and never to the handler.
\<close>

theorem seq_zero_swallows:
  assumes "n_seq n + 1 = push_bit 16 j" and "NewMessage (of_int now) cmd req = Some msg"
    and "rp_responses (n_rpc n) 0 = None" and "sendable m" and "\<not> IsHeartBeat m" and "h_Seq m = 0"
  shows "\<exists>n1. RpcWriteAsync True (\<lambda>_. True) now cmd req cb c n = (Inr None, n1) \<and>
    (packet_next n1 d m bs ds \<longrightarrow>
       (\<exists>n2. processClientData later d n1 = (Inr (Dealt None), n2) \<and>
         n_calls n2 = n_calls n @ [Called_Back cb (received (c_ws (n_store n1 d)) m)] \<and> n_rpc n2 = n_rpc n1))"
proof -
  let ?n0 = "n\<lparr>n_seq := n_seq n + 1, n_rpc := RegisterRpcCallback 0 cb (n_rpc n)\<rparr>"
  let ?n1 = "upd_conn c (\<lambda>k. k\<lparr>c_sent := c_sent k @ [fst (Pack (msg\<lparr>h_Seq := 0\<rparr>))], c_activeTime := now\<rparr>) ?n0"
  have zero: "(ucast (n_seq n + 1) :: u16) = 0"
    unfolding assms(1) by (rule bit_eqI) (simp add: bit_simps)
  have start: "RpcWriteAsync True (\<lambda>_. True) now cmd req cb c n = (Inr None, ?n1)"
    using assms(2) zero
    by (simp add: RpcWriteAsync_def next_seq_def TcpConn_Write_def TcpWrite_def seq_def get_st_def
      modify_def ret_def Let_def prod.case_eq_if SetActiveTime_def upd_conn_def)
  have regd: "rp_responses (n_rpc ?n1) 0 = None" "rp_callbacks (n_rpc ?n1) 0 = Some cb" "n_calls ?n1 = n_calls n"
    using assms(3) by (simp_all add: RegisterRpcCallback_def)
  have reply: "\<exists>n2. processClientData later d ?n1 = (Inr (Dealt None), n2) \<and>
      n_calls n2 = n_calls n @ [Called_Back cb (received (c_ws (n_store ?n1 d)) m)] \<and> n_rpc n2 = n_rpc ?n1"
    if p: "packet_next ?n1 d m bs ds"
    unfolding processClientData_packet [OF p assms(4)] using regd assms(5,6)
    by (simp add: HandleRpcResponse_def Let_def)
  show ?thesis by (rule exI [of _ ?n1]) (intro conjI impI start reply)
qed

lemma seq_zero_swallows_witness:
  "\<exists>n1. RpcWriteAsync True (\<lambda>_. True) 6 2002 None 4 0 (one_tcp\<lparr>n_seq := 65535\<rparr>) = (Inr None, n1)"
proof -
  have "sendable (NewMessageWithPayload 9 1001 [])" "\<not> IsHeartBeat (NewMessageWithPayload 9 1001 [])"
    "h_Seq (NewMessageWithPayload 9 1001 []) = 0" "rp_responses (n_rpc (one_tcp\<lparr>n_seq := 65535\<rparr>)) 0 = None"
    by (simp_all add: sendable_def NewMessageWithPayload_def zero_Message_def IsHeartBeat_def one_tcp_def
        admitted_def AddConn_def new_Net_def NewRpcMgr_def Let_def)
  moreover have "n_seq (one_tcp\<lparr>n_seq := 65535\<rparr>) + 1 = push_bit 16 1" by simp
  ultimately show ?thesis using seq_zero_swallows [OF _ new_message] by blast
qed

text \<open>
  Two connections to the same server: the registry of numbers knows the later one. When the earlier
  one goes, the number is taken out with it, although the later connection is still registered and
  open; the next message to that server dials a third connection.
\<close>

theorem replacement_unregistered:
  assumes "net_reach k n" and "cm_conns (n_mgr n) (c_fd (n_store n c)) = Some c"
    and "cm_servers (n_mgr n) s = Some d" and "c \<noteq> d" and "c_svid (n_store n c) = s"
  shows "\<exists>m. Poll_Del (c_fd (n_store n c)) n = (Inr None, m) \<and> GetBySid (n_mgr m) s = None \<and>
    GetByFd (n_mgr m) (c_fd (n_store m d)) = Some d"
proof -
  have ok: "net_ok k n" by (rule net_reach_net_ok [OF assms(1)])
  have d: "s > 0" "cm_conns (n_mgr n) (c_fd (n_store n d)) = Some d"
    using ok assms(3) by (auto simp: net_ok_def)
  then have "c_fd (n_store n d) \<noteq> c_fd (n_store n c)" using assms(2,4) by auto
  then show ?thesis
    using d assms(2,5)
    by (simp add: Poll_Del_eq [OF ok] GetBySid_def GetByFd_def deleted_conns deleted_servers)
qed

text \<open>The hall server dialled twice, as descriptors 8 and 9.\<close>

definition hall_conf :: ServerConfig where
  "hall_conf = \<lparr>sc_Addr = '':90'', sc_WsAddr = '''', sc_ServerType = 5, sc_ServerId = 1\<rparr>"

definition dialled :: "int \<Rightarrow> Net \<Rightarrow> Net" where
  "dialled fd n = snd (Connect (\<lambda>_ _. Some fd) True 1 hall_conf n)"

lemma dialled_eq: "fd \<notin> set (n_epoll n) \<Longrightarrow> dialled fd n =
    (let m = incrConnNum (admitted (new_Conn fd False 1 501) n) in m\<lparr>n_calls := n_calls m @ [Called_OnConnect (n_next n)]\<rparr>)"
  using add_new_eq [of "new_Conn fd False 1 501" n]
  by (simp add: dialled_def Connect_def seq_def EpollAdd_eq lift_def Port_def IP_def hall_conf_def DialTCP_def
      SC_Svid_def modify_def ret_def new_Conn_def index_def Let_def)

lemma replacement_unregistered_witness:
  "\<exists>m. Poll_Del 8 (dialled 9 (dialled 8 new_Net)) = (Inr None, m) \<and> GetBySid (n_mgr m) 501 = None \<and>
    GetByFd (n_mgr m) 9 = Some 1"
proof -
  let ?n = "dialled 9 (dialled 8 new_Net)"
  have r: "net_reach 0 ?n"
    unfolding dialled_def by (intro net_reach.connects net_reach.start)
  have n: "?n = (let m = incrConnNum (admitted (new_Conn 9 False 1 501) (dialled 8 new_Net))
      in m\<lparr>n_calls := n_calls m @ [Called_OnConnect 1]\<rparr>)"
    by (subst dialled_eq) (simp_all add: dialled_eq new_Net_def Let_def incrConnNum_def admitted_frame new_Conn_def)
  have f: "n_store ?n 0 = new_Conn 8 False 1 501" "n_store ?n 1 = new_Conn 9 False 1 501"
    "cm_conns (n_mgr ?n) 8 = Some 0" "cm_servers (n_mgr ?n) 501 = Some 1"
    unfolding n by (simp_all add: dialled_eq new_Net_def Let_def incrConnNum_def admitted_frame new_Conn_def)
  show ?thesis
    using replacement_unregistered [OF r, of 0 501 1] f
    by (auto simp: new_Conn_def Poll_Del_eq [OF net_reach_net_ok [OF r]])
qed

end
