(* ===== verification/GameUser.thy ===== *)
theory GameUser
  imports MjHulz
begin

text \<open>
  \<open>examples/game/route/user.go\<close>: a player at a mahjong table. The player is a record; an operation on
  it is a computation that may panic (a tile number behind the counters or without a name).
\<close>

record CanOp =
  co_Op :: i32
  co_Mj :: i32

record User =
  u_uid :: u32
  u_gateId :: u16
  u_pai :: i32
  u_offline :: bool
  u_canOpsGroup :: "Group list"
  u_waiting :: bool
  u_waitOp :: u8
  u_mjHands :: "u8 list"
  u_mjHistory :: "u8 list"
  u_mjGroup :: "Group list"
  u_seat :: nat
  u_canOpsFlag :: i32
  u_huType :: i32
  u_lastOp :: Group
  u_prepare :: bool

definition zero_User :: User where
  "zero_User = \<lparr>u_uid = 0, u_gateId = 0, u_pai = 0, u_offline = False, u_canOpsGroup = [], u_waiting = False,
     u_waitOp = 0, u_mjHands = [], u_mjHistory = [], u_mjGroup = [], u_seat = 0, u_canOpsFlag = 0,
     u_huType = 0, u_lastOp = mkGroup 0 0, u_prepare = False\<rparr>"

definition User_Reset :: "User \<Rightarrow> User" where
  "User_Reset u = u\<lparr>u_pai := 0, u_prepare := True, u_mjHands := [], u_mjHistory := [], u_mjGroup := [],
     u_canOpsGroup := [], u_waiting := False, u_waitOp := 0\<rparr>"

text \<open>
  The loop of \<open>removeMj\<close> over the cells \<open>i .. n - 1\<close>: a hit is swapped to the end. Only the last hit
  cuts the slice; otherwise the hand keeps its length.
\<close>

function remove_loop :: "u8 \<Rightarrow> int \<Rightarrow> nat \<Rightarrow> nat \<Rightarrow> u8 list \<Rightarrow> bool \<times> u8 list" where
  "remove_loop val num i n hands =
     (if i < n then
        (if hands ! i = val then
           (let hands = swap hands i (n - 1)
            in if num - 1 = 0 then (True, take (n - 1) hands)
               else remove_loop val (num - 1) i (n - 1) hands)
         else remove_loop val num (i + 1) n hands)
      else (False, hands))"
  by pat_completeness auto
termination
  by (relation "measure (\<lambda>(val, num, i, n, hands). n - i)") auto

declare remove_loop.simps [simp del]

definition removeMj :: "u8 \<Rightarrow> int \<Rightarrow> (User, bool) act" where
  "removeMj val num =
     seq get_st (\<lambda>u.
     case remove_loop val num 0 (length (u_mjHands u)) (u_mjHands u) of
       (ok, hands) \<Rightarrow> seq (modify (\<lambda>u. u\<lparr>u_mjHands := hands\<rparr>)) (\<lambda>_. ret ok))"

definition DaMj :: "u8 \<Rightarrow> (User, bool) act" where
  "DaMj val = removeMj val 1"

text \<open>Only ever called with one tile.\<close>

definition MoMj :: "u8 \<Rightarrow> User \<Rightarrow> User" where
  "MoMj val u = u\<lparr>u_lastOp := mkGroup MoPai val, u_canOpsFlag := 0, u_mjHands := u_mjHands u @ [val]\<rparr>"

definition Haidilao :: "u8 \<Rightarrow> User \<Rightarrow> User" where
  "Haidilao val u = u\<lparr>u_lastOp := mkGroup HdlPai val, u_canOpsFlag := 0, u_mjHands := u_mjHands u @ [val]\<rparr>"

text \<open>The names in a log line: they panic for a tile number without a name.\<close>

definition log_pais :: "u8 list \<Rightarrow> ('s, unit) act" where
  "log_pais vs = seq (lift (mapE Pai vs)) (\<lambda>_. ret ())"

definition add_meld :: "u8 \<Rightarrow> u8 \<Rightarrow> (User, unit) act" where
  "add_meld op val = modify (\<lambda>u. u\<lparr>u_mjGroup := u_mjGroup u @ [mkGroup op val]\<rparr>)"

text \<open>The three chows: two tiles are removed, one after the other.\<close>

definition chi :: "u8 \<Rightarrow> u8 \<Rightarrow> u8 \<Rightarrow> u8 \<Rightarrow> u8 list \<Rightarrow> (User, bool) act" where
  "chi op val val1 val2 names =
     seq (removeMj val1 1) (\<lambda>ok.
     if \<not> ok then ret False
     else seq (removeMj val2 1) (\<lambda>ok.
       if \<not> ok then ret False
       else seq (add_meld op val) (\<lambda>_. seq (log_pais names) (\<lambda>_. ret True))))"

definition LChiMj :: "u8 \<Rightarrow> (User, bool) act" where
  "LChiMj val = chi LChi val (val + 1) (val + 2) [val, val + 1, val + 2]"

definition MChiMj :: "u8 \<Rightarrow> (User, bool) act" where
  "MChiMj val = chi MChi val (val - 1) (val + 1) [val, val - 1, val + 1]"

definition RChiMj :: "u8 \<Rightarrow> (User, bool) act" where
  "RChiMj val = chi RChi val (val - 1) (val - 2) [val, val - 1, val - 2]"

text \<open>Pong and the two kongs that need \<open>need\<close> tiles of the hand.\<close>

definition take_same :: "u8 \<Rightarrow> nat \<Rightarrow> u8 list \<Rightarrow> u8 \<Rightarrow> (User, bool) act" where
  "take_same op need names val =
     seq get_st (\<lambda>u.
     if count_list (u_mjHands u) val < need then ret False
     else seq (removeMj val (int need)) (\<lambda>ok.
       if \<not> ok then ret False
       else seq (add_meld op val) (\<lambda>_. seq (log_pais names) (\<lambda>_. ret True))))"

definition PengMj :: "u8 \<Rightarrow> (User, bool) act" where
  "PengMj val = take_same Peng 2 [val, val, val] val"

definition MGangMj :: "u8 \<Rightarrow> (User, bool) act" where
  "MGangMj val = take_same MGang 3 [val, val, val, val] val"

definition AGangMj :: "u8 \<Rightarrow> (User, bool) act" where
  "AGangMj val = take_same AGang 4 [val, val, val, val] val"

text \<open>The loop over the melds assigns to its copy: no meld changes.\<close>

definition BGangMj :: "u8 \<Rightarrow> (User, bool) act" where
  "BGangMj val =
     seq (removeMj val 1) (\<lambda>ok.
     if \<not> ok then ret False else seq (log_pais [val, val, val, val]) (\<lambda>_. ret True))"

definition DianPao :: "u8 \<Rightarrow> u8 \<Rightarrow> User \<Rightarrow> panic + bool" where
  "DianPao val laizi u =
     bindE (Newlz (u_mjHands u) val laizi (u_mjGroup u)) (\<lambda>st.
     bindE (Pai val) (\<lambda>_. Inr (fst (CanHu_lz st))))"

definition Zimo :: "u8 \<Rightarrow> User \<Rightarrow> panic + bool" where
  "Zimo laizi u = bindE (Newlz (u_mjHands u) 0 laizi (u_mjGroup u)) (\<lambda>st. Inr (fst (CanHu_lz st)))"

definition deal_op :: "u8 \<Rightarrow> u8 \<Rightarrow> (User, bool) act" where
  "deal_op op val =
     (if op = ChuPai then DaMj val
      else if op = MGang then MGangMj val
      else if op = BGang then BGangMj val
      else if op = AGang then AGangMj val
      else if op = Peng then PengMj val
      else if op = LChi then LChiMj val
      else if op = MChi then MChiMj val
      else if op = RChi then RChiMj val
      else ret (op = HuPaiOp \<or> op = GuoPai))"

definition DealMj :: "u8 \<Rightarrow> u8 \<Rightarrow> (User, bool) act" where
  "DealMj op val =
     seq (deal_op op val) (\<lambda>ok.
     if \<not> ok then ret ok
     else seq (modify (\<lambda>u. u\<lparr>u_canOpsFlag := 0, u_lastOp := mkGroup op val\<rparr>)) (\<lambda>_. ret ok))"

text \<open>The flags of a list of offered operations.\<close>

definition add_ops :: "i32 \<Rightarrow> Group list \<Rightarrow> i32" where
  "add_ops fl gs = foldl (\<lambda>f g. AddOp f (g_Op g)) fl gs"

definition CanOpSelf :: "u8 \<Rightarrow> (User, i32) act" where
  "CanOpSelf lz =
     seq get_st (\<lambda>u.
     if slt 0 (u_canOpsFlag u) then ret (u_canOpsFlag u)
     else
       seq (lift (Newlz (u_mjHands u) 0 lz (u_mjGroup u))) (\<lambda>st.
       let gs = fst (CanOpSelf_lz st);
           fl = (if g_Op (u_lastOp u) \<noteq> HdlPai then AddOp (u_canOpsFlag u) ChuPai else u_canOpsFlag u);
           fl = add_ops fl gs
       in seq (modify (\<lambda>u. u\<lparr>u_canOpsGroup := gs, u_waiting := True, u_canOpsFlag := fl\<rparr>)) (\<lambda>_. ret fl)))"

text \<open>
  \<open>sort.Slice\<close> on at most 12 elements is insertion sort: every element moves left past those the
  function puts behind it. The function is \<open>>=\<close>, so equal operations change places. A hand offers
  fewer than 12 operations.
\<close>

definition insert_left :: "CanOp list \<Rightarrow> CanOp \<Rightarrow> CanOp list" where
  "insert_left cs c =
     (let k = length cs - length (takeWhile (\<lambda>d. sint (co_Op d) \<le> sint (co_Op c)) (rev cs))
      in take k cs @ [c] @ drop k cs)"

definition CanOps :: "User \<Rightarrow> panic + CanOp list" where
  "CanOps u =
     (let ops = map (\<lambda>g. \<lparr>co_Op = ucast (g_Op g), co_Mj = ucast (g_Val g)\<rparr>) (u_canOpsGroup u)
      in bindE (if HasOp (u_canOpsFlag u) ChuPai
                then bindE (index (u_mjHands u) 0) (\<lambda>v. Inr (ops @ [\<lparr>co_Op = ChuPai, co_Mj = ucast v\<rparr>]))
                else Inr ops) (\<lambda>ops.
         let ops = (if HasOp (u_canOpsFlag u) GuoPai then ops @ [\<lparr>co_Op = GuoPai, co_Mj = 0\<rparr>] else ops)
         in Inr (foldl insert_left [] ops)))"

definition IsCanOp :: "User \<Rightarrow> i32 \<Rightarrow> bool" where
  "IsCanOp u op = HasOp (u_canOpsFlag u) (ucast op)"

definition CanOpOther :: "u8 \<Rightarrow> u8 \<Rightarrow> u8 \<Rightarrow> (User, i32) act" where
  "CanOpOther val op lz =
     seq get_st (\<lambda>u.
     seq (lift (Newlz (u_mjHands u) val lz [])) (\<lambda>st.
     seq (lift (CanOpOther_lz st val op)) (\<lambda>(gs, _).
     let waiting = (gs \<noteq> []); fl = (if waiting then AddOp 0 GuoPai else 0); fl = add_ops fl gs
     in seq (modify (\<lambda>u. u\<lparr>u_canOpsGroup := gs, u_waiting := waiting, u_canOpsFlag := fl\<rparr>)) (\<lambda>_. ret fl))))"

definition User_HuPai :: "u8 \<Rightarrow> u8 \<Rightarrow> User \<Rightarrow> panic + (i32 \<times> i32)" where
  "User_HuPai pai laizi u = bindE (Newlz (u_mjHands u) pai laizi (u_mjGroup u)) HuPai_lz"

text \<open>\<open>Op & (MGang|AGang|BGang) > 0\<close>: the operation numbers are no bits, their union is 11.\<close>

definition FanShu :: "User \<Rightarrow> i32" where
  "FanShu u = foldl (\<lambda>f g. if g_Op g AND 11 > 0 then push_bit 1 f else f) 1 (u_mjGroup u)"

definition Mj :: "User \<Rightarrow> i32 list" where
  "Mj u = map ucast (u_mjHands u)"

definition GroupString :: "User \<Rightarrow> panic + (group_label \<times> pai_name list) list" where
  "GroupString u = mapE Group_String (u_mjGroup u)"

subsection \<open>Tiles of a hand\<close>

text \<open>\<open>removeMj\<close> with a positive number removes exactly so many tiles of that value, or none.\<close>

lemma take_swap:
  assumes "i < n" "n \<le> length xs"
  shows "mset (take n xs) = add_mset (xs ! i) (mset (take (n - 1) (swap xs i (n - 1))))"
proof -
  have n: "n - 1 < length xs" "i \<le> n - 1" "Suc (n - 1) = n" using assms by auto
  have "mset (take n xs) = mset (swap (take n xs) i (n - 1))"
    using n assms by simp
  also have "swap (take n xs) i (n - 1) = take n (swap xs i (n - 1))"
    using n assms by (simp add: swap_def take_update_swap)
  also have "\<dots> = take (n - 1) (swap xs i (n - 1)) @ [xs ! i]"
    using take_Suc_conv_app_nth [of "n - 1" "swap xs i (n - 1)"] n by (simp add: nth_swap)
  finally show ?thesis by simp
qed

lemma remove_loop_spec:
  assumes "remove_loop val num i n hands = (ok, hs)" "i \<le> n" "n \<le> length hands" "0 < num"
    "val \<notin> set (take i hands)"
  shows "(ok \<longleftrightarrow> nat num \<le> count (mset (take n hands)) val) \<and>
    mset hs = (if ok then mset (take n hands) - replicate_mset (nat num) val else mset hands)"
  using assms
proof (induction val num i n hands rule: remove_loop.induct)
  case (1 val num i n hands)
  show ?case
  proof (cases "i < n")
    case False
    then have "i = n" using 1(4) by simp
    then have "val \<notin># mset (take n hands)" using 1(7) by simp
    then have z: "count (mset (take n hands)) val = 0" by (rule count_eq_zero_iff [THEN iffD2])
    moreover have "\<not> ok" "hs = hands" using 1(3) False by (auto simp: remove_loop.simps)
    ultimately show ?thesis using 1(6) unfolding z by simp
  next
    case i: True
    show ?thesis
    proof (cases "hands ! i = val")
      case False
      have "val \<notin> set (take (i + 1) hands)"
        using 1(5,7) i False by (simp add: take_Suc_conv_app_nth)
      then show ?thesis using 1 i False by (simp add: remove_loop.simps [of val num i n])
    next
      case hit: True
      let ?h = "swap hands i (n - 1)"
      have m: "mset (take n hands) = add_mset val (mset (take (n - 1) ?h))"
        using take_swap [OF i 1(5)] hit by simp
      show ?thesis
      proof (cases "num - 1 = 0")
        case True
        then have "ok" "hs = take (n - 1) ?h" using 1(3) i hit by (simp_all add: remove_loop.simps Let_def)
        then show ?thesis using True m by simp
      next
        case more: False
        have r: "remove_loop val (num - 1) i (n - 1) ?h = (ok, hs)"
          using 1(3) i hit more by (simp add: remove_loop.simps [of val num i n])
        have "take i ?h = take i hands" using i 1(5) by (simp add: swap_def)
        then have "(ok \<longleftrightarrow> nat (num - 1) \<le> count (mset (take (n - 1) ?h)) val) \<and>
            mset hs = (if ok then mset (take (n - 1) ?h) - replicate_mset (nat (num - 1)) val else mset ?h)"
          using 1(1) [OF i hit refl more r] i 1(5,6,7) more by simp
        moreover have "nat num = Suc (nat (num - 1))" using 1(6) more by simp
        ultimately show ?thesis using m i 1(5) by auto
      qed
    qed
  qed
qed

lemma removeMj_spec:
  assumes "removeMj val num u = (r, u')" "0 < num"
  shows "\<exists>hs. u' = u\<lparr>u_mjHands := hs\<rparr> \<and> r = Inr (nat num \<le> count (mset (u_mjHands u)) val) \<and>
    mset hs = (if nat num \<le> count (mset (u_mjHands u)) val
               then mset (u_mjHands u) - replicate_mset (nat num) val else mset (u_mjHands u))"
proof -
  obtain ok hs where l: "remove_loop val num 0 (length (u_mjHands u)) (u_mjHands u) = (ok, hs)" by force
  have "u' = u\<lparr>u_mjHands := hs\<rparr>" "r = Inr ok"
    using assms(1) l by (auto simp: removeMj_def seq_def get_st_def modify_def ret_def)
  with remove_loop_spec [OF l] assms(2) show ?thesis by auto
qed

end
