(* ===== verification/GameRoom.thy ===== *)
theory GameRoom
  imports GameUser CoreConfig
begin

text \<open>
  \<open>examples/game/route/room.go\<close>: a mahjong table. The room is a record that holds its players in the
  order of the slice \<open>Users\<close>; a player is known by the index in it, as the source compares pointers.
  Messages to players are recorded in \<open>r_out\<close> with the gate they go to. The shuffle and the dice are
  arguments.
\<close>

subsection \<open>Messages\<close>

record MjOpt =
  mo_uid :: u32
  mo_roomId :: u32
  mo_op :: i32
  mo_mj :: i32
  mo_canOpFlag :: i32
  mo_canOps :: "CanOp list"

definition zero_MjOpt :: MjOpt where
  "zero_MjOpt = \<lparr>mo_uid = 0, mo_roomId = 0, mo_op = 0, mo_mj = 0, mo_canOpFlag = 0, mo_canOps = []\<rparr>"

record DeskMj =
  d_Index :: i32
  d_Uid :: u32
  d_MjVal :: i32

record MjFaPai =
  fp_Fapai :: "DeskMj list"
  fp_Zhuang :: u32
  fp_Touzi :: "i32 list"
  fp_Pizi :: DeskMj
  fp_Laizi :: i32
  fp_CanOpFlag :: i32
  fp_CanOps :: "CanOp list"

record PlayerInfo =
  pi_Uid :: u32
  pi_Hands :: "u8 list"
  pi_Dachu :: "u8 list"
  pi_Cpgs :: "u8 list list"
  pi_CanOps :: "CanOp list"

record DeskSnapshot =
  ds_RoomId :: u32
  ds_Pizi :: i32
  ds_Touzi :: "i32 list"
  ds_Zhuang :: u32
  ds_Laizi :: i32
  ds_MjIndex :: "u8 list"
  ds_Info :: "PlayerInfo list"
  ds_Playing :: bool
  ds_LastUser :: u32
  ds_LastOp :: i32
  ds_LastOpMj :: i32

record GameOverUser =
  gu_Uid :: u32
  gu_Win :: int
  gu_Hands :: "i32 list"
  gu_HuType :: i32
  gu_DianPao :: bool

record StartGameRsp =
  sg_RoomId :: u32
  sg_Multi :: i32
  sg_Users :: "(u32 \<times> i32) list"

datatype out_msg =
    Out_FaPai MjFaPai | Out_Opt MjOpt | Out_Over "GameOverUser list" | Out_Snapshot DeskSnapshot
  | Out_Start StartGameRsp

record sent =
  s_svid :: u16
  s_uid :: u32
  s_cmd :: u16
  s_msg :: out_msg

subsection \<open>The room\<close>

record Room =
  r_master :: u32
  r_roomId :: u32
  r_BookUids :: "u32 list"
  r_Users :: "User list"
  r_turn :: nat
  r_mj :: "u8 list"
  r_usedMjIndex :: "u8 list"
  r_mjIndex :: u8
  r_touZi :: "i32 list"
  r_piZi :: u8
  r_laiZi :: u8
  r_zhuang :: i32
  r_waitMulti :: bool
  r_history :: "MjOp list"
  r_playing :: bool
  r_huangZhuang :: int
  r_endTime :: int
  r_out :: "sent list"

definition NewRoom :: "u32 \<Rightarrow> Room" where
  "NewRoom rid = \<lparr>r_master = 0, r_roomId = rid, r_BookUids = [], r_Users = [], r_turn = 0, r_mj = BanBiShanMJ, r_usedMjIndex = [], r_mjIndex = 0,
     r_touZi = [0, 0], r_piZi = 0, r_laiZi = 0, r_zhuang = 0, r_waitMulti = False, r_history = [], r_playing = False,
     r_huangZhuang = 10, r_endTime = 0, r_out = []\<rparr>"

text \<open>The index of the first player with this uid.\<close>

definition GetUserByUID :: "u32 \<Rightarrow> Room \<Rightarrow> nat option" where
  "GetUserByUID uid r =
     (let k = length (takeWhile (\<lambda>u. u_uid u \<noteq> uid) (r_Users r))
      in if k < length (r_Users r) then Some k else None)"

definition AddUser :: "u32 \<Rightarrow> u16 \<Rightarrow> Room \<Rightarrow> Room" where
  "AddUser uid gateId r =
     r\<lparr>r_Users := r_Users r @ [zero_User\<lparr>u_uid := uid, u_gateId := gateId, u_seat := length (r_Users r)\<rparr>]\<rparr>"

text \<open>The player changes places with the last one; the slice keeps its length.\<close>

definition DelUser :: "u32 \<Rightarrow> Room \<Rightarrow> Room" where
  "DelUser uid r =
     (case GetUserByUID uid r of
        None \<Rightarrow> r
      | Some i \<Rightarrow> r\<lparr>r_Users := swap (r_Users r) i (length (r_Users r) - 1)\<rparr>)"

definition Full :: "Room \<Rightarrow> bool" where
  "Full r \<longleftrightarrow> length (r_Users r) = 4"

definition GetUser :: "nat \<Rightarrow> Room \<Rightarrow> panic + User" where
  "GetUser seat r =
     (if length (r_Users r) = 0 then Inl DivideByZero else index (r_Users r) (seat mod length (r_Users r)))"

definition user_at :: "nat \<Rightarrow> (Room, User) act" where
  "user_at i = seq get_st (\<lambda>r. lift (index (r_Users r) i))"

text \<open>An operation of one player.\<close>

definition on_user :: "nat \<Rightarrow> (User, 'a) act \<Rightarrow> (Room, 'a) act" where
  "on_user i m =
     (\<lambda>r. if i < length (r_Users r) then
            (case m (r_Users r ! i) of (x, u) \<Rightarrow> (x, r\<lparr>r_Users := (r_Users r)[i := u]\<rparr>))
          else (Inl IndexOutOfRange, r))"

definition Send :: "User \<Rightarrow> u16 \<Rightarrow> out_msg \<Rightarrow> (Room, unit) act" where
  "Send u cmd data =
     modify (\<lambda>r. r\<lparr>r_out := r_out r @
       [\<lparr>s_svid = Svid 3 (ucast (u_gateId u)), s_uid = u_uid u, s_cmd = cmd, s_msg = data\<rparr>]\<rparr>)"

definition SendAll :: "u16 \<Rightarrow> out_msg \<Rightarrow> (Room, unit) act" where
  "SendAll cmd data = seq get_st (\<lambda>r. for_each (\<lambda>u. Send u cmd data) (r_Users r))"

definition SendOther :: "u32 \<Rightarrow> u16 \<Rightarrow> out_msg \<Rightarrow> (Room, unit) act" where
  "SendOther uid cmd data =
     seq get_st (\<lambda>r. for_each (\<lambda>u. if u_uid u \<noteq> uid then Send u cmd data else ret ()) (r_Users r))"

text \<open>There must be a uid for every player already there.\<close>

fun set_players :: "User list \<Rightarrow> u32 list \<Rightarrow> panic + User list" where
  "set_players [] uids = Inr []"
| "set_players (u # us) [] = Inl IndexOutOfRange"
| "set_players (u # us) (uid # uids) =
     bindE (set_players us uids) (\<lambda>vs. Inr (User_Reset (u\<lparr>u_uid := uid\<rparr>) # vs))"

definition SetPlayers :: "u32 list \<Rightarrow> Room \<Rightarrow> panic + Room" where
  "SetPlayers uids r = bindE (set_players (r_Users r) uids) (\<lambda>us. Inr (r\<lparr>r_Users := us\<rparr>))"

text \<open>
  \<open>rand.Shuffle\<close> swaps cell \<open>i\<close> with a random one of the cells up to it, for \<open>i\<close> from the last cell
  down to 1.
\<close>

record Rand =
  rn_cell :: "nat \<Rightarrow> nat"
  rn_dice1 :: nat
  rn_dice2 :: nat

fun shuffle :: "(nat \<Rightarrow> nat) \<Rightarrow> nat \<Rightarrow> 'a list \<Rightarrow> 'a list" where
  "shuffle f 0 xs = xs"
| "shuffle f (Suc i) xs = shuffle f i (swap xs (Suc i) (f (Suc i) mod (i + 2)))"

definition Room_Reset :: "Rand \<Rightarrow> Room \<Rightarrow> Room" where
  "Room_Reset rn r =
     r\<lparr>r_Users := map User_Reset (r_Users r),
       r_mj := shuffle (rn_cell rn) (length (r_mj r) - 1) (r_mj r),
       r_touZi := [of_nat (rn_dice1 rn mod 6) + 1, of_nat (rn_dice2 rn mod 6) + 1],
       r_mjIndex := 0, r_usedMjIndex := [], r_history := [], r_playing := True, r_waitMulti := False\<rparr>"

definition GetConn :: "u32 \<Rightarrow> Room \<Rightarrow> nat option" where
  "GetConn uid r = GetUserByUID uid r"

definition Room_Offline :: "u32 \<Rightarrow> Room \<Rightarrow> Room" where
  "Room_Offline uid r =
     (case GetConn uid r of
        None \<Rightarrow> r
      | Some i \<Rightarrow> r\<lparr>r_Users := (r_Users r)[i := (r_Users r ! i)\<lparr>u_offline := True\<rparr>]\<rparr>)"

definition ops_at :: "nat \<Rightarrow> (Room, CanOp list) act" where
  "ops_at i = seq (user_at i) (\<lambda>u. lift (CanOps u))"

text \<open>The snapshot for one player: the hands of the others are as many zeros.\<close>

definition player_info :: "u32 \<Rightarrow> User \<Rightarrow> panic + PlayerInfo" where
  "player_info uid u =
     (let pi = \<lparr>pi_Uid = u_uid u, pi_Hands = replicate (length (u_mjHands u)) 0, pi_Dachu = u_mjHistory u,
                pi_Cpgs = map ToBytes (u_mjGroup u), pi_CanOps = []\<rparr>
      in if u_uid u = uid then bindE (CanOps u) (\<lambda>ops. Inr (pi\<lparr>pi_Hands := u_mjHands u, pi_CanOps := ops\<rparr>))
         else Inr pi)"

definition Room_Reconnect :: "u32 \<Rightarrow> u16 \<Rightarrow> (Room, unit) act" where
  "Room_Reconnect uid gateId =
     seq get_st (\<lambda>r.
     if r_history r = [] then throw IndexOutOfRange
     else
       seq (lift (mapE (player_info uid) (r_Users r))) (\<lambda>infos.
       let h = last (r_history r);
           req = \<lparr>ds_RoomId = r_roomId r, ds_Pizi = ucast (r_piZi r), ds_Touzi = r_touZi r, ds_Zhuang = uid,
                  ds_Laizi = ucast (r_laiZi r), ds_MjIndex = r_usedMjIndex r, ds_Info = infos,
                  ds_Playing = r_playing r, ds_LastUser = mo_Uid h, ds_LastOp = mo_Op h, ds_LastOpMj = mo_Mj h\<rparr>
       in case GetUserByUID uid r of
            None \<Rightarrow> ret ()
          | Some i \<Rightarrow>
              seq (on_user i (modify (\<lambda>u. u\<lparr>u_gateId := gateId, u_offline := False\<rparr>))) (\<lambda>_.
              seq (user_at i) (\<lambda>u. Send u 3006 (Out_Snapshot req)))))"

subsection \<open>Dealing\<close>

definition Room_FaPai :: "nat \<Rightarrow> (Room, u8 \<times> u8) act" where
  "Room_FaPai i =
     seq get_st (\<lambda>r.
     seq (lift (index (r_mj r) (unat (r_mjIndex r)))) (\<lambda>val.
     seq (modify (\<lambda>r. r\<lparr>r_usedMjIndex := r_usedMjIndex r @ [r_mjIndex r], r_mjIndex := r_mjIndex r + 1\<rparr>)) (\<lambda>_.
     seq (on_user i (modify (MoMj val))) (\<lambda>_. ret (r_mjIndex r, val)))))"

text \<open>Three rounds of four tiles for each of four players, one more each, and one for the first.\<close>

definition deal_order :: "nat list" where
  "deal_order = concat (map (\<lambda>t. concat (map (\<lambda>i. map (\<lambda>j. i) [0..<4]) [0..<4])) [0..<3 :: nat]) @ [0..<5]"

fun deal :: "nat list \<Rightarrow> (Room, DeskMj list) act" where
  "deal [] = ret []"
| "deal (i # is) =
     seq get_st (\<lambda>r.
     let k = (r_turn r + i) mod 4 in
     seq (user_at k) (\<lambda>u.
     seq (Room_FaPai k) (\<lambda>(idx, val).
     seq (deal is) (\<lambda>ds. ret (\<lparr>d_Index = ucast idx, d_Uid = u_uid u, d_MjVal = ucast val\<rparr> # ds)))))"

text \<open>What a player sees of the deal, and the message to one player.\<close>

definition hide :: "u32 \<Rightarrow> DeskMj list \<Rightarrow> DeskMj list" where
  "hide uid fapai = map (\<lambda>d. if d_Uid d = uid then d else d\<lparr>d_MjVal := 0\<rparr>) fapai"

definition send_hand :: "DeskMj list \<Rightarrow> u32 \<Rightarrow> DeskMj \<Rightarrow> nat \<Rightarrow> (Room, unit) act" where
  "send_hand fapai zhuang pizi i =
     seq get_st (\<lambda>r.
     seq (user_at i) (\<lambda>u.
     let data = \<lparr>fp_Fapai = hide (u_uid u) fapai, fp_Zhuang = zhuang, fp_Touzi = r_touZi r, fp_Pizi = pizi,
                 fp_Laizi = ucast (r_laiZi r), fp_CanOpFlag = 0, fp_CanOps = []\<rparr>
     in if zhuang = u_uid u then
          seq (on_user i (CanOpSelf (r_laiZi r))) (\<lambda>fl.
          seq (ops_at i) (\<lambda>ops. Send u 3008 (Out_FaPai (data\<lparr>fp_CanOpFlag := fl, fp_CanOps := ops\<rparr>))))
        else Send u 3008 (Out_FaPai data)))"

definition MajFaPai :: "Rand \<Rightarrow> (Room, unit) act" where
  "MajFaPai rn =
     seq (modify (Room_Reset rn)) (\<lambda>_.
     seq (deal deal_order) (\<lambda>fapai.
     seq get_st (\<lambda>r.
     let col = (if slt (r_touZi r ! 0) (r_touZi r ! 1) then r_touZi r ! 0 else r_touZi r ! 1);
         piziIndex = (9 * 3 + 8) * 2 - col * 2
     in seq (lift (index (r_mj r) (unat piziIndex))) (\<lambda>pizi.
        seq (modify (\<lambda>r. r\<lparr>r_piZi := pizi, r_laiZi := GetLaizi pizi\<rparr>)) (\<lambda>_.
        seq (user_at (r_turn r)) (\<lambda>zhuang.
        seq (modify (\<lambda>r. r\<lparr>r_waitMulti := False\<rparr>)) (\<lambda>_.
        for_each (send_hand fapai (u_uid zhuang) \<lparr>d_Index = piziIndex, d_Uid = 0, d_MjVal = ucast pizi\<rparr>)
          [0..<length (r_Users r)])))))))"

definition Room_MoPai :: "(Room, u8) act" where
  "Room_MoPai =
     seq get_st (\<lambda>r.
     seq (lift (index (r_mj r) (unat (r_mjIndex r)))) (\<lambda>pai.
     seq (modify (\<lambda>r. r\<lparr>r_mjIndex := r_mjIndex r + 1\<rparr>)) (\<lambda>_. ret pai)))"

subsection \<open>Waiting\<close>

definition Waiting :: "Room \<Rightarrow> bool" where
  "Waiting r \<longleftrightarrow> list_ex u_waiting (r_Users r)"

definition getDistance :: "Room \<Rightarrow> nat \<Rightarrow> int" where
  "getDistance r idx = (let dis = int idx - int (r_turn r) in if dis < 0 then dis + 4 else dis)"

text \<open>Among the players with the highest answer the one nearest to the turn, but only while \<open>waitMulti\<close> is set.\<close>

definition getOpUser :: "Room \<Rightarrow> nat \<Rightarrow> nat" where
  "getOpUser r user =
     (if r_waitMulti r then
        (let maxOp = foldl (\<lambda>m u. if u_waitOp u \<ge> m then u_waitOp u else m) 0 (r_Users r)
         in snd (foldl (\<lambda>(distance, user) (i, u).
              if u_waitOp u = maxOp \<and> getDistance r i < distance then (getDistance r i, i) else (distance, user))
            (4, user) (enumerate 0 (r_Users r))))
      else user)"

text \<open>
  The loops of \<open>SkipWaiting\<close>, which nothing calls: the seats are visited from the turn on until the
  player's own, which may never come; \<open>op\<close> runs up to the win.
\<close>

partial_function (option) skip_seats :: "Room \<Rightarrow> User \<Rightarrow> u8 \<Rightarrow> nat \<Rightarrow> (panic + bool) option" where
  "skip_seats r u op seat =
     (if seat = u_seat u then Some (Inr True)
      else case GetUser seat r of
        Inl p \<Rightarrow> Some (Inl p)
      | Inr user \<Rightarrow>
          if HasOp (u_canOpsFlag user) op then Some (Inr False)
          else skip_seats r u op ((seat + 1) mod 4))"

fun SkipWaiting_from :: "nat \<Rightarrow> Room \<Rightarrow> User \<Rightarrow> u8 \<Rightarrow> (panic + bool) option" where
  "SkipWaiting_from 0 r u op = Some (Inr True)"
| "SkipWaiting_from (Suc k) r u op =
     (case skip_seats r u op (r_turn r + 1) of
        None \<Rightarrow> None
      | Some (Inl p) \<Rightarrow> Some (Inl p)
      | Some (Inr ok) \<Rightarrow> if ok then SkipWaiting_from k r u (op + 1) else Some (Inr False))"

definition SkipWaiting :: "Room \<Rightarrow> User \<Rightarrow> (panic + bool) option" where
  "SkipWaiting r u =
     (let op = u_waitOp u + 1 in SkipWaiting_from (if op \<le> HuPaiOp then unat (HuPaiOp - op) + 1 else 0) r u op)"

definition getLatestOp :: "i32 \<Rightarrow> Room \<Rightarrow> MjOp option" where
  "getLatestOp op r = find (\<lambda>h. slt 0 (op AND mo_Op h)) (rev (r_history r))"

subsection \<open>The end of a game\<close>

definition over_user :: "User \<Rightarrow> int \<Rightarrow> i32 \<Rightarrow> bool \<Rightarrow> GameOverUser" where
  "over_user u win ht pao = \<lparr>gu_Uid = u_uid u, gu_Win = win, gu_Hands = Mj u, gu_HuType = ht, gu_DianPao = pao\<rparr>"

definition lose :: "i32 \<Rightarrow> User \<Rightarrow> int" where
  "lose hs u = sint hs * sint (FanShu u)"

text \<open>What the others lose, and what the winner \<open>hu\<close> wins of it.\<close>

definition settlement :: "nat \<Rightarrow> i32 \<Rightarrow> i32 \<Rightarrow> User list \<Rightarrow> User \<Rightarrow> GameOverUser list" where
  "settlement hu ht hs us w =
     (let losers = filter (\<lambda>(i, u). i \<noteq> hu) (enumerate 0 us)
      in map (\<lambda>(i, u). over_user u (- lose hs u) ht True) losers @
         [over_user w (sum_list (map (\<lambda>(i, u). lose hs u) losers)) ht False])"

definition huPai :: "nat \<Rightarrow> (Room, unit) act" where
  "huPai hu =
     seq (user_at hu) (\<lambda>w.
     seq get_st (\<lambda>r.
     seq (lift (User_HuPai 0 (r_laiZi r) w)) (\<lambda>(ht, hs).
     seq (if HuStr ht hs \<noteq> [] then seq (lift (GroupString w)) (\<lambda>_. ret ()) else ret ()) (\<lambda>_.
     seq (modify (\<lambda>r. r\<lparr>r_playing := False, r_Users := map (\<lambda>u. u\<lparr>u_prepare := False\<rparr>) (r_Users r)\<rparr>)) (\<lambda>_.
     SendAll 3005 (Out_Over (settlement hu ht hs (r_Users r) w)))))))"

definition canHDL :: "Room \<Rightarrow> bool" where
  "canHDL r \<longleftrightarrow> r_huangZhuang r + int (unat (r_mjIndex r)) \<ge> int (length (r_mj r))"

text \<open>
  The last tiles: each of four players draws one and is told what it can do; the first who is offered
  anything (there is no discard now) is taken for the winner.
\<close>

fun last_draws :: "nat list \<Rightarrow> nat option \<Rightarrow> (Room, nat option) act" where
  "last_draws [] hu = ret hu"
| "last_draws (i # is) hu =
     seq get_st (\<lambda>r.
     let k = (r_turn r + i) mod 4 in
     seq (user_at k) (\<lambda>u.
     seq Room_MoPai (\<lambda>moPai.
     seq (on_user k (modify (Haidilao moPai))) (\<lambda>_.
     seq (on_user k (CanOpSelf (r_laiZi r))) (\<lambda>fl.
     seq (ops_at k) (\<lambda>ops.
     seq (Send u 3002 (Out_Opt (zero_MjOpt\<lparr>mo_op := MoPai, mo_uid := u_uid u, mo_mj := ucast moPai,
            mo_canOpFlag := fl, mo_canOps := ops\<rparr>))) (\<lambda>_.
     last_draws is (if hu = None \<and> slt 0 fl then Some k else hu))))))))"

definition doHDL :: "(Room, unit) act" where
  "doHDL =
     seq (modify (\<lambda>r. r\<lparr>r_turn := (r_turn r + 1) mod length (r_Users r), r_waitMulti := True\<rparr>)) (\<lambda>_.
     seq (last_draws [0..<4] None) (\<lambda>hu.
     case hu of
       Some k \<Rightarrow> huPai k
     | None \<Rightarrow>
         seq get_st (\<lambda>r.
         seq (modify (\<lambda>r. r\<lparr>r_Users := map (\<lambda>u. u\<lparr>u_prepare := False\<rparr>) (r_Users r)\<rparr>)) (\<lambda>_.
         SendAll 3005 (Out_Over (map (\<lambda>u. over_user u 0 0 False) (r_Users r)))))))"

subsection \<open>Operations\<close>

text \<open>
  Telling everybody about operation \<open>op\<close> of the player \<open>uid\<close>: the player whose turn it is gets the
  tile \<open>own\<close> and what it can do next, the others the tile \<open>others\<close>.
\<close>

definition tell_one :: "i32 \<Rightarrow> u32 \<Rightarrow> i32 \<Rightarrow> i32 \<Rightarrow> nat \<Rightarrow> nat \<Rightarrow> (Room, unit) act" where
  "tell_one op uid own others t i =
     seq (user_at i) (\<lambda>u.
     let nextOpt = zero_MjOpt\<lparr>mo_op := op, mo_uid := uid, mo_mj := others\<rparr>
     in if i = t then
          seq get_st (\<lambda>r.
          seq (on_user i (CanOpSelf (r_laiZi r))) (\<lambda>fl.
          seq (ops_at i) (\<lambda>ops.
          Send u 3002 (Out_Opt (nextOpt\<lparr>mo_mj := own, mo_canOpFlag := fl, mo_canOps := ops\<rparr>)))))
        else Send u 3002 (Out_Opt nextOpt))"

definition tell_turn :: "i32 \<Rightarrow> u32 \<Rightarrow> i32 \<Rightarrow> i32 \<Rightarrow> (Room, unit) act" where
  "tell_turn op uid own others =
     seq get_st (\<lambda>r. for_each (tell_one op uid own others (r_turn r)) [0..<length (r_Users r)])"

text \<open>The player whose turn it is draws; \<open>who\<close> overrides the uid that is told.\<close>

definition draw_turn :: "u32 option \<Rightarrow> (Room, unit) act" where
  "draw_turn who =
     seq get_st (\<lambda>r.
     seq (user_at (r_turn r)) (\<lambda>u.
     seq (Room_FaPai (r_turn r)) (\<lambda>(_, moPai).
     seq (modify (\<lambda>r. r\<lparr>r_waitMulti := False\<rparr>)) (\<lambda>_.
     tell_turn MoPai (case who of None \<Rightarrow> u_uid u | Some uid \<Rightarrow> uid) (ucast moPai) 0))))"

definition MjOpOther :: "nat \<Rightarrow> MjOpt \<Rightarrow> (Room, unit) act" where
  "MjOpOther cur opt =
     seq get_st (\<lambda>r.
     let final = getOpUser r cur in
     seq (user_at final) (\<lambda>f.
     let finalOp = (ucast (u_waitOp f) :: i32) in
     seq (on_user final (DealMj (ucast finalOp) (ucast (mo_mj opt)))) (\<lambda>ok.
     if \<not> ok then ret ()
     else if finalOp = GuoPai then
       seq get_st (\<lambda>r.
       if canHDL r then doHDL
       else
         seq (modify (\<lambda>r. r\<lparr>r_turn := (r_turn r + 1) mod length (r_Users r)\<rparr>)) (\<lambda>_. draw_turn None))
     else if finalOp = MGang then
       seq (SendAll 3002 (Out_Opt opt)) (\<lambda>_.
       seq (modify (\<lambda>r. r\<lparr>r_turn := u_seat f\<rparr>)) (\<lambda>_. draw_turn (Some (u_uid f))))
     else if finalOp = Peng \<or> finalOp = LChi \<or> finalOp = MChi \<or> finalOp = RChi then
       seq (modify (\<lambda>r. r\<lparr>r_turn := u_seat f\<rparr>)) (\<lambda>_.
       seq (user_at (u_seat f)) (\<lambda>_.
       seq (modify (\<lambda>r. r\<lparr>r_waitMulti := False\<rparr>)) (\<lambda>_.
       tell_turn finalOp (u_uid f) (mo_mj opt) (mo_mj opt))))
     else if finalOp = HuPaiOp then huPai final
     else ret ())))"

text \<open>A discard or an added kong is shown to everybody; the answer says whether nobody can claim it.\<close>

fun ask_others :: "u32 \<Rightarrow> MjOpt \<Rightarrow> nat list \<Rightarrow> bool \<Rightarrow> (Room, bool) act" where
  "ask_others uid opt [] noCanOp = ret noCanOp"
| "ask_others uid opt (i # is) noCanOp =
     seq (user_at i) (\<lambda>u.
     if u_uid u \<noteq> uid then
       seq get_st (\<lambda>r.
       seq (on_user i (CanOpOther (ucast (mo_mj opt)) (ucast (mo_op opt)) (r_laiZi r))) (\<lambda>fl.
       seq (ops_at i) (\<lambda>ops.
       seq (if slt 0 fl then modify (\<lambda>r. r\<lparr>r_waitMulti := True\<rparr>) else ret ()) (\<lambda>_.
       seq (Send u 3002 (Out_Opt (opt\<lparr>mo_canOpFlag := fl, mo_canOps := ops\<rparr>))) (\<lambda>_.
       ask_others uid opt is (if slt 0 fl then False else noCanOp))))))
     else
       seq (Send u 3002 (Out_Opt (opt\<lparr>mo_canOpFlag := 0, mo_canOps := []\<rparr>))) (\<lambda>_.
       ask_others uid opt is noCanOp))"

definition MjOpSelf :: "u32 \<Rightarrow> nat \<Rightarrow> MjOpt \<Rightarrow> (Room, unit) act" where
  "MjOpSelf uid cur opt =
     seq (on_user cur (DealMj (ucast (mo_op opt)) (ucast (mo_mj opt)))) (\<lambda>ok.
     if \<not> ok then ret ()
     else if mo_op opt = ChuPai \<or> mo_op opt = BGang then
       seq get_st (\<lambda>r.
       seq (ask_others uid opt [0..<length (r_Users r)] True) (\<lambda>noCanOp.
       if \<not> noCanOp then ret ()
       else if mo_op opt = ChuPai then
         seq (modify (\<lambda>r. r\<lparr>r_turn := (r_turn r + 1) mod length (r_Users r)\<rparr>)) (\<lambda>_.
         seq get_st (\<lambda>r. if canHDL r then doHDL else draw_turn None))
       else draw_turn None))
     else if mo_op opt = AGang then
       seq (SendAll 3002 (Out_Opt opt)) (\<lambda>_. draw_turn None)
     else if mo_op opt = HuPaiOp then seq get_st (\<lambda>r. huPai (r_turn r))
     else ret ())"

definition Room_MjOp :: "u32 \<Rightarrow> MjOpt \<Rightarrow> (Room, unit) act" where
  "Room_MjOp uid opt =
     seq get_st (\<lambda>r.
     case GetUserByUID uid r of
       None \<Rightarrow> ret ()
     | Some cur \<Rightarrow>
         seq (user_at cur) (\<lambda>u.
         if \<not> u_waiting u then ret ()
         else if \<not> IsCanOp u (mo_op opt) then ret ()
         else
           seq (modify (\<lambda>r. r\<lparr>r_history := r_history r @
                  [\<lparr>mo_Uid = mo_uid opt, mo_Op = mo_op opt, mo_Mj = mo_mj opt\<rparr>]\<rparr>)) (\<lambda>_.
           seq (on_user cur (modify (\<lambda>u. u\<lparr>u_waitOp := ucast (mo_op opt), u_waiting := False\<rparr>))) (\<lambda>_.
           seq get_st (\<lambda>r.
           if Waiting r then ret ()
           else if \<not> r_waitMulti r then MjOpSelf uid cur opt
           else seq (modify (\<lambda>r. r\<lparr>r_waitMulti := False\<rparr>)) (\<lambda>_. MjOpOther cur opt))))))"

subsection \<open>Messages to everybody\<close>

definition mail :: "u16 \<Rightarrow> out_msg \<Rightarrow> User \<Rightarrow> sent" where
  "mail cmd data u = \<lparr>s_svid = Svid 3 (ucast (u_gateId u)), s_uid = u_uid u, s_cmd = cmd, s_msg = data\<rparr>"

lemma Send_eq: "Send u cmd data = modify (\<lambda>r. r\<lparr>r_out := r_out r @ [mail cmd data u]\<rparr>)"
  by (simp add: Send_def mail_def)

lemma SendAll_eq: "SendAll cmd data r = (Inr (), r\<lparr>r_out := r_out r @ map (mail cmd data) (r_Users r)\<rparr>)"
proof -
  have "for_each (\<lambda>u. Send u cmd data) us r = (Inr (), r\<lparr>r_out := r_out r @ map (mail cmd data) us\<rparr>)" for us r
    by (induction us arbitrary: r) (simp_all add: run_simps Send_eq)
  then show ?thesis by (simp add: SendAll_def run_simps)
qed

subsection \<open>Waiting for a turn\<close>

text \<open>The unused loop over the seats returns for a player who sits at one of them.\<close>

lemma skip_seats_within:
  "\<lbrakk>(seat + k) mod 4 = u_seat u; seat < 4\<rbrakk> \<Longrightarrow> \<exists>x. skip_seats r u op seat = Some x"
proof (induction k arbitrary: seat)
  case (Suc k)
  have "\<exists>x. skip_seats r u op ((seat + 1) mod 4) = Some x"
    using Suc.prems by (intro Suc.IH) (simp_all add: mod_simps)
  then show ?case by (subst skip_seats.simps) (auto split: sum.split)
qed (simp add: skip_seats.simps)

lemma skip_seats_returns:
  assumes "u_seat u < 4"
  shows "\<exists>x. skip_seats r u op seat = Some x"
proof -
  have "\<exists>x. skip_seats r u op s = Some x" if "s < 4" for s
    using that assms by (intro skip_seats_within [of s "(u_seat u + 4 - s) mod 4"]) (simp_all add: mod_simps)
  then have "\<exists>x. skip_seats r u op ((seat + 1) mod 4) = Some x" by simp
  then show ?thesis by (subst skip_seats.simps) (auto split: sum.split)
qed

text \<open>So \<open>SkipWaiting\<close> returns; with a player at no seat it may go round for ever.\<close>

lemma SkipWaiting_returns:
  assumes "u_seat u < 4"
  shows "\<exists>x. SkipWaiting r u = Some x"
proof -
  have "\<exists>x. SkipWaiting_from k r u op = Some x" for k op
  proof (induction k arbitrary: op)
    case (Suc k)
    then show ?case using skip_seats_returns [OF assms, of r op "r_turn r + 1"] by (auto split: sum.split)
  qed simp
  then show ?thesis by (simp add: SkipWaiting_def Let_def)
qed

end
