(* ===== verification/LocalBase.thy ===== *)
theory LocalBase
  imports CorePoll
begin

text \<open>
  \<open>local/base.go\<close> and \<open>local/input.go\<close>: what every server is built on. The poll pushes each message
  into a channel, one goroutine takes it out and calls the handler of its command, whose panics are
  caught; messages go out through the connections of the poll. The handlers of a server work on
  a state of its own, \<open>'s\<close>.
\<close>

subsection \<open>Routing\<close>

type_synonym input = "nat \<times> Message"

type_synonym 's handle = "input \<Rightarrow> ('s, unit) act"

record 's BaseLocal =
  b_queue :: "input list"
  b_route :: "u16 \<Rightarrow> 's handle option"

definition NewBase :: "'s BaseLocal" where
  "NewBase = \<lparr>b_queue = [], b_route = Map.empty\<rparr>"

definition NewInput :: "nat \<Rightarrow> Message \<Rightarrow> input" where
  "NewInput conn msg = (conn, msg)"

text \<open>The channel holds 20 messages; pushing another one blocks the poll.\<close>

definition Base_Push :: "nat \<Rightarrow> Message \<Rightarrow> 's BaseLocal \<Rightarrow> 's BaseLocal option" where
  "Base_Push conn msg l =
     (if length (b_queue l) < 20 then Some (l\<lparr>b_queue := b_queue l @ [NewInput conn msg]\<rparr>) else None)"

definition AddRoute :: "u16 \<Rightarrow> 's handle \<Rightarrow> 's BaseLocal \<Rightarrow> 's BaseLocal" where
  "AddRoute cmd h l = l\<lparr>b_route := (b_route l)(cmd \<mapsto> h)\<rparr>"

text \<open>A panic of the handler is caught: the state stays as the panic left it.\<close>

definition CatchEx :: "('s, unit) act \<Rightarrow> 's \<Rightarrow> 's" where
  "CatchEx m s = snd (m s)"

definition Route :: "(u16 \<Rightarrow> 's handle option) \<Rightarrow> input \<Rightarrow> 's \<Rightarrow> 's" where
  "Route m_route inp s =
     (case m_route (m_Cmd (snd inp)) of None \<Rightarrow> s | Some handle \<Rightarrow> CatchEx (handle inp) s)"

text \<open>The goroutine: one message after the other.\<close>

fun Base_Start :: "(u16 \<Rightarrow> 's handle option) \<Rightarrow> input list \<Rightarrow> 's \<Rightarrow> 's" where
  "Base_Start m_route [] s = s"
| "Base_Start m_route (inp # inps) s = Base_Start m_route inps (Route m_route inp s)"

text \<open>
  What a server relies on: if each of its handlers keeps an invariant, it holds after any messages,
  whatever they are and whichever handlers panic.
\<close>

locale server =
  fixes I :: "'s \<Rightarrow> bool" and m_route :: "u16 \<Rightarrow> 's handle option"
  assumes handler_keeps: "m_route cmd = Some h \<Longrightarrow> keeps I (h inp)"
begin

lemma Route_keeps: "I s \<Longrightarrow> I (Route m_route inp s)"
  by (auto simp: Route_def CatchEx_def split: option.split intro: keepsD handler_keeps)

lemma serves: "I s \<Longrightarrow> I (Base_Start m_route inps s)"
  by (induction inps arbitrary: s) (auto intro: Route_keeps)

lemma serves_invs: "I s \<Longrightarrow> (\<And>t. I t \<Longrightarrow> P t) \<Longrightarrow> P (Base_Start m_route inps s)"
  using serves by blast

end

subsection \<open>Sending\<close>

text \<open>
  The surroundings of one call: the time, the addresses in the server registry, dialling, and for every
  connection whether its deadline can be set and its socket takes the bytes.
\<close>

record Sys =
  y_now :: int
  y_reg :: "u16 \<Rightarrow> string"
  y_dial :: "u8 list \<Rightarrow> int \<Rightarrow> int option"
  y_ctl :: bool
  y_dl :: "nat \<Rightarrow> bool"
  y_wr :: "nat \<Rightarrow> u8 list \<Rightarrow> bool"

datatype send_error = ErrGate u16 | ErrMarshal u16 | ErrNoServer u16 | ErrNet net_error

definition sys_server :: "Sys \<Rightarrow> u16 \<Rightarrow> (Net, nat option) act" where
  "sys_server y svid = GetServer (y_reg y) (y_dial y) (y_ctl y) (y_now y) svid"

definition sys_write :: "Sys \<Rightarrow> u16 \<Rightarrow> u8 list option option \<Rightarrow> nat \<Rightarrow> (Net, net_error option) act" where
  "sys_write y cmd pro c = Conn_WriteBy (y_dl y c) (y_wr y c) (y_now y) cmd pro c"

text \<open>\<open>req\<close> is the marshalled request: \<open>None\<close> for nil, \<open>Some None\<close> when it does not marshal.\<close>

definition Base_Send :: "Sys \<Rightarrow> u16 \<Rightarrow> u16 \<Rightarrow> u8 list option option \<Rightarrow> (Net, send_error option) act" where
  "Base_Send y svid cmd req =
     (if svid div 100 = 3 then ret (Some (ErrGate svid))
      else
        seq (sys_server y svid) (\<lambda>conn.
        case conn of
          None \<Rightarrow> ret (Some (ErrNoServer svid))
        | Some c \<Rightarrow> seq (sys_write y cmd req c) (\<lambda>e. ret (map_option ErrNet e))))"

text \<open>
  \<open>pack_out\<close> marshals a \<open>PacketOut\<close> with its uids, command and payload; marshalling a nil request gives
  no bytes.
\<close>

definition SendTo :: "(u32 list \<Rightarrow> u32 \<Rightarrow> u8 list \<Rightarrow> u8 list option) \<Rightarrow> Sys \<Rightarrow> u16 \<Rightarrow> u32 \<Rightarrow> u16 \<Rightarrow>
    u8 list option option \<Rightarrow> (Net, send_error option) act" where
  "SendTo pack_out y svid uid cmd req =
     (if svid div 100 \<noteq> 3 then ret (Some (ErrGate svid))
      else case (case req of None \<Rightarrow> Some [] | Some r \<Rightarrow> r) of
        None \<Rightarrow> ret (Some (ErrMarshal svid))
      | Some bs \<Rightarrow>
          seq (sys_server y svid) (\<lambda>conn.
          case conn of
            None \<Rightarrow> ret (Some (ErrNoServer svid))
          | Some c \<Rightarrow>
              seq (sys_write y 1013 (Some (pack_out [uid] (ucast cmd) bs)) c) (\<lambda>e. ret (map_option ErrNet e))))"

text \<open>The synchronous call up to its wait, under a new channel \<open>ch\<close>; the wait is \<open>RpcWrite_end\<close>.\<close>

definition RpcCall :: "Sys \<Rightarrow> u16 \<Rightarrow> u16 \<Rightarrow> u8 list option option \<Rightarrow> nat \<Rightarrow> (Net, send_error + u16) act" where
  "RpcCall y svid cmd req ch =
     seq (sys_server y svid) (\<lambda>conn.
     case conn of
       None \<Rightarrow> ret (Inl (ErrNoServer svid))
     | Some c \<Rightarrow>
         seq (RpcWrite_start (y_dl y c) (y_wr y c) (y_now y) cmd req ch c) (\<lambda>r.
         ret (case r of Inl e \<Rightarrow> Inl (ErrNet e) | Inr sq \<Rightarrow> Inr sq)))"

definition RpcCallAsync :: "Sys \<Rightarrow> u16 \<Rightarrow> u16 \<Rightarrow> u8 list option option \<Rightarrow> nat \<Rightarrow> (Net, send_error option) act" where
  "RpcCallAsync y svid cmd req cb =
     seq (sys_server y svid) (\<lambda>conn.
     case conn of
       None \<Rightarrow> ret (Some (ErrNoServer svid))
     | Some c \<Rightarrow>
         seq (RpcWriteAsync (y_dl y c) (y_wr y c) (y_now y) cmd req cb c) (\<lambda>e. ret (map_option ErrNet e)))"

text \<open>
  The answer to a request on its own connection: the message comes back with its sequence number and
  a new payload. A payload that does not marshal is an error.
\<close>

definition Input_Rpc :: "Sys \<Rightarrow> input \<Rightarrow> u8 list option \<Rightarrow> (Net, send_error option) act" where
  "Input_Rpc y inp body =
     (case body of
        None \<Rightarrow> ret (Some (ErrMarshal 0))
      | Some bs \<Rightarrow>
          (let c = fst inp in
           seq (Conn_Write (y_dl y c) (y_wr y c) (y_now y) (Some ((snd inp)\<lparr>m_Payload := bs\<rparr>)) c) (\<lambda>e.
           ret (map_option ErrNet e))))"

end
