(* ===== verification/GameRoute.thy ===== *)
theory GameRoute
  imports GameRoom LocalBase
begin

text \<open>
  \<open>examples/game/route/route.go\<close>, \<open>timer.go\<close> and \<open>wait.go\<close>: the handlers of the game server over its
  tables, and the unused bookkeeping of who has answered. Rooms are references into a store, as both
  maps of the server point to the same rooms. A handler gets the request its message unpacked to, or
  nothing when it did not unpack. Replies on the connection are recorded in \<open>gl_out\<close>.
\<close>

datatype reply = Reply_Status u32 | Reply_Leave

record GameLocal =
  gl_store :: "nat \<Rightarrow> Room"
  gl_next :: nat
  gl_rooms :: "u32 \<Rightarrow> nat option"
  gl_users :: "u32 \<Rightarrow> nat option"
  gl_out :: "reply list"
  gl_rnd :: "nat \<Rightarrow> Rand"
  gl_rn :: nat

definition NewLocal :: "(nat \<Rightarrow> Rand) \<Rightarrow> GameLocal" where
  "NewLocal rnd = \<lparr>gl_store = (\<lambda>_. NewRoom 0), gl_next = 0, gl_rooms = Map.empty, gl_users = Map.empty, gl_out = [],
     gl_rnd = rnd, gl_rn = 0\<rparr>"

text \<open>An operation of one room.\<close>

definition on_room :: "nat \<Rightarrow> (Room, 'a) act \<Rightarrow> (GameLocal, 'a) act" where
  "on_room k m =
     (\<lambda>l. case m (gl_store l k) of (x, r) \<Rightarrow> (x, l\<lparr>gl_store := (gl_store l)(k := r)\<rparr>))"

text \<open>The next numbers of the random source.\<close>

definition next_rand :: "(GameLocal, Rand) act" where
  "next_rand = seq get_st (\<lambda>l. seq (modify (\<lambda>l. l\<lparr>gl_rn := gl_rn l + 1\<rparr>)) (\<lambda>_. ret (gl_rnd l (gl_rn l))))"

definition answer :: "reply \<Rightarrow> (GameLocal, unit) act" where
  "answer rsp = modify (\<lambda>l. l\<lparr>gl_out := gl_out l @ [rsp]\<rparr>)"

definition getGameStatus :: "u32 option \<Rightarrow> (GameLocal, unit) act" where
  "getGameStatus req =
     (case req of
        None \<Rightarrow> ret ()
      | Some uid \<Rightarrow>
          seq get_st (\<lambda>l.
          answer (Reply_Status
            (case gl_users l uid of
               None \<Rightarrow> 0
             | Some k \<Rightarrow> if r_playing (gl_store l k) then r_roomId (gl_store l k) else 0))))"

definition offline :: "u32 option \<Rightarrow> (GameLocal, unit) act" where
  "offline req =
     (case req of
        None \<Rightarrow> ret ()
      | Some uid \<Rightarrow>
          seq get_st (\<lambda>l.
          case gl_users l uid of
            None \<Rightarrow> ret ()
          | Some k \<Rightarrow> on_room k (modify (Room_Offline uid))))"

record RoomReq =
  rq_Uid :: u32
  rq_RoomId :: u32
  rq_GateId :: u32

definition reconnect :: "RoomReq option \<Rightarrow> (GameLocal, unit) act" where
  "reconnect req =
     (case req of
        None \<Rightarrow> ret ()
      | Some q \<Rightarrow>
          if rq_RoomId q > 0 then
            seq get_st (\<lambda>l.
            case gl_rooms l (rq_RoomId q) of
              None \<Rightarrow> ret ()
            | Some k \<Rightarrow> on_room k (Room_Reconnect (rq_Uid q) (ucast (rq_GateId q))))
          else ret ())"

text \<open>
  The users of a start are a Go map, visited three times in orders of its own: to seat them, to list
  the seats, and to send the answer.
\<close>

record StartReq =
  sr_RoomId :: u32
  sr_Multi :: i32
  sr_Users :: "(u32 \<times> u32) list"
  sr_Order2 :: "u32 list"
  sr_Order3 :: "u32 list"

definition find_room :: "u32 \<Rightarrow> (GameLocal, nat) act" where
  "find_room rid =
     seq get_st (\<lambda>l.
     case gl_rooms l rid of
       Some k \<Rightarrow> ret k
     | None \<Rightarrow>
         let k = gl_next l in
         seq (modify (\<lambda>l. l\<lparr>gl_store := (gl_store l)(k := NewRoom rid), gl_next := k + 1,
                gl_rooms := (gl_rooms l)(rid \<mapsto> k)\<rparr>)) (\<lambda>_. ret k))"

definition user_by_uid :: "u32 \<Rightarrow> (Room, User) act" where
  "user_by_uid uid =
     seq get_st (\<lambda>r. case GetUserByUID uid r of None \<Rightarrow> throw NilDereference | Some i \<Rightarrow> user_at i)"

definition startGame :: "StartReq option \<Rightarrow> (GameLocal, unit) act" where
  "startGame req =
     (case req of
        None \<Rightarrow> ret ()
      | Some q \<Rightarrow>
          seq next_rand (\<lambda>rn.
          seq (find_room (sr_RoomId q)) (\<lambda>k.
          seq (for_each (\<lambda>(uid, gateId).
                 seq (on_room k (modify (AddUser uid (ucast gateId)))) (\<lambda>_.
                 modify (\<lambda>l. l\<lparr>gl_users := (gl_users l)(uid \<mapsto> k)\<rparr>))) (sr_Users q)) (\<lambda>_.
          on_room k
            (seq get_st (\<lambda>r.
             seq (lift (mapE (\<lambda>uid. bindE (fst (user_by_uid uid r)) (\<lambda>u. Inr (uid, of_nat (u_seat u)))) (sr_Order2 q))) (\<lambda>seats.
             seq (for_each (\<lambda>uid.
                    seq (user_by_uid uid) (\<lambda>u.
                    Send u 3001 (Out_Start \<lparr>sg_RoomId = r_roomId r, sg_Multi = sr_Multi q, sg_Users = seats\<rparr>)))
                  (sr_Order3 q)) (\<lambda>_.
             MajFaPai rn))))))))"

definition leaveRoom :: "RoomReq option \<Rightarrow> (GameLocal, unit) act" where
  "leaveRoom req =
     (case req of
        None \<Rightarrow> ret ()
      | Some q \<Rightarrow>
          seq get_st (\<lambda>l.
          case gl_rooms l (rq_RoomId q) of
            None \<Rightarrow> ret ()
          | Some k \<Rightarrow>
              if r_playing (gl_store l k) then ret ()
              else
                seq (on_room k (modify (DelUser (rq_Uid q)))) (\<lambda>_.
                seq (modify (\<lambda>l. l\<lparr>gl_users := (gl_users l)(rq_Uid q := None)\<rparr>)) (\<lambda>_.
                answer Reply_Leave))))"

definition optGame :: "MjOpt option \<Rightarrow> (GameLocal, unit) act" where
  "optGame req =
     (case req of
        None \<Rightarrow> ret ()
      | Some q \<Rightarrow>
          seq get_st (\<lambda>l.
          case gl_rooms l (mo_roomId q) of
            None \<Rightarrow> ret ()
          | Some k \<Rightarrow> on_room k (Room_MjOp (mo_uid q) q)))"

text \<open>Both the handler and the deal reset the room: two shuffles.\<close>

definition continueGame :: "RoomReq option \<Rightarrow> (GameLocal, unit) act" where
  "continueGame req =
     (case req of
        None \<Rightarrow> ret ()
      | Some q \<Rightarrow>
          seq get_st (\<lambda>l.
          case gl_rooms l (rq_RoomId q) of
            None \<Rightarrow> ret ()
          | Some k \<Rightarrow>
              (case GetUserByUID (rq_Uid q) (gl_store l k) of
                 None \<Rightarrow> ret ()
               | Some i \<Rightarrow>
                   seq (on_room k (on_user i (modify (\<lambda>u. u\<lparr>u_prepare := True\<rparr>)))) (\<lambda>_.
                   seq get_st (\<lambda>l.
                   if \<not> list_all u_prepare (r_Users (gl_store l k)) then ret ()
                   else
                     seq next_rand (\<lambda>rn1. seq next_rand (\<lambda>rn2.
                     on_room k (seq (modify (Room_Reset rn1)) (\<lambda>_. MajFaPai rn2)))))))))"

text \<open>
  The routes. How a message unpacks is a parameter: the unmarshallers of the four kinds of request, which
  start from an empty request.
\<close>

record Unmarshal =
  um_uid :: "u8 list \<Rightarrow> u32 option"
  um_room :: "u8 list \<Rightarrow> RoomReq option"
  um_start :: "u8 list \<Rightarrow> StartReq option"
  um_opt :: "u8 list \<Rightarrow> MjOpt option"

definition game_init :: "Unmarshal \<Rightarrow> GameLocal BaseLocal" where
  "game_init um =
     (let room = (\<lambda>inp :: input. Unpack (um_room um) (snd inp) \<lparr>rq_Uid = 0, rq_RoomId = 0, rq_GateId = 0\<rparr>);
          uid = (\<lambda>inp :: input. Unpack (um_uid um) (snd inp) 0);
          l = NewBase;
          l = AddRoute 3010 (\<lambda>inp. getGameStatus (uid inp)) l;
          l = AddRoute 3001 (\<lambda>inp. startGame (Unpack (um_start um) (snd inp)
                \<lparr>sr_RoomId = 0, sr_Multi = 0, sr_Users = [], sr_Order2 = [], sr_Order3 = []\<rparr>)) l;
          l = AddRoute 2006 (\<lambda>inp. leaveRoom (room inp)) l;
          l = AddRoute 3003 (\<lambda>inp. optGame (Unpack (um_opt um) (snd inp) zero_MjOpt)) l;
          l = AddRoute 3006 (\<lambda>inp. reconnect (room inp)) l;
          l = AddRoute 1009 (\<lambda>inp. offline (uid inp)) l
      in AddRoute 3011 (\<lambda>inp. continueGame (room inp)) l)"

text \<open>Rooms idle for an hour; nothing sets the end time and nothing calls this.\<close>

definition clearRoom :: "int \<Rightarrow> u32 list \<Rightarrow> GameLocal \<Rightarrow> GameLocal" where
  "clearRoom now order l =
     foldl (\<lambda>l rid. case gl_rooms l rid of
         None \<Rightarrow> l
       | Some k \<Rightarrow> if now - r_endTime (gl_store l k) \<ge> 3600 then
                     l\<lparr>gl_rooms := (gl_rooms l)(r_roomId (gl_store l k) := None)\<rparr> else l) l order"

subsection \<open>Invariants of every table\<close>

text \<open>
  What the handlers rely on: an invariant of one table that its operations keep, also when they panic.
  It then holds at every table of the server, whatever messages come.
\<close>

definition all_rooms :: "(Room \<Rightarrow> bool) \<Rightarrow> GameLocal \<Rightarrow> bool" where
  "all_rooms I l \<longleftrightarrow> (\<forall>k. I (gl_store l k))"

lemma all_rooms_frame [simp]:
  "all_rooms I (l\<lparr>gl_rooms := a\<rparr>) = all_rooms I l" "all_rooms I (l\<lparr>gl_users := b\<rparr>) = all_rooms I l"
  "all_rooms I (l\<lparr>gl_out := c\<rparr>) = all_rooms I l" "all_rooms I (l\<lparr>gl_rn := d\<rparr>) = all_rooms I l"
  by (simp_all add: all_rooms_def)

lemma keeps_on_room [keeps_intros]: "keeps I m \<Longrightarrow> keeps (all_rooms I) (on_room k m)"
  by (auto simp: keeps_def on_room_def all_rooms_def prod.case_eq_if)

lemma keeps_next_rand [keeps_intros]: "keeps (all_rooms I) next_rand"
  unfolding next_rand_def by (intro keeps_intros) simp

lemma keeps_answer [keeps_intros]: "keeps (all_rooms I) (answer rsp)"
  unfolding answer_def by (intro keeps_intros) simp

lemma keeps_user_at [keeps_intros]: "keeps I (user_at i)"
  unfolding user_at_def by (intro keeps_intros)

locale table =
  fixes I :: "Room \<Rightarrow> bool" and um :: Unmarshal
  assumes new_table: "I (NewRoom rid)"
    and add_user: "I r \<Longrightarrow> I (AddUser uid gateId r)"
    and del_user: "I r \<Longrightarrow> I (DelUser uid r)"
    and goes_offline: "I r \<Longrightarrow> I (Room_Offline uid r)"
    and reset: "I r \<Longrightarrow> I (Room_Reset rn r)"
    and prepares: "keeps I (on_user i (modify (\<lambda>u. u\<lparr>u_prepare := True\<rparr>)))"
    and start_told: "keeps I (Send u 3001 (Out_Start sg))"
    and deals: "keeps I (MajFaPai rn)"
    and operates: "keeps I (Room_MjOp uid opt)"
    and reconnects: "keeps I (Room_Reconnect uid gateId)"
begin

lemma new_server: "all_rooms I (NewLocal rnd)"
  by (simp add: all_rooms_def NewLocal_def new_table)

lemma finds_room: "keeps (all_rooms I) (find_room rid)"
  unfolding find_room_def by (intro keeps_intros) (auto simp: all_rooms_def new_table)

lemma handlers_keep:
  assumes "b_route (game_init um) cmd = Some h"
  shows "keeps (all_rooms I) (h inp)"
proof -
  have "keeps (all_rooms I) (getGameStatus q1)" "keeps (all_rooms I) (startGame q2)"
    "keeps (all_rooms I) (leaveRoom q3)" "keeps (all_rooms I) (optGame q4)" "keeps (all_rooms I) (reconnect q3)"
    "keeps (all_rooms I) (offline q1)" "keeps (all_rooms I) (continueGame q3)" for q1 q2 q3 q4
    unfolding getGameStatus_def startGame_def leaveRoom_def optGame_def reconnect_def offline_def
      continueGame_def user_by_uid_def
    by (intro keeps_intros finds_room prepares start_told deals operates reconnects;
        simp add: add_user del_user goes_offline reset)+
  then show ?thesis using assms by (auto simp: game_init_def AddRoute_def NewBase_def Let_def split: if_splits)
qed

end

sublocale table \<subseteq> server "all_rooms I" "b_route (game_init um)"
  by unfold_locales (rule handlers_keep)

context table
begin

lemma every_table: "I (gl_store (Base_Start (b_route (game_init um)) inps (NewLocal rnd)) k)"
  using serves [OF new_server] by (simp add: all_rooms_def)

end

subsection \<open>Who has answered\<close>

text \<open>Shifting by a negative number panics, shifting by 32 or more gives 0.\<close>

record Wait =
  w_tag :: u32
  w_flag :: i32

abbreviation (input) full_flags :: i32 where "full_flags \<equiv> 0xf"

definition NewWait :: "i32 \<Rightarrow> Wait" where
  "NewWait n = \<lparr>w_tag = 0, w_flag = 0\<rparr>"

definition seat_bit :: "i32 \<Rightarrow> panic + i32" where
  "seat_bit seat = (if slt seat 0 then Inl Explicit else Inr (push_bit (unat seat) 1))"

definition Wait_Done :: "u32 \<Rightarrow> i32 \<Rightarrow> (Wait, bool) act" where
  "Wait_Done tag seat =
     seq get_st (\<lambda>w.
     if w_tag w \<noteq> tag then ret False
     else
       seq (lift (seat_bit seat)) (\<lambda>b.
       if w_flag w AND b \<noteq> 0 then ret False
       else seq (modify (\<lambda>w. w\<lparr>w_flag := w_flag w OR b\<rparr>)) (\<lambda>_. ret True)))"

definition IsWait :: "i32 \<Rightarrow> Wait \<Rightarrow> panic + bool" where
  "IsWait seat w = bindE (seat_bit seat) (\<lambda>b. Inr (w_flag w AND b = 0))"

definition Wait_IsFull :: "Wait \<Rightarrow> bool" where
  "Wait_IsFull w \<longleftrightarrow> w_flag w = full_flags"

definition WaitAll :: "u32 \<Rightarrow> Wait \<Rightarrow> Wait" where
  "WaitAll tag w = w\<lparr>w_tag := tag, w_flag := 0\<rparr>"

definition WaitOne :: "u32 \<Rightarrow> i32 \<Rightarrow> Wait \<Rightarrow> panic + Wait" where
  "WaitOne tag seat w = bindE (seat_bit seat) (\<lambda>b. Inr (w\<lparr>w_tag := tag, w_flag := full_flags XOR b\<rparr>))"

definition WaitOther :: "u32 \<Rightarrow> i32 \<Rightarrow> Wait \<Rightarrow> panic + Wait" where
  "WaitOther tag seat w = bindE (seat_bit seat) (\<lambda>b. Inr (w\<lparr>w_tag := tag, w_flag := w_flag w OR b\<rparr>))"

definition IsTag :: "u32 \<Rightarrow> Wait \<Rightarrow> bool" where
  "IsTag tag w \<longleftrightarrow> w_tag w = tag"

end
