(* ===== verification/GameUserProps.thy ===== *)
theory GameUserProps
  imports GameUser MjHulzProps
begin

text \<open>
  Properties of a player: what carrying out an operation does to the hand and the melds on every
  branch, what an offered claim takes out of the hand, and the doubling of the settlement.
\<close>

subsection \<open>Carrying out an operation\<close>

lemma removeMj_run:
  assumes "0 < k"
  shows "\<exists>hs. removeMj val (int k) u = (Inr (replicate_mset k val \<subseteq># mset (u_mjHands u)), u\<lparr>u_mjHands := hs\<rparr>) \<and>
    mset hs = (if replicate_mset k val \<subseteq># mset (u_mjHands u)
       then mset (u_mjHands u) - replicate_mset k val else mset (u_mjHands u))"
proof -
  obtain r u' where r: "removeMj val (int k) u = (r, u')" by force
  show ?thesis
    using removeMj_spec [OF r] assms unfolding r nat_int count_le_replicate_mset_subset_eq by auto
qed

lemma removeMj_one:
  "\<exists>hs. removeMj val 1 u = (Inr (val \<in># mset (u_mjHands u)), u\<lparr>u_mjHands := hs\<rparr>) \<and>
    mset hs = mset (u_mjHands u) - {#val#}"
  using removeMj_run [of 1 val u] by (cases "val \<in> set (u_mjHands u)") (auto simp: diff_single_trivial)

text \<open>The tiles an operation takes from the hand, and the tiles its log line names.\<close>

definition takes :: "u8 \<Rightarrow> u8 \<Rightarrow> u8 multiset" where
  "takes op val =
     (if op = LChi then {#val + 1, val + 2#} else if op = MChi then {#val - 1, val + 1#}
      else if op = RChi then {#val - 1, val - 2#} else if op = Peng then replicate_mset 2 val
      else if op = MGang then replicate_mset 3 val else if op = AGang then replicate_mset 4 val
      else if op = ChuPai \<or> op = BGang then {#val#} else {#})"

definition logged :: "u8 \<Rightarrow> u8 \<Rightarrow> u8 list" where
  "logged op val =
     (if op = LChi then [val, val + 1, val + 2] else if op = MChi then [val, val - 1, val + 1]
      else if op = RChi then [val, val - 1, val - 2] else if op = ChuPai then [] else [val])"

definition named :: "u8 list \<Rightarrow> bool" where
  "named vs \<longleftrightarrow> list_all (\<lambda>v. \<not> isl (Pai v)) vs"

lemma log_pais_named:
  assumes "named vs"
  shows "log_pais vs s = (Inr (), s)"
proof -
  have "\<exists>ns. mapE Pai vs = Inr ns"
    using assms by (induction vs) (auto simp: named_def isl_def bindE_def split: sum.splits)
  then show ?thesis by (auto simp: log_pais_def seq_def lift_def ret_def)
qed

lemma named_simps [simp]: "named []" "named (v # vs) \<longleftrightarrow> \<not> isl (Pai v) \<and> named vs"
  by (simp_all add: named_def)

lemma chi_run:
  assumes "named vs"
  obtains hs where "chi op val val1 val2 vs u =
      (if {#val1, val2#} \<subseteq># mset (u_mjHands u)
       then (Inr True, u\<lparr>u_mjHands := hs, u_mjGroup := u_mjGroup u @ [mkGroup op val]\<rparr>)
       else (Inr False, u\<lparr>u_mjHands := hs\<rparr>))"
    "mset hs = (if {#val1, val2#} \<subseteq># mset (u_mjHands u) then mset (u_mjHands u) - {#val1, val2#}
       else mset (u_mjHands u) - {#val1#})"
proof -
  obtain h1 where h1: "removeMj val1 1 u = (Inr (val1 \<in># mset (u_mjHands u)), u\<lparr>u_mjHands := h1\<rparr>)"
    "mset h1 = mset (u_mjHands u) - {#val1#}"
    using removeMj_one by blast
  obtain h2 where h2: "removeMj val2 1 (u\<lparr>u_mjHands := h1\<rparr>) = (Inr (val2 \<in># mset h1), u\<lparr>u_mjHands := h2\<rparr>)"
    "mset h2 = mset h1 - {#val2#}"
    using removeMj_one [of val2 "u\<lparr>u_mjHands := h1\<rparr>"] by auto
  have both: "{#val1, val2#} \<subseteq># mset (u_mjHands u) \<longleftrightarrow> val1 \<in># mset (u_mjHands u) \<and> val2 \<in># mset h1"
    unfolding h1(2) by (simp add: insert_subset_eq_iff)
  show thesis
  proof (cases "val1 \<in># mset (u_mjHands u)")
    case False
    then show thesis
      using h1 both by (intro that [of h1]) (simp_all add: chi_def seq_def ret_def)
  next
    case one: True
    show thesis
    proof (cases "val2 \<in># mset h1")
      case True
      then show thesis
        using h1 h2 both one assms
        by (intro that [of h2])
          (simp_all add: chi_def seq_def ret_def add_meld_def modify_def log_pais_named add_mset_commute)
    next
      case False
      then have "mset h2 = mset h1" using h2(2) diff_single_trivial [of val2 "mset h1"] by simp
      then show thesis
        using h1 h2(1) both one False
        by (intro that [of h2]) (simp_all add: chi_def seq_def ret_def)
    qed
  qed
qed

lemma count_list_mset: "count (mset xs) v = count_list xs v"
  by (induction xs) auto

lemma take_same_run:
  assumes "named vs" "0 < k"
  obtains hs where "take_same op k vs val u =
      (if replicate_mset k val \<subseteq># mset (u_mjHands u)
       then (Inr True, u\<lparr>u_mjHands := hs, u_mjGroup := u_mjGroup u @ [mkGroup op val]\<rparr>)
       else (Inr False, u\<lparr>u_mjHands := hs\<rparr>))"
    "mset hs = (if replicate_mset k val \<subseteq># mset (u_mjHands u) then mset (u_mjHands u) - replicate_mset k val
       else mset (u_mjHands u))"
proof -
  have c: "count_list (u_mjHands u) val < k \<longleftrightarrow> \<not> replicate_mset k val \<subseteq># mset (u_mjHands u)"
    unfolding count_le_replicate_mset_subset_eq [symmetric] count_list_mset [symmetric] by linarith
  obtain hs where r: "removeMj val (int k) u = (Inr (replicate_mset k val \<subseteq># mset (u_mjHands u)), u\<lparr>u_mjHands := hs\<rparr>)"
    "mset hs = (if replicate_mset k val \<subseteq># mset (u_mjHands u)
       then mset (u_mjHands u) - replicate_mset k val else mset (u_mjHands u))"
    using removeMj_run [OF assms(2)] by blast
  show thesis
  proof (cases "replicate_mset k val \<subseteq># mset (u_mjHands u)")
    case True
    then show thesis using r assms(1) c
      by (intro that [of hs])
        (simp_all add: take_same_def seq_def get_st_def ret_def add_meld_def modify_def log_pais_named)
  next
    case False
    then show thesis using c
      by (intro that [of "u_mjHands u"]) (simp_all add: take_same_def seq_def get_st_def ret_def)
  qed
qed

lemma deal_op_cases:
  assumes "op \<in> {3, 5, 6, 7, 8, 9, 10, 11}" and "named (logged op val)"
  shows "\<exists>hs. deal_op op val u =
      (if takes op val \<subseteq># mset (u_mjHands u)
       then (Inr True, u\<lparr>u_mjHands := hs,
               u_mjGroup := u_mjGroup u @ (if op = ChuPai \<or> op = BGang then [] else [mkGroup op val])\<rparr>)
       else (Inr False, u\<lparr>u_mjHands := hs\<rparr>)) \<and>
    mset hs = (if takes op val \<subseteq># mset (u_mjHands u) then mset (u_mjHands u) - takes op val
       else if op = LChi then mset (u_mjHands u) - {#val + 1#}
       else if op = MChi \<or> op = RChi then mset (u_mjHands u) - {#val - 1#}
       else mset (u_mjHands u))"
proof -
  have chis: "\<exists>hs. chi op val v1 v2 vs u =
      (if {#v1, v2#} \<subseteq># mset (u_mjHands u)
       then (Inr True, u\<lparr>u_mjHands := hs, u_mjGroup := u_mjGroup u @ [mkGroup op val]\<rparr>)
       else (Inr False, u\<lparr>u_mjHands := hs\<rparr>)) \<and>
    mset hs = (if {#v1, v2#} \<subseteq># mset (u_mjHands u) then mset (u_mjHands u) - {#v1, v2#}
       else mset (u_mjHands u) - {#v1#})" if "named vs" for op v1 v2 vs
    by (rule chi_run [OF that, of op val v1 v2 u]) blast
  have same: "\<exists>hs. take_same op k vs val u =
      (if replicate_mset k val \<subseteq># mset (u_mjHands u)
       then (Inr True, u\<lparr>u_mjHands := hs, u_mjGroup := u_mjGroup u @ [mkGroup op val]\<rparr>)
       else (Inr False, u\<lparr>u_mjHands := hs\<rparr>)) \<and>
    mset hs = (if replicate_mset k val \<subseteq># mset (u_mjHands u) then mset (u_mjHands u) - replicate_mset k val
       else mset (u_mjHands u))" if "named vs" "0 < k" for op k vs
    by (rule take_same_run [OF that, of op val u]) blast
  have one: "\<exists>hs. removeMj val 1 u = (if {#val#} \<subseteq># mset (u_mjHands u) then (Inr True, u\<lparr>u_mjHands := hs\<rparr>)
       else (Inr False, u\<lparr>u_mjHands := hs\<rparr>)) \<and>
      mset hs = (if {#val#} \<subseteq># mset (u_mjHands u) then mset (u_mjHands u) - {#val#} else mset (u_mjHands u))"
    using removeMj_run [of 1 val u] by (auto split: if_splits)
  then obtain hs where hs: "removeMj val 1 u = (if {#val#} \<subseteq># mset (u_mjHands u) then (Inr True, u\<lparr>u_mjHands := hs\<rparr>)
       else (Inr False, u\<lparr>u_mjHands := hs\<rparr>))"
      "mset hs = (if {#val#} \<subseteq># mset (u_mjHands u) then mset (u_mjHands u) - {#val#} else mset (u_mjHands u))"
    by blast
  consider "op = 3" | "op = 5" | "op = 6" | "op = 7" | "op = 8" | "op = 9" | "op = 10" | "op = 11"
    using assms(1) by auto
  then show ?thesis
  proof cases
    case 1
    then show ?thesis using hs by (auto simp: deal_op_def DaMj_def takes_def intro!: exI [of _ hs])
  next
    case 7
    then show ?thesis using hs assms(2)
      by (auto simp: deal_op_def BGangMj_def takes_def logged_def seq_def ret_def log_pais_named intro!: exI [of _ hs])
  next
    case 2
    then have "named [val, val + 1, val + 2]" "takes op val = {#val + 1, val + 2#}"
      "deal_op op val = chi 5 val (val + 1) (val + 2) [val, val + 1, val + 2]"
      using assms(2) by (simp_all add: logged_def takes_def deal_op_def LChiMj_def)
    then show ?thesis using 2 chis [of "[val, val + 1, val + 2]" 5 "val + 1" "val + 2"]
      by (cases "{#val + 1, val + 2#} \<subseteq># mset (u_mjHands u)") simp_all
  next
    case 3
    then have "named [val, val - 1, val + 1]" "takes op val = {#val - 1, val + 1#}"
      "deal_op op val = chi 6 val (val - 1) (val + 1) [val, val - 1, val + 1]"
      using assms(2) by (simp_all add: logged_def takes_def deal_op_def MChiMj_def)
    then show ?thesis using 3 chis [of "[val, val - 1, val + 1]" 6 "val - 1" "val + 1"]
      by (cases "{#val - 1, val + 1#} \<subseteq># mset (u_mjHands u)") simp_all
  next
    case 4
    then have "named [val, val - 1, val - 2]" "takes op val = {#val - 1, val - 2#}"
      "deal_op op val = chi 7 val (val - 1) (val - 2) [val, val - 1, val - 2]"
      using assms(2) by (simp_all add: logged_def takes_def deal_op_def RChiMj_def)
    then show ?thesis using 4 chis [of "[val, val - 1, val - 2]" 7 "val - 1" "val - 2"]
      by (cases "{#val - 1, val - 2#} \<subseteq># mset (u_mjHands u)") simp_all
  next
    case 5
    then have "named [val, val, val]" "takes op val = replicate_mset 2 val" "deal_op op val = take_same 8 2 [val, val, val] val"
      using assms(2) by (simp_all add: logged_def takes_def deal_op_def PengMj_def)
    then show ?thesis using 5 same [of "[val, val, val]" 2 8]
      by (cases "replicate_mset 2 val \<subseteq># mset (u_mjHands u)") simp_all
  next
    case 6
    then have "named [val, val, val, val]" "takes op val = replicate_mset 3 val"
      "deal_op op val = take_same 9 3 [val, val, val, val] val"
      using assms(2) by (simp_all add: logged_def takes_def deal_op_def MGangMj_def)
    then show ?thesis using 6 same [of "[val, val, val, val]" 3 9]
      by (cases "replicate_mset 3 val \<subseteq># mset (u_mjHands u)") simp_all
  next
    case 8
    then have "named [val, val, val, val]" "takes op val = replicate_mset 4 val"
      "deal_op op val = take_same 11 4 [val, val, val, val] val"
      using assms(2) by (simp_all add: logged_def takes_def deal_op_def AGangMj_def)
    then show ?thesis using 8 same [of "[val, val, val, val]" 4 11]
      by (cases "replicate_mset 4 val \<subseteq># mset (u_mjHands u)") simp_all
  qed
qed

text \<open>
  C6. Carrying out an operation on a tile with a name: it succeeds exactly when the hand has the tiles it
  takes (two neighbours for a chow, two, three or four equal ones, one for a discard or an added
  kong), and then exactly these leave the hand, the meld is recorded (none for a discard; for an added
  kong the pong stays a pong), the offers are cleared and the operation is the last one. When it
  fails, melds, offers and last operation stay, but a failed chow loses the first of its two tiles
  if the hand has that one.
\<close>

theorem DealMj_exact:
  assumes "op \<in> {3, 5, 6, 7, 8, 9, 10, 11}" and "named (logged op val)"
  shows "\<exists>hs. DealMj op val u =
      (if takes op val \<subseteq># mset (u_mjHands u)
       then (Inr True, u\<lparr>u_mjHands := hs, u_mjGroup :=
               u_mjGroup u @ (if op = ChuPai \<or> op = BGang then [] else [mkGroup op val]),
               u_canOpsFlag := 0, u_lastOp := mkGroup op val\<rparr>)
       else (Inr False, u\<lparr>u_mjHands := hs\<rparr>)) \<and>
    mset hs = (if takes op val \<subseteq># mset (u_mjHands u) then mset (u_mjHands u) - takes op val
       else if op = LChi then mset (u_mjHands u) - {#val + 1#}
       else if op = MChi \<or> op = RChi then mset (u_mjHands u) - {#val - 1#}
       else mset (u_mjHands u))"
proof -
  obtain hs where hs: "deal_op op val u =
      (if takes op val \<subseteq># mset (u_mjHands u)
       then (Inr True, u\<lparr>u_mjHands := hs,
               u_mjGroup := u_mjGroup u @ (if op = ChuPai \<or> op = BGang then [] else [mkGroup op val])\<rparr>)
       else (Inr False, u\<lparr>u_mjHands := hs\<rparr>))"
    "mset hs = (if takes op val \<subseteq># mset (u_mjHands u) then mset (u_mjHands u) - takes op val
       else if op = LChi then mset (u_mjHands u) - {#val + 1#}
       else if op = MChi \<or> op = RChi then mset (u_mjHands u) - {#val - 1#}
       else mset (u_mjHands u))"
    using deal_op_cases [OF assms, of u] by blast
  show ?thesis
    by (rule exI [of _ hs]) (use hs in \<open>simp add: DealMj_def seq_def ret_def modify_def\<close>)
qed

lemma DealMj_exact_witness:
  "\<exists>hs. DealMj LChi 11 (zero_User\<lparr>u_mjHands := [12, 21, 12]\<rparr>) = (Inr False, zero_User\<lparr>u_mjHands := hs\<rparr>) \<and>
    mset hs = {#21, 12#}"
proof -
  have "named (logged 5 11)" by (simp add: logged_def Pai_def)
  moreover have "\<not> takes 5 11 \<subseteq># {#12, 21, 12#}" by (simp add: takes_def insert_subset_eq_iff)
  ultimately show ?thesis
    using DealMj_exact [of 5 11 "zero_User\<lparr>u_mjHands := [12, 21, 12]\<rparr>"]
    by (auto simp: add_mset_commute)
qed

subsection \<open>Offers\<close>

lemma byte_back [simp]: "(ucast (ucast (v :: u8) :: i32) :: u8) = v"
  by (rule bit_eqI) (auto simp: bit_simps)

lemma HasOp_add_ops:
  assumes "unat op < 31" "\<forall>g \<in> set gs. unat (g_Op g) < 31"
  shows "HasOp (add_ops fl gs) op \<longleftrightarrow> HasOp fl op \<or> (\<exists>g \<in> set gs. g_Op g = op)"
  using assms(2)
  by (induction gs arbitrary: fl) (auto simp: add_ops_def HasOp_AddOp [OF assms(1)])

text \<open>A counter of the judge that is positive counts real tiles of the hand.\<close>

lemma counted:
  assumes "set (hand mj pai) \<subseteq> set kinds" "length (hand mj pai) < 128" "lz \<in> set kinds"
    and "Newlz mj pai lz grp = Inr m" and "num_at m v = Inr x" "0 < x" "unat v \<noteq> 8"
  shows "x = int (count_list (hand mj pai) v)"
proof -
  have m: "cnt m (unat v) = (if unat v = unat lz then 0 else int (count (mset (map unat (hand mj pai))) (unat v)))"
    using assms(4,7) unfolding Newlz_wild [OF assms(1-3)] by auto
  have "x = cnt m (unat v)" using assms(5) by (auto simp: num_at_def split: if_splits)
  then show ?thesis using assms(6) unfolding m count_map_unat by (simp split: if_splits)
qed

lemma both_pos_True: "both_pos m b v w = Inr True \<Longrightarrow>
    b \<and> (\<exists>x y. num_at m v = Inr x \<and> 0 < x \<and> num_at m w = Inr y \<and> 0 < y)"
  by (auto simp: both_pos_def bindE_Inr_iff split: if_splits)

lemma count_list_pos: "0 < count_list xs v \<longleftrightarrow> v \<in> set xs"
  by (induction xs) auto

lemma offers_list:
  assumes "CanOpOther_lz m val op = Inr (gs, m')"
  obtains l c r n h where "op = ChuPai \<Longrightarrow> both_pos m (Tiao1 \<le> val) (val + 1) (val + 2) = Inr l"
    "op = ChuPai \<Longrightarrow> both_pos m (Tiao2 \<le> val) (val - 1) (val + 1) = Inr c"
    "op = ChuPai \<Longrightarrow> both_pos m (Tiao3 \<le> val) (val - 2) (val - 1) = Inr r"
    "op = ChuPai \<Longrightarrow> num_at m val = Inr n"
    "gs = (if op = ChuPai then (if l then [mkGroup LChi val] else []) @ (if c then [mkGroup MChi val] else []) @
       (if r then [mkGroup RChi val] else []) @ (if n \<ge> 3 then [mkGroup Peng val] else []) @
       (if n \<ge> 4 then [mkGroup MGang val] else []) else []) @ (if h then [mkGroup HuPaiOp val] else [])"
proof (cases "op = ChuPai")
  case True
  note d = CanOpOther_lz_def True Let_def
  obtain l where l: "both_pos m (Tiao1 \<le> val) (val + 1) (val + 2) = Inr l"
    using assms by (cases "both_pos m (Tiao1 \<le> val) (val + 1) (val + 2)") (simp_all add: d)
  obtain c where c: "both_pos m (Tiao2 \<le> val) (val - 1) (val + 1) = Inr c"
    using assms l by (cases "both_pos m (Tiao2 \<le> val) (val - 1) (val + 1)") (simp_all add: d)
  obtain r where r: "both_pos m (Tiao3 \<le> val) (val - 2) (val - 1) = Inr r"
    using assms l c by (cases "both_pos m (Tiao3 \<le> val) (val - 2) (val - 1)") (simp_all add: d)
  obtain n where n: "num_at m val = Inr n"
    using assms l c r by (cases "num_at m val") (simp_all add: d)
  show thesis
    by (rule that [OF l c r n, of "fst (CanHu_lz m)"])
      (use assms True in \<open>simp add: CanOpOther_lz_def Let_def l c r n split del: if_split\<close>, use True in \<open>simp split: if_splits\<close>)
next
  case False
  from assms False show thesis
    by (intro that [of undefined undefined undefined undefined "fst (CanHu_lz m)"])
      (auto simp: CanOpOther_lz_def Let_def split: if_splits)
qed

lemma offers_from:
  assumes "CanOpOther_lz m val ChuPai = Inr (gs, m')" "g \<in> set gs" "g_Op g \<noteq> HuPaiOp"
  shows "g_Val g = val \<and>
    (g_Op g = LChi \<and> both_pos m (Tiao1 \<le> val) (val + 1) (val + 2) = Inr True \<or>
     g_Op g = MChi \<and> both_pos m (Tiao2 \<le> val) (val - 1) (val + 1) = Inr True \<or>
     g_Op g = RChi \<and> both_pos m (Tiao3 \<le> val) (val - 2) (val - 1) = Inr True \<or>
     g_Op g = Peng \<and> (\<exists>x. num_at m val = Inr x \<and> 3 \<le> x) \<or>
     g_Op g = MGang \<and> (\<exists>x. num_at m val = Inr x \<and> 4 \<le> x))"
proof -
  obtain l c r n h where o: "both_pos m (Tiao1 \<le> val) (val + 1) (val + 2) = Inr l"
    "both_pos m (Tiao2 \<le> val) (val - 1) (val + 1) = Inr c"
    "both_pos m (Tiao3 \<le> val) (val - 2) (val - 1) = Inr r" "num_at m val = Inr n"
    "gs = ((if l then [mkGroup LChi val] else []) @ (if c then [mkGroup MChi val] else []) @
       (if r then [mkGroup RChi val] else []) @ (if n \<ge> 3 then [mkGroup Peng val] else []) @
       (if n \<ge> 4 then [mkGroup MGang val] else [])) @ (if h then [mkGroup HuPaiOp val] else [])"
    by (rule offers_list [OF assms(1)]) simp
  have "g \<in> set (if l then [mkGroup LChi val] else []) \<or> g \<in> set (if c then [mkGroup MChi val] else []) \<or>
      g \<in> set (if r then [mkGroup RChi val] else []) \<or> g \<in> set (if n \<ge> 3 then [mkGroup Peng val] else []) \<or>
      g \<in> set (if n \<ge> 4 then [mkGroup MGang val] else []) \<or> g \<in> set (if h then [mkGroup HuPaiOp val] else [])"
    using assms(2) unfolding o(5) set_append by blast
  then show ?thesis using assms(3) o(1-4) by (elim disjE) (simp_all split: if_splits)
qed

lemma offer_ops:
  assumes "CanOpOther_lz m val op = Inr (gs, m')"
  shows "\<forall>g \<in> set gs. g_Op g \<in> {5, 6, 7, 8, 9, 12}"
  by (rule offers_list [OF assms]) (auto split: if_splits)

text \<open>The tiles an offer needs are in the hand.\<close>

lemma offer_takes:
  assumes hs: "set mj \<subseteq> set kinds" "val \<in> set kinds" "lz \<in> set kinds" "length mj < 127"
    and m: "Newlz mj val lz [] = Inr m" and g: "CanOpOther_lz m val ChuPai = Inr (gs, m')"
    and "g \<in> set gs" "g_Op g \<noteq> HuPaiOp"
  shows "g_Op g \<in> {5, 6, 7, 8, 9} \<and> g_Val g = val \<and> takes (g_Op g) val \<subseteq># mset mj \<and> named (logged (g_Op g) val)"
proof -
  have pos: "0 < val" using kinds_bounds [OF hs(2)] by (simp add: word_gt_0 word_unat_eq_iff)
  then have hand: "hand mj val = mj @ [val]" by (simp add: hand_def)
  have pre: "set (hand mj val) \<subseteq> set kinds" "length (hand mj val) < 128" using hs by (simp_all add: hand)
  have bnd: "1 \<le> unat val" "unat val \<le> 39" "unat val \<noteq> 8" using kinds_bounds [OF hs(2)] by auto
  have inhand: "v \<in> set mj" if "num_at m v = Inr x" "0 < x" "unat v \<noteq> 8" "v \<noteq> val" for v x
    using counted [OF pre hs(3) m that(1-3)] that(2,4) count_list_pos [of "hand mj val" v] by (auto simp: hand)
  have same: "k \<le> count_list mj val" if "num_at m val = Inr x" "int k + 1 \<le> x" for k x
    using counted [OF pre hs(3) m that(1)] that(2) bnd(3) by (simp add: hand)
  have nm: "v \<in> set mj \<or> v = val \<Longrightarrow> \<not> isl (Pai v)" for v
    using Pai_kinds [of v] hs(1,2) by (auto simp: isl_def)
  have rep: "replicate_mset k val \<subseteq># mset mj" if "k \<le> count_list mj val" for k
    using that by (simp add: count_le_replicate_mset_subset_eq [symmetric] count_list_mset)
  have near: "unat (val + 1) = unat val + 1" "unat (val + 2) = unat val + 2"
    using bnd by (simp_all add: unat_word_ariths)
  have below: "unat (val - 1) = unat val - 1" "unat (val - 2) = unat val - 2" if "12 \<le> unat val"
    using that bnd by (simp_all add: unat_sub word_le_nat_alt)
  have two: "{#v, w#} \<subseteq># mset mj" if "v \<in> set mj" "w \<in> set mj" "v \<noteq> w" for v w
    using that by (simp add: insert_subset_eq_iff in_diff_count)
  have ge: "Tiao1 \<le> val \<longleftrightarrow> 11 \<le> unat val" "Tiao2 \<le> val \<longleftrightarrow> 12 \<le> unat val" "Tiao3 \<le> val \<longleftrightarrow> 13 \<le> unat val"
    by (simp_all add: word_le_nat_alt)
  from offers_from [OF g assms(7,8)] have v: "g_Val g = val" by blast
  from offers_from [OF g assms(7,8)] consider
    "g_Op g = 5" "both_pos m (Tiao1 \<le> val) (val + 1) (val + 2) = Inr True"
    | "g_Op g = 6" "both_pos m (Tiao2 \<le> val) (val - 1) (val + 1) = Inr True"
    | "g_Op g = 7" "both_pos m (Tiao3 \<le> val) (val - 2) (val - 1) = Inr True"
    | x where "g_Op g = 8" "num_at m val = Inr x" "3 \<le> x"
    | x where "g_Op g = 9" "num_at m val = Inr x" "4 \<le> x"
    by blast
  then show ?thesis
  proof cases
    case 1
    from both_pos_True [OF this(2)] have "val + 1 \<in> set mj" "val + 2 \<in> set mj"
      using inhand near bnd by (auto simp: ge word_unat_eq_iff)
    then show ?thesis using 1(1) v two nm by (simp add: takes_def logged_def)
  next
    case 2
    from both_pos_True [OF this(2)] have "val - 1 \<in> set mj" "val + 1 \<in> set mj"
      using inhand near below bnd by (auto simp: ge word_unat_eq_iff)
    moreover have "val - 1 \<noteq> val + 1"
      using both_pos_True [OF 2(2)] near(1) below(1) by (auto simp: ge word_unat_eq_iff)
    ultimately show ?thesis using 2(1) v two nm by (simp add: takes_def logged_def)
  next
    case 3
    from both_pos_True [OF this(2)] have "val - 2 \<in> set mj" "val - 1 \<in> set mj"
      using inhand below bnd by (auto simp: ge word_unat_eq_iff)
    then show ?thesis using 3(1) v two nm by (simp add: takes_def logged_def)
  next
    case 4
    then show ?thesis using v nm rep [of 2] same [of x 2] by (simp add: takes_def logged_def)
  next
    case 5
    then show ?thesis using v nm rep [of 3] same [of x 3] by (simp add: takes_def logged_def)
  qed
qed

text \<open>
  An offered chow, pong or kong fits: it is on the discarded tile, \<open>IsCanOp\<close> accepts it and its tiles
  are in the hand. Dealing it takes exactly these tiles and lays down the group.
\<close>

lemma offer_fits:
  assumes "set (u_mjHands u) \<subseteq> set kinds" and "val \<in> set kinds" and "lz \<in> set kinds"
    and "length (u_mjHands u) < 127" and "CanOpOther val ChuPai lz u = (Inr fl, u')"
    and "g \<in> set (u_canOpsGroup u')" and "g_Op g \<noteq> HuPaiOp"
  shows "g_Op g \<in> {5, 6, 7, 8, 9} \<and> g_Val g = val \<and> IsCanOp u' (ucast (g_Op g)) \<and>
    u_mjHands u' = u_mjHands u \<and> u_mjGroup u' = u_mjGroup u \<and>
    takes (g_Op g) val \<subseteq># mset (u_mjHands u) \<and> named (logged (g_Op g) val)"
proof -
  obtain m gs m' where m: "Newlz (u_mjHands u) val lz [] = Inr m" "CanOpOther_lz m val ChuPai = Inr (gs, m')"
    and u': "u' = u\<lparr>u_canOpsGroup := gs, u_waiting := (gs \<noteq> []),
      u_canOpsFlag := add_ops (if gs \<noteq> [] then AddOp 0 GuoPai else 0) gs\<rparr>"
    using assms(5)
    by (cases "Newlz (u_mjHands u) val lz []")
      (auto simp: CanOpOther_def seq_def get_st_def lift_def throw_def ret_def modify_def Let_def
        split: sum.splits prod.splits)
  have g: "g \<in> set gs" using assms(6) by (simp add: u')
  from offer_takes [OF assms(1-4) m g assms(7)]
  have t: "g_Op g \<in> {5, 6, 7, 8, 9}" "g_Val g = val" "takes (g_Op g) val \<subseteq># mset (u_mjHands u)"
    "named (logged (g_Op g) val)" by auto
  have "IsCanOp u' (ucast (g_Op g))"
  proof -
    have sm: "\<forall>g \<in> set gs. unat (g_Op g) < 31" using offer_ops [OF m(2)] by auto
    then have "unat (g_Op g) < 31" using g by blast
    then show ?thesis
      unfolding IsCanOp_def u' using HasOp_add_ops [OF _ sm, of "g_Op g"] g by auto
  qed
  with t show ?thesis by (simp add: u')
qed

lemma DealMj_takes:
  assumes "op \<in> {5, 6, 7, 8, 9}" "takes op val \<subseteq># mset (u_mjHands u)" "named (logged op val)"
  shows "\<exists>hs. mset hs = mset (u_mjHands u) - takes op val \<and>
    DealMj op val u = (Inr True, u\<lparr>u_mjHands := hs, u_mjGroup := u_mjGroup u @ [mkGroup op val],
      u_canOpsFlag := 0, u_lastOp := mkGroup op val\<rparr>)"
proof -
  have "op \<in> {3, 5, 6, 7, 8, 9, 10, 11}" using assms(1) by auto
  from deal_op_cases [OF this assms(3), of u] assms(1,2)
  show ?thesis by (auto simp: DealMj_def seq_def ret_def modify_def)
qed

subsection \<open>The doubling\<close>

text \<open>Every meld a player can have doubles what the player pays, not only kongs.\<close>

lemma FanShu_doubles:
  assumes "\<forall>g \<in> set (u_mjGroup u). g_Op g \<in> {5, 6, 7, 8, 9, 10, 11}"
  shows "FanShu u = push_bit (length (u_mjGroup u)) 1"
proof -
  have "foldl (\<lambda>f g. if g_Op g AND 11 > 0 then push_bit 1 f else f) x gs = push_bit (length gs) x"
    if "\<forall>g \<in> set gs. g_Op g \<in> {5, 6, 7, 8, 9, 10, 11}" for x and gs :: "Group list"
    using that
  proof (induction gs arbitrary: x)
    case (Cons g gs)
    have "g_Op g AND 11 > 0" using Cons.prems by auto
    then have "foldl (\<lambda>f g. if g_Op g AND 11 > 0 then push_bit 1 f else f) x (g # gs) =
        push_bit (length gs) (push_bit 1 x)"
      using Cons by simp
    then show ?case by (simp add: push_bit_push_bit)
  qed simp
  from this [OF assms, of 1] show ?thesis unfolding FanShu_def .
qed

end
