(* ===== verification/GameTiles.thy ===== *)
theory GameTiles
  imports GameRoute GameUserProps LocalBase
begin

text \<open>
  The tiles of a game table: no operation of a player or of a room creates a tile. The invariant is kept
  by every handler of the game server, also when it panics, so it holds in every state of the server.
\<close>

subsection \<open>Tiles of a room\<close>

definition held :: "User list \<Rightarrow> u8 multiset" where
  "held us = mset (concat (map u_mjHands us))"

definition undealt :: "Room \<Rightarrow> u8 multiset" where
  "undealt r = mset (drop (unat (r_mjIndex r)) (r_mj r))"

text \<open>\<open>X\<close> are tiles that have left the deck and are not yet in a hand.\<close>

definition tiles_with :: "u8 multiset \<Rightarrow> Room \<Rightarrow> bool" where
  "tiles_with X r \<longleftrightarrow> mset (r_mj r) = mset BanBiShanMJ \<and> held (r_Users r) + undealt r + X \<subseteq># mset BanBiShanMJ"

abbreviation tiles_ok :: "Room \<Rightarrow> bool" where
  "tiles_ok \<equiv> tiles_with {#}"

lemma tiles_frame [simp]:
  "tiles_with X (r\<lparr>r_out := a\<rparr>) = tiles_with X r" "tiles_with X (r\<lparr>r_turn := b\<rparr>) = tiles_with X r"
  "tiles_with X (r\<lparr>r_waitMulti := c\<rparr>) = tiles_with X r" "tiles_with X (r\<lparr>r_history := d\<rparr>) = tiles_with X r"
  "tiles_with X (r\<lparr>r_turn := b, r_waitMulti := c\<rparr>) = tiles_with X r"
  "tiles_with X (r\<lparr>r_piZi := e, r_laiZi := f\<rparr>) = tiles_with X r" "tiles_with X (r\<lparr>r_playing := g\<rparr>) = tiles_with X r"
  by (simp_all add: tiles_with_def undealt_def)

lemma held_map: "(\<And>u. u_mjHands (f u) = u_mjHands u) \<Longrightarrow> held (map f us) = held us"
  by (simp add: held_def comp_def)

lemma tiles_users:
  "held us = held (r_Users r) \<Longrightarrow> tiles_with X (r\<lparr>r_Users := us\<rparr>) = tiles_with X r"
  by (simp add: tiles_with_def undealt_def)

lemma tiles_playing_users:
  "held us = held (r_Users r) \<Longrightarrow> tiles_with X (r\<lparr>r_playing := g, r_Users := us\<rparr>) = tiles_with X r"
  by (simp add: tiles_with_def undealt_def)

lemma held_split: "i < length us \<Longrightarrow>
    held us = mset (u_mjHands (us ! i)) + held (take i us) + held (drop (Suc i) us)"
  by (subst id_take_nth_drop [of i us]) (simp_all add: held_def)

lemma held_update: "i < length us \<Longrightarrow>
    held (us[i := u]) = mset (u_mjHands u) + held (take i us) + held (drop (Suc i) us)"
  by (subst held_split [of i "us[i := u]"]) simp_all

text \<open>Operations of a player that add no tile.\<close>

definition no_gain :: "(User, 'a) act \<Rightarrow> bool" where
  "no_gain m \<longleftrightarrow> (\<forall>u. mset (u_mjHands (snd (m u))) \<subseteq># mset (u_mjHands u))"

lemma tiles_le:
  assumes "tiles_with X r" "held us \<subseteq># held (r_Users r)"
  shows "tiles_with X (r\<lparr>r_Users := us\<rparr>)"
proof -
  have "held us + undealt r + X \<subseteq># held (r_Users r) + undealt r + X"
    using assms(2) by (simp add: subset_mset.add_mono)
  then have "held us + undealt r + X \<subseteq># mset BanBiShanMJ"
    using assms(1) unfolding tiles_with_def by (blast intro: subset_mset.order_trans)
  then show ?thesis using assms(1) by (simp add: tiles_with_def undealt_def)
qed

lemma keeps_on_user:
  assumes "no_gain m"
  shows "keeps (tiles_with X) (on_user i m)"
  unfolding keeps_def
proof (intro allI impI)
  fix r assume ok: "tiles_with X r"
  show "tiles_with X (snd (on_user i m r))"
  proof (cases "i < length (r_Users r)")
    case True
    let ?us = "r_Users r"
    let ?u = "snd (m (?us ! i))"
    have "mset (u_mjHands ?u) \<subseteq># mset (u_mjHands (?us ! i))" using assms by (simp add: no_gain_def)
    then have "held (?us[i := ?u]) \<subseteq># held ?us"
      unfolding held_update [OF True] held_split [OF True] by simp
    from tiles_le [OF ok this] show ?thesis by (simp add: on_user_def True prod.case_eq_if)
  qed (simp add: on_user_def ok)
qed

text \<open>A rule for each operation of a player: it keeps its hand within a fixed multiset.\<close>

definition within :: "u8 multiset \<Rightarrow> User \<Rightarrow> bool" where
  "within M u \<longleftrightarrow> mset (u_mjHands u) \<subseteq># M"

lemma no_gain_keeps: "(\<And>M. keeps (within M) m) \<Longrightarrow> no_gain m"
  unfolding no_gain_def keeps_def within_def by blast

lemma keeps_removeMj:
  assumes "0 < num"
  shows "keeps (within M) (removeMj val num)"
  unfolding keeps_def
proof (intro allI impI)
  fix u assume "within M u"
  moreover obtain r u' where r: "removeMj val num u = (r, u')" by force
  moreover have "mset (u_mjHands u') \<subseteq># mset (u_mjHands u)"
    using removeMj_spec [OF r assms] by (auto split: if_splits)
  ultimately show "within M (snd (removeMj val num u))"
    by (auto simp: within_def intro: subset_mset.order_trans)
qed

lemma within_frame [simp]:
  "within M (u\<lparr>u_mjGroup := a\<rparr>) = within M u" "within M (u\<lparr>u_canOpsFlag := b, u_lastOp := c\<rparr>) = within M u"
  "within M (u\<lparr>u_canOpsGroup := d, u_waiting := e, u_canOpsFlag := f\<rparr>) = within M u"
  by (simp_all add: within_def)

lemma keeps_deal_op: "keeps (within M) (deal_op op val)"
  unfolding deal_op_def DaMj_def MGangMj_def BGangMj_def AGangMj_def PengMj_def LChiMj_def MChiMj_def
    RChiMj_def chi_def take_same_def add_meld_def log_pais_def
  by (intro keeps_intros keeps_removeMj) simp_all

lemma no_gain_ops [intro]:
  "no_gain (DealMj op val)" "no_gain (CanOpSelf lz)" "no_gain (CanOpOther val op lz)"
  unfolding DealMj_def CanOpSelf_def CanOpOther_def
  by (rule no_gain_keeps, intro keeps_intros keeps_deal_op, simp)+

lemma no_gain_modify: "(\<And>u. u_mjHands (f u) = u_mjHands u) \<Longrightarrow> no_gain (modify f)"
  by (simp add: no_gain_def modify_def)

subsection \<open>Drawing\<close>

lemma tiles_length: "tiles_with X r \<Longrightarrow> length (r_mj r) = 136"
  unfolding tiles_with_def by (metis length_BanBiShanMJ size_mset)

lemma undealt_step:
  assumes "tiles_with X r" "index (r_mj r) (unat (r_mjIndex r)) = Inr val"
  shows "undealt r = add_mset val (mset (drop (unat (r_mjIndex r + 1)) (r_mj r)))"
proof -
  have i: "unat (r_mjIndex r) < length (r_mj r)" "val = r_mj r ! unat (r_mjIndex r)"
    using assms(2) by (auto simp: index_Inr_iff)
  then have "unat (r_mjIndex r + 1) = Suc (unat (r_mjIndex r))"
    using tiles_length [OF assms(1)] by (simp add: unat_word_ariths)
  then show ?thesis using i by (simp add: undealt_def Cons_nth_drop_Suc [symmetric])
qed

text \<open>Drawing a tile into a hand, in the two ways the code has.\<close>

lemma tiles_add:
  assumes "tiles_with (add_mset val X) r" "i < length (r_Users r)"
    and "\<And>u. u_mjHands (f u) = u_mjHands u @ [val]"
  shows "tiles_with X (r\<lparr>r_Users := (r_Users r)[i := f (r_Users r ! i)]\<rparr>)"
proof -
  have "held ((r_Users r)[i := f (r_Users r ! i)]) = add_mset val (held (r_Users r))"
    unfolding held_update [OF assms(2)] held_split [OF assms(2)] using assms(3) by simp
  then show ?thesis using assms(1) by (simp add: tiles_with_def undealt_def)
qed

lemma tiles_less: "tiles_with (add_mset val X) r \<Longrightarrow> tiles_with X r"
  unfolding tiles_with_def by (auto elim: subset_mset.order_trans [rotated])

lemma keeps_add:
  assumes "\<And>u. u_mjHands (f u) = u_mjHands u @ [val]" "tiles_with {#val#} r"
  shows "tiles_ok (snd (on_user i (modify f) r))"
  using tiles_add [of val "{#}" r i f] tiles_less [of val "{#}" r] assms
  by (simp add: on_user_def modify_def)

lemma keeps_after_add:
  assumes "\<And>u. u_mjHands (f u) = u_mjHands u @ [val]" "tiles_with {#val#} r" "\<And>a. keeps tiles_ok (g a)"
  shows "tiles_ok (snd (seq (on_user i (modify f)) g r))"
  using keeps_add [OF assms(1,2), of i] assms(3)
  by (auto simp: seq_def keeps_def split: prod.split sum.split)

lemma keeps_MoPai:
  assumes "\<And>val s. tiles_with {#val#} s \<Longrightarrow> tiles_ok (snd (f val s))"
  shows "keeps tiles_ok (seq Room_MoPai f)"
  unfolding keeps_def
proof (intro allI impI)
  fix r assume ok: "tiles_ok r"
  show "tiles_ok (snd (seq Room_MoPai f r))"
  proof (cases "index (r_mj r) (unat (r_mjIndex r))")
    case (Inl p)
    then show ?thesis using ok by (simp add: Room_MoPai_def seq_def get_st_def lift_def throw_def)
  next
    case (Inr val)
    have "tiles_with {#val#} (r\<lparr>r_mjIndex := r_mjIndex r + 1\<rparr>)"
      using ok undealt_step [OF ok Inr] by (simp add: tiles_with_def undealt_def)
    then show ?thesis
      using Inr assms by (simp add: Room_MoPai_def seq_def get_st_def lift_def ret_def modify_def)
  qed
qed

lemma keeps_FaPai [keeps_intros]: "keeps tiles_ok (Room_FaPai i)"
  unfolding keeps_def
proof (intro allI impI)
  fix r assume ok: "tiles_ok r"
  show "tiles_ok (snd (Room_FaPai i r))"
  proof (cases "index (r_mj r) (unat (r_mjIndex r))")
    case (Inl p)
    then show ?thesis using ok by (simp add: Room_FaPai_def seq_def get_st_def lift_def throw_def)
  next
    case (Inr val)
    let ?r = "r\<lparr>r_usedMjIndex := r_usedMjIndex r @ [r_mjIndex r], r_mjIndex := r_mjIndex r + 1\<rparr>"
    have "tiles_with {#val#} ?r"
      using ok undealt_step [OF ok Inr] by (simp add: tiles_with_def undealt_def)
    from keeps_after_add [OF _ this, of "MoMj val" "\<lambda>_. ret (r_mjIndex r, val)" i]
    show ?thesis by (simp add: Room_FaPai_def run_simps Inr keeps_ret MoMj_def)
  qed
qed

subsection \<open>Every operation of a room\<close>

lemma keeps_Send [keeps_intros]: "keeps (tiles_with X) (Send u cmd data)"
  unfolding Send_def by (intro keeps_intros) simp

lemma keeps_SendAll [keeps_intros]: "keeps (tiles_with X) (SendAll cmd data)"
  unfolding SendAll_def by (intro keeps_intros)

lemma keeps_ops_at [keeps_intros]: "keeps (tiles_with X) (ops_at i)"
  unfolding ops_at_def by (intro keeps_intros)

lemma keeps_deal [keeps_intros]: "keeps tiles_ok (deal is)"
proof (induction "is")
  case (Cons i "is")
  then show ?case unfolding deal.simps by (intro keeps_intros)
qed (simp add: keeps_intros)

lemma keeps_send_hand [keeps_intros]: "keeps tiles_ok (send_hand fapai zhuang pizi i)"
  unfolding send_hand_def by (intro keeps_intros keeps_on_user no_gain_ops)

lemma mset_shuffle: "i < length xs \<Longrightarrow> mset (shuffle f i xs) = mset xs"
proof (induction i arbitrary: xs)
  case (Suc i)
  have "f (Suc i) mod (i + 2) < length xs"
    using Suc.prems mod_less_divisor [of "i + 2" "f (Suc i)"] by linarith
  then show ?case using Suc by simp
qed simp

lemma tiles_Reset: "tiles_ok r \<Longrightarrow> tiles_ok (Room_Reset rn r)"
proof -
  assume ok: "tiles_ok r"
  have "held (map User_Reset us) = {#}" for us by (simp add: held_def User_Reset_def comp_def)
  moreover have "mset (shuffle (rn_cell rn) (length (r_mj r) - 1) (r_mj r)) = mset (r_mj r)"
    using tiles_length [OF ok] by (intro mset_shuffle) simp
  ultimately show ?thesis using ok by (simp add: Room_Reset_def tiles_with_def undealt_def)
qed

lemma keeps_MajFaPai [keeps_intros]: "keeps tiles_ok (MajFaPai rn)"
  unfolding MajFaPai_def by (intro keeps_intros) (simp_all add: tiles_Reset)

lemma keeps_huPai [keeps_intros]: "keeps tiles_ok (huPai hu)"
  unfolding huPai_def by (intro keeps_intros) (simp add: tiles_playing_users held_map)

lemma keeps_last_draws [keeps_intros]: "keeps tiles_ok (last_draws is hu)"
proof (induction "is" arbitrary: hu)
  case (Cons i "is")
  show ?case
    unfolding last_draws.simps
    by (intro keeps_seq keeps_get_st keeps_let keeps_user_at keeps_MoPai keeps_after_add keeps_on_user no_gain_ops
        keeps_ops_at keeps_Send Cons.IH) (simp_all add: Haidilao_def)
qed (simp add: keeps_intros)

lemma keeps_doHDL [keeps_intros]: "keeps tiles_ok doHDL"
  unfolding doHDL_def by (intro keeps_intros) (simp_all add: tiles_users held_map)

lemma keeps_tell_turn [keeps_intros]: "keeps tiles_ok (tell_turn op uid own others)"
  unfolding tell_turn_def tell_one_def by (intro keeps_intros keeps_on_user no_gain_ops)

lemma keeps_draw_turn [keeps_intros]: "keeps tiles_ok (draw_turn who)"
  unfolding draw_turn_def by (intro keeps_intros) simp_all

lemma keeps_MjOpOther [keeps_intros]: "keeps tiles_ok (MjOpOther cur opt)"
  unfolding MjOpOther_def by (intro keeps_intros keeps_on_user no_gain_ops) simp_all

lemma keeps_ask_others [keeps_intros]: "keeps tiles_ok (ask_others uid opt is b)"
proof (induction "is" arbitrary: b)
  case (Cons i "is")
  show ?case
    unfolding ask_others.simps by (intro keeps_intros keeps_on_user no_gain_ops Cons.IH) simp_all
qed (simp add: keeps_intros)

lemma keeps_MjOpSelf [keeps_intros]: "keeps tiles_ok (MjOpSelf uid cur opt)"
  unfolding MjOpSelf_def by (intro keeps_intros keeps_on_user no_gain_ops) simp_all

lemma keeps_MjOp [keeps_intros]: "keeps tiles_ok (Room_MjOp uid opt)"
  unfolding Room_MjOp_def by (intro keeps_intros keeps_on_user no_gain_modify) simp_all

lemma keeps_Reconnect [keeps_intros]: "keeps tiles_ok (Room_Reconnect uid gateId)"
  unfolding Room_Reconnect_def by (intro keeps_intros keeps_on_user no_gain_modify) simp_all

subsection \<open>Every handler of the server\<close>

lemma tiles_NewRoom: "tiles_ok (NewRoom rid)"
  by (simp add: tiles_with_def NewRoom_def held_def undealt_def)

lemma tiles_AddUser: "tiles_ok r \<Longrightarrow> tiles_ok (AddUser uid gateId r)"
  unfolding AddUser_def by (subst tiles_users) (simp_all add: held_def zero_User_def)

lemma mset_map_swap: "i < length xs \<Longrightarrow> j < length xs \<Longrightarrow> mset (concat (map f (swap xs i j))) = mset (concat (map f xs))"
proof -
  assume "i < length xs" "j < length xs"
  then have e: "mset (swap xs i j) = mset xs" by simp
  have s: "mset (concat (map f ys)) = sum_mset (image_mset (\<lambda>y. mset (f y)) (mset ys))" for ys
    by (induction ys) simp_all
  show ?thesis unfolding s e ..
qed

lemma tiles_DelUser: "tiles_ok r \<Longrightarrow> tiles_ok (DelUser uid r)"
  unfolding DelUser_def GetUserByUID_def Let_def
  by (auto split: option.split if_splits simp: held_def mset_map_swap tiles_users)

lemma tiles_Offline: "tiles_ok r \<Longrightarrow> tiles_ok (Room_Offline uid r)"
proof -
  assume ok: "tiles_ok r"
  have "Room_Offline uid r = (case GetUserByUID uid r of None \<Rightarrow> r
      | Some i \<Rightarrow> snd (on_user i (modify (\<lambda>u. u\<lparr>u_offline := True\<rparr>)) r))"
    by (auto simp: Room_Offline_def GetConn_def GetUserByUID_def Let_def on_user_def modify_def split: option.split if_splits)
  then show ?thesis
    using ok keepsD [OF keeps_on_user [OF no_gain_modify [of "\<lambda>u. u\<lparr>u_offline := True\<rparr>"]]]
    by (auto split: option.split)
qed

interpretation tiles: table tiles_ok um for um
  by unfold_locales
    (simp_all add: tiles_NewRoom tiles_AddUser tiles_DelUser tiles_Offline tiles_Reset keeps_on_user no_gain_modify
      keeps_Send keeps_MajFaPai keeps_MjOp keeps_Reconnect)

text \<open>
  C2. No tile is ever created: whatever messages the game server handles, in whatever order and with
  whichever of its handlers panicking, at every table the pile is a permutation of the 136 tiles and the
  tiles in the hands of its players together with those not yet drawn are among them. So no value is
  ever held more than four times.
\<close>

theorem no_tile_created:
  "case gl_store (Base_Start (b_route (game_init um)) inps (NewLocal rnd)) k of r \<Rightarrow>
     mset (r_mj r) = mset BanBiShanMJ \<and>
     mset (concat (map u_mjHands (r_Users r))) + mset (drop (unat (r_mjIndex r)) (r_mj r)) \<subseteq># mset BanBiShanMJ"
  using tiles.every_table [of um inps rnd k]
  by (simp add: tiles_with_def held_def undealt_def)

end
