(* ===== verification/GameSecrecy.thy ===== *)
theory GameSecrecy
  imports GameRoute
begin

text \<open>
  What players see of each other's tiles: the deal and the snapshot after a reconnection show a player
  its own tiles only. An invariant of the messages a table has sent, kept by every handler.
\<close>

definition for_eyes :: "sent \<Rightarrow> bool" where
  "for_eyes m =
     (case s_msg m of
        Out_FaPai f \<Rightarrow> list_all (\<lambda>d. d_Uid d = s_uid m \<or> d_MjVal d = 0) (fp_Fapai f)
      | Out_Snapshot s \<Rightarrow>
          list_all (\<lambda>p. pi_Uid p = s_uid m \<or> list_all (\<lambda>v. v = 0) (pi_Hands p) \<and> pi_CanOps p = []) (ds_Info s)
      | _ \<Rightarrow> True)"

definition secret :: "Room \<Rightarrow> bool" where
  "secret r \<longleftrightarrow> list_all for_eyes (r_out r)"

lemma secret_frame: "r_out s = r_out r \<Longrightarrow> secret s = secret r"
  by (simp add: secret_def)

lemma secret_on_user [keeps_intros]: "keeps secret (on_user i m)"
  by (auto simp: keeps_def on_user_def secret_def split: prod.split)

lemma secret_modify: "(\<And>r. r_out (f r) = r_out r) \<Longrightarrow> keeps secret (modify f)"
  by (simp add: keeps_def modify_def secret_def)

lemma secret_Send: "for_eyes (mail cmd data u) \<Longrightarrow> keeps secret (Send u cmd data)"
  unfolding Send_eq by (simp add: keeps_def modify_def secret_def)

lemma for_eyes_open [simp]:
  "for_eyes (mail cmd (Out_Opt opt) u)" "for_eyes (mail cmd (Out_Over us) u)" "for_eyes (mail cmd (Out_Start sg) u)"
  by (simp_all add: for_eyes_def mail_def)

lemmas secret_sends [keeps_intros] = secret_Send [OF for_eyes_open(1)] secret_Send [OF for_eyes_open(2)]
  secret_Send [OF for_eyes_open(3)]

lemma secret_SendAll [keeps_intros]: "keeps secret (SendAll cmd (Out_Opt opt))" "keeps secret (SendAll cmd (Out_Over us))"
  unfolding SendAll_def by (intro keeps_intros)+

lemma secret_ops_at [keeps_intros]: "keeps secret (ops_at i)"
  unfolding ops_at_def by (intro keeps_intros)

lemma secret_FaPai [keeps_intros]: "keeps secret (Room_FaPai i)"
  unfolding Room_FaPai_def by (intro keeps_intros secret_modify) simp_all

lemma secret_MoPai [keeps_intros]: "keeps secret Room_MoPai"
  unfolding Room_MoPai_def by (intro keeps_intros secret_modify) simp_all

lemma secret_huPai [keeps_intros]: "keeps secret (huPai hu)"
  unfolding huPai_def by (intro keeps_intros secret_modify) simp_all

lemma secret_last_draws [keeps_intros]: "keeps secret (last_draws is hu)"
proof (induction "is" arbitrary: hu)
  case (Cons i "is")
  show ?case unfolding last_draws.simps by (intro keeps_intros Cons.IH)
qed (simp add: keeps_intros)

lemma secret_doHDL [keeps_intros]: "keeps secret doHDL"
  unfolding doHDL_def by (intro keeps_intros secret_modify) simp_all

lemma secret_draw_turn [keeps_intros]: "keeps secret (draw_turn who)" "keeps secret (tell_turn op uid own others)"
  unfolding draw_turn_def tell_turn_def tell_one_def by (intro keeps_intros secret_modify; simp)+

lemma secret_ask_others [keeps_intros]: "keeps secret (ask_others uid opt is b)"
proof (induction "is" arbitrary: b)
  case (Cons i "is")
  show ?case unfolding ask_others.simps by (intro keeps_intros secret_modify Cons.IH) simp_all
qed (simp add: keeps_intros)

lemma secret_MjOp: "keeps secret (Room_MjOp uid opt)"
  unfolding Room_MjOp_def MjOpSelf_def MjOpOther_def by (intro keeps_intros secret_modify) simp_all

subsection \<open>The deal and the snapshot\<close>

lemma secret_deal [keeps_intros]: "keeps secret (deal is)"
proof (induction "is")
  case (Cons i "is")
  then show ?case unfolding deal.simps by (intro keeps_intros)
qed (simp add: keeps_intros)

lemma hide_own: "list_all (\<lambda>d. d_Uid d = uid \<or> d_MjVal d = 0) (hide uid fapai)"
  by (induction fapai) (simp_all add: hide_def)

lemma secret_send_hand [keeps_intros]: "keeps secret (send_hand fapai zhuang pizi i)"
  unfolding send_hand_def Let_def
  by (intro keeps_intros secret_Send) (simp_all add: for_eyes_def mail_def hide_own)

lemma secret_MajFaPai: "keeps secret (MajFaPai rn)"
  unfolding MajFaPai_def by (intro keeps_intros secret_modify) (simp_all add: Room_Reset_def)

lemma player_info_own:
  assumes "player_info uid u = Inr i"
  shows "pi_Uid i = uid \<or> list_all (\<lambda>v. v = 0) (pi_Hands i) \<and> pi_CanOps i = []"
  using assms by (auto simp: player_info_def Let_def bindE_Inr_iff list_all_iff split: if_splits)

lemma mapE_all: "mapE f xs = Inr ys \<Longrightarrow> (\<And>x y. f x = Inr y \<Longrightarrow> P y) \<Longrightarrow> list_all P ys"
  by (induction xs arbitrary: ys) (auto simp: bindE_Inr_iff)

lemma GetUserByUID_uid: "GetUserByUID uid r = Some i \<Longrightarrow> i < length (r_Users r) \<and> u_uid (r_Users r ! i) = uid"
  using nth_length_takeWhile [of "\<lambda>u. u_uid u \<noteq> uid" "r_Users r"]
  by (auto simp: GetUserByUID_def Let_def split: if_splits)

lemma secret_Reconnect: "keeps secret (Room_Reconnect uid gateId)"
  unfolding keeps_def
proof (intro allI impI)
  fix r assume ok: "secret r"
  show "secret (snd (Room_Reconnect uid gateId r))"
  proof (cases "mapE (player_info uid) (r_Users r)")
    case (Inl p)
    then show ?thesis using ok by (simp add: Room_Reconnect_def run_simps)
  next
    case (Inr infos)
    have "list_all (\<lambda>i. pi_Uid i = uid \<or> list_all (\<lambda>v. v = 0) (pi_Hands i) \<and> pi_CanOps i = []) infos"
      using Inr by (rule mapE_all) (rule player_info_own)
    then show ?thesis
      using ok Inr GetUserByUID_uid [of uid r]
      by (auto simp: Room_Reconnect_def run_simps on_user_def user_at_def Send_eq secret_def for_eyes_def mail_def
          Let_def split: option.split)
  qed
qed

interpretation secrecy: table secret um for um
proof unfold_locales
  fix r :: Room and uid assume "secret r"
  then show "secret (DelUser uid r)" "secret (Room_Offline uid r)"
    by (simp_all add: secret_def DelUser_def Room_Offline_def split: option.split)
qed (simp_all add: keeps_intros secret_MjOp secret_MajFaPai secret_Reconnect secret_def NewRoom_def AddUser_def Room_Reset_def)

text \<open>
  C3. Players see their own tiles only: whatever messages the game server handles, in every deal and in
  every snapshot that was ever sent to a player from any table, each tile of somebody with another uid is
  shown as 0, and nobody else's offered operations are in it.
\<close>

theorem hands_stay_hidden:
  "list_all (\<lambda>m. (case s_msg m of
        Out_FaPai f \<Rightarrow> list_all (\<lambda>d. d_Uid d = s_uid m \<or> d_MjVal d = 0) (fp_Fapai f)
      | Out_Snapshot s \<Rightarrow>
          list_all (\<lambda>p. pi_Uid p = s_uid m \<or> list_all (\<lambda>v. v = 0) (pi_Hands p) \<and> pi_CanOps p = []) (ds_Info s)
      | _ \<Rightarrow> True))
     (r_out (gl_store (Base_Start (b_route (game_init um)) inps (NewLocal rnd)) k))"
  using secrecy.every_table [of um inps rnd k] unfolding secret_def for_eyes_def .

end
