(* ===== verification/GameProps.thy ===== *)
theory GameProps
  imports GameTiles GameSecrecy
begin

text \<open>
  Properties of a mahjong table: the settlement, who is heard and when nobody is waited for any more,
  that an offered claim is carried out when its player is the last to answer, and which answer to a discard
  counts.
\<close>

subsection \<open>The settlement\<close>

lemma settlement_sum: "sum_list (map gu_Win (settlement hu ht hs us w)) = 0"
proof -
  have "sum_list (map gu_Win (map (\<lambda>(i, u). over_user u (- lose hs u) ht True) xs)) =
      - sum_list (map (\<lambda>(i, u). lose hs u) xs)" for xs :: "(nat \<times> User) list"
    by (induction xs) (auto simp: over_user_def)
  then show ?thesis by (simp add: settlement_def Let_def over_user_def)
qed

lemma length_others:
  assumes "hu < length us"
  shows "length (filter (\<lambda>(i, u). i \<noteq> hu) (enumerate 0 us)) = length us - 1"
proof -
  have pairs: "length (filter (\<lambda>(i, u). P i) ps) = length (filter P (map fst ps))" for P and ps :: "(nat \<times> 'a) list"
    by (induction ps) auto
  have "filter (\<lambda>i. i \<noteq> hu) [0..<length us] = remove1 hu [0..<length us]"
    by (simp add: distinct_remove1_removeAll removeAll_filter_not_eq neq_commute)
  then show ?thesis using assms by (simp add: pairs [where P = "\<lambda>i. i \<noteq> hu"] length_remove1)
qed

text \<open>
  C7. A win is settled to zero: whenever \<open>huPai\<close> does not panic, every player is sent the same settlement,
  in which the winner gets exactly what the others lose, each of them the score of the hand doubled
  once for every meld the loser has (also for chows and pongs); nobody is prepared for the next game
  and the table is no longer playing.
\<close>

theorem settlement_zero_sum:
  assumes "huPai hu r = (Inr (), r')"
    and "\<forall>u \<in> set (r_Users r). \<forall>g \<in> set (u_mjGroup u). g_Op g \<in> {5, 6, 7, 8, 9, 10, 11}"
  shows "\<exists>us ht hs. User_HuPai 0 (r_laiZi r) (r_Users r ! hu) = Inr (ht, hs) \<and>
    sum_list (map gu_Win us) = 0 \<and> length us = length (r_Users r) \<and>
    r_out r' = r_out r @ map (mail 3005 (Out_Over us)) (r_Users r) \<and>
    map gu_Win (butlast us) = map (\<lambda>(i, u). - (sint hs * sint (push_bit (length (u_mjGroup u)) 1 :: i32)))
      (filter (\<lambda>(i, u). i \<noteq> hu) (enumerate 0 (r_Users r))) \<and>
    gu_Uid (last us) = u_uid (r_Users r ! hu) \<and>
    \<not> r_playing r' \<and> list_all (\<lambda>u. \<not> u_prepare u) (r_Users r')"
proof -
  let ?w = "r_Users r ! hu"
  have hu: "hu < length (r_Users r)"
    using assms(1) by (auto simp: huPai_def user_at_def run_simps index_def split: if_splits intro: ccontr)
  obtain ht hs where h: "User_HuPai 0 (r_laiZi r) ?w = Inr (ht, hs)"
    using assms(1) hu
    by (cases "User_HuPai 0 (r_laiZi r) ?w") (auto simp: huPai_def user_at_def run_simps)
  let ?us = "settlement hu ht hs (r_Users r) (r_Users r ! hu)"
  have r': "r' = r\<lparr>r_playing := False, r_Users := map (\<lambda>u. u\<lparr>u_prepare := False\<rparr>) (r_Users r),
      r_out := r_out r @ map (mail 3005 (Out_Over ?us)) (r_Users r)\<rparr>"
    using assms(1) hu h
    by (cases "GroupString ?w")
      (auto simp: huPai_def user_at_def run_simps SendAll_eq comp_def mail_def split: if_splits)
  note len = length_others [OF hu]
  have pays: "lose hs u = sint hs * sint (push_bit (length (u_mjGroup u)) 1 :: i32)" if "u \<in> set (r_Users r)" for u
    using FanShu_doubles [of u] assms(2) that by (simp add: lose_def)
  have "map gu_Win (butlast ?us) = map (\<lambda>(i, u). - (sint hs * sint (push_bit (length (u_mjGroup u)) 1 :: i32)))
      (filter (\<lambda>(i, u). i \<noteq> hu) (enumerate 0 (r_Users r)))"
    by (auto simp: settlement_def Let_def over_user_def pays dest!: in_set_enumerate_eq [THEN iffD1] split: prod.split)
  moreover have "length ?us = length (r_Users r)" using len hu by (simp add: settlement_def Let_def)
  moreover have "gu_Uid (last ?us) = u_uid ?w" by (simp add: settlement_def Let_def over_user_def)
  moreover have "r_out r' = r_out r @ map (mail 3005 (Out_Over ?us)) (r_Users r)" "\<not> r_playing r'"
      "list_all (\<lambda>u. \<not> u_prepare u) (r_Users r')"
    by (simp_all add: r' list_all_iff)
  ultimately show ?thesis
    using h settlement_sum [of hu ht hs "r_Users r" ?w]
    by (intro exI [of _ ?us] exI [of _ ht] exI [of _ hs] conjI)
qed

definition won_table :: Room where
  "won_table = (NewRoom 7)\<lparr>r_Users :=
     [zero_User\<lparr>u_uid := 1, u_mjHands := [1, 2, 3, 4, 5]\<rparr>,
      zero_User\<lparr>u_uid := 2, u_mjHands := [1, 1, 1, 11, 12, 13, 21, 22, 23, 24, 24, 25, 26, 27]\<rparr>,
      zero_User\<lparr>u_uid := 3, u_mjGroup := [mkGroup 9 3, mkGroup 5 11]\<rparr>], r_laiZi := 31, r_playing := True\<rparr>"

lemma settlement_zero_sum_witness:
  "\<exists>us hs. sum_list (map gu_Win us) = 0 \<and> r_out (snd (huPai 1 won_table)) = map (mail 3005 (Out_Over us)) (r_Users won_table) \<and>
    map gu_Win (butlast us) = [- sint (hs :: i32), - (sint hs * 4)]"
proof -
  have melds: "\<forall>u \<in> set (r_Users won_table). \<forall>g \<in> set (u_mjGroup u). g_Op g \<in> {5, 6, 7, 8, 9, 10, 11}"
    by (simp add: won_table_def zero_User_def mkGroup_def)
  have pay: "map (\<lambda>(i, u). - (sint hs * sint (push_bit (length (u_mjGroup u)) 1 :: i32)))
      (filter (\<lambda>(i, u). i \<noteq> 1) (enumerate 0 (r_Users won_table))) = [- sint hs, - (sint hs * 4)]" for hs :: i32
    by (simp add: won_table_def zero_User_def)
  have out: "r_out won_table = []" by (simp add: won_table_def NewRoom_def)
  have f: "fst (huPai 1 won_table) = Inr ()" by code_simp
  then have "huPai 1 won_table = (Inr (), snd (huPai 1 won_table))" by (metis prod.collapse)
  from settlement_zero_sum [OF this melds] show ?thesis
    unfolding pay out append_Nil by (elim exE conjE, intro exI conjI)
qed

subsection \<open>Nobody is waited for\<close>

lemma nobody_waiting: "\<not> Waiting r \<Longrightarrow> Room_MjOp uid opt r = (Inr (), r)"
  using GetUserByUID_uid [of uid r]
  by (auto simp: Room_MjOp_def Waiting_def list_ex_iff run_simps user_at_def split: option.split)

lemma others_idle:
  assumes "\<forall>i < length us. u_waiting (us ! i) \<longleftrightarrow> i = cur" "r_Users r = us[cur := u]" "\<not> u_waiting u"
  shows "\<not> Waiting r"
proof -
  have "\<not> u_waiting (us[cur := u] ! i)" if "i < length us" for i
    using that assms(1,3) by (cases "i = cur") simp_all
  then show ?thesis by (auto simp: Waiting_def list_ex_iff in_set_conv_nth assms(2))
qed

text \<open>What a player does who is the only one waited for: the answer is carried out at once.\<close>

definition answered :: "nat \<Rightarrow> MjOpt \<Rightarrow> Room \<Rightarrow> Room" where
  "answered cur opt r =
     r\<lparr>r_history := r_history r @ [\<lparr>mo_Uid = mo_uid opt, mo_Op = mo_op opt, mo_Mj = mo_mj opt\<rparr>],
       r_Users := (r_Users r)[cur := (r_Users r ! cur)\<lparr>u_waitOp := ucast (mo_op opt), u_waiting := False\<rparr>]\<rparr>"

lemma only_answer:
  assumes "GetUserByUID uid r = Some cur" "\<forall>i < length (r_Users r). u_waiting (r_Users r ! i) \<longleftrightarrow> i = cur"
    and "IsCanOp (r_Users r ! cur) (mo_op opt)"
  shows "\<not> Waiting (answered cur opt r)"
    and "Room_MjOp uid opt r = (if \<not> r_waitMulti r then MjOpSelf uid cur opt (answered cur opt r)
      else MjOpOther cur opt ((answered cur opt r)\<lparr>r_waitMulti := False\<rparr>))"
proof -
  note cur = GetUserByUID_uid [OF assms(1)]
  show idle: "\<not> Waiting (answered cur opt r)"
    by (rule others_idle [OF assms(2), where u = "(r_Users r ! cur)\<lparr>u_waitOp := ucast (mo_op opt), u_waiting := False\<rparr>"])
      (simp_all add: answered_def)
  show "Room_MjOp uid opt r = (if \<not> r_waitMulti r then MjOpSelf uid cur opt (answered cur opt r)
      else MjOpOther cur opt ((answered cur opt r)\<lparr>r_waitMulti := False\<rparr>))"
    using assms cur idle by (simp add: Room_MjOp_def run_simps user_at_def on_user_def answered_def)
qed

text \<open>
  A discard of a tile that is not in the hand stops the table for good: the player's answer is taken
  (the tile number comes from the client unchecked), nobody is told anything, the game goes on being
  played, and from then on every operation of every player is ignored.
\<close>

theorem lost_discard_stops:
  assumes "GetUserByUID uid r = Some cur" "\<forall>i < length (r_Users r). u_waiting (r_Users r ! i) \<longleftrightarrow> i = cur"
    and "\<not> r_waitMulti r" "HasOp (u_canOpsFlag (r_Users r ! cur)) ChuPai" "mo_op opt = ChuPai"
    and "ucast (mo_mj opt) \<notin> set (u_mjHands (r_Users r ! cur))"
  shows "\<exists>r'. Room_MjOp uid opt r = (Inr (), r') \<and> r_out r' = r_out r \<and> r_playing r' = r_playing r \<and>
    (\<forall>uid2 opt2. Room_MjOp uid2 opt2 r' = (Inr (), r'))"
proof -
  note cur = GetUserByUID_uid [OF assms(1)]
  have can: "IsCanOp (r_Users r ! cur) (mo_op opt)" using assms(4,5) by (simp add: IsCanOp_def)
  note run = only_answer [OF assms(1,2) can]
  let ?a = "answered cur opt r"
  let ?u = "(r_Users r ! cur)\<lparr>u_waitOp := ucast (mo_op opt), u_waiting := False\<rparr>"
  obtain hs where hs: "removeMj (ucast (mo_mj opt)) 1 ?u = (Inr False, ?u\<lparr>u_mjHands := hs\<rparr>)"
    using removeMj_one [of "ucast (mo_mj opt)" ?u] assms(6) by auto
  let ?r = "?a\<lparr>r_Users := (r_Users ?a)[cur := ?u\<lparr>u_mjHands := hs\<rparr>]\<rparr>"
  have "Room_MjOp uid opt r = (Inr (), ?r)"
    using cur hs assms(3,5)
    by (simp add: run(2) MjOpSelf_def on_user_def answered_def DealMj_def deal_op_def DaMj_def run_simps)
  moreover have "\<not> Waiting ?r"
    by (rule others_idle [OF assms(2), where u = "?u\<lparr>u_mjHands := hs\<rparr>"]) (simp_all add: answered_def)
  moreover have "r_out ?r = r_out r" "r_playing ?r = r_playing r" by (simp_all add: answered_def)
  ultimately show ?thesis using nobody_waiting by blast
qed

definition idle_table :: Room where
  "idle_table = (NewRoom 7)\<lparr>r_Users :=
     [zero_User\<lparr>u_uid := 1, u_mjHands := [1, 2], u_canOpsFlag := 8, u_waiting := True\<rparr>, zero_User\<lparr>u_uid := 2\<rparr>]\<rparr>"

lemma lost_discard_stops_witness:
  "\<exists>r'. Room_MjOp 1 (zero_MjOpt\<lparr>mo_op := ChuPai, mo_mj := 9\<rparr>) idle_table = (Inr (), r') \<and>
    Room_MjOp 1 (zero_MjOpt\<lparr>mo_op := ChuPai, mo_mj := 1\<rparr>) r' = (Inr (), r')"
proof -
  have "GetUserByUID 1 idle_table = Some 0" by (simp add: idle_table_def GetUserByUID_def)
  moreover have "\<forall>i < length (r_Users idle_table). u_waiting (r_Users idle_table ! i) \<longleftrightarrow> i = 0"
    by (auto simp: idle_table_def zero_User_def nth_Cons split: nat.split)
  moreover have "\<not> r_waitMulti idle_table" "HasOp (u_canOpsFlag (r_Users idle_table ! 0)) ChuPai"
    by (simp_all add: idle_table_def NewRoom_def HasOp_def opBit_def)
  ultimately show ?thesis
    using lost_discard_stops [of 1 idle_table 0 "zero_MjOpt\<lparr>mo_op := ChuPai, mo_mj := 9\<rparr>"]
    by (auto simp: idle_table_def zero_MjOpt_def)
qed

subsection \<open>Claiming a discard\<close>

text \<open>
  The table after the only player still waited for has answered a discard with a chow, a pong or a kong
  \<open>op\<close>: the answer is recorded, the hand is \<open>hs\<close> and the group lies on the table.
\<close>

definition claimed :: "nat \<Rightarrow> u8 \<Rightarrow> u8 \<Rightarrow> u8 list \<Rightarrow> MjOpt \<Rightarrow> Room \<Rightarrow> Room" where
  "claimed cur op val hs opt r =
     (answered cur opt r)\<lparr>r_waitMulti := False,
       r_Users := (r_Users r)[cur := (r_Users r ! cur)\<lparr>u_waitOp := op, u_waiting := False, u_mjHands := hs,
         u_mjGroup := u_mjGroup (r_Users r ! cur) @ [mkGroup op val], u_canOpsFlag := 0, u_lastOp := mkGroup op val\<rparr>],
       r_turn := cur\<rparr>"

lemma last_claim:
  assumes r: "GetUserByUID uid r = Some cur" "\<forall>i < length (r_Users r). u_waiting (r_Users r ! i) \<longleftrightarrow> i = cur"
    "r_waitMulti r" "u_seat (r_Users r ! cur) = cur"
    and op: "IsCanOp (r_Users r ! cur) (ucast op)" "mo_op opt = ucast op" "op \<in> {5, 6, 7, 8, 9}"
    "takes op (ucast (mo_mj opt)) \<subseteq># mset (u_mjHands (r_Users r ! cur))" "named (logged op (ucast (mo_mj opt)))"
  shows "\<exists>hs. mset hs = mset (u_mjHands (r_Users r ! cur)) - takes op (ucast (mo_mj opt)) \<and>
    (let r' = claimed cur op (ucast (mo_mj opt)) hs opt r in
     Room_MjOp uid opt r =
       (if op = 9 then seq (SendAll 3002 (Out_Opt opt)) (\<lambda>_. seq (modify (\<lambda>r. r\<lparr>r_turn := cur\<rparr>)) (\<lambda>_. draw_turn (Some uid)))
            (r'\<lparr>r_turn := r_turn r\<rparr>)
        else tell_turn (ucast op) uid (mo_mj opt) (mo_mj opt) r'))"
proof -
  note cur = GetUserByUID_uid [OF r(1)]
  let ?u = "(r_Users r ! cur)\<lparr>u_waitOp := op, u_waiting := False\<rparr>"
  obtain hs where hs: "mset hs = mset (u_mjHands (r_Users r ! cur)) - takes op (ucast (mo_mj opt))"
    "DealMj op (ucast (mo_mj opt)) ?u = (Inr True, ?u\<lparr>u_mjHands := hs,
       u_mjGroup := u_mjGroup (r_Users r ! cur) @ [mkGroup op (ucast (mo_mj opt))],
       u_canOpsFlag := 0, u_lastOp := mkGroup op (ucast (mo_mj opt))\<rparr>)"
    using DealMj_takes [OF op(3), of "ucast (mo_mj opt)" ?u] op(4,5) by auto
  have w: "(ucast (ucast op :: i32) :: u8) = op" using op(3) by auto
  have can: "IsCanOp (r_Users r ! cur) (mo_op opt)" using op(1,2) by simp
  show ?thesis
    using cur r(3,4) op(2,3) w hs
    by (auto simp: only_answer(2) [OF r(1,2) can] MjOpOther_def getOpUser_def on_user_def answered_def claimed_def
        run_simps user_at_def Let_def intro!: exI [of _ hs] arg_cong [where f = "tell_turn _ _ _ _"] Room.equality)
qed

text \<open>
  C4. A chow, a pong or a kong offered to a player for a discarded tile can be carried out: when
  \<open>CanOpOther\<close> returns, on a hand of deck tiles, the offer is on that tile, is accepted by \<open>IsCanOp\<close>,
  and \<open>DealMj\<close> with it succeeds. When the player is the last one the table waits for (otherwise the
  answer is only recorded) and chooses it, the table carries it out: exactly its tiles leave the
  hand, the group is laid down, it is the player's turn and everybody is told; after a kong the player
  draws.
\<close>

theorem offers_executable:
  assumes "set (u_mjHands u) \<subseteq> set kinds" and "val \<in> set kinds" and "lz \<in> set kinds"
    and "length (u_mjHands u) < 127" and "CanOpOther val ChuPai lz u = (Inr fl, u')"
    and "g \<in> set (u_canOpsGroup u')" and "g_Op g \<noteq> HuPaiOp"
  shows "g_Val g = val \<and> IsCanOp u' (ucast (g_Op g)) \<and> (\<exists>u''. DealMj (g_Op g) val u' = (Inr True, u'')) \<and>
    (\<forall>r uid cur opt. GetUserByUID uid r = Some cur \<and> r_Users r ! cur = u' \<and> u_seat u' = cur \<and> r_waitMulti r \<and>
       (\<forall>i < length (r_Users r). u_waiting (r_Users r ! i) \<longleftrightarrow> i = cur) \<and>
       mo_op opt = ucast (g_Op g) \<and> ucast (mo_mj opt) = val \<longrightarrow>
       (\<exists>hs. mset hs = mset (u_mjHands u) - takes (g_Op g) val \<and>
         (let r' = claimed cur (g_Op g) val hs opt r in
          Room_MjOp uid opt r =
            (if g_Op g = MGang then seq (SendAll 3002 (Out_Opt opt)) (\<lambda>_.
                 seq (modify (\<lambda>r. r\<lparr>r_turn := cur\<rparr>)) (\<lambda>_. draw_turn (Some uid))) (r'\<lparr>r_turn := r_turn r\<rparr>)
             else tell_turn (ucast (g_Op g)) uid (mo_mj opt) (mo_mj opt) r'))))"
proof -
  note f = offer_fits [OF assms]
  have "\<exists>u''. DealMj (g_Op g) val u' = (Inr True, u'')" using DealMj_takes [of "g_Op g" val u'] f by auto
  moreover have "\<exists>hs. mset hs = mset (u_mjHands u) - takes (g_Op g) val \<and>
       (let r' = claimed cur (g_Op g) val hs opt r in
        Room_MjOp uid opt r =
          (if g_Op g = MGang then seq (SendAll 3002 (Out_Opt opt)) (\<lambda>_.
               seq (modify (\<lambda>r. r\<lparr>r_turn := cur\<rparr>)) (\<lambda>_. draw_turn (Some uid))) (r'\<lparr>r_turn := r_turn r\<rparr>)
           else tell_turn (ucast (g_Op g)) uid (mo_mj opt) (mo_mj opt) r'))"
    if h: "GetUserByUID uid r = Some cur \<and> r_Users r ! cur = u' \<and> u_seat u' = cur \<and> r_waitMulti r \<and>
       (\<forall>i < length (r_Users r). u_waiting (r_Users r ! i) \<longleftrightarrow> i = cur) \<and>
       mo_op opt = ucast (g_Op g) \<and> ucast (mo_mj opt) = val" for r uid cur opt
    using last_claim [of uid r cur "g_Op g" opt] h f by simp
  ultimately show ?thesis using f by blast
qed

definition claimant :: User where
  "claimant = zero_User\<lparr>u_uid := 2, u_seat := 1, u_mjHands := [12, 13, 21]\<rparr>"

definition asked_table :: Room where
  "asked_table = (NewRoom 7)\<lparr>r_waitMulti := True, r_Users :=
     [zero_User\<lparr>u_uid := 1\<rparr>, snd (CanOpOther 11 ChuPai 31 claimant)]\<rparr>"

lemma offers_executable_witness:
  "\<exists>hs. mset hs = {#21#} \<and>
    Room_MjOp 2 (zero_MjOpt\<lparr>mo_op := LChi, mo_mj := 11\<rparr>) asked_table =
      tell_turn LChi 2 11 11 (claimed 1 LChi 11 hs (zero_MjOpt\<lparr>mo_op := LChi, mo_mj := 11\<rparr>) asked_table)"
proof -
  let ?r = "CanOpOther 11 ChuPai 31 claimant" and ?o = "zero_MjOpt\<lparr>mo_op := LChi, mo_mj := 11\<rparr>"
  have f: "fst ?r = Inr (AddOp (AddOp 0 4) 5)" and g: "u_canOpsGroup (snd ?r) = [mkGroup 5 11]"
    and u: "u_uid (snd ?r) = 2" "u_seat (snd ?r) = 1" "u_waiting (snd ?r)"
    by code_simp+
  have "?r = (Inr (AddOp (AddOp 0 4) 5), snd ?r)" using f by (metis prod.collapse)
  moreover have "mkGroup 5 11 \<in> set (u_canOpsGroup (snd ?r))" by (simp add: g)
  moreover have "GetUserByUID 2 asked_table = Some 1" using u by (simp add: asked_table_def GetUserByUID_def)
  moreover have "\<forall>i < length (r_Users asked_table). u_waiting (r_Users asked_table ! i) \<longleftrightarrow> i = 1"
    using u by (auto simp: asked_table_def zero_User_def nth_Cons split: nat.split)
  ultimately show ?thesis
    using offers_executable [of claimant 11 31 "AddOp (AddOp 0 4) 5" "snd ?r" "mkGroup 5 11", THEN conjunct2, THEN conjunct2,
        THEN conjunct2, rule_format, of 2 asked_table 1 ?o] u
    by (simp add: claimant_def kinds_def asked_table_def takes_def zero_MjOpt_def Let_def)
qed

subsection \<open>Whose answer to a discard counts\<close>

text \<open>
  C35. When several players are asked about a discard, the last of them to answer decides alone: if that
  player passes, the next one draws, unless the wall is used up, whatever the others have answered
  before. A win that has been claimed is ignored.
\<close>

theorem last_pass_decides:
  assumes "GetUserByUID uid r = Some cur" "\<forall>i < length (r_Users r). u_waiting (r_Users r ! i) \<longleftrightarrow> i = cur"
    and "r_waitMulti r" "HasOp (u_canOpsFlag (r_Users r ! cur)) GuoPai" "mo_op opt = GuoPai" "\<not> canHDL r"
  shows "Room_MjOp uid opt r = draw_turn None
    (r\<lparr>r_history := r_history r @ [\<lparr>mo_Uid = mo_uid opt, mo_Op = GuoPai, mo_Mj = mo_mj opt\<rparr>],
       r_waitMulti := False,
       r_Users := (r_Users r)[cur := (r_Users r ! cur)\<lparr>u_waitOp := GuoPai, u_waiting := False, u_canOpsFlag := 0,
         u_lastOp := mkGroup GuoPai (ucast (mo_mj opt))\<rparr>],
       r_turn := (r_turn r + 1) mod length (r_Users r)\<rparr>)"
proof -
  note cur = GetUserByUID_uid [OF assms(1)]
  have can: "IsCanOp (r_Users r ! cur) (mo_op opt)" using assms(4,5) by (simp add: IsCanOp_def)
  show ?thesis
    using cur assms(3,5,6)
    by (simp add: only_answer(2) [OF assms(1,2) can] MjOpOther_def getOpUser_def on_user_def answered_def DealMj_def
        deal_op_def run_simps user_at_def canHDL_def)
qed

definition claimed_table :: Room where
  "claimed_table = (NewRoom 7)\<lparr>r_waitMulti := True, r_Users :=
     [zero_User\<lparr>u_uid := 1\<rparr>, zero_User\<lparr>u_uid := 2, u_canOpsFlag := 4112, u_waitOp := HuPaiOp\<rparr>,
      zero_User\<lparr>u_uid := 3, u_canOpsFlag := 80, u_waiting := True\<rparr>, zero_User\<lparr>u_uid := 4\<rparr>]\<rparr>"

lemma last_pass_decides_witness:
  "\<exists>r. Room_MjOp 3 (zero_MjOpt\<lparr>mo_op := GuoPai\<rparr>) claimed_table = draw_turn None r \<and>
    u_waitOp (r_Users r ! Suc 0) = HuPaiOp \<and> r_turn r = 1"
proof -
  have "GetUserByUID 3 claimed_table = Some 2" by (simp add: claimed_table_def GetUserByUID_def)
  moreover have "\<forall>i < length (r_Users claimed_table). u_waiting (r_Users claimed_table ! i) \<longleftrightarrow> i = 2"
    by (auto simp: claimed_table_def zero_User_def nth_Cons split: nat.split)
  moreover have "r_waitMulti claimed_table" "HasOp (u_canOpsFlag (r_Users claimed_table ! 2)) GuoPai" "\<not> canHDL claimed_table"
    by (simp_all add: claimed_table_def NewRoom_def HasOp_def opBit_def canHDL_def length_BanBiShanMJ)
  ultimately show ?thesis
    using last_pass_decides [of 3 claimed_table 2 "zero_MjOpt\<lparr>mo_op := GuoPai\<rparr>"]
    by (intro exI conjI) (auto simp: claimed_table_def zero_MjOpt_def NewRoom_def)
qed

end
