(* ===== verification/GameDeal.thy ===== *)
theory GameDeal
  imports GameTiles
begin

text \<open>
  The deal: it does not panic, and which cell of the shuffled pile goes to which player is exactly
  what three rounds of four tiles, one of one tile, and one more for the first player give.
\<close>

subsection \<open>Drawing many tiles\<close>

abbreviation draws :: "User \<Rightarrow> u8 list \<Rightarrow> User" where
  "draws \<equiv> foldl (\<lambda>u v. MoMj v u)"

lemma draws_simps [simp]:
  "u_mjHands (draws u vs) = u_mjHands u @ vs" "u_uid (draws u vs) = u_uid u" "u_mjGroup (draws u vs) = u_mjGroup u"
  "u_waiting (draws u vs) = u_waiting u" "vs \<noteq> [] \<Longrightarrow> u_canOpsFlag (draws u vs) = 0"
  by (induction vs rule: rev_induct) (simp_all add: MoMj_def)

text \<open>The positions of the pile, counted from \<open>k\<close>, that go to player \<open>j\<close>.\<close>

fun cells :: "nat \<Rightarrow> nat \<Rightarrow> nat \<Rightarrow> nat list \<Rightarrow> nat list" where
  "cells turn j k [] = []"
| "cells turn j k (i # is) = (if (turn + i) mod 4 = j then k # cells turn j (k + 1) is else cells turn j (k + 1) is)"


lemma deal_run:
  assumes "length (r_Users r) = 4" "length (r_mj r) = 136" "r_mjIndex r = of_nat k" "k + length is \<le> 136"
  shows "\<exists>ds r'. deal is r = (Inr ds, r') \<and> length (r_Users r') = 4 \<and> r_mj r' = r_mj r \<and> r_turn r' = r_turn r \<and>
    r_touZi r' = r_touZi r \<and> r_out r' = r_out r \<and> r_mjIndex r' = of_nat (k + length is) \<and>
    (\<forall>j < 4. r_Users r' ! j = draws (r_Users r ! j) (map ((!) (r_mj r)) (cells (r_turn r) j k is)))"
  using assms
proof (induction "is" arbitrary: r k)
  case Nil
  then show ?case by (simp add: ret_def)
next
  case (Cons i "is")
  let ?p = "(r_turn r + i) mod 4"
  let ?v = "r_mj r ! k"
  let ?r = "r\<lparr>r_usedMjIndex := r_usedMjIndex r @ [r_mjIndex r], r_mjIndex := r_mjIndex r + 1,
      r_Users := (r_Users r)[?p := MoMj ?v (r_Users r ! ?p)]\<rparr>"
  have k: "unat (r_mjIndex r) = k" using Cons.prems(3,4) by (simp add: unat_of_nat take_bit_eq_mod)
  have draw: "Room_FaPai ?p r = (Inr (r_mjIndex r, ?v), ?r)"
    using Cons.prems k by (simp add: Room_FaPai_def run_simps on_user_def)
  have "length (r_Users ?r) = 4" "length (r_mj ?r) = 136" "r_mjIndex ?r = of_nat (Suc k)" "Suc k + length is \<le> 136"
    using Cons.prems by simp_all
  from Cons.IH [OF this] obtain ds r' where ih: "deal is ?r = (Inr ds, r')" "length (r_Users r') = 4"
      "r_mj r' = r_mj r" "r_turn r' = r_turn r" "r_touZi r' = r_touZi r" "r_out r' = r_out r"
      "r_mjIndex r' = of_nat (Suc k + length is)"
      "\<forall>j < 4. r_Users r' ! j = draws (r_Users ?r ! j) (map ((!) (r_mj r)) (cells (r_turn r) j (Suc k) is))"
    by auto
  have "r_Users r' ! j = draws (r_Users r ! j) (map ((!) (r_mj r)) (cells (r_turn r) j k (i # is)))" if "j < 4" for j
    using ih(8) that Cons.prems(1) by simp
  moreover have "\<exists>ds. deal (i # is) r = (Inr ds, r')"
    using Cons.prems(1) draw ih(1) by (simp add: Let_def run_simps user_at_def)
  ultimately show ?case using ih by auto
qed

text \<open>The cells of the player \<open>i\<close> places after the first one.\<close>

definition seat_cells :: "nat \<Rightarrow> nat list" where
  "seat_cells i = [4 * i ..< 4 * i + 4] @ [16 + 4 * i ..< 20 + 4 * i] @ [32 + 4 * i ..< 36 + 4 * i] @ [48 + i] @
     (if i = 0 then [52] else [])"

lemma cells_shift: "cells turn ((turn + i) mod 4) k is = cells 0 (i mod 4) k is"
proof -
  have "int ((turn + a) mod 4) = int ((turn + i) mod 4) \<longleftrightarrow> int (a mod 4) = int (i mod 4)" for a
    by (simp add: zmod_int mod_eq_dvd_iff)
  then have "(turn + a) mod 4 = (turn + i) mod 4 \<longleftrightarrow> a mod 4 = i mod 4" for a
    unfolding of_nat_eq_iff .
  then show ?thesis by (induction "is" arbitrary: k) simp_all
qed

lemma cells_deal: "i < 4 \<Longrightarrow> cells 0 i 0 deal_order = seat_cells i"
proof -
  have "\<forall>i \<in> {0, 1, 2, 3}. cells 0 i 0 deal_order = seat_cells i" by code_simp
  moreover assume "i < 4"
  then have "i \<in> {0, 1, 2, 3}" by auto
  ultimately show ?thesis by blast
qed

subsection \<open>Telling the hands\<close>

lemma CanOps_returns: "u_mjHands u \<noteq> [] \<Longrightarrow> \<exists>ops. CanOps u = Inr ops"
  by (cases "HasOp (u_canOpsFlag u) ChuPai") (simp_all add: CanOps_def Let_def)

lemma send_hand_run:
  assumes "i < length (r_Users r)" "u_mjHands (r_Users r ! i) \<noteq> []" "set (u_mjHands (r_Users r ! i)) \<subseteq> set kinds"
    and "length (u_mjHands (r_Users r ! i)) < 128" "u_canOpsFlag (r_Users r ! i) = 0" "r_laiZi r \<in> set kinds"
  shows "\<exists>u out. send_hand fapai z pizi i r = (Inr (), r\<lparr>r_Users := (r_Users r)[i := u], r_out := r_out r @ out\<rparr>) \<and>
    u_mjHands u = u_mjHands (r_Users r ! i) \<and> u_uid u = u_uid (r_Users r ! i) \<and>
    (u_waiting u \<longleftrightarrow> u_waiting (r_Users r ! i) \<or> z = u_uid (r_Users r ! i))"
proof -
  let ?d = "\<lparr>fp_Fapai = hide (u_uid (r_Users r ! i)) fapai, fp_Zhuang = z, fp_Touzi = r_touZi r, fp_Pizi = pizi,
      fp_Laizi = ucast (r_laiZi r), fp_CanOpFlag = 0, fp_CanOps = []\<rparr>"
  show ?thesis
  proof (cases "z = u_uid (r_Users r ! i)")
    case False
    then show ?thesis using assms(1)
      by (intro exI [of _ "r_Users r ! i"] exI [of _ "[mail 3008 (Out_FaPai ?d) (r_Users r ! i)]"])
        (simp add: send_hand_def Let_def run_simps user_at_def Send_eq)
  next
    case True
    let ?u = "r_Users r ! i"
    obtain m where m: "Newlz (u_mjHands ?u) 0 (r_laiZi r) (u_mjGroup ?u) = Inr m"
    proof -
      have "hand (u_mjHands ?u) 0 = u_mjHands ?u" by (simp add: hand_def)
      moreover have "unat (r_laiZi r) < Chun" "0 < r_laiZi r"
        using assms(6) kinds_bounds [of "r_laiZi r"] by (auto simp: kinds_def)
      moreover have "count_tiles (\<lambda>_. 0) (u_mjHands ?u) = Inr (\<lambda>k. 0 + int (count (mset (map unat (u_mjHands ?u))) k))"
        by (rule count_tiles_ok) (use assms(3,4) kinds_bounds in \<open>fastforce+\<close>)
      ultimately show ?thesis using that by (simp add: Newlz_eq)
    qed
    let ?gs = "fst (CanOpSelf_lz m)"
    let ?fl = "add_ops (if g_Op (u_lastOp ?u) \<noteq> HdlPai then AddOp (u_canOpsFlag ?u) ChuPai else u_canOpsFlag ?u) ?gs"
    let ?v = "?u\<lparr>u_canOpsGroup := ?gs, u_waiting := True, u_canOpsFlag := ?fl\<rparr>"
    have self: "on_user i (CanOpSelf (r_laiZi r)) r = (Inr ?fl, r\<lparr>r_Users := (r_Users r)[i := ?v]\<rparr>)"
      using assms(1,5) m by (simp add: on_user_def CanOpSelf_def run_simps Let_def)
    obtain ops where "CanOps ?v = Inr ops" using CanOps_returns [of ?v] assms(2) by auto
    then have ops: "ops_at i (r\<lparr>r_Users := (r_Users r)[i := ?v]\<rparr>) = (Inr ops, r\<lparr>r_Users := (r_Users r)[i := ?v]\<rparr>)"
      using assms(1) by (simp add: ops_at_def user_at_def run_simps)
    show ?thesis using assms(1) True self ops
      by (intro exI [of _ ?v] exI [of _ "[mail 3008 (Out_FaPai (?d\<lparr>fp_CanOpFlag := ?fl, fp_CanOps := ops\<rparr>)) ?u]"])
        (simp add: send_hand_def Let_def run_simps user_at_def Send_eq)
  qed
qed

text \<open>The loop over the players.\<close>

lemma send_hands_run:
  assumes "n \<le> length (r_Users r)" "r_laiZi r \<in> set kinds"
    and "\<forall>u \<in> set (r_Users r). u_mjHands u \<noteq> [] \<and> set (u_mjHands u) \<subseteq> set kinds \<and> length (u_mjHands u) < 128 \<and>
      u_canOpsFlag u = 0 \<and> \<not> u_waiting u"
  shows "\<exists>us out. for_each (send_hand fapai z pizi) [0..<n] r = (Inr (), r\<lparr>r_Users := us, r_out := r_out r @ out\<rparr>) \<and>
    map u_mjHands us = map u_mjHands (r_Users r) \<and> map u_uid us = map u_uid (r_Users r) \<and>
    (\<forall>i < length us. if i < n then u_waiting (us ! i) = (z = u_uid (us ! i)) else us ! i = r_Users r ! i)"
  using assms(1)
proof (induction n)
  case 0
  then show ?case by (intro exI [of _ "r_Users r"] exI [of _ "[]"]) (simp add: ret_def)
next
  case (Suc n)
  then obtain us out where ih: "for_each (send_hand fapai z pizi) [0..<n] r =
      (Inr (), r\<lparr>r_Users := us, r_out := r_out r @ out\<rparr>)"
    "map u_mjHands us = map u_mjHands (r_Users r)" "map u_uid us = map u_uid (r_Users r)"
    "\<forall>i < length us. if i < n then u_waiting (us ! i) = (z = u_uid (us ! i)) else us ! i = r_Users r ! i"
    by auto
  let ?r = "r\<lparr>r_Users := us, r_out := r_out r @ out\<rparr>"
  have len: "length us = length (r_Users r)" using ih(2) by (metis length_map)
  have n: "n < length (r_Users ?r)" using len Suc.prems by simp
  have same: "us ! n = r_Users r ! n" using ih(4) n by simp
  have "us ! n \<in> set (r_Users r)" using same Suc.prems by simp
  then have u: "u_mjHands (us ! n) \<noteq> []" "set (u_mjHands (us ! n)) \<subseteq> set kinds" "length (u_mjHands (us ! n)) < 128"
    "u_canOpsFlag (us ! n) = 0" "\<not> u_waiting (us ! n)"
    using assms(3) by blast+
  from send_hand_run [of n ?r fapai z pizi] n u assms(2)
  obtain u out' where s: "send_hand fapai z pizi n ?r = (Inr (), ?r\<lparr>r_Users := us[n := u], r_out := r_out ?r @ out'\<rparr>)"
    "u_mjHands u = u_mjHands (us ! n)" "u_uid u = u_uid (us ! n)" "u_waiting u \<longleftrightarrow> z = u_uid (us ! n)"
    by auto
  have "for_each (send_hand fapai z pizi) [0..<Suc n] r =
      (Inr (), r\<lparr>r_Users := us[n := u], r_out := r_out r @ (out @ out')\<rparr>)"
    using ih(1) s(1) by (simp add: for_each_append run_simps)
  moreover have "map u_mjHands (us[n := u]) = map u_mjHands (r_Users r)" "map u_uid (us[n := u]) = map u_uid (r_Users r)"
    using Suc.prems by (simp_all add: map_update ih(2,3) s(2,3) same list_update_same_conv)
  moreover have "if i < Suc n then u_waiting (us[n := u] ! i) = (z = u_uid (us[n := u] ! i))
      else us[n := u] ! i = r_Users r ! i" if "i < length us" for i
    using that ih(4) s(3,4) n by (cases "i = n") auto
  ultimately show ?case
    by (intro exI [of _ "us[n := u]"] exI [of _ "out @ out'"] conjI allI impI) (simp_all only: length_list_update)
qed

subsection \<open>The whole deal\<close>

lemma pizi_index:
  assumes "a < 6" "b < 6"
  shows "unat (((9 * 3 + 8) * 2 - (if slt (of_nat a + 1) (of_nat b + 1 :: i32) then of_nat a + 1 else of_nat b + 1) * 2) :: i32)
    = 70 - 2 * (min a b + 1)"
proof -
  have "\<forall>a \<in> {0, 1, 2, 3, 4, 5}. \<forall>b \<in> {0, 1, 2, 3, 4, 5}.
      unat (((9 * 3 + 8) * 2 - (if slt (of_nat a + 1) (of_nat b + 1 :: i32) then of_nat a + 1 else of_nat b + 1) * 2) :: i32)
        = 70 - 2 * (min a b + 1)"
    by code_simp
  moreover have "a \<in> {0, 1, 2, 3, 4, 5}" "b \<in> {0, 1, 2, 3, 4, 5}" using assms by auto
  ultimately show ?thesis by blast
qed

lemma GetLaizi_kind: "v \<in> set kinds \<Longrightarrow> GetLaizi v \<in> set kinds"
proof -
  have "GetLaizi ` set kinds \<subseteq> set kinds"
    using GetLaizi_kinds unfolding set_map [symmetric] by (simp add: kinds_def)
  then show "v \<in> set kinds \<Longrightarrow> GetLaizi v \<in> set kinds" by blast
qed

lemma seat_cells_bound: "i < 4 \<Longrightarrow> n \<in> set (seat_cells i) \<Longrightarrow> n < 53"
  by (auto simp: seat_cells_def split: if_splits)

lemma MajFaPai_run:
  assumes "deal deal_order (Room_Reset rn r) = (Inr fapai, r1)" "r_touZi r1 = [a, b]" "(if slt a b then a else b) = c"
    and "70 - c * 2 = px" "index (r_mj r1) (unat px) = Inr pizi" "r_turn r1 < length (r_Users r1)"
  shows "MajFaPai rn r =
    for_each (send_hand fapai (u_uid (r_Users r1 ! r_turn r1)) \<lparr>d_Index = px, d_Uid = 0, d_MjVal = ucast pizi\<rparr>)
      [0..<length (r_Users r1)] (r1\<lparr>r_piZi := pizi, r_laiZi := GetLaizi pizi, r_waitMulti := False\<rparr>)"
  using assms by (cases "slt a b") (simp_all add: MajFaPai_def Let_def run_simps user_at_def)

lemma MajFaPai_exact:
  assumes "length (r_Users r) = 4" "r_turn r < 4" "mset (r_mj r) = mset BanBiShanMJ" "distinct (map u_uid (r_Users r))"
  shows "\<exists>r' d p. MajFaPai rn r = (Inr (), r') \<and> d = shuffle (rn_cell rn) 135 (r_mj r) \<and>
    p = 70 - 2 * (min (rn_dice1 rn mod 6) (rn_dice2 rn mod 6) + 1) \<and>
    r_mj r' = d \<and> r_mjIndex r' = 53 \<and> r_piZi r' = d ! p \<and> r_laiZi r' = GetLaizi (d ! p) \<and>
    (\<forall>i < 4. u_mjHands (r_Users r' ! ((r_turn r + i) mod 4)) = map ((!) d) (seat_cells i)) \<and>
    (\<forall>j < 4. u_waiting (r_Users r' ! j) \<longleftrightarrow> j = r_turn r) \<and>
    map u_uid (r_Users r') = map u_uid (r_Users r)"
proof -
  let ?d = "shuffle (rn_cell rn) 135 (r_mj r)"
  let ?p = "70 - 2 * (min (rn_dice1 rn mod 6) (rn_dice2 rn mod 6) + 1)"
  let ?r0 = "Room_Reset rn r"
  have len: "length (r_mj r) = 136" using assms(3) by (metis length_BanBiShanMJ size_mset)
  have "mset ?d = mset BanBiShanMJ" using mset_shuffle [of 135 "r_mj r"] len assms(3) by simp
  then have d: "length ?d = 136" "set ?d = set kinds"
    by (metis length_BanBiShanMJ size_mset, metis set_mset_mset set_BanBiShanMJ)
  have r0: "length (r_Users ?r0) = 4" "r_mj ?r0 = ?d" "r_turn ?r0 = r_turn r" "r_mjIndex ?r0 = of_nat 0"
    "r_touZi ?r0 = [of_nat (rn_dice1 rn mod 6) + 1, of_nat (rn_dice2 rn mod 6) + 1]"
    using assms(1) len by (simp_all add: Room_Reset_def)
  have order: "length deal_order = 53" by code_simp
  obtain fapai r1 where r1: "deal deal_order ?r0 = (Inr fapai, r1)" "length (r_Users r1) = 4" "r_mj r1 = ?d"
    "r_turn r1 = r_turn r" "r_touZi r1 = r_touZi ?r0" "r_mjIndex r1 = 53"
    "\<forall>j < 4. r_Users r1 ! j = draws (r_Users ?r0 ! j) (map ((!) ?d) (cells (r_turn r) j 0 deal_order))"
    using deal_run [of ?r0 0 deal_order] r0 d(1) order by auto
  have user: "r_Users r1 ! ((r_turn r + i) mod 4) =
      draws (User_Reset (r_Users r ! ((r_turn r + i) mod 4))) (map ((!) ?d) (seat_cells i))" if "i < 4" for i
    using r1(7) assms(1) that cells_shift [of "r_turn r" i] cells_deal [OF that] by (simp add: Room_Reset_def)
  have seat: "\<exists>i < 4. j = (r_turn r + i) mod 4" if "j < 4" for j
    using that assms(2) by (intro exI [of _ "(j + 4 - r_turn r) mod 4"]) (auto simp: mod_simps)
  have pos: "?p < 136" by simp
  let ?r2 = "r1\<lparr>r_piZi := ?d ! ?p, r_laiZi := GetLaizi (?d ! ?p), r_waitMulti := False\<rparr>"
  have wild: "r_laiZi ?r2 \<in> set kinds" using GetLaizi_kind nth_mem [of ?p ?d] d pos by simp
  have hands: "u_mjHands u \<noteq> [] \<and> set (u_mjHands u) \<subseteq> set kinds \<and> length (u_mjHands u) < 128 \<and>
      u_canOpsFlag u = 0 \<and> \<not> u_waiting u" if mem: "u \<in> set (r_Users ?r2)" for u
  proof -
    obtain j where j: "j < 4" "u = r_Users r1 ! j" using mem r1(2) by (auto simp: in_set_conv_nth)
    then obtain i where i: "i < 4" "j = (r_turn r + i) mod 4" using seat by blast
    have "?d ! n \<in> set kinds" if "n \<in> set (seat_cells i)" for n
      using seat_cells_bound [OF i(1) that] nth_mem [of n ?d] d by simp
    moreover have "seat_cells i \<noteq> []" "length (seat_cells i) < 128" by (simp_all add: seat_cells_def)
    ultimately show ?thesis using user [OF i(1)] i(2) j(2) by (auto simp: User_Reset_def)
  qed
  let ?z = "u_uid (r_Users r1 ! r_turn r)"
  let ?t1 = "of_nat (rn_dice1 rn mod 6) + 1 :: i32"
  let ?t2 = "of_nat (rn_dice2 rn mod 6) + 1 :: i32"
  obtain c px where c: "(if slt ?t1 ?t2 then ?t1 else ?t2) = c" "70 - c * 2 = px" by blast
  have px: "unat px = ?p"
    using pizi_index [of "rn_dice1 rn mod 6" "rn_dice2 rn mod 6"] unfolding c(1) by (simp add: c(2))
  let ?hand = "send_hand fapai ?z \<lparr>d_Index = px, d_Uid = 0, d_MjVal = ucast (?d ! ?p)\<rparr>"
  have run: "MajFaPai rn r = for_each ?hand [0..<4] ?r2"
    using MajFaPai_run [OF r1(1) r1(5) [unfolded r0(5)] c, of "?d ! ?p"] assms(2) d(1) px r1(2-4) by simp
  obtain us out where us: "for_each ?hand [0..<4] ?r2 = (Inr (), ?r2\<lparr>r_Users := us, r_out := r_out ?r2 @ out\<rparr>)"
    "map u_mjHands us = map u_mjHands (r_Users ?r2)" "map u_uid us = map u_uid (r_Users ?r2)"
    "\<forall>i < length us. if i < 4 then u_waiting (us ! i) = (?z = u_uid (us ! i)) else us ! i = r_Users ?r2 ! i"
  proof -
    have "4 \<le> length (r_Users ?r2)" using r1(2) by simp
    from send_hands_run [OF this wild, of fapai ?z] hands that show thesis by blast
  qed
  have uids: "map u_uid (r_Users r1) = map u_uid (r_Users r)"
  proof (rule nth_equalityI)
    fix j assume "j < length (map u_uid (r_Users r1))"
    then have "j < 4" using r1(2) by simp
    then show "map u_uid (r_Users r1) ! j = map u_uid (r_Users r) ! j"
      using r1(2,7) assms(1) by (simp add: Room_Reset_def User_Reset_def)
  qed (simp add: r1(2) assms(1))
  have lus: "length us = 4" using arg_cong [OF us(2), of length] r1(2) by simp
  have us_hands: "u_mjHands (us ! j) = u_mjHands (r_Users r1 ! j)" if "j < 4" for j
    using arg_cong [OF us(2), of "\<lambda>xs. xs ! j"] lus r1(2) that by simp
  have us_uid: "u_uid (us ! j) = map u_uid (r_Users r) ! j" if "j < 4" for j
    using arg_cong [OF us(3), of "\<lambda>xs. xs ! j"] lus r1(2) that by (simp add: uids [symmetric])
  have "u_mjHands (us ! ((r_turn r + i) mod 4)) = map ((!) ?d) (seat_cells i)" if "i < 4" for i
    using user [OF that] by (simp add: us_hands User_Reset_def)
  moreover have "u_waiting (us ! j) \<longleftrightarrow> j = r_turn r" if "j < 4" for j
  proof -
    have "?z = map u_uid (r_Users r) ! r_turn r"
      using assms(2) r1(2) by (simp add: uids [symmetric])
    then have "u_waiting (us ! j) \<longleftrightarrow> map u_uid (r_Users r) ! r_turn r = map u_uid (r_Users r) ! j"
      using us(4) lus that by (simp add: us_uid)
    then show ?thesis
      using nth_eq_iff_index_eq [OF assms(4), of "r_turn r" j] assms(1,2) that by auto
  qed
  ultimately show ?thesis
    unfolding run us(1)
    by (intro exI [of _ "?r2\<lparr>r_Users := us, r_out := r_out ?r2 @ out\<rparr>"] exI [of _ ?d] exI [of _ ?p] conjI allI impI)
      (simp_all add: r1 us(3) uids)
qed

text \<open>
  C5. The deal of a table with four players does not panic. From the shuffled pile the first player gets
  the cells 0-3, 16-19, 32-35, 48 and 52, the next one 4-7, 20-23, 36-39 and 49, and so on; 53 tiles are
  drawn; the indicator is the cell that the lower of the two dice names and decides the wild tile; and
  the first player, with 14 tiles, is the only one waited for.
\<close>

theorem deal_exact:
  assumes "length (r_Users r) = 4" "r_turn r < 4" "mset (r_mj r) = mset BanBiShanMJ" "distinct (map u_uid (r_Users r))"
  shows "\<exists>r' d p. MajFaPai rn r = (Inr (), r') \<and> d = shuffle (rn_cell rn) 135 (r_mj r) \<and>
    p = 70 - 2 * (min (rn_dice1 rn mod 6) (rn_dice2 rn mod 6) + 1) \<and>
    r_mj r' = d \<and> r_mjIndex r' = 53 \<and> r_piZi r' = d ! p \<and> r_laiZi r' = GetLaizi (d ! p) \<and>
    (\<forall>i < 4. u_mjHands (r_Users r' ! ((r_turn r + i) mod 4)) = map ((!) d) (seat_cells i)) \<and>
    (\<forall>j < 4. u_waiting (r_Users r' ! j) \<longleftrightarrow> j = r_turn r)"
  using MajFaPai_exact [OF assms, of rn] by blast

definition full_table :: Room where
  "full_table = AddUser 4 0 (AddUser 3 0 (AddUser 2 0 (AddUser 1 0 (NewRoom 7))))"

lemma deal_exact_witness:
  "\<exists>r' d. MajFaPai \<lparr>rn_cell = \<lambda>i. i, rn_dice1 = 3, rn_dice2 = 8\<rparr> full_table = (Inr (), r') \<and>
    u_mjHands (r_Users r' ! 1) = map ((!) d) [4, 5, 6, 7, 20, 21, 22, 23, 36, 37, 38, 39, 49] \<and> r_piZi r' = d ! 64"
proof -
  have "length (r_Users full_table) = 4" "r_turn full_table = 0" "mset (r_mj full_table) = mset BanBiShanMJ"
    "distinct (map u_uid (r_Users full_table))"
    by (simp_all add: full_table_def AddUser_def NewRoom_def)
  then obtain r' d p where "MajFaPai \<lparr>rn_cell = \<lambda>i. i, rn_dice1 = 3, rn_dice2 = 8\<rparr> full_table = (Inr (), r')"
    "r_piZi r' = d ! p" "p = 70 - 2 * (min (3 mod 6) (8 mod 6) + 1)"
    "\<forall>i < 4. u_mjHands (r_Users r' ! ((0 + i) mod 4)) = map ((!) d) (seat_cells i)"
    using deal_exact [of full_table "\<lparr>rn_cell = \<lambda>i. i, rn_dice1 = 3, rn_dice2 = 8\<rparr>"] by auto
  moreover from this(4) have "u_mjHands (r_Users r' ! 1) = map ((!) d) (seat_cells 1)" by fastforce
  moreover have "seat_cells 1 = [4, 5, 6, 7, 20, 21, 22, 23, 36, 37, 38, 39, 49]" by code_simp
  ultimately show ?thesis by auto
qed

end
