(* ===== verification/Slots.thy ===== *)
theory Slots
  imports Prelude
begin

text \<open>
  \<open>examples/hall/slots\<close>: the slot machine. Its random numbers come from a source in the state, the
  machine of a player is a reference into a store, as the map \<open>data\<close> of the source and its callers share
  it, and the account of a player is behind \<open>db.UpdateMoney\<close>: its answer is a parameter and
  every call is recorded in \<open>sl_paid\<close>.
\<close>

subsection \<open>Configuration\<close>

abbreviation (input) ElemWild :: "'a::numeral" where "ElemWild \<equiv> 99"
abbreviation (input) ElemBonus :: "'a::numeral" where "ElemBonus \<equiv> 98"
abbreviation (input) ElemFree :: "'a::numeral" where "ElemFree \<equiv> 97"

record SlotsElem =
  el_ElemId :: i32
  el_ElemName :: string
  el_Multi3 :: i32

record SlotsLine =
  ln_LineId :: i32
  ln_LinePos :: "i32 list"

record BetConf =
  bc_Bet :: "i32 list"
  bc_Level :: "i32 list"
  bc_Lines :: "i32 list"

record ReelConf =
  rl_Weight :: "i32 list"
  rl_Length :: i32

record FreeConf =
  fr_Count3 :: i32
  fr_Count4 :: i32
  fr_Count5 :: i32

record BonusConf =
  bo_Elem :: "i32 list"
  bo_Multi :: "i32 list"
  bo_Weight :: "i32 list"

text \<open>A nil pointer to the free games or the bonus is \<open>None\<close>.\<close>

record SlotsConf =
  sc_GameID :: i32
  sc_ElemConf :: "SlotsElem list"
  sc_RouteConf :: "SlotsLine list"
  sc_ReelsConf :: "ReelConf list"
  sc_BetConf :: BetConf
  sc_FreeConf :: "FreeConf option"
  sc_BonusConf :: "BonusConf option"

record SlotsData =
  sd_conf :: SlotsConf
  sd_Uid :: u32
  sd_Board :: "i32 list"
  sd_FreeSpin :: i32
  sd_Bonus :: bool
  sd_Free :: bool

record Slots =
  sl_heap :: "nat \<Rightarrow> SlotsData"
  sl_next :: nat
  sl_data :: "u32 \<Rightarrow> nat option"
  sl_rnd :: "nat \<Rightarrow> nat"
  sl_rn :: nat
  sl_paid :: "(u32 \<times> i64) list"

text \<open>The loop over the bets reads the level with the same index.\<close>

fun Valid_from :: "i32 list \<Rightarrow> i32 list \<Rightarrow> i32 \<Rightarrow> i32 \<Rightarrow> bool \<Rightarrow> bool \<Rightarrow> panic + bool" where
  "Valid_from [] ls bet level betOk levelOk = Inr (betOk \<and> levelOk)"
| "Valid_from (b # bs) [] bet level betOk levelOk = Inl IndexOutOfRange"
| "Valid_from (b # bs) (l # ls) bet level betOk levelOk = Valid_from bs ls bet level (betOk \<or> b = bet) (levelOk \<or> l = level)"

definition Valid :: "BetConf \<Rightarrow> i32 \<Rightarrow> i32 \<Rightarrow> panic + bool" where
  "Valid b bet level = Valid_from (bc_Bet b) (bc_Level b) bet level False False"

subsection \<open>Random choices\<close>

text \<open>\<open>rand.Int31n\<close> panics unless its argument is positive.\<close>

definition Int31n :: "i32 \<Rightarrow> (Slots, i32) act" where
  "Int31n n =
     (if slt 0 n then
        seq get_st (\<lambda>s. seq (modify (\<lambda>s. s\<lparr>sl_rn := sl_rn s + 1\<rparr>)) (\<lambda>_.
        ret (of_nat (sl_rnd s (sl_rn s) mod unat n))))
      else throw Explicit)"

definition Weight_Sum :: "i32 list \<Rightarrow> i32" where
  "Weight_Sum weights = foldl (\<lambda>s w. s + w) 0 weights"

text \<open>The index whose share of the sum holds the random number, if there is one.\<close>

fun pick :: "nat \<Rightarrow> i32 \<Rightarrow> i32 list \<Rightarrow> nat option" where
  "pick i random [] = None"
| "pick i random (weight # ws) = (if slt random weight then Some i else pick (i + 1) (random - weight) ws)"

definition Reel_Sum :: "ReelConf \<Rightarrow> i32" where
  "Reel_Sum p = Weight_Sum (rl_Weight p)"

definition Reel_Get :: "ReelConf \<Rightarrow> i32 \<Rightarrow> (Slots, i32) act" where
  "Reel_Get p sm =
     seq (Int31n sm) (\<lambda>random. ret (case pick 0 random (rl_Weight p) of Some i \<Rightarrow> of_nat i | None \<Rightarrow> - 1))"

text \<open>Reading the counts of a nil pointer panics; other counts are not read.\<close>

definition GetSpin :: "FreeConf option \<Rightarrow> i32 \<Rightarrow> panic + i32" where
  "GetSpin f cnt =
     (if cnt = 3 then (case f of None \<Rightarrow> Inl NilDereference | Some f \<Rightarrow> Inr (fr_Count3 f))
      else if cnt = 4 then (case f of None \<Rightarrow> Inl NilDereference | Some f \<Rightarrow> Inr (fr_Count4 f))
      else if cnt = 5 then (case f of None \<Rightarrow> Inl NilDereference | Some f \<Rightarrow> Inr (fr_Count5 f))
      else Inr 0)"

definition Bonus_Sum :: "BonusConf \<Rightarrow> i32" where
  "Bonus_Sum b = Weight_Sum (bo_Weight b)"

definition Bonus_Rand :: "BonusConf \<Rightarrow> i32 \<Rightarrow> (Slots, i32 \<times> i32) act" where
  "Bonus_Rand b sm =
     seq (Int31n sm) (\<lambda>random.
     case pick 0 random (bo_Weight b) of
       None \<Rightarrow> ret (0, 0)
     | Some i \<Rightarrow> lift (bindE (index (bo_Elem b) i) (\<lambda>e. bindE (index (bo_Multi b) i) (\<lambda>m. Inr (e, m)))))"

subsection \<open>The machine\<close>

definition GetFuConf :: SlotsConf where
  "GetFuConf = \<lparr>sc_GameID = 50,
     sc_ElemConf =
       [\<lparr>el_ElemId = 1, el_ElemName = ''A'', el_Multi3 = 1\<rparr>,
        \<lparr>el_ElemId = 2, el_ElemName = ''B'', el_Multi3 = 2\<rparr>,
        \<lparr>el_ElemId = 3, el_ElemName = ''C'', el_Multi3 = 3\<rparr>,
        \<lparr>el_ElemId = 4, el_ElemName = [CHR 0xE6, CHR 0x81, CHR 0xAD], el_Multi3 = 6\<rparr>,
        \<lparr>el_ElemId = 5, el_ElemName = [CHR 0xE5, CHR 0x96, CHR 0x9C], el_Multi3 = 8\<rparr>,
        \<lparr>el_ElemId = 6, el_ElemName = [CHR 0xE7, CHR 0x99, CHR 0xBC], el_Multi3 = 9\<rparr>,
        \<lparr>el_ElemId = 7, el_ElemName = [CHR 0xE8, CHR 0xB2, CHR 0xA1], el_Multi3 = 10\<rparr>,
        \<lparr>el_ElemId = ElemFree, el_ElemName = ''Free'', el_Multi3 = 0\<rparr>,
        \<lparr>el_ElemId = ElemBonus, el_ElemName = ''Bonus'', el_Multi3 = 0\<rparr>,
        \<lparr>el_ElemId = ElemWild, el_ElemName = ''Wild'', el_Multi3 = 0\<rparr>],
     sc_RouteConf =
       [\<lparr>ln_LineId = 1, ln_LinePos = [1, 4, 7]\<rparr>, \<lparr>ln_LineId = 2, ln_LinePos = [1, 5, 9]\<rparr>,
        \<lparr>ln_LineId = 3, ln_LinePos = [2, 5, 8]\<rparr>, \<lparr>ln_LineId = 4, ln_LinePos = [3, 5, 7]\<rparr>,
        \<lparr>ln_LineId = 5, ln_LinePos = [3, 6, 9]\<rparr>],
     sc_ReelsConf =
       [\<lparr>rl_Weight = [30, 20, 20, 10, 10, 10, 10, 3, 3, 3], rl_Length = 3\<rparr>,
        \<lparr>rl_Weight = [30, 20, 20, 10, 10, 10, 10, 3, 3, 3], rl_Length = 4\<rparr>,
        \<lparr>rl_Weight = [30, 20, 20, 10, 10, 10, 10, 3, 3, 3], rl_Length = 3\<rparr>],
     sc_BetConf = \<lparr>bc_Bet = [1000], bc_Level = [1, 2, 4, 8, 16, 32, 64], bc_Lines = [5]\<rparr>,
     sc_FreeConf = None,
     sc_BonusConf = Some \<lparr>bo_Elem = [1, 2, 3], bo_Multi = [8, 16, 32], bo_Weight = [10, 4, 1]\<rparr>\<rparr>"

text \<open>A new machine has no uid, and it is stored under the number of the game.\<close>

definition GetSlotsData :: "u32 \<Rightarrow> u32 \<Rightarrow> Slots \<Rightarrow> nat option \<times> Slots" where
  "GetSlotsData uid gameId s =
     (case sl_data s uid of
        Some k \<Rightarrow> (Some k, s)
      | None \<Rightarrow>
          if gameId = 50 then
            (let k = sl_next s;
                 slots = \<lparr>sd_conf = GetFuConf, sd_Uid = 0, sd_Board = [1, 2, 3, 4, 5, 6, 7, ElemFree, ElemBonus, ElemWild],
                          sd_FreeSpin = 0, sd_Bonus = False, sd_Free = False\<rparr>
             in (Some k, s\<lparr>sl_heap := (sl_heap s)(k := slots), sl_next := k + 1, sl_data := (sl_data s)(gameId \<mapsto> k)\<rparr>))
          else (None, s))"

definition DelSlotsData :: "u32 \<Rightarrow> Slots \<Rightarrow> Slots" where
  "DelSlotsData uid s = s\<lparr>sl_data := (sl_data s)(uid := None)\<rparr>"

definition set_cell :: "nat \<Rightarrow> nat \<Rightarrow> i32 \<Rightarrow> (Slots, unit) act" where
  "set_cell k idx e =
     seq get_st (\<lambda>s.
     if idx < length (sd_Board (sl_heap s k)) then
       modify (\<lambda>s. s\<lparr>sl_heap := (sl_heap s)(k := (sl_heap s k)\<lparr>sd_Board := (sd_Board (sl_heap s k))[idx := e]\<rparr>)\<rparr>)
     else throw IndexOutOfRange)"

text \<open>The cells of one reel, from the cell \<open>idx\<close> on.\<close>

fun spin_reel :: "nat \<Rightarrow> ReelConf \<Rightarrow> nat \<Rightarrow> nat \<Rightarrow> (Slots, nat) act" where
  "spin_reel k reel 0 idx = ret idx"
| "spin_reel k reel (Suc n) idx =
     seq (Reel_Get reel (Reel_Sum reel)) (\<lambda>i.
     if slt i 0 then spin_reel k reel n idx
     else
       seq get_st (\<lambda>s.
       seq (lift (index (sc_ElemConf (sd_conf (sl_heap s k))) (unat i))) (\<lambda>e.
       seq (set_cell k idx (el_ElemId e)) (\<lambda>_. spin_reel k reel n (idx + 1)))))"

fun spin_reels :: "nat \<Rightarrow> ReelConf list \<Rightarrow> nat \<Rightarrow> (Slots, nat) act" where
  "spin_reels k [] idx = ret idx"
| "spin_reels k (reel # reels) idx =
     seq (spin_reel k reel (nat (sint (rl_Length reel))) idx) (\<lambda>idx. spin_reels k reels idx)"

text \<open>Logging the board reel by reel slices it: behind its end, or backwards, that panics.\<close>

fun log_reels :: "i32 list \<Rightarrow> ReelConf list \<Rightarrow> int \<Rightarrow> panic + unit" where
  "log_reels board [] idx = Inr ()"
| "log_reels board (reel # reels) idx =
     (let to = idx + sint (rl_Length reel)
      in if idx \<le> to \<and> to \<le> int (length board) then log_reels board reels to else Inl IndexOutOfRange)"

definition slots_shuffle :: "nat \<Rightarrow> (Slots, unit) act" where
  "slots_shuffle k =
     seq get_st (\<lambda>s. let reels = sc_ReelsConf (sd_conf (sl_heap s k)) in
     seq (spin_reels k reels 0) (\<lambda>_.
     seq get_st (\<lambda>s. lift (log_reels (sd_Board (sl_heap s k)) reels 0))))"

text \<open>Reading a slice with an \<open>int32\<close>.\<close>

definition at_i32 :: "'a list \<Rightarrow> i32 \<Rightarrow> panic + 'a" where
  "at_i32 xs i = (if slt i 0 then Inl IndexOutOfRange else index xs (unat i))"

text \<open>
  The symbol a line pays for, from the symbol \<open>dest\<close> of its first cell: free games and bonuses pay
  nothing, a wild symbol stands for any other.
\<close>

fun line_from :: "i32 list \<Rightarrow> i32 \<Rightarrow> i32 list \<Rightarrow> panic + i32 option" where
  "line_from board dest [] = Inr (Some dest)"
| "line_from board dest (p # ps) =
     bindE (at_i32 board p) (\<lambda>elem.
     if elem = ElemBonus \<or> elem = ElemFree then Inr None
     else if elem = ElemWild then line_from board dest ps
     else if dest = ElemWild then line_from board elem ps
     else if elem \<noteq> dest then Inr None
     else line_from board dest ps)"

definition line_symbol :: "i32 list \<Rightarrow> i32 list \<Rightarrow> panic + i32 option" where
  "line_symbol board posArr =
     bindE (index posArr 0) (\<lambda>p.
     bindE (at_i32 board p) (\<lambda>dest.
     if dest \<noteq> ElemBonus \<and> dest \<noteq> ElemFree then line_from board dest (tl posArr) else Inr None))"

definition multi_of :: "SlotsElem list \<Rightarrow> i32 \<Rightarrow> i32" where
  "multi_of elems dest = foldl (\<lambda>m e. if el_ElemId e = dest then el_Multi3 e else m) 0 elems"

text \<open>The lines that pay and the sum of what they pay.\<close>

fun pay_lines :: "SlotsElem list \<Rightarrow> i32 list \<Rightarrow> i64 \<Rightarrow> SlotsLine list \<Rightarrow> panic + (i32 list \<times> i64)" where
  "pay_lines elems board bet [] = Inr ([], 0)"
| "pay_lines elems board bet (item # items) =
     bindE (line_symbol board (ln_LinePos item)) (\<lambda>sym.
     bindE (pay_lines elems board bet items) (\<lambda>(lines, sumWin).
     case sym of
       None \<Rightarrow> Inr (lines, sumWin)
     | Some dest \<Rightarrow>
         Inr (ln_LineId item # lines,
              if slt 0 (multi_of elems dest) then scast (multi_of elems dest) * bet + sumWin else sumWin)))"

text \<open>How often a symbol is on the board, and where; the positions start with three zeros.\<close>

definition Elem :: "i32 list \<Rightarrow> i32 \<Rightarrow> i32 \<times> i32 list option" where
  "Elem board elem =
     (let cells = map fst (filter (\<lambda>(i, e). e = elem) (enumerate 0 board));
          num = of_nat (length cells)
      in (num, if sint num \<ge> 3 then Some ([0, 0, 0] @ map of_nat cells) else None))"

record SlotsBonus =
  sb_Pos :: "i32 list"
  sb_Board :: "i32 list"
  sb_Win :: i64

record SlotsSpinRsp =
  sr_Bet :: i64
  sr_Win :: i64
  sr_Board :: "i32 list"
  sr_Lines :: "i32 list"
  sr_Free :: bool
  sr_FreeData :: "(i32 list \<times> i32) option"
  sr_Bonus :: bool
  sr_BonusData :: "SlotsBonus option"
  sr_LeftSpin :: i32
  sr_Money :: i64

definition bonus :: "BonusConf option \<Rightarrow> i64 \<Rightarrow> i32 list \<Rightarrow> (Slots, SlotsBonus) act" where
  "bonus bc bet pos =
     (case bc of
        None \<Rightarrow> throw NilDereference
      | Some b \<Rightarrow>
          (let sm = Bonus_Sum b in
           seq (Bonus_Rand b sm) (\<lambda>(b1, m1).
           seq (Bonus_Rand b sm) (\<lambda>(b2, _).
           seq (Bonus_Rand b sm) (\<lambda>(b3, _).
           ret \<lparr>sb_Pos = pos, sb_Board = [b1, b2, b3], sb_Win = bet * scast m1\<rparr>)))))"

definition UpdateMoney :: "(u32 \<Rightarrow> i64 \<Rightarrow> i64 option) \<Rightarrow> u32 \<Rightarrow> i64 \<Rightarrow> (Slots, i64 option) act" where
  "UpdateMoney redis uid change =
     seq (modify (\<lambda>s. s\<lparr>sl_paid := sl_paid s @ [(uid, change)]\<rparr>)) (\<lambda>_. ret (redis uid change))"

text \<open>Free games and the bonus, from three symbols on.\<close>

definition free_games :: "SlotsConf \<Rightarrow> i32 list \<Rightarrow> SlotsSpinRsp \<Rightarrow> panic + SlotsSpinRsp" where
  "free_games conf board rsp =
     (case Elem board ElemFree of
        (cnt, None) \<Rightarrow> Inr rsp
      | (cnt, Some pos) \<Rightarrow>
          bindE (GetSpin (sc_FreeConf conf) cnt) (\<lambda>n. Inr (rsp\<lparr>sr_Free := True, sr_FreeData := Some (pos, n)\<rparr>)))"

definition bonus_games :: "SlotsConf \<Rightarrow> i32 list \<Rightarrow> i64 \<Rightarrow> SlotsSpinRsp \<Rightarrow> (Slots, SlotsSpinRsp) act" where
  "bonus_games conf board bet rsp =
     (case Elem board ElemBonus of
        (cnt, None) \<Rightarrow> ret rsp
      | (cnt, Some pos) \<Rightarrow>
          seq (bonus (sc_BonusConf conf) bet pos) (\<lambda>b. ret (rsp\<lparr>sr_Bonus := True, sr_BonusData := Some b\<rparr>)))"

text \<open>The sum that is paid out includes the bonus. An error of the account is \<open>None\<close>.\<close>

definition Spin :: "(u32 \<Rightarrow> i64 \<Rightarrow> i64 option) \<Rightarrow> nat \<Rightarrow> i64 \<Rightarrow> (Slots, SlotsSpinRsp option) act" where
  "Spin redis k bet =
     seq (slots_shuffle k) (\<lambda>_.
     seq get_st (\<lambda>s. let d = sl_heap s k; conf = sd_conf d; board = sd_Board d in
     seq (lift (pay_lines (sc_ElemConf conf) board bet (sc_RouteConf conf))) (\<lambda>(lines, sumWin).
     let rsp = \<lparr>sr_Bet = bet, sr_Win = sumWin, sr_Board = board, sr_Lines = lines, sr_Free = False,
                sr_FreeData = None, sr_Bonus = False, sr_BonusData = None, sr_LeftSpin = sd_FreeSpin d, sr_Money = 0\<rparr> in
     seq (lift (free_games conf board rsp)) (\<lambda>rsp.
     seq (bonus_games conf board bet rsp) (\<lambda>rsp.
     let sumWin = sumWin + (case sr_BonusData rsp of None \<Rightarrow> 0 | Some b \<Rightarrow> sb_Win b) in
     seq (UpdateMoney redis (sd_Uid d) (sumWin - bet)) (\<lambda>money.
     ret (map_option (\<lambda>m. rsp\<lparr>sr_Money := m\<rparr>) money)))))))"

end
