(* ===== verification/HallRoute.thy ===== *)
theory HallRoute
  imports Slots LocalBase
begin

text \<open>
  \<open>examples/hall/route/route.go\<close> and the lists of \<open>examples/db/config.go\<close>: the handlers of the hall, which
  puts waiting players together into rooms and runs the slot machines. Messages that leave are recorded in
  \<open>hl_out\<close>; what the game servers answer to a status request is a stream in the state; unmarshalling, the
  account and the lists kept in Redis are parameters.
\<close>

subsection \<open>Lists\<close>

record GameInfo =
  gi_GameId :: u32
  gi_Status :: int
  gi_StartTime :: u32
  gi_EndTime :: u32

record RoomInfo =
  ri_ServerId :: u32
  ri_RoomId :: u32
  ri_Tag :: u32
  ri_GameId :: u32
  ri_Level :: u32
  ri_Info :: string

text \<open>The variables are set when the program starts; a nil one would be read from Redis.\<close>

definition gameList :: "u32 \<Rightarrow> GameInfo list option" where
  "gameList now = Some
     [\<lparr>gi_GameId = 50, gi_Status = 1, gi_StartTime = now, gi_EndTime = 0\<rparr>,
      \<lparr>gi_GameId = 1, gi_Status = 1, gi_StartTime = now, gi_EndTime = 0\<rparr>]"

definition GetGameList :: "GameInfo list option \<Rightarrow> GameInfo list option \<Rightarrow> GameInfo list option" where
  "GetGameList redis gl = (case gl of None \<Rightarrow> redis | Some gs \<Rightarrow> Some gs)"

definition roomList :: "RoomInfo list option" where
  "roomList = Some
     [\<lparr>ri_ServerId = 8, ri_RoomId = 1, ri_Tag = 0, ri_GameId = 1, ri_Level = 1,
       ri_Info = map char_of [0xE5, 0x8D, 0x8A, 0xE5, 0xA3, 0x81, 0xE5, 0xB1, 0xB1, 0xE9, 0xBA, 0xBB, 0xE5, 0xB0, 0x86 :: nat]\<rparr>]"

definition GetRoomList :: "RoomInfo list option \<Rightarrow> RoomInfo list option \<Rightarrow> u32 \<Rightarrow> RoomInfo list option" where
  "GetRoomList redis rl gid =
     (case (case rl of None \<Rightarrow> redis | Some rs \<Rightarrow> Some rs) of
        None \<Rightarrow> None
      | Some rs \<Rightarrow> Some (filter (\<lambda>ptr. ri_GameId ptr = gid) rs))"

subsection \<open>State and messages\<close>

record HallUser =
  hu_Uid :: u32
  hu_GateId :: u16
  hu_GameId :: u32
  hu_Multi :: u32
  hu_RoomId :: u32

record EnterSlotsRsp =
  es_GameId :: u32
  es_Bet :: "i32 list"
  es_Level :: "i32 list"
  es_Line :: "i32 list"
  es_Lines :: "SlotsLine list"
  es_Elems :: "SlotsElem list"

datatype hall_msg =
    Hall_Games "GameInfo list option" | Hall_Rooms "RoomInfo list option"
  | Hall_Reconnect u32 u32 u32
  | Hall_Start u32 "(u32 \<times> u32) list"
  | Hall_EnterSlots EnterSlotsRsp | Hall_Spin "SlotsSpinRsp option"

text \<open>A message to a server, or to a player behind a gate.\<close>

record hall_sent =
  hs_svid :: u16
  hs_uid :: "u32 option"
  hs_cmd :: u16
  hs_msg :: hall_msg

record HallLocal =
  hl_users :: "u32 \<Rightarrow> HallUser option"
  hl_incRoomId :: u32
  hl_slots :: Slots
  hl_status :: "nat \<Rightarrow> u32 option"
  hl_asked :: nat
  hl_out :: "hall_sent list"

definition NewHall :: "Slots \<Rightarrow> (nat \<Rightarrow> u32 option) \<Rightarrow> HallLocal" where
  "NewHall sl status = \<lparr>hl_users = Map.empty, hl_incRoomId = 0, hl_slots = sl, hl_status = status, hl_asked = 0, hl_out = []\<rparr>"

definition hall_Send :: "u16 \<Rightarrow> u32 option \<Rightarrow> u16 \<Rightarrow> hall_msg \<Rightarrow> (HallLocal, unit) act" where
  "hall_Send svid uid cmd msg =
     modify (\<lambda>l. l\<lparr>hl_out := hl_out l @ [\<lparr>hs_svid = svid, hs_uid = uid, hs_cmd = cmd, hs_msg = msg\<rparr>]\<rparr>)"

text \<open>The remote call for the room a player is in; \<open>None\<close> is an error.\<close>

definition ask_status :: "(HallLocal, u32 option) act" where
  "ask_status =
     seq get_st (\<lambda>l. seq (modify (\<lambda>l. l\<lparr>hl_asked := hl_asked l + 1\<rparr>)) (\<lambda>_. ret (hl_status l (hl_asked l))))"

subsection \<open>Handlers\<close>

record ListReq =
  lr_Uid :: u32
  lr_GateId :: u32
  lr_GameId :: u32

text \<open>\<open>he_order n users\<close> is the order in which Go visits the users on the \<open>n\<close>-th visit.\<close>

record HallEnv =
  he_games :: "GameInfo list option"
  he_redis_games :: "GameInfo list option"
  he_redis_rooms :: "RoomInfo list option"
  he_money :: "u32 \<Rightarrow> i64 \<Rightarrow> i64 option"
  he_order :: "nat \<Rightarrow> (u32 \<Rightarrow> HallUser option) \<Rightarrow> u32 list"

definition hall_offline :: "(HallLocal, unit) act" where
  "hall_offline = ret ()"

definition getGameList :: "HallEnv \<Rightarrow> u16 \<Rightarrow> ListReq option \<Rightarrow> (HallLocal, unit) act" where
  "getGameList env cmd req =
     (case req of
        None \<Rightarrow> ret ()
      | Some q \<Rightarrow> hall_Send (Svid 3 (ucast (lr_GateId q))) (Some (lr_Uid q)) cmd
          (Hall_Games (GetGameList (he_redis_games env) (he_games env))))"

definition getRoomList :: "HallEnv \<Rightarrow> u16 \<Rightarrow> ListReq option \<Rightarrow> (HallLocal, unit) act" where
  "getRoomList env cmd req =
     (case req of
        None \<Rightarrow> ret ()
      | Some q \<Rightarrow> hall_Send (Svid 3 (ucast (lr_GateId q))) (Some (lr_Uid q)) cmd
          (Hall_Rooms (GetRoomList (he_redis_rooms env) roomList (lr_GameId q))))"

record EnterReq =
  er_Uid :: u32
  er_GateId :: u32
  er_GameId :: u32
  er_RoomId :: u32
  er_Multi :: u32

definition fits :: "EnterReq \<Rightarrow> (u32 \<Rightarrow> HallUser option) \<Rightarrow> u32 \<Rightarrow> bool" where
  "fits q users uid =
     (case users uid of
        None \<Rightarrow> False
      | Some user \<Rightarrow> uid \<noteq> er_Uid q \<and> hu_GameId user = er_GameId q \<and> hu_Multi user = er_Multi q \<and> hu_RoomId user = 0)"

text \<open>The player waits, and with three others who fit a room is made up.\<close>

definition join :: "u32 list \<Rightarrow> u32 \<Rightarrow> (u32 \<Rightarrow> HallUser option) \<Rightarrow> u32 \<Rightarrow> HallUser option" where
  "join uids rid users =
     foldl (\<lambda>us uid. us(uid := map_option (\<lambda>u. u\<lparr>hu_RoomId := rid\<rparr>) (us uid))) users uids"

definition match_up :: "HallEnv \<Rightarrow> u16 \<Rightarrow> EnterReq \<Rightarrow> (HallLocal, unit) act" where
  "match_up env svid q =
     seq get_st (\<lambda>l.
     let others = take 3 (filter (fits q (hl_users l)) (he_order env (hl_asked l) (hl_users l)));
         matchUser = (er_Uid q, er_GateId q) #
           map (\<lambda>uid. case hl_users l uid of None \<Rightarrow> (0, 0) | Some u \<Rightarrow> (hu_Uid u, ucast (hu_GateId u))) others
     in if length others < 3 then ret ()
        else
          seq (modify (\<lambda>l. l\<lparr>hl_incRoomId := hl_incRoomId l + 1\<rparr>)) (\<lambda>_.
          seq (modify (\<lambda>l. l\<lparr>hl_users := join (er_Uid q # others) (hl_incRoomId l) (hl_users l)\<rparr>)) (\<lambda>_.
          seq get_st (\<lambda>l. hall_Send svid None 3001 (Hall_Start (hl_incRoomId l) matchUser)))))"

definition enterRoom :: "HallEnv \<Rightarrow> EnterReq option \<Rightarrow> (HallLocal, unit) act" where
  "enterRoom env req =
     (case req of
        None \<Rightarrow> ret ()
      | Some q \<Rightarrow>
          let svid = Svid 8 (ucast (er_GameId q)) in
          seq get_st (\<lambda>l.
          case (case hl_users l (er_Uid q) of None \<Rightarrow> None | Some g \<Rightarrow> if hu_RoomId g > 0 then Some g else None) of
            Some g \<Rightarrow> hall_Send svid None 3006 (Hall_Reconnect (er_Uid q) (er_GateId q) (hu_RoomId g))
          | None \<Rightarrow>
              seq ask_status (\<lambda>grsp.
              case grsp of
                None \<Rightarrow> ret ()
              | Some rid \<Rightarrow>
                  if rid \<noteq> 0 then
                    seq (modify (\<lambda>l. l\<lparr>hl_users := (hl_users l)(er_Uid q \<mapsto>
                      (case hl_users l (er_Uid q) of
                         None \<Rightarrow> \<lparr>hu_Uid = er_Uid q, hu_GateId = ucast (er_GateId q), hu_GameId = er_GameId q, hu_Multi = 0,
                                   hu_RoomId = er_RoomId q\<rparr>
                       | Some g \<Rightarrow> g\<lparr>hu_RoomId := rid\<rparr>))\<rparr>)) (\<lambda>_.
                    hall_Send svid None 3006 (Hall_Reconnect (er_Uid q) (er_GateId q) 0))
                  else
                    seq (modify (\<lambda>l. l\<lparr>hl_users := (hl_users l)(er_Uid q \<mapsto>
                      \<lparr>hu_Uid = er_Uid q, hu_GateId = ucast (er_GateId q), hu_GameId = er_GameId q, hu_Multi = er_Multi q,
                        hu_RoomId = 0\<rparr>)\<rparr>)) (\<lambda>_.
                    match_up env svid q))))"

text \<open>An operation of the slot machines.\<close>

definition on_slots :: "(Slots, 'a) act \<Rightarrow> (HallLocal, 'a) act" where
  "on_slots m = (\<lambda>l. case m (hl_slots l) of (x, s) \<Rightarrow> (x, l\<lparr>hl_slots := s\<rparr>))"

definition slots_data :: "u32 \<Rightarrow> u32 \<Rightarrow> (Slots, nat option) act" where
  "slots_data uid gameId = (\<lambda>s. case GetSlotsData uid gameId s of (k, t) \<Rightarrow> (Inr k, t))"

definition enterSlots :: "ListReq option \<Rightarrow> (HallLocal, unit) act" where
  "enterSlots req =
     (case req of
        None \<Rightarrow> ret ()
      | Some q \<Rightarrow>
          seq (on_slots (slots_data (lr_Uid q) (lr_GameId q))) (\<lambda>conf.
          case conf of
            None \<Rightarrow> ret ()
          | Some k \<Rightarrow>
              seq get_st (\<lambda>l. let c = sd_conf (sl_heap (hl_slots l) k) in
              hall_Send (Svid 3 (ucast (lr_GateId q))) (Some (lr_Uid q)) 2008
                (Hall_EnterSlots \<lparr>es_GameId = lr_GameId q, es_Bet = bc_Bet (sc_BetConf c), es_Level = bc_Level (sc_BetConf c),
                   es_Line = bc_Lines (sc_BetConf c), es_Lines = sc_RouteConf c, es_Elems = sc_ElemConf c\<rparr>))))"

record SpinReq =
  sq_Uid :: u32
  sq_GameId :: u32
  sq_Bet :: i32
  sq_Level :: i32
  sq_Lines :: i32
  sq_GateId :: i32

definition spinSlots :: "HallEnv \<Rightarrow> SpinReq option \<Rightarrow> (HallLocal, unit) act" where
  "spinSlots env req =
     (case req of
        None \<Rightarrow> ret ()
      | Some q \<Rightarrow>
          seq (on_slots (slots_data (sq_Uid q) (sq_GameId q))) (\<lambda>slotsData.
          case slotsData of
            None \<Rightarrow> ret ()
          | Some k \<Rightarrow>
              seq get_st (\<lambda>l.
              seq (lift (Valid (sc_BetConf (sd_conf (sl_heap (hl_slots l) k))) (sq_Bet q) (sq_Level q))) (\<lambda>ok.
              if \<not> ok then ret ()
              else
                seq (on_slots (Spin (he_money env) k (scast (sq_Bet q) * scast (sq_Level q)))) (\<lambda>rsp.
                case rsp of
                  None \<Rightarrow> ret ()
                | Some r \<Rightarrow> hall_Send (Svid 3 (ucast (sq_GateId q))) (Some (sq_Uid q)) 2010 (Hall_Spin (Some r)))))))"

definition leaveSlots :: "u32 option \<Rightarrow> (HallLocal, unit) act" where
  "leaveSlots req = (case req of None \<Rightarrow> ret () | Some uid \<Rightarrow> on_slots (modify (DelSlotsData uid)))"

subsection \<open>Routes\<close>

record HallUnmarshal =
  hm_list :: "u8 list \<Rightarrow> ListReq option"
  hm_enter :: "u8 list \<Rightarrow> EnterReq option"
  hm_spin :: "u8 list \<Rightarrow> SpinReq option"
  hm_uid :: "u8 list \<Rightarrow> u32 option"

definition hall_init :: "HallEnv \<Rightarrow> HallUnmarshal \<Rightarrow> HallLocal BaseLocal" where
  "hall_init env hm =
     (let lst = (\<lambda>inp :: input. Unpack (hm_list hm) (snd inp) \<lparr>lr_Uid = 0, lr_GateId = 0, lr_GameId = 0\<rparr>);
          l = NewBase;
          l = AddRoute 1009 (\<lambda>inp. hall_offline) l;
          l = AddRoute 2001 (\<lambda>inp. getGameList env (m_Cmd (snd inp)) (lst inp)) l;
          l = AddRoute 2002 (\<lambda>inp. getRoomList env (m_Cmd (snd inp)) (lst inp)) l;
          l = AddRoute 2003 (\<lambda>inp. enterRoom env (Unpack (hm_enter hm) (snd inp)
                \<lparr>er_Uid = 0, er_GateId = 0, er_GameId = 0, er_RoomId = 0, er_Multi = 0\<rparr>)) l;
          l = AddRoute 2008 (\<lambda>inp. enterSlots (lst inp)) l;
          l = AddRoute 2009 (\<lambda>inp. spinSlots env (Unpack (hm_spin hm) (snd inp)
                \<lparr>sq_Uid = 0, sq_GameId = 0, sq_Bet = 0, sq_Level = 0, sq_Lines = 0, sq_GateId = 0\<rparr>)) l
      in AddRoute 2010 (\<lambda>inp. leaveSlots (Unpack (hm_uid hm) (snd inp) 0)) l)"

end
