(* ===== verification/SlotsProps.thy ===== *)
theory SlotsProps
  imports Slots
begin

text \<open>
  Properties of the slot machine: the weighted choice, which lines pay and what a spin costs and wins, and
  when a spin of the configured machine panics.
\<close>

subsection \<open>The weighted choice\<close>

lemma sint_add_small:
  assumes "0 \<le> sint (a :: i32)" "0 \<le> sint b" "sint a + sint b < 2 ^ 31"
  shows "sint (a + b) = sint a + sint b"
  using assms unfolding sint_word_ariths by (intro signed_take_bit_int_eq_self) simp_all

lemma sint_diff_small:
  assumes "0 \<le> sint (a :: i32)" "0 \<le> sint b"
  shows "sint (a - b) = sint a - sint b"
  using assms sint_lt [of a] sint_lt [of b] unfolding sint_word_ariths by (intro signed_take_bit_int_eq_self) simp_all

lemma pick_shares:
  assumes "\<forall>w \<in> set ws. 0 \<le> sint w" "0 \<le> sint r" "sint r < sum_list (map sint ws)"
  shows "\<exists>j < length ws. pick i r ws = Some (i + j) \<and>
    sum_list (map sint (take j ws)) \<le> sint r \<and> sint r < sum_list (map sint (take j ws)) + sint (ws ! j)"
  using assms
proof (induction ws arbitrary: i r)
  case (Cons w ws)
  show ?case
  proof (cases "slt r w")
    case True
    then show ?thesis using Cons.prems by (intro exI [of _ 0]) simp
  next
    case False
    have d: "sint (r - w) = sint r - sint w" using Cons.prems by (intro sint_diff_small) auto
    have "0 \<le> sint (r - w)" "sint (r - w) < sum_list (map sint ws)" using Cons.prems False d by auto
    then obtain j where "j < length ws" "pick (i + 1) (r - w) ws = Some (i + 1 + j)"
      "sum_list (map sint (take j ws)) \<le> sint (r - w)"
      "sint (r - w) < sum_list (map sint (take j ws)) + sint (ws ! j)"
      using Cons.IH [of "r - w" "i + 1"] Cons.prems by auto
    then show ?thesis using False d by (intro exI [of _ "Suc j"]) simp
  qed
qed simp

lemma sint_Weight_Sum:
  assumes "\<forall>w \<in> set ws. 0 \<le> sint w" "sum_list (map sint ws) < 2 ^ 31"
  shows "sint (Weight_Sum ws) = sum_list (map sint ws)"
  using assms
proof (induction ws rule: rev_induct)
  case Nil
  then show ?case by (simp add: Weight_Sum_def)
next
  case (snoc w ws)
  have "0 \<le> sum_list (map sint ws)" using snoc.prems by (intro sum_list_nonneg) auto
  then show ?case using snoc sint_add_small [of "foldl (+) 0 ws" w] by (simp add: Weight_Sum_def)
qed

lemma Reel_Get_run:
  assumes "\<forall>w \<in> set (rl_Weight p). 0 \<le> sint w" "0 < sum_list (map sint (rl_Weight p))"
    and "sum_list (map sint (rl_Weight p)) < 2 ^ 31"
  shows "\<exists>i x. Reel_Get p (Reel_Sum p) s = (Inr (of_nat i), s\<lparr>sl_rn := sl_rn s + 1\<rparr>) \<and> i < length (rl_Weight p) \<and>
    x = int (sl_rnd s (sl_rn s)) mod sum_list (map sint (rl_Weight p)) \<and>
    sum_list (map sint (take i (rl_Weight p))) \<le> x \<and>
    x < sum_list (map sint (take i (rl_Weight p))) + sint (rl_Weight p ! i)"
proof -
  let ?n = "sum_list (map sint (rl_Weight p))"
  let ?x = "int (sl_rnd s (sl_rn s)) mod ?n"
  have n: "sint (Reel_Sum p) = ?n" using sint_Weight_Sum [OF assms(1,3)] by (simp add: Reel_Sum_def)
  then have u: "int (unat (Reel_Sum p)) = ?n"
    using assms(2,3) by (simp add: uint_sint take_bit_int_eq_self)
  let ?r = "of_nat (sl_rnd s (sl_rn s) mod unat (Reel_Sum p)) :: i32"
  have x: "0 \<le> ?x" "?x < ?n" using assms(2) by simp_all
  have "?r = of_int ?x" unfolding u [symmetric] zmod_int [symmetric] by simp
  then have r: "sint ?r = ?x"
    using x assms(3) by (simp add: signed_of_int signed_take_bit_int_eq_self)
  obtain j where "j < length (rl_Weight p)" "pick 0 ?r (rl_Weight p) = Some (0 + j)"
    "sum_list (map sint (take j (rl_Weight p))) \<le> ?x" "?x < sum_list (map sint (take j (rl_Weight p))) + sint (rl_Weight p ! j)"
    using pick_shares [OF assms(1), of ?r 0] x unfolding r by blast
  then show ?thesis using assms(2) n
    by (intro exI [of _ j] exI [of _ ?x]) (simp add: Reel_Get_def Int31n_def run_simps)
qed

text \<open>
  C25. The choice on a reel is weighted exactly: with weights that are not negative and a positive sum
  within 31 bits it returns an index of the reel, and of every \<open>sum\<close> consecutive random numbers exactly
  its weight lead to it: those from the sum of the weights before it on.
\<close>

theorem Reel_Get_weighted:
  assumes "\<forall>w \<in> set (rl_Weight p). 0 \<le> sint w" "0 < sum_list (map sint (rl_Weight p))"
    and "sum_list (map sint (rl_Weight p)) < 2 ^ 31"
  shows "\<exists>i x. Reel_Get p (Reel_Sum p) s = (Inr (of_nat i), s\<lparr>sl_rn := sl_rn s + 1\<rparr>) \<and> i < length (rl_Weight p) \<and>
    x = int (sl_rnd s (sl_rn s)) mod sum_list (map sint (rl_Weight p)) \<and>
    sum_list (map sint (take i (rl_Weight p))) \<le> x \<and>
    x < sum_list (map sint (take i (rl_Weight p))) + sint (rl_Weight p ! i)"
  by (rule Reel_Get_run [OF assms])

definition machine :: "SlotsConf \<Rightarrow> i32 list \<Rightarrow> Slots" where
  "machine conf board = \<lparr>sl_heap = \<lambda>_. \<lparr>sd_conf = conf, sd_Uid = 0, sd_Board = board, sd_FreeSpin = 0, sd_Bonus = False,
     sd_Free = False\<rparr>, sl_next = 1, sl_data = Map.empty, sl_rnd = \<lambda>i. i, sl_rn = 0, sl_paid = []\<rparr>"

lemma Reel_Get_weighted_witness:
  "\<exists>i s'. Reel_Get \<lparr>rl_Weight = [3, 0, 5], rl_Length = 1\<rparr> 8 (machine GetFuConf []) = (Inr (of_nat i), s') \<and> i < 3"
proof -
  have "Reel_Sum \<lparr>rl_Weight = [3, 0, 5], rl_Length = 1\<rparr> = 8" by (simp add: Reel_Sum_def Weight_Sum_def)
  then show ?thesis
    using Reel_Get_weighted [of "\<lparr>rl_Weight = [3, 0, 5], rl_Length = 1\<rparr>" "machine GetFuConf []"] by auto
qed

subsection \<open>Lines\<close>

text \<open>
  The symbol of a line, said without a loop: none with a free game or a bonus on it, and otherwise the one
  that all cells but the wild ones show.
\<close>

definition symbol_of :: "i32 list \<Rightarrow> i32 option" where
  "symbol_of cells =
     (let real = filter (\<lambda>c. c \<noteq> ElemWild) cells
      in if ElemFree \<in> set cells \<or> ElemBonus \<in> set cells then None
         else if real = [] then Some ElemWild
         else if list_all (\<lambda>c. c = hd real) real then Some (hd real) else None)"

abbreviation line_cells :: "i32 list \<Rightarrow> i32 list \<Rightarrow> i32 list" where
  "line_cells board \<equiv> map (\<lambda>p. board ! unat p)"

lemma symbol_of_simps:
  "symbol_of (dest # ElemWild # cs) = symbol_of (dest # cs)"
  "symbol_of (ElemWild # e # cs) = symbol_of (e # cs)"
  "e = ElemFree \<or> e = ElemBonus \<Longrightarrow> symbol_of (dest # e # cs) = None"
  "dest \<noteq> ElemWild \<Longrightarrow> e \<noteq> ElemWild \<Longrightarrow> e \<noteq> dest \<Longrightarrow> symbol_of (dest # e # cs) = None"
  "symbol_of (dest # dest # cs) = symbol_of (dest # cs)"
  by (auto simp: symbol_of_def Let_def)

lemma at_i32_Inr: "at_i32 xs p = Inr x \<Longrightarrow> x = xs ! unat p"
  by (simp add: at_i32_def index_Inr_iff split: if_splits)

lemma line_from_symbol:
  assumes "line_from board dest ps = Inr sy" "dest \<noteq> ElemFree" "dest \<noteq> ElemBonus"
  shows "sy = symbol_of (dest # line_cells board ps)"
  using assms
proof (induction board dest ps rule: line_from.induct)
  case (1 board dest)
  then show ?case by (auto simp: symbol_of_def)
next
  case (2 board dest p ps)
  obtain e where e: "at_i32 board p = Inr e" using "2.prems" by (cases "at_i32 board p") auto
  note cell = at_i32_Inr [OF e]
  consider "e = ElemBonus \<or> e = ElemFree" | "e = ElemWild" | "e \<noteq> ElemBonus" "e \<noteq> ElemFree" "e \<noteq> ElemWild" "dest = ElemWild"
    | "e \<noteq> ElemBonus" "e \<noteq> ElemFree" "e \<noteq> ElemWild" "dest \<noteq> ElemWild" "e \<noteq> dest"
    | "e \<noteq> ElemBonus" "e \<noteq> ElemFree" "e \<noteq> ElemWild" "dest \<noteq> ElemWild" "e = dest" by blast
  then show ?case
  proof cases
    case 1
    then have "sy = None" using "2.prems" e by auto
    then show ?thesis using 1 cell symbol_of_simps(3) [of e dest] by auto
  next
    case 2
    then show ?thesis using "2.IH"(1) [of e] "2.prems" e cell symbol_of_simps(1) [of dest] by simp
  next
    case 3
    then show ?thesis using "2.IH"(2) [of e] "2.prems" e cell symbol_of_simps(2) [of e] by simp
  next
    case 4
    then show ?thesis using "2.prems" e cell symbol_of_simps(4) [of dest e] by simp
  next
    case 5
    then show ?thesis using "2.IH"(3) [of e] "2.prems" e cell symbol_of_simps(5) [of dest] by simp
  qed
qed

lemma line_symbol_eq:
  assumes "line_symbol board ps = Inr sy"
  shows "sy = symbol_of (line_cells board ps)"
proof -
  obtain p qs dest where p: "ps = p # qs" "at_i32 board p = Inr dest"
    using assms by (cases ps; cases "at_i32 board (hd ps)") (auto simp: line_symbol_def index_def)
  show ?thesis
  proof (cases "dest = ElemBonus \<or> dest = ElemFree")
    case True
    then show ?thesis using assms p at_i32_Inr [OF p(2)] by (auto simp: line_symbol_def symbol_of_def Let_def)
  next
    case False
    then show ?thesis
      using assms p at_i32_Inr [OF p(2)] line_from_symbol [of board dest qs sy] by (simp add: line_symbol_def)
  qed
qed

text \<open>What a list of lines pays.\<close>

definition line_pay :: "SlotsElem list \<Rightarrow> i32 list \<Rightarrow> i64 \<Rightarrow> SlotsLine \<Rightarrow> i64" where
  "line_pay elems board bet l =
     (case symbol_of (line_cells board (ln_LinePos l)) of
        None \<Rightarrow> 0
      | Some d \<Rightarrow> if slt 0 (multi_of elems d) then scast (multi_of elems d) * bet else 0)"

lemma pay_lines_eq:
  assumes "pay_lines elems board bet ls = Inr (lines, win)"
  shows "lines = map ln_LineId (filter (\<lambda>l. symbol_of (line_cells board (ln_LinePos l)) \<noteq> None) ls) \<and>
    win = sum_list (map (line_pay elems board bet) ls)"
  using assms
proof (induction ls arbitrary: lines win)
  case (Cons l ls)
  obtain sy where sy: "line_symbol board (ln_LinePos l) = Inr sy"
    using Cons.prems by (cases "line_symbol board (ln_LinePos l)") auto
  obtain ls' w where rest: "pay_lines elems board bet ls = Inr (ls', w)"
    using Cons.prems sy by (cases "pay_lines elems board bet ls") auto
  show ?case
    using Cons.prems Cons.IH [OF rest] sy rest line_symbol_eq [OF sy]
    by (cases sy) (auto simp: line_pay_def split: if_splits)
qed simp

subsection \<open>What a spin changes\<close>

text \<open>A spin changes cells of the board and draws random numbers; before the end nothing is paid.\<close>

definition same_but_board :: "nat \<Rightarrow> Slots \<Rightarrow> Slots \<Rightarrow> bool" where
  "same_but_board k s t \<longleftrightarrow> sl_paid t = sl_paid s \<and> sl_data t = sl_data s \<and> sl_next t = sl_next s \<and> sl_rnd t = sl_rnd s \<and>
     (\<exists>b. length b = length (sd_Board (sl_heap s k)) \<and> sl_heap t = (sl_heap s)(k := (sl_heap s k)\<lparr>sd_Board := b\<rparr>))"

lemma same_refl [simp]: "same_but_board k s s"
  unfolding same_but_board_def by (auto intro!: exI [of _ "sd_Board (sl_heap s k)"])

lemma same_rn [simp]: "same_but_board k s (t\<lparr>sl_rn := i\<rparr>) = same_but_board k s t"
  by (simp add: same_but_board_def)

lemma same_conf: "same_but_board k s t \<Longrightarrow> sd_conf (sl_heap t k) = sd_conf (sl_heap s k) \<and>
    sd_Uid (sl_heap t k) = sd_Uid (sl_heap s k) \<and> length (sd_Board (sl_heap t k)) = length (sd_Board (sl_heap s k))"
  by (auto simp: same_but_board_def)

lemma keeps_Int31n [keeps_intros]: "keeps (same_but_board k s) (Int31n n)"
  unfolding Int31n_def by (intro keeps_intros) simp

lemma keeps_set_cell [keeps_intros]: "keeps (same_but_board k s) (set_cell k idx e)"
  by (auto simp: keeps_def set_cell_def same_but_board_def run_simps) (metis length_list_update)

lemma keeps_Reel_Get [keeps_intros]: "keeps (same_but_board k s) (Reel_Get p n)"
  unfolding Reel_Get_def by (intro keeps_intros)

lemma keeps_spin_reel [keeps_intros]: "keeps (same_but_board k s) (spin_reel k reel n idx)"
proof (induction n arbitrary: idx)
  case (Suc n)
  show ?case unfolding spin_reel.simps by (intro keeps_intros Suc.IH)
qed (simp add: keeps_intros)

lemma keeps_spin_reels [keeps_intros]: "keeps (same_but_board k s) (spin_reels k reels idx)"
proof (induction reels arbitrary: idx)
  case (Cons reel reels)
  show ?case unfolding spin_reels.simps by (intro keeps_intros Cons.IH)
qed (simp add: keeps_intros)

lemma keeps_shuffle [keeps_intros]: "keeps (same_but_board k s) (slots_shuffle k)"
  unfolding slots_shuffle_def by (intro keeps_intros)

lemma keeps_bonus [keeps_intros]: "keeps (same_but_board k s) (bonus bc bet pos)"
  unfolding bonus_def Bonus_Rand_def by (intro keeps_intros)

lemma run_bonus_heap:
  assumes "bonus bc bet pos s = (r, t)"
  shows "sl_heap t = sl_heap s \<and> sl_paid t = sl_paid s"
proof -
  have "keeps (\<lambda>t. sl_heap t = sl_heap s \<and> sl_paid t = sl_paid s) (bonus bc bet pos)"
    unfolding bonus_def Bonus_Rand_def Int31n_def by (intro keeps_intros) simp_all
  from keepsD [OF this, of s] assms show ?thesis by simp
qed

lemma length_cells: "length (filter (\<lambda>(i, e). e = x) (enumerate n xs)) = count_list xs x"
  by (induction xs arbitrary: n) auto

lemma Elem_shown: "Elem board e = (c, po) \<Longrightarrow> (po \<noteq> None \<longleftrightarrow> 3 \<le> sint (of_nat (count_list board e) :: i32))"
  by (auto simp: Elem_def Let_def length_cells split: if_splits)

lemma free_games_spec:
  assumes "free_games conf board rsp = Inr r"
  shows "sr_Win r = sr_Win rsp \<and> sr_Board r = sr_Board rsp \<and> sr_Lines r = sr_Lines rsp \<and> sr_BonusData r = sr_BonusData rsp \<and>
    sr_Bonus r = sr_Bonus rsp \<and> (sr_Free r \<longleftrightarrow> sr_Free rsp \<or> 3 \<le> sint (of_nat (count_list board ElemFree) :: i32))"
proof -
  obtain c po where e: "Elem board ElemFree = (c, po)" by force
  show ?thesis using assms Elem_shown [OF e] by (cases po) (auto simp: free_games_def e bindE_Inr_iff)
qed

lemma bonus_games_spec:
  assumes "bonus_games conf board bet rsp s = (Inr r, t)"
  shows "sr_Win r = sr_Win rsp \<and> sr_Board r = sr_Board rsp \<and> sr_Lines r = sr_Lines rsp \<and> sr_Free r = sr_Free rsp \<and>
    (sr_Bonus r \<longleftrightarrow> sr_Bonus rsp \<or> 3 \<le> sint (of_nat (count_list board ElemBonus) :: i32)) \<and>
    sl_heap t = sl_heap s \<and> sl_paid t = sl_paid s"
proof -
  obtain c po where e: "Elem board ElemBonus = (c, po)" by force
  show ?thesis
  proof (cases po)
    case None
    then show ?thesis using assms Elem_shown [OF e] by (auto simp: bonus_games_def e ret_def)
  next
    case (Some pos)
    obtain x u where b: "bonus (sc_BonusConf conf) bet pos s = (x, u)" by force
    then show ?thesis using assms Some Elem_shown [OF e] run_bonus_heap [OF b]
      by (cases x) (auto simp: bonus_games_def e run_simps)
  qed
qed

text \<open>
  C23. A spin pays what its board shows: when it returns an answer, the answer's board is the machine's board,
  its lines are exactly those that show one symbol (a wild symbol standing for any, free games and
  bonuses for none), its win is the sum of the multipliers of these symbols times the bet, and the account
  is called exactly once, with the win and the bonus less the bet. The bonus is missing in the win of
  the answer.
\<close>

theorem Spin_accounts:
  assumes "Spin redis k bet s = (Inr (Some rsp), s')"
  shows "\<exists>elems route board uid.
    elems = sc_ElemConf (sd_conf (sl_heap s k)) \<and> route = sc_RouteConf (sd_conf (sl_heap s k)) \<and>
    uid = sd_Uid (sl_heap s k) \<and> board = sd_Board (sl_heap s' k) \<and> sr_Board rsp = board \<and>
    sr_Lines rsp = map ln_LineId (filter (\<lambda>l. symbol_of (line_cells board (ln_LinePos l)) \<noteq> None) route) \<and>
    sr_Win rsp = sum_list (map (line_pay elems board bet) route) \<and>
    sl_paid s' = sl_paid s @
      [(uid, sr_Win rsp + (case sr_BonusData rsp of None \<Rightarrow> 0 | Some b \<Rightarrow> sb_Win b) - bet)] \<and>
    (sr_Free rsp \<longleftrightarrow> 3 \<le> sint (of_nat (count_list board ElemFree) :: i32)) \<and>
    (sr_Bonus rsp \<longleftrightarrow> 3 \<le> sint (of_nat (count_list board ElemBonus) :: i32))"
proof -
  obtain t where t: "slots_shuffle k s = (Inr (), t)"
    using assms by (cases "slots_shuffle k s"; cases "fst (slots_shuffle k s)") (auto simp: Spin_def run_simps)
  have same: "same_but_board k s t" using keepsD [OF keeps_shuffle same_refl] t by (metis snd_conv)
  note conf = same_conf [OF same]
  let ?conf = "sd_conf (sl_heap s k)"
  let ?board = "sd_Board (sl_heap t k)"
  obtain lines win where pay: "pay_lines (sc_ElemConf ?conf) ?board bet (sc_RouteConf ?conf) = Inr (lines, win)"
    using assms t conf by (cases "pay_lines (sc_ElemConf ?conf) ?board bet (sc_RouteConf ?conf)") (auto simp: Spin_def run_simps Let_def)
  note lines = pay_lines_eq [OF pay]
  let ?r0 = "\<lparr>sr_Bet = bet, sr_Win = win, sr_Board = ?board, sr_Lines = lines, sr_Free = False, sr_FreeData = None,
      sr_Bonus = False, sr_BonusData = None, sr_LeftSpin = sd_FreeSpin (sl_heap t k), sr_Money = 0\<rparr>"
  have run: "Spin redis k bet s =
      seq (lift (free_games ?conf ?board ?r0)) (\<lambda>rsp.
      seq (bonus_games ?conf ?board bet rsp) (\<lambda>rsp.
      seq (UpdateMoney redis (sd_Uid (sl_heap s k)) (win + (case sr_BonusData rsp of None \<Rightarrow> 0 | Some b \<Rightarrow> sb_Win b) - bet)) (\<lambda>money.
      ret (map_option (\<lambda>m. rsp\<lparr>sr_Money := m\<rparr>) money)))) t"
    unfolding Spin_def Let_def using t pay conf by (simp add: run_simps)
  obtain r1 where r1: "free_games ?conf ?board ?r0 = Inr r1"
    using assms unfolding run by (cases "free_games ?conf ?board ?r0") (simp_all add: run_simps)
  obtain r2 u where r2: "bonus_games ?conf ?board bet r1 t = (Inr r2, u)"
    using assms unfolding run r1 run_simps
    by (cases "bonus_games ?conf ?board bet r1 t"; cases "fst (bonus_games ?conf ?board bet r1 t)") (auto simp: run_simps)
  note f = free_games_spec [OF r1] and b = bonus_games_spec [OF r2]
  let ?pay = "sr_Win r2 + (case sr_BonusData r2 of None \<Rightarrow> 0 | Some b \<Rightarrow> sb_Win b) - bet"
  have "s' = u\<lparr>sl_paid := sl_paid u @ [(sd_Uid (sl_heap s k), ?pay)]\<rparr>" "\<exists>m. rsp = r2\<lparr>sr_Money := m\<rparr>"
    using assms r2 f b unfolding run r1 by (auto simp: run_simps UpdateMoney_def)
  then show ?thesis using f b lines same by (auto simp: same_but_board_def)
qed

subsection \<open>The configured machine\<close>

definition fu_ok :: "nat \<Rightarrow> nat \<Rightarrow> Slots \<Rightarrow> bool" where
  "fu_ok k idx s \<longleftrightarrow> sd_conf (sl_heap s k) = GetFuConf \<and> length (sd_Board (sl_heap s k)) = 10 \<and>
     set (take idx (sd_Board (sl_heap s k))) \<subseteq> {1, 2, 3, 4, 5, 6, 7, ElemFree, ElemBonus, ElemWild}"

abbreviation fu_reel :: "i32 \<Rightarrow> ReelConf" where
  "fu_reel l \<equiv> \<lparr>rl_Weight = [30, 20, 20, 10, 10, 10, 10, 3, 3, 3], rl_Length = l\<rparr>"

lemma fu_draw: "\<exists>i < 10. Reel_Get (fu_reel l) (Reel_Sum (fu_reel l)) s = (Inr (of_nat i), s\<lparr>sl_rn := sl_rn s + 1\<rparr>)"
proof -
  have w: "\<forall>w \<in> set (rl_Weight (fu_reel l)). 0 \<le> sint w" "0 < sum_list (map sint (rl_Weight (fu_reel l)))"
    "sum_list (map sint (rl_Weight (fu_reel l))) < 2 ^ 31" "length (rl_Weight (fu_reel l)) = 10"
    by simp_all
  from Reel_Get_run [OF w(1-3), of s] show ?thesis unfolding w(4) by blast
qed

lemma fu_elem: "i < 10 \<Longrightarrow> el_ElemId (sc_ElemConf GetFuConf ! i) \<in> {1, 2, 3, 4, 5, 6, 7, ElemFree, ElemBonus, ElemWild}"
proof -
  have "\<forall>e \<in> set (sc_ElemConf GetFuConf). el_ElemId e \<in> {1, 2, 3, 4, 5, 6, 7, ElemFree, ElemBonus, ElemWild}"
    by (simp add: GetFuConf_def)
  moreover have "length (sc_ElemConf GetFuConf) = 10" by (simp add: GetFuConf_def)
  moreover assume "i < 10"
  ultimately show ?thesis by simp
qed

lemma fu_set_cell:
  assumes "fu_ok k idx s" "idx < 10" "i < 10"
  shows "\<exists>t. set_cell k idx (el_ElemId (sc_ElemConf GetFuConf ! i)) s = (Inr (), t) \<and> fu_ok k (Suc idx) t"
  using assms fu_elem [OF assms(3)]
  by (auto simp: set_cell_def run_simps fu_ok_def take_Suc_conv_app_nth)

lemma fu_spin_reel:
  assumes "fu_ok k idx s" "idx + n \<le> 10"
  shows "\<exists>t. spin_reel k (fu_reel l) n idx s = (Inr (idx + n), t) \<and> fu_ok k (idx + n) t"
  using assms
proof (induction n arbitrary: idx s)
  case 0
  then show ?case by (simp add: ret_def)
next
  case (Suc n)
  obtain i where i: "i < 10" "Reel_Get (fu_reel l) (Reel_Sum (fu_reel l)) s = (Inr (of_nat i), s\<lparr>sl_rn := sl_rn s + 1\<rparr>)"
    using fu_draw by blast
  let ?s = "s\<lparr>sl_rn := sl_rn s + 1\<rparr>"
  have s: "fu_ok k idx ?s" using Suc.prems by (simp add: fu_ok_def)
  then obtain t where t: "set_cell k idx (el_ElemId (sc_ElemConf GetFuConf ! i)) ?s = (Inr (), t)" "fu_ok k (Suc idx) t"
    using fu_set_cell [of k idx ?s i] Suc.prems i by auto
  then obtain u where u: "spin_reel k (fu_reel l) n (Suc idx) t = (Inr (Suc idx + n), u)" "fu_ok k (Suc idx + n) u"
    using Suc.IH [of "Suc idx" t] Suc.prems by auto
  have w: "unat (of_nat i :: i32) = i" "\<not> slt (of_nat i :: i32) 0"
    using i(1) by (simp_all add: unat_of_nat take_bit_eq_mod signed_of_nat signed_take_bit_int_eq_self)
  have c: "sd_conf (sl_heap s k) = GetFuConf" "length (sc_ElemConf GetFuConf) = 10"
    using Suc.prems by (simp_all add: fu_ok_def GetFuConf_def)
  have "spin_reel k (fu_reel l) (Suc n) idx s = (Inr (idx + Suc n), u)"
    using i w c t(1) u(1) by (simp add: run_simps)
  then show ?case using u by simp
qed

lemma fu_shuffle:
  assumes "fu_ok k 0 s"
  shows "\<exists>t. slots_shuffle k s = (Inr (), t) \<and> fu_ok k 10 t"
proof -
  obtain t1 where t1: "spin_reel k (fu_reel 3) 3 0 s = (Inr 3, t1)" "fu_ok k 3 t1"
    using fu_spin_reel [of k 0 s 3 3] assms by auto
  obtain t2 where t2: "spin_reel k (fu_reel 4) 4 3 t1 = (Inr 7, t2)" "fu_ok k 7 t2"
    using fu_spin_reel [of k 3 t1 4 4] t1 by auto
  obtain t3 where t3: "spin_reel k (fu_reel 3) 3 7 t2 = (Inr 10, t3)" "fu_ok k 10 t3"
    using fu_spin_reel [of k 7 t2 3 3] t2 by auto
  have reels: "sc_ReelsConf (sd_conf (sl_heap s k)) = [fu_reel 3, fu_reel 4, fu_reel 3]"
    using assms by (simp add: fu_ok_def GetFuConf_def)
  have "spin_reels k [fu_reel 3, fu_reel 4, fu_reel 3] 0 s = (Inr 10, t3)"
    using t1(1) t2(1) t3(1) by (simp add: run_simps del: spin_reel.simps)
  moreover have "log_reels (sd_Board (sl_heap t3 k)) [fu_reel 3, fu_reel 4, fu_reel 3] 0 = Inr ()"
    using t3(2) by (simp add: fu_ok_def)
  ultimately show ?thesis
    using t3(2) by (simp add: slots_shuffle_def Let_def run_simps reels del: spin_reels.simps log_reels.simps)
qed

lemma fu_lines:
  assumes "length board = 10"
  shows "\<exists>lines win. pay_lines elems board bet (sc_RouteConf GetFuConf) = Inr (lines, win)"
proof -
  have at: "at_i32 board p = Inr (board ! unat p)" if "p \<in> {1, 2, 3, 4, 5, 6, 7, 8, 9}" for p
    using that assms by (auto simp: at_i32_def)
  have from_ok: "\<exists>sy. line_from board dest ps = Inr sy" if "set ps \<subseteq> {1, 2, 3, 4, 5, 6, 7, 8, 9}" for dest ps
    using that
  proof (induction ps arbitrary: dest)
    case (Cons p ps)
    then show ?case using at [of p] by auto
  qed simp
  have line: "\<exists>sy. line_symbol board ps = Inr sy" if "set ps \<subseteq> {1, 2, 3, 4, 5, 6, 7, 8, 9}" "ps \<noteq> []" for ps
    using that from_ok [of "tl ps"] at [of "hd ps"] by (cases ps) (auto simp: line_symbol_def)
  have "\<exists>lines win. pay_lines elems board bet ls = Inr (lines, win)"
    if "\<forall>l \<in> set ls. set (ln_LinePos l) \<subseteq> {1, 2, 3, 4, 5, 6, 7, 8, 9} \<and> ln_LinePos l \<noteq> []" for ls
    using that
  proof (induction ls)
    case (Cons l ls)
    then obtain lines win sy where "pay_lines elems board bet ls = Inr (lines, win)" "line_symbol board (ln_LinePos l) = Inr sy"
      using line [of "ln_LinePos l"] by auto
    then show ?case by (cases sy) auto
  qed simp
  moreover have "\<forall>l \<in> set (sc_RouteConf GetFuConf). set (ln_LinePos l) \<subseteq> {1, 2, 3, 4, 5, 6, 7, 8, 9} \<and> ln_LinePos l \<noteq> []"
    by (simp add: GetFuConf_def)
  ultimately show ?thesis by blast
qed

lemma fu_bonus: "\<exists>b t. bonus (sc_BonusConf GetFuConf) bet pos s = (Inr b, t)"
proof -
  let ?b = "\<lparr>bo_Elem = [1, 2, 3], bo_Multi = [8, 16, 32], bo_Weight = [10, 4, 1 :: i32]\<rparr>"
  have draw: "\<exists>em t. Bonus_Rand ?b (Bonus_Sum ?b) s = (Inr em, t)" for s
  proof -
    have sm: "Bonus_Sum ?b = 15" by (simp add: Bonus_Sum_def Weight_Sum_def)
    let ?r = "of_nat (sl_rnd s (sl_rn s) mod 15) :: i32"
    have "\<exists>j < 3. pick 0 ?r [10, 4, 1] = Some j"
    proof -
      have r: "sint ?r = int (sl_rnd s (sl_rn s)) mod 15"
        by (simp add: zmod_int signed_of_nat signed_take_bit_int_eq_self)
      have "0 \<le> sint ?r" "sint ?r < sum_list (map sint [10, 4, 1 :: i32])" unfolding r by simp_all
      moreover have "\<forall>w \<in> set [10, 4, 1 :: i32]. 0 \<le> sint w" by simp
      ultimately obtain j where "j < length [10, 4, 1 :: i32]" "pick 0 ?r [10, 4, 1] = Some (0 + j)"
        using pick_shares by blast
      then show ?thesis by (intro exI [of _ j]) (simp del: pick.simps)
    qed
    then obtain j where "j < 3" "pick 0 ?r [10, 4, 1] = Some j" by blast
    then show ?thesis by (simp add: sm Bonus_Rand_def Int31n_def run_simps)
  qed
  obtain e1 m1 t1 where d1: "Bonus_Rand ?b (Bonus_Sum ?b) s = (Inr (e1, m1), t1)" using draw by fast
  obtain e2 m2 t2 where d2: "Bonus_Rand ?b (Bonus_Sum ?b) t1 = (Inr (e2, m2), t2)" using draw by fast
  obtain e3 m3 t3 where d3: "Bonus_Rand ?b (Bonus_Sum ?b) t2 = (Inr (e3, m3), t3)" using draw by fast
  show ?thesis using d1 d2 d3 by (simp add: GetFuConf_def bonus_def Let_def run_simps)
qed

lemma fu_free:
  assumes "count_list board ElemFree \<le> 10"
  shows "if count_list board ElemFree \<in> {3, 4, 5} then free_games GetFuConf board rsp = Inl NilDereference
    else \<exists>r. free_games GetFuConf board rsp = Inr r"
proof -
  let ?n = "count_list board ElemFree"
  obtain c po where e: "Elem board ElemFree = (c, po)" by force
  have c: "c = of_nat ?n" using e by (auto simp: Elem_def Let_def length_cells)
  have sc: "sint c = int ?n" using assms by (simp add: c signed_of_nat signed_take_bit_int_eq_self)
  then have eqs: "c = 3 \<longleftrightarrow> ?n = 3" "c = 4 \<longleftrightarrow> ?n = 4" "c = 5 \<longleftrightarrow> ?n = 5" by (auto simp: c)
  have "sc_FreeConf GetFuConf = None" by (simp add: GetFuConf_def)
  then show ?thesis
    using Elem_shown [OF e] eqs sc by (cases po) (auto simp: free_games_def e GetSpin_def c)
qed

text \<open>
  C24. A spin of the configured machine fills its ten cells with configured symbols and always returns, except
  that it panics, before anything is paid, exactly when three, four or five free games show: the
  configuration has none.
\<close>

theorem Fu_spin_panics_iff:
  assumes "sd_conf (sl_heap s k) = GetFuConf" "length (sd_Board (sl_heap s k)) = 10"
  shows "\<exists>board. board = sd_Board (sl_heap (snd (Spin redis k bet s)) k) \<and> length board = 10 \<and>
    set board \<subseteq> {1, 2, 3, 4, 5, 6, 7, ElemFree, ElemBonus, ElemWild} \<and>
    (if count_list board ElemFree \<in> {3, 4, 5}
     then fst (Spin redis k bet s) = Inl NilDereference \<and> sl_paid (snd (Spin redis k bet s)) = sl_paid s
     else \<exists>rsp. fst (Spin redis k bet s) = Inr rsp)"
proof -
  obtain t where t: "slots_shuffle k s = (Inr (), t)" "fu_ok k 10 t"
    using fu_shuffle [of k s] assms by (auto simp: fu_ok_def)
  have same: "same_but_board k s t" using keepsD [OF keeps_shuffle same_refl] t by (metis snd_conv)
  let ?board = "sd_Board (sl_heap t k)"
  have board: "length ?board = 10" "set ?board \<subseteq> {1, 2, 3, 4, 5, 6, 7, ElemFree, ElemBonus, ElemWild}" "sd_conf (sl_heap t k) = GetFuConf"
    using t(2) by (auto simp: fu_ok_def)
  obtain lines win where pay: "pay_lines (sc_ElemConf GetFuConf) ?board bet (sc_RouteConf GetFuConf) = Inr (lines, win)"
    using fu_lines [OF board(1)] by blast
  let ?n = "count_list ?board ElemFree"
  let ?r0 = "\<lparr>sr_Bet = bet, sr_Win = win, sr_Board = ?board, sr_Lines = lines, sr_Free = False, sr_FreeData = None,
      sr_Bonus = False, sr_BonusData = None, sr_LeftSpin = sd_FreeSpin (sl_heap t k), sr_Money = 0\<rparr>"
  have n: "?n \<le> 10" using board(1) count_le_length by metis
  show ?thesis
  proof (cases "?n \<in> {3, 4, 5}")
    case True
    then have "free_games GetFuConf ?board ?r0 = Inl NilDereference"
      using fu_free [OF n] by simp
    then have "Spin redis k bet s = (Inl NilDereference, t)"
      using t(1) board(3) pay by (simp add: Spin_def run_simps Let_def)
    then show ?thesis using True board same by (simp add: same_but_board_def)
  next
    case False
    then obtain r1 where r1: "free_games GetFuConf ?board ?r0 = Inr r1" using fu_free [OF n] by metis
    obtain r2 u where r2: "bonus_games GetFuConf ?board bet r1 t = (Inr r2, u)"
    proof (cases "snd (Elem ?board ElemBonus)")
      case None
      then show ?thesis using that by (cases "Elem ?board ElemBonus") (simp add: bonus_games_def ret_def)
    next
      case (Some pos)
      obtain b v where "bonus (sc_BonusConf GetFuConf) bet pos t = (Inr b, v)" using fu_bonus by blast
      then show ?thesis using that Some by (cases "Elem ?board ElemBonus") (simp add: bonus_games_def run_simps)
    qed
    have "\<exists>rsp v. Spin redis k bet s = (Inr rsp, v) \<and> sl_heap v = sl_heap t"
      using t(1) board(3) pay r1 r2 bonus_games_spec [OF r2] by (simp add: Spin_def run_simps Let_def UpdateMoney_def)
    then show ?thesis using False board by fastforce
  qed
qed

lemma Fu_spin_panics_iff_witness:
  "length (sd_Board (sl_heap (snd (Spin (\<lambda>_ _. Some 0) 0 1000 (machine GetFuConf (replicate 10 0)))) 0)) = 10"
  using Fu_spin_panics_iff [of "machine GetFuConf (replicate 10 0)" 0 "\<lambda>_ _. Some 0" 1000] by (simp add: machine_def)

definition tiny_conf :: SlotsConf where
  "tiny_conf = \<lparr>sc_GameID = 1, sc_ElemConf = [\<lparr>el_ElemId = 1, el_ElemName = [], el_Multi3 = 2\<rparr>],
     sc_RouteConf = [\<lparr>ln_LineId = 4, ln_LinePos = [0, 1]\<rparr>], sc_ReelsConf = [\<lparr>rl_Weight = [1], rl_Length = 2\<rparr>],
     sc_BetConf = \<lparr>bc_Bet = [], bc_Level = [], bc_Lines = []\<rparr>, sc_FreeConf = None, sc_BonusConf = None\<rparr>"

lemma Spin_accounts_witness:
  "\<exists>rsp s'. Spin (\<lambda>_ _. Some 0) 0 1000 (machine tiny_conf [0, 0]) = (Inr (Some rsp), s') \<and>
    sl_paid s' = [(0, sr_Win rsp + (case sr_BonusData rsp of None \<Rightarrow> 0 | Some b \<Rightarrow> sb_Win b) - 1000)]"
proof -
  let ?s = "machine tiny_conf [0, 0]"
  have "case fst (Spin (\<lambda>_ _. Some 0) 0 1000 ?s) of Inl _ \<Rightarrow> False | Inr r \<Rightarrow> r \<noteq> None" by code_simp
  then obtain rsp s' where r: "Spin (\<lambda>_ _. Some 0) 0 1000 ?s = (Inr (Some rsp), s')"
    by (cases "Spin (\<lambda>_ _. Some 0) 0 1000 ?s") (auto split: sum.splits)
  have "sl_paid ?s = []" "sd_Uid (sl_heap ?s 0) = 0" by (simp_all add: machine_def)
  with r Spin_accounts [OF r] show ?thesis by auto
qed

text \<open>Only the first of the seven levels can be played: the check reads as many levels as there are bets.\<close>

lemma Valid_Fu: "Valid (sc_BetConf GetFuConf) bet level = Inr (bet = 1000 \<and> level = 1)"
  by (auto simp: Valid_def GetFuConf_def)

end
