(* ===== verification/HallProps.thy ===== *)
theory HallProps
  imports HallRoute SlotsProps
begin

text \<open>
  Properties of the hall: every room announced is made up of four waiting players, players never get out of a
  room again, and no machine is ever found again by its player.
\<close>

subsection \<open>What handlers keep\<close>

lemma keeps_on_slots: "keeps J m \<Longrightarrow> keeps (\<lambda>l. J (hl_slots l)) (on_slots m)"
  by (auto simp: keeps_def on_slots_def prod.case_eq_if)

lemma keeps_on_slots_users: "keeps (\<lambda>l. P (hl_users l)) (on_slots m)"
  by (auto simp: keeps_def on_slots_def prod.case_eq_if)

subsection \<open>In a room for ever\<close>

definition in_room :: "u32 \<Rightarrow> u32 \<Rightarrow> HallLocal \<Rightarrow> bool" where
  "in_room uid rid l \<longleftrightarrow> rid \<noteq> 0 \<and> (\<exists>u. hl_users l uid = Some u \<and> hu_RoomId u = rid)"

lemma in_room_frame [simp]:
  "in_room uid rid (l\<lparr>hl_out := a\<rparr>) = in_room uid rid l" "in_room uid rid (l\<lparr>hl_asked := b\<rparr>) = in_room uid rid l"
  "in_room uid rid (l\<lparr>hl_incRoomId := c\<rparr>) = in_room uid rid l" "in_room uid rid (l\<lparr>hl_slots := d\<rparr>) = in_room uid rid l"
  by (simp_all add: in_room_def)

lemma room_hall_Send [keeps_intros]: "keeps (in_room uid rid) (hall_Send svid u cmd msg)"
  unfolding hall_Send_def by (intro keeps_intros) simp

lemma room_on_slots [keeps_intros]: "keeps (in_room uid rid) (on_slots m)"
  by (auto simp: keeps_def on_slots_def in_room_def prod.case_eq_if)

lemma join_other: "uid \<notin> set uids \<Longrightarrow> join uids rid users uid = users uid"
  unfolding join_def by (induction uids arbitrary: users) auto

lemma room_match_up:
  assumes "in_room uid rid l" "uid \<noteq> er_Uid q"
  shows "in_room uid rid (snd (match_up env svid q l))"
proof -
  let ?others = "take 3 (filter (fits q (hl_users l)) (he_order env (hl_asked l) (hl_users l)))"
  have "\<not> fits q (hl_users l) uid" using assms(1) by (auto simp: in_room_def fits_def)
  then have "uid \<notin> set ?others" by (auto dest: in_set_takeD)
  then have "join (er_Uid q # ?others) r (hl_users l) uid = hl_users l uid" for r
    using assms(2) by (intro join_other) simp
  then show ?thesis
    using assms(1) by (auto simp: match_up_def Let_def run_simps hall_Send_def in_room_def)
qed

lemma room_enterRoom: "keeps (in_room uid rid) (enterRoom env req)"
  unfolding keeps_def
proof (intro allI impI)
  fix l assume l: "in_room uid rid l"
  show "in_room uid rid (snd (enterRoom env req l))"
  proof (cases req)
    case None
    then show ?thesis using l by (simp add: enterRoom_def ret_def)
  next
    case (Some q)
    show ?thesis
    proof (cases "er_Uid q = uid")
      case True
      then show ?thesis
        using l Some by (auto simp: enterRoom_def Let_def run_simps hall_Send_def in_room_def word_neq_0_conv)
    next
      case False
      let ?old = "case hl_users l (er_Uid q) of None \<Rightarrow> None | Some g \<Rightarrow> if hu_RoomId g > 0 then Some g else None"
      let ?l = "l\<lparr>hl_asked := hl_asked l + 1\<rparr>"
      let ?set = "\<lambda>g. ?l\<lparr>hl_users := (hl_users l)(er_Uid q \<mapsto> g)\<rparr>"
      have set: "in_room uid rid (?set g)" for g using l False by (simp add: in_room_def)
      have asked: "ask_status l = (Inr (hl_status l (hl_asked l)), ?l)" by (simp add: ask_status_def run_simps)
      show ?thesis
      proof (cases ?old)
        case (Some g)
        then show ?thesis using l \<open>req = Some q\<close> by (simp add: enterRoom_def Let_def run_simps hall_Send_def)
      next
        case None
        show ?thesis
        proof (cases "hl_status l (hl_asked l)")
          case no: None
          then show ?thesis using l None asked \<open>req = Some q\<close> by (simp add: enterRoom_def Let_def run_simps)
        next
          case (Some r)
          then show ?thesis
            using None asked \<open>req = Some q\<close> set room_match_up [OF set, of q] False
            by (simp add: enterRoom_def Let_def run_simps hall_Send_def)
        qed
      qed
    qed
  qed
qed

lemma room_handlers:
  assumes "b_route (hall_init env hm) cmd = Some h"
  shows "keeps (in_room uid rid) (h inp)"
proof -
  have "keeps (in_room uid rid) hall_offline" "keeps (in_room uid rid) (getGameList env c q1)"
    "keeps (in_room uid rid) (getRoomList env c q1)" "keeps (in_room uid rid) (enterSlots q1)"
    "keeps (in_room uid rid) (spinSlots env q2)" "keeps (in_room uid rid) (leaveSlots q3)" for c q1 q2 q3
    unfolding hall_offline_def getGameList_def getRoomList_def enterSlots_def spinSlots_def leaveSlots_def
    by (intro keeps_intros)+
  then show ?thesis
    using assms room_enterRoom by (auto simp: hall_init_def AddRoute_def NewBase_def Let_def split: if_splits)
qed

interpretation rooms: server "in_room uid rid" "b_route (hall_init env hm)" for uid rid env hm
  by unfold_locales (rule room_handlers)

text \<open>
  C39. Nobody ever gets out of a room: once the hall has put a player into a room, the player is in that room
  after any further messages, whatever becomes of the game, and every attempt to enter a room, also
  of another game, only sends the game server a reconnection to the old room.
\<close>

theorem room_never_left:
  assumes "hl_users l uid = Some u" "hu_RoomId u = rid" "rid \<noteq> 0"
    and "l' = Base_Start (b_route (hall_init env hm)) inps l" "er_Uid q = uid"
  shows "(\<exists>u'. hl_users l' uid = Some u' \<and> hu_RoomId u' = rid) \<and>
    enterRoom env (Some q) l' =
      hall_Send (Svid 8 (ucast (er_GameId q))) None 3006 (Hall_Reconnect uid (er_GateId q) rid) l'"
proof -
  have "in_room uid rid l'"
    unfolding assms(4) by (rule rooms.serves) (use assms(1-3) in \<open>simp add: in_room_def\<close>)
  then show ?thesis using assms(5) by (auto simp: in_room_def enterRoom_def Let_def run_simps word_neq_0_conv)
qed

definition no_env :: HallEnv where
  "no_env = \<lparr>he_games = None, he_redis_games = None, he_redis_rooms = None, he_money = \<lambda>_ _. None, he_order = \<lambda>_ _. []\<rparr>"

definition entering :: "(u8 list \<Rightarrow> EnterReq option) \<Rightarrow> HallUnmarshal" where
  "entering f = \<lparr>hm_list = \<lambda>_. None, hm_enter = f, hm_spin = \<lambda>_. None, hm_uid = \<lambda>_. None\<rparr>"

text \<open>Player 5, in room 9, asks for another game and player 6 for the same one: 5 stays in room 9.\<close>

definition five_hall :: HallLocal where
  "five_hall = (NewHall (machine GetFuConf []) (\<lambda>_. Some 0))\<lparr>hl_users :=
     [5 \<mapsto> \<lparr>hu_Uid = 5, hu_GateId = 1, hu_GameId = 1, hu_Multi = 0, hu_RoomId = 9\<rparr>]\<rparr>"

definition five_enters :: HallUnmarshal where
  "five_enters = entering (\<lambda>bs. Some \<lparr>er_Uid = ucast (hd bs), er_GateId = 1, er_GameId = 2, er_RoomId = 0, er_Multi = 0\<rparr>)"

definition five_inputs :: "input list" where
  "five_inputs = map (\<lambda>i. (0, zero_Message\<lparr>m_Cmd := 2003, m_Payload := [i]\<rparr>)) [5, 6]"

lemma room_never_left_witness:
  "\<exists>u'. hl_users (Base_Start (b_route (hall_init no_env five_enters)) five_inputs five_hall) 5 = Some u' \<and> hu_RoomId u' = 9"
  using room_never_left [of five_hall 5 "\<lparr>hu_Uid = 5, hu_GateId = 1, hu_GameId = 1, hu_Multi = 0, hu_RoomId = 9\<rparr>" 9
      _ no_env five_enters five_inputs "\<lparr>er_Uid = 5, er_GateId = 1, er_GameId = 2, er_RoomId = 0, er_Multi = 0\<rparr>", OF _ _ _ refl]
  by (simp add: five_hall_def)

subsection \<open>Rooms of four\<close>

definition members :: "u32 \<Rightarrow> (u32 \<Rightarrow> HallUser option) \<Rightarrow> u32 set" where
  "members rid users = {uid. \<exists>u. users uid = Some u \<and> hu_RoomId u = rid}"

definition alike :: "u32 set \<Rightarrow> (u32 \<Rightarrow> HallUser option) \<Rightarrow> bool" where
  "alike U users \<longleftrightarrow> (\<exists>g m. \<forall>uid \<in> U. \<exists>u. users uid = Some u \<and> hu_GameId u = g \<and> hu_Multi u = m)"

definition rooms_inv :: "nat \<Rightarrow> HallLocal \<Rightarrow> bool" where
  "rooms_inv n l \<longleftrightarrow> unat (hl_incRoomId l) \<le> n \<and> (\<forall>i. hl_status l i \<in> {None, Some 0}) \<and>
     (\<forall>rid. rid \<noteq> 0 \<longrightarrow> (if rid \<le> hl_incRoomId l
        then card (members rid (hl_users l)) = 4 \<and> alike (members rid (hl_users l)) (hl_users l)
        else members rid (hl_users l) = {}))"

lemma join_eq: "join uids rid users x =
    (if x \<in> set uids then map_option (\<lambda>u. u\<lparr>hu_RoomId := rid\<rparr>) (users x) else users x)"
  unfolding join_def
proof (induction uids arbitrary: users)
  case (Cons uid uids)
  then show ?case by (cases "users x") auto
qed simp

lemma members_join:
  assumes "\<forall>uid \<in> set uids. \<exists>u. users uid = Some u \<and> hu_RoomId u = 0" "rid \<noteq> 0" "members rid users = {}"
  shows "members rid (join uids rid users) = set uids"
    and "r \<noteq> 0 \<Longrightarrow> r \<noteq> rid \<Longrightarrow> members r (join uids rid users) = members r users"
proof -
  have no: "\<not> (\<exists>u. users uid = Some u \<and> hu_RoomId u = rid)" for uid using assms(3) by (auto simp: members_def)
  show "members rid (join uids rid users) = set uids"
    using assms(1) no by (auto simp: members_def join_eq split: if_splits)
  show "r \<noteq> 0 \<Longrightarrow> r \<noteq> rid \<Longrightarrow> members r (join uids rid users) = members r users"
    using assms(1) by (fastforce simp: members_def join_eq split: if_splits)
qed

lemma rooms_inv_match:
  assumes inv: "rooms_inv n l" and fresh: "hl_users l (er_Uid q) = Some v" "hu_RoomId v = 0" "hu_GameId v = er_GameId q"
    "hu_Multi v = er_Multi q" and n: "n < 2 ^ 32 - 1" and ord: "distinct (he_order env (hl_asked l) (hl_users l))"
  shows "rooms_inv (Suc n) (snd (match_up env svid q l))"
proof -
  define others where others: "others = take 3 (filter (fits q (hl_users l)) (he_order env (hl_asked l) (hl_users l)))"
  let ?uids = "er_Uid q # others"
  let ?rid = "hl_incRoomId l + 1"
  let ?us = "join ?uids ?rid (hl_users l)"
  have inc: "unat (hl_incRoomId l) \<le> n" using inv by (simp add: rooms_inv_def)
  then have rid: "unat ?rid = Suc (unat (hl_incRoomId l))" using n by (simp add: unat_word_ariths)
  then have rid0: "?rid \<noteq> 0" by (metis nat.distinct(1) unat_0)
  have le: "r \<le> ?rid \<longleftrightarrow> r \<le> hl_incRoomId l \<or> r = ?rid" for r
    using rid by (auto simp: word_le_nat_alt word_unat_eq_iff)
  have gt: "\<not> ?rid \<le> hl_incRoomId l" using rid by (simp add: word_le_nat_alt)
  show ?thesis
  proof (cases "length others < 3")
    case True
    then have "snd (match_up env svid q l) = l" by (simp add: match_up_def Let_def run_simps others)
    then show ?thesis using inv by (simp add: rooms_inv_def)
  next
    case False
    then have run: "snd (match_up env svid q l) = l\<lparr>hl_incRoomId := ?rid, hl_users := ?us,
        hl_out := hl_out (snd (match_up env svid q l))\<rparr>"
      unfolding match_up_def Let_def run_simps others [symmetric] by (simp add: run_simps hall_Send_def)
    have fit: "x \<noteq> er_Uid q \<and> (\<exists>u. hl_users l x = Some u \<and> hu_GameId u = er_GameId q \<and> hu_Multi u = er_Multi q \<and> hu_RoomId u = 0)"
      if "x \<in> set others" for x
    proof -
      have "fits q (hl_users l) x" using that unfolding others by (auto dest: in_set_takeD)
      then show ?thesis by (auto simp: fits_def split: option.splits)
    qed
    have d: "distinct ?uids" "length ?uids = 4"
      using False ord fit by (auto simp: others)
    have zero: "\<forall>x \<in> set ?uids. \<exists>u. hl_users l x = Some u \<and> hu_RoomId u = 0"
      and same: "\<forall>x \<in> set ?uids. \<exists>u. hl_users l x = Some u \<and> hu_GameId u = er_GameId q \<and> hu_Multi u = er_Multi q"
      using fresh fit by (simp_all only: list.set ball_simps insert_iff) blast+
    have empty: "members ?rid (hl_users l) = {}" using inv rid0 gt by (simp add: rooms_inv_def)
    note mem = members_join [OF zero rid0 empty]
    have "card (members r ?us) = 4 \<and> alike (members r ?us) ?us" if r: "r \<noteq> 0" "r \<le> ?rid" for r
    proof (cases "r = ?rid")
      case True
      have "card (set ?uids) = 4" using d distinct_card [OF d(1)] by simp
      moreover have "alike (set ?uids) ?us"
        using same unfolding alike_def join_eq by (intro exI [of _ "er_GameId q"] exI [of _ "er_Multi q"]) auto
      ultimately show ?thesis unfolding True mem(1) by simp
    next
      case False
      then have old: "r \<le> hl_incRoomId l" using r le by blast
      have m: "members r ?us = members r (hl_users l)" by (rule mem(2) [OF r(1) False])
      have "card (members r (hl_users l)) = 4" "alike (members r (hl_users l)) (hl_users l)"
        using inv r(1) old by (simp_all add: rooms_inv_def)
      moreover from this(2) have "alike (members r (hl_users l)) ?us"
        unfolding alike_def join_eq by (fastforce split: if_splits)
      ultimately show ?thesis unfolding m by simp
    qed
    moreover have "members r ?us = {}" if "r \<noteq> 0" "\<not> r \<le> ?rid" for r
      using mem(2) [OF that(1)] inv that le [of r] unfolding rooms_inv_def by auto
    ultimately show ?thesis
      using inv inc rid by (subst run) (simp add: rooms_inv_def del: set_simps)
  qed
qed

lemma rooms_inv_same:
  "rooms_inv n l \<Longrightarrow> hl_users l' = hl_users l \<Longrightarrow> hl_incRoomId l' = hl_incRoomId l \<Longrightarrow> hl_status l' = hl_status l \<Longrightarrow>
   rooms_inv (Suc n) l'"
  by (simp add: rooms_inv_def)

lemma rooms_inv_wait:
  assumes "rooms_inv n l" "\<forall>v. hl_users l uid = Some v \<longrightarrow> hu_RoomId v = 0" "hu_RoomId u = 0"
  shows "rooms_inv n (l\<lparr>hl_asked := i, hl_users := (hl_users l)(uid \<mapsto> u)\<rparr>)"
proof -
  have m: "members r ((hl_users l)(uid \<mapsto> u)) = members r (hl_users l)" if "r \<noteq> 0" for r
    using assms(2,3) that by (auto simp: members_def split: if_splits)
  have "alike (members r (hl_users l)) ((hl_users l)(uid \<mapsto> u))" if "r \<noteq> 0" "alike (members r (hl_users l)) (hl_users l)" for r
  proof -
    have "uid \<notin> members r (hl_users l)" using assms(2) that(1) by (auto simp: members_def)
    then have "\<forall>x \<in> members r (hl_users l). ((hl_users l)(uid \<mapsto> u)) x = hl_users l x" by auto
    then show ?thesis using that(2) unfolding alike_def by metis
  qed
  then show ?thesis using assms(1) m by (simp add: rooms_inv_def)
qed

lemma rooms_inv_enter:
  assumes "rooms_inv n l" "n < 2 ^ 32 - 1" "\<forall>i us. distinct (he_order env i us)"
  shows "rooms_inv (Suc n) (snd (enterRoom env req l))"
proof (cases req)
  case None
  then show ?thesis using rooms_inv_same [OF assms(1)] by (simp add: enterRoom_def ret_def)
next
  case (Some q)
  let ?old = "case hl_users l (er_Uid q) of None \<Rightarrow> None | Some g \<Rightarrow> if hu_RoomId g > 0 then Some g else None"
  let ?u = "\<lparr>hu_Uid = er_Uid q, hu_GateId = ucast (er_GateId q), hu_GameId = er_GameId q, hu_Multi = er_Multi q, hu_RoomId = 0\<rparr>"
  let ?l = "l\<lparr>hl_asked := hl_asked l + 1, hl_users := (hl_users l)(er_Uid q \<mapsto> ?u)\<rparr>"
  have asked: "ask_status l = (Inr (hl_status l (hl_asked l)), l\<lparr>hl_asked := hl_asked l + 1\<rparr>)"
    by (simp add: ask_status_def run_simps)
  have st: "hl_status l (hl_asked l) = None \<or> hl_status l (hl_asked l) = Some 0"
    using assms(1) by (auto simp: rooms_inv_def)
  show ?thesis
  proof (cases ?old)
    case (Some g)
    then show ?thesis using rooms_inv_same [OF assms(1)] \<open>req = Some q\<close>
      by (simp add: enterRoom_def Let_def run_simps hall_Send_def)
  next
    case None
    then have zero: "\<forall>v. hl_users l (er_Uid q) = Some v \<longrightarrow> hu_RoomId v = 0"
      by (auto simp: word_neq_0_conv [symmetric] split: option.splits if_splits)
    have wait: "rooms_inv n ?l" by (rule rooms_inv_wait [OF assms(1) zero]) simp
    have "rooms_inv (Suc n) (snd (match_up env svid q ?l))" for svid
      by (rule rooms_inv_match [OF wait, where v = ?u]) (use assms(2,3) in simp_all)
    then show ?thesis
      using st None asked rooms_inv_same [OF assms(1)] \<open>req = Some q\<close>
      by (auto simp: enterRoom_def Let_def run_simps)
  qed
qed

lemma rooms_inv_Route:
  assumes "rooms_inv n l" "n < 2 ^ 32 - 1" "\<forall>i us. distinct (he_order env i us)"
  shows "rooms_inv (Suc n) (Route (b_route (hall_init env hm)) inp l)"
proof -
  let ?J = "\<lambda>m. hl_users m = hl_users l \<and> hl_incRoomId m = hl_incRoomId l \<and> hl_status m = hl_status l"
  have send: "keeps ?J (hall_Send svid u cmd msg)" for svid u cmd msg
    unfolding hall_Send_def by (intro keeps_intros) simp
  have slots: "keeps ?J (on_slots m)" for m :: "(Slots, 'x) act"
    by (auto simp: keeps_def on_slots_def prod.case_eq_if)
  have others: "keeps ?J hall_offline" "keeps ?J (getGameList env c q1)" "keeps ?J (getRoomList env c q1)"
    "keeps ?J (enterSlots q1)" "keeps ?J (spinSlots env q2)" "keeps ?J (leaveSlots q3)" for c q1 q2 q3
    unfolding hall_offline_def getGameList_def getRoomList_def enterSlots_def spinSlots_def leaveSlots_def
    by (intro keeps_intros send slots)+
  have same: "keeps ?J h \<Longrightarrow> rooms_inv (Suc n) (snd (h l))" for h :: "(HallLocal, unit) act"
    using rooms_inv_same [OF assms(1)] by (simp add: keeps_def)
  have "rooms_inv (Suc n) l" using rooms_inv_same [OF assms(1)] by simp
  then show ?thesis
    using rooms_inv_enter [OF assms] same [OF others(1)] same [OF others(2)] same [OF others(3)] same [OF others(4)]
      same [OF others(5)] same [OF others(6)]
    by (auto simp: Route_def CatchEx_def hall_init_def AddRoute_def NewBase_def Let_def)
qed

lemma rooms_inv_serves:
  assumes "\<forall>i us. distinct (he_order env i us)"
  shows "rooms_inv n l \<Longrightarrow> n + length inps < 2 ^ 32 \<Longrightarrow>
    rooms_inv (n + length inps) (Base_Start (b_route (hall_init env hm)) inps l)"
proof (induction inps arbitrary: n l)
  case (Cons inp inps)
  have "rooms_inv (Suc n) (Route (b_route (hall_init env hm)) inp l)"
    by (rule rooms_inv_Route [OF Cons.prems(1) _ assms]) (use Cons.prems(2) in simp)
  from Cons.IH [OF this] Cons.prems(2) show ?case by simp
qed simp

text \<open>
  What the hall announces to the game servers, whatever these answer: the server, the number of the room
  and its players.
\<close>

fun starts :: "hall_sent list \<Rightarrow> (u16 \<times> u32 \<times> (u32 \<times> u32) list) list" where
  "starts [] = []"
| "starts (s # ss) = (case hs_msg s of Hall_Start rid ms \<Rightarrow> [(hs_svid s, rid, ms)] | _ \<Rightarrow> []) @ starts ss"

lemma starts_append [simp]: "starts (xs @ ys) = starts xs @ starts ys"
  by (induction xs) simp_all

definition room_of :: "u16 \<Rightarrow> u32 \<Rightarrow> u32 set \<Rightarrow> (u32 \<Rightarrow> HallUser option) \<Rightarrow> bool" where
  "room_of svid rid U users \<longleftrightarrow> (\<exists>g m. svid = Svid 8 (ucast g) \<and>
     (\<forall>uid \<in> U. \<exists>u. users uid = Some u \<and> hu_RoomId u = rid \<and> hu_GameId u = g \<and> hu_Multi u = m))"

definition starts_inv :: "nat \<Rightarrow> HallLocal \<Rightarrow> bool" where
  "starts_inv n l \<longleftrightarrow> unat (hl_incRoomId l) \<le> n \<and> (\<forall>uid u. hl_users l uid = Some u \<longrightarrow> hu_Uid u = uid) \<and>
     map (fst \<circ> snd) (starts (hl_out l)) = map of_nat [1..<Suc (unat (hl_incRoomId l))] \<and>
     (\<forall>(svid, rid, ms) \<in> set (starts (hl_out l)).
        rid \<noteq> 0 \<and> length ms = 4 \<and> distinct (map fst ms) \<and> room_of svid rid (fst ` set ms) (hl_users l))"

text \<open>Players who are in a room keep their record, so an announced room keeps its players.\<close>

definition settled_kept :: "(u32 \<Rightarrow> HallUser option) \<Rightarrow> (u32 \<Rightarrow> HallUser option) \<Rightarrow> bool" where
  "settled_kept users users' \<longleftrightarrow> (\<forall>uid u. users uid = Some u \<longrightarrow> hu_RoomId u \<noteq> 0 \<longrightarrow> users' uid = Some u)"

lemma room_of_kept: "room_of svid rid U users \<Longrightarrow> rid \<noteq> 0 \<Longrightarrow> settled_kept users users' \<Longrightarrow> room_of svid rid U users'"
  unfolding room_of_def settled_kept_def by metis

lemma settled_kept_wait: "\<forall>v. users uid = Some v \<longrightarrow> hu_RoomId v = 0 \<Longrightarrow> settled_kept users (users(uid \<mapsto> u))"
  by (auto simp: settled_kept_def)

lemma settled_kept_join:
  "\<forall>uid \<in> set uids. \<exists>u. users uid = Some u \<and> hu_RoomId u = 0 \<Longrightarrow> settled_kept users (join uids rid users)"
  by (auto simp: settled_kept_def join_eq)

lemma starts_inv_same:
  assumes "starts_inv n l" "hl_incRoomId l' = hl_incRoomId l" "starts (hl_out l') = starts (hl_out l)"
    and "settled_kept (hl_users l) (hl_users l')" "\<forall>uid u. hl_users l' uid = Some u \<longrightarrow> hu_Uid u = uid" "n \<le> n'"
  shows "starts_inv n' l'"
  using assms unfolding starts_inv_def by (fastforce intro: room_of_kept)

lemma settled_kept_refl [simp]: "settled_kept users users"
  by (simp add: settled_kept_def)

lemma starts_inv_out:
  "starts_inv n l \<Longrightarrow> hl_users l' = hl_users l \<Longrightarrow> hl_incRoomId l' = hl_incRoomId l \<Longrightarrow>
   starts (hl_out l') = starts (hl_out l) \<Longrightarrow> starts_inv (Suc n) l'"
  by (rule starts_inv_same) (auto simp: starts_inv_def)

lemma starts_inv_match:
  assumes inv: "starts_inv n l" and fresh: "hl_users l (er_Uid q) = Some v" "hu_RoomId v = 0" "hu_GameId v = er_GameId q"
    "hu_Multi v = er_Multi q" and n: "n < 2 ^ 32 - 1" and ord: "distinct (he_order env (hl_asked l) (hl_users l))"
  shows "starts_inv (Suc n) (snd (match_up env (Svid 8 (ucast (er_GameId q))) q l))"
proof -
  define others where others: "others = take 3 (filter (fits q (hl_users l)) (he_order env (hl_asked l) (hl_users l)))"
  let ?uids = "er_Uid q # others"
  let ?rid = "hl_incRoomId l + 1"
  let ?us = "join ?uids ?rid (hl_users l)"
  let ?ms = "(er_Uid q, er_GateId q) #
    map (\<lambda>uid. case hl_users l uid of None \<Rightarrow> (0, 0) | Some u \<Rightarrow> (hu_Uid u, ucast (hu_GateId u))) others"
  let ?sv = "Svid 8 (ucast (er_GameId q))"
  have rid: "unat ?rid = Suc (unat (hl_incRoomId l))" and inc: "unat (hl_incRoomId l) \<le> n"
    using inv n by (simp_all add: starts_inv_def unat_word_ariths)
  then have rid0: "?rid \<noteq> 0" by (metis nat.distinct(1) unat_0)
  show ?thesis
  proof (cases "length others < 3")
    case True
    then have "snd (match_up env ?sv q l) = l" by (simp add: match_up_def Let_def run_simps others)
    then show ?thesis using starts_inv_out [OF inv] by simp
  next
    case False
    have fit: "x \<noteq> er_Uid q \<and> (\<exists>u. hl_users l x = Some u \<and> hu_GameId u = er_GameId q \<and> hu_Multi u = er_Multi q \<and> hu_RoomId u = 0)"
      if "x \<in> set others" for x
    proof -
      have "fits q (hl_users l) x" using that unfolding others by (auto dest: in_set_takeD)
      then show ?thesis by (auto simp: fits_def split: option.splits)
    qed
    let ?l = "snd (match_up env ?sv q l)"
    have run: "hl_incRoomId ?l = ?rid" "hl_users ?l = ?us" "starts (hl_out ?l) = starts (hl_out l) @ [(?sv, ?rid, ?ms)]"
      using False unfolding match_up_def Let_def run_simps others [symmetric]
      by (simp_all add: run_simps hall_Send_def del: fun_upd_apply)
    have key: "hl_users l x = Some u \<Longrightarrow> hu_Uid u = x" for x u using inv by (simp add: starts_inv_def)
    have "fst (case hl_users l x of None \<Rightarrow> (0, 0) | Some u \<Rightarrow> (hu_Uid u, ucast (hu_GateId u))) = x" if "x \<in> set others" for x
      using fit [OF that] key by auto
    then have "map (\<lambda>x. fst (case hl_users l x of None \<Rightarrow> (0, 0) | Some u \<Rightarrow> (hu_Uid u, ucast (hu_GateId u)))) others = others"
      by (rule map_idI)
    then have uids: "map fst ?ms = ?uids" by (simp add: comp_def)
    then have set: "fst ` set ?ms = set ?uids" by (metis set_map)
    have d: "distinct ?uids" "length ?ms = 4" using False ord fit by (auto simp: others)
    have zero: "\<forall>x \<in> set ?uids. \<exists>u. hl_users l x = Some u \<and> hu_RoomId u = 0"
      and same: "\<forall>x \<in> set ?uids. \<exists>u. hl_users l x = Some u \<and> hu_GameId u = er_GameId q \<and> hu_Multi u = er_Multi q"
      using fresh fit by (simp_all only: list.set ball_simps insert_iff) blast+
    have new: "room_of ?sv ?rid (fst ` set ?ms) ?us"
      unfolding set room_of_def using same
      by (intro exI [of _ "er_GameId q"] exI [of _ "er_Multi q"]) (fastforce simp: join_eq)
    have kept: "settled_kept (hl_users l) ?us" by (rule settled_kept_join [OF zero])
    have keys: "\<forall>x u. ?us x = Some u \<longrightarrow> hu_Uid u = x" using key by (fastforce simp: join_eq split: if_splits)
    have old: "\<forall>(svid, rid, ms) \<in> set (starts (hl_out l)).
        rid \<noteq> 0 \<and> length ms = 4 \<and> distinct (map fst ms) \<and> room_of svid rid (fst ` set ms) ?us"
      using inv kept unfolding starts_inv_def by (fastforce intro: room_of_kept)
    have "of_nat (Suc (unat (hl_incRoomId l))) = ?rid" by (simp add: rid [symmetric])
    then have nums: "map (fst \<circ> snd) (starts (hl_out ?l)) = map of_nat [1..<Suc (unat ?rid)]"
      using inv run(3) rid by (simp add: starts_inv_def del: of_nat_Suc)
    have "distinct (map fst ?ms)" unfolding uids by (rule d(1))
    then have "\<forall>(svid, rid, ms) \<in> set (starts (hl_out ?l)).
        rid \<noteq> 0 \<and> length ms = 4 \<and> distinct (map fst ms) \<and> room_of svid rid (fst ` set ms) ?us"
      unfolding run(3) using old rid0 d(2) new by (simp only: set_append ball_Un list.set ball_simps prod.case) blast
    then show ?thesis unfolding starts_inv_def run(1,2) using inc rid nums keys by (simp only: run(1)) simp
  qed
qed

lemma starts_inv_enter:
  assumes inv: "starts_inv n l" and "n < 2 ^ 32 - 1" "\<forall>i us. distinct (he_order env i us)"
  shows "starts_inv (Suc n) (snd (enterRoom env req l))"
proof (cases req)
  case None
  then show ?thesis using starts_inv_out [OF inv] by (simp add: enterRoom_def ret_def)
next
  case (Some q)
  let ?old = "case hl_users l (er_Uid q) of None \<Rightarrow> None | Some g \<Rightarrow> if hu_RoomId g > 0 then Some g else None"
  let ?l = "l\<lparr>hl_asked := hl_asked l + 1\<rparr>"
  let ?set = "\<lambda>u. ?l\<lparr>hl_users := (hl_users l)(er_Uid q \<mapsto> u)\<rparr>"
  have asked: "ask_status l = (Inr (hl_status l (hl_asked l)), ?l)" by (simp add: ask_status_def run_simps)
  show ?thesis
  proof (cases ?old)
    case (Some g)
    then show ?thesis using starts_inv_out [OF inv] \<open>req = Some q\<close>
      by (simp add: enterRoom_def Let_def run_simps hall_Send_def)
  next
    case None
    then have zero: "\<forall>v. hl_users l (er_Uid q) = Some v \<longrightarrow> hu_RoomId v = 0"
      by (auto simp: word_neq_0_conv [symmetric] split: option.splits if_splits)
    have wait: "starts_inv n (?set u)" if "hu_Uid u = er_Uid q" for u
      by (rule starts_inv_same [OF inv])
        (use inv that settled_kept_wait [of "hl_users l" "er_Uid q" u] zero in \<open>simp_all add: starts_inv_def\<close>)
    have key: "hl_users l (er_Uid q) = Some g \<Longrightarrow> hu_Uid g = er_Uid q" for g using inv by (simp add: starts_inv_def)
    show ?thesis
    proof (cases "hl_status l (hl_asked l)")
      case no: None
      then show ?thesis using None asked starts_inv_out [OF inv] \<open>req = Some q\<close>
        by (simp add: enterRoom_def Let_def run_simps)
    next
      case (Some rid)
      show ?thesis
      proof (cases "rid = 0")
        case True
        let ?u = "\<lparr>hu_Uid = er_Uid q, hu_GateId = ucast (er_GateId q), hu_GameId = er_GameId q, hu_Multi = er_Multi q, hu_RoomId = 0\<rparr>"
        have "starts_inv (Suc n) (snd (match_up env (Svid 8 (ucast (er_GameId q))) q (?set ?u)))"
          by (rule starts_inv_match [OF wait, where v = ?u]) (use assms(2,3) in simp_all)
        then show ?thesis using True Some None asked \<open>req = Some q\<close> by (simp add: enterRoom_def Let_def run_simps)
      next
        case False
        let ?u = "case hl_users l (er_Uid q) of
                         None \<Rightarrow> \<lparr>hu_Uid = er_Uid q, hu_GateId = ucast (er_GateId q), hu_GameId = er_GameId q, hu_Multi = 0,
                                   hu_RoomId = er_RoomId q\<rparr>
                       | Some g \<Rightarrow> g\<lparr>hu_RoomId := rid\<rparr>"
        have "starts_inv n (?set ?u)" by (rule wait) (use key in \<open>simp split: option.split\<close>)
        from starts_inv_out [OF this] show ?thesis using False Some None asked \<open>req = Some q\<close>
          by (simp add: enterRoom_def Let_def run_simps hall_Send_def)
      qed
    qed
  qed
qed

lemma starts_inv_Route:
  assumes "starts_inv n l" "n < 2 ^ 32 - 1" "\<forall>i us. distinct (he_order env i us)"
  shows "starts_inv (Suc n) (Route (b_route (hall_init env hm)) inp l)"
proof -
  let ?J = "\<lambda>m. hl_users m = hl_users l \<and> hl_incRoomId m = hl_incRoomId l \<and> starts (hl_out m) = starts (hl_out l)"
  have send: "keeps ?J (hall_Send svid u cmd msg)" if "\<forall>rid ms. msg \<noteq> Hall_Start rid ms" for svid u cmd msg
    unfolding hall_Send_def by (intro keeps_intros) (use that in \<open>simp split: hall_msg.split\<close>)
  have slots: "keeps ?J (on_slots m)" for m :: "(Slots, 'x) act"
    by (auto simp: keeps_def on_slots_def prod.case_eq_if)
  have others: "keeps ?J hall_offline" "keeps ?J (getGameList env c q1)" "keeps ?J (getRoomList env c q1)"
    "keeps ?J (enterSlots q1)" "keeps ?J (spinSlots env q2)" "keeps ?J (leaveSlots q3)" for c q1 q2 q3
    unfolding hall_offline_def getGameList_def getRoomList_def enterSlots_def spinSlots_def leaveSlots_def
    by (intro keeps_intros send slots; simp)+
  have same: "keeps ?J h \<Longrightarrow> starts_inv (Suc n) (snd (h l))" for h :: "(HallLocal, unit) act"
    using starts_inv_out [OF assms(1)] by (simp add: keeps_def)
  have "starts_inv (Suc n) l" using starts_inv_out [OF assms(1)] by simp
  then show ?thesis
    using starts_inv_enter [OF assms] same [OF others(1)] same [OF others(2)] same [OF others(3)] same [OF others(4)]
      same [OF others(5)] same [OF others(6)]
    by (auto simp: Route_def CatchEx_def hall_init_def AddRoute_def NewBase_def Let_def)
qed

lemma starts_inv_serves:
  assumes "\<forall>i us. distinct (he_order env i us)"
  shows "starts_inv n l \<Longrightarrow> n + length inps < 2 ^ 32 \<Longrightarrow>
    starts_inv (n + length inps) (Base_Start (b_route (hall_init env hm)) inps l)"
proof (induction inps arbitrary: n l)
  case (Cons inp inps)
  have "starts_inv (Suc n) (Route (b_route (hall_init env hm)) inp l)"
    by (rule starts_inv_Route [OF Cons.prems(1) _ assms]) (use Cons.prems(2) in simp)
  from Cons.IH [OF this] Cons.prems(2) show ?case by simp
qed simp

text \<open>
  C9. Rooms are made up of four. After fewer than \<open>2 ^ 32\<close> messages, whatever the game servers answer
  about a player's state (and Go visiting every user at most once), the rooms the hall has announced
  carry the numbers 1, 2, 3 and so on; each was announced to the server of its game with four different
  players, who are on record for that game and for one multiple and are in that room now, so that no
  player is in two of them. As long as the game servers know of no room of the players, nobody else is
  in a room: every room number is that of nobody or of exactly the four players of the room announced
  under it.
\<close>

theorem rooms_of_four:
  assumes "\<forall>i us. distinct (he_order env i us)" "length inps < 2 ^ 32"
    and "l = Base_Start (b_route (hall_init env hm)) inps (NewHall sl status)"
  shows "map (fst \<circ> snd) (starts (hl_out l)) = map of_nat [1..<Suc (length (starts (hl_out l)))] \<and>
    (\<forall>(svid, rid, ms) \<in> set (starts (hl_out l)). length ms = 4 \<and> distinct (map fst ms) \<and>
       (\<exists>g m. svid = Svid 8 (ucast g) \<and> (\<forall>uid \<in> fst ` set ms.
          \<exists>u. hl_users l uid = Some u \<and> hu_RoomId u = rid \<and> hu_GameId u = g \<and> hu_Multi u = m))) \<and>
    ((\<forall>i. status i \<in> {None, Some 0}) \<longrightarrow>
       (\<forall>rid U. rid \<noteq> 0 \<and> U = {uid. \<exists>u. hl_users l uid = Some u \<and> hu_RoomId u = rid} \<longrightarrow>
          U = {} \<or> card U = 4 \<and> (\<exists>svid ms. (svid, rid, ms) \<in> set (starts (hl_out l)) \<and> U = fst ` set ms)))"
proof -
  have "starts_inv 0 (NewHall sl status)" by (simp add: starts_inv_def NewHall_def)
  from starts_inv_serves [OF assms(1) this, of inps hm] assms(2) have inv: "starts_inv (length inps) l"
    by (simp add: assms(3))
  let ?n = "unat (hl_incRoomId l)"
  have nums: "map (fst \<circ> snd) (starts (hl_out l)) = map of_nat [1..<Suc ?n]" using inv by (simp add: starts_inv_def)
  then have len: "length (starts (hl_out l)) = ?n" by (metis diff_Suc_1 length_map length_upt)
  have four: "\<forall>(svid, rid, ms) \<in> set (starts (hl_out l)). rid \<noteq> 0 \<and> length ms = 4 \<and> distinct (map fst ms) \<and>
      room_of svid rid (fst ` set ms) (hl_users l)" using inv by (simp add: starts_inv_def)
  have "U = {} \<or> card U = 4 \<and> (\<exists>svid ms. (svid, rid, ms) \<in> set (starts (hl_out l)) \<and> U = fst ` set ms)"
    if st: "\<forall>i. status i \<in> {None, Some 0}" and rid: "rid \<noteq> 0" and U: "U = members rid (hl_users l)" for rid U
  proof (cases "rid \<le> hl_incRoomId l")
    case True
    have "rooms_inv 0 (NewHall sl status)" using st by (auto simp: rooms_inv_def NewHall_def members_def)
    from rooms_inv_serves [OF assms(1) this, of inps hm] assms(2) have "rooms_inv (length inps) l" by (simp add: assms(3))
    then have card: "card U = 4" using True rid unfolding rooms_inv_def U by auto
    have "rid = of_nat (unat rid)" "unat rid \<in> set [1..<Suc ?n]"
      using True rid by (auto simp: word_le_nat_alt unat_eq_0 Suc_le_eq neq0_conv [symmetric] simp del: neq0_conv)
    then have "rid \<in> set (map (fst \<circ> snd) (starts (hl_out l)))" unfolding nums by (metis imageI set_map)
    then obtain svid ms where ms: "(svid, rid, ms) \<in> set (starts (hl_out l))" by auto
    with four have f: "length ms = 4" "distinct (map fst ms)" "room_of svid rid (fst ` set ms) (hl_users l)" by auto
    have "fst ` set ms \<subseteq> U" using f(3) by (auto simp: room_of_def U members_def)
    moreover have "card (fst ` set ms) = 4" using f(1,2) by (metis distinct_card length_map set_map)
    moreover have "finite U" using card by (metis card.infinite zero_neq_numeral)
    ultimately have "U = fst ` set ms" using card by (metis card_subset_eq)
    with ms card show ?thesis by blast
  next
    case False
    have "rooms_inv 0 (NewHall sl status)" using st by (auto simp: rooms_inv_def NewHall_def members_def)
    from rooms_inv_serves [OF assms(1) this, of inps hm] assms(2) have "rooms_inv (length inps) l" by (simp add: assms(3))
    then show ?thesis using False rid unfolding rooms_inv_def U by auto
  qed
  moreover have "\<forall>(svid, rid, ms) \<in> set (starts (hl_out l)). length ms = 4 \<and> distinct (map fst ms) \<and>
      room_of svid rid (fst ` set ms) (hl_users l)" using four by fast
  ultimately show ?thesis using nums unfolding len room_of_def members_def by blast
qed

text \<open>Four players enter, one after the other.\<close>

definition four_enter :: "input list" where
  "four_enter = map (\<lambda>i. (0, zero_Message\<lparr>m_Cmd := 2003, m_Payload := [i]\<rparr>)) [1, 2, 3, 4]"

definition four_env :: HallEnv where
  "four_env = no_env\<lparr>he_order := \<lambda>_ _. [1, 2, 3, 4]\<rparr>"

definition four_hall :: HallLocal where
  "four_hall = Base_Start (b_route (hall_init four_env (entering (\<lambda>bs. Some \<lparr>er_Uid = ucast (hd bs), er_GateId = 1,
     er_GameId = 1, er_RoomId = 0, er_Multi = 1\<rparr>)))) four_enter (NewHall (machine GetFuConf []) (\<lambda>_. Some 0))"

lemma rooms_of_four_witness:
  "\<exists>svid ms. starts (hl_out four_hall) = [(svid, 1, ms)] \<and> length ms = 4 \<and>
    card {uid. \<exists>u. hl_users four_hall uid = Some u \<and> hu_RoomId u = 1} = 4"
proof -
  have n: "length (starts (hl_out four_hall)) = 1" and u: "\<exists>u. hl_users four_hall 2 = Some u \<and> hu_RoomId u = 1"
    by (simp_all add: four_hall_def four_enter_def four_env_def no_env_def entering_def hall_init_def AddRoute_def NewBase_def
        Route_def CatchEx_def Unpack_def zero_Message_def NewHall_def enterRoom_def ask_status_def match_up_def fits_def
        join_def hall_Send_def Let_def run_simps)
  have "\<forall>i us. distinct (he_order four_env i us)" by (simp add: four_env_def)
  note w = rooms_of_four [OF this _ four_hall_def]
  obtain svid rid ms where one: "starts (hl_out four_hall) = [(svid, rid, ms)]"
    using n by (cases "starts (hl_out four_hall)") auto
  then have "rid = 1" "length ms = 4" using w by (simp_all add: four_enter_def)
  moreover have "{uid. \<exists>u. hl_users four_hall uid = Some u \<and> hu_RoomId u = 1} \<noteq> {}" using u by blast
  then have "card {uid. \<exists>u. hl_users four_hall uid = Some u \<and> hu_RoomId u = 1} = 4"
    using w [THEN conjunct2, THEN conjunct2, rule_format, of 1 "{uid. \<exists>u. hl_users four_hall uid = Some u \<and> hu_RoomId u = 1}"]
    by (simp add: four_enter_def) blast
  ultimately show ?thesis using one by blast
qed

end
