(* ===== verification/GateRoute.thy ===== *)
theory GateRoute
  imports LocalBase
begin

text \<open>
  \<open>examples/gate/route\<close>: the gate, which knows the connection of every player, passes messages of clients
  on to servers and answers of servers to clients. It works on the connections of its poll: whenever one
  is deleted the poll calls \<open>Close\<close>, in the middle of whatever the gate is doing. The answers of the
  user data base and the marshalling of answers are parameters.
\<close>

subsection \<open>Clients\<close>

record GateUser =
  gu_Uid :: u32
  gu_GameId :: u8
  gu_HallId :: u8
  gu_Nick :: string
  gu_Sex :: u8
  gu_IconId :: u8

definition UserID :: "GateUser \<Rightarrow> u32" where
  "UserID u = gu_Uid u"

definition GameID :: "GateUser \<Rightarrow> u8" where
  "GameID u = gu_GameId u"

definition GateID :: "GateUser \<Rightarrow> u8" where
  "GateID u = 0"

record GateLocal =
  ga_net :: Net
  ga_users :: "u32 \<Rightarrow> nat option"

definition NewGate :: "Net \<Rightarrow> GateLocal" where
  "NewGate n = \<lparr>ga_net = n, ga_users = Map.empty\<rparr>"

definition GetClient :: "u32 \<Rightarrow> GateLocal \<Rightarrow> nat option" where
  "GetClient uid l = ga_users l uid"

definition SetClient :: "u32 \<Rightarrow> nat \<Rightarrow> GateLocal \<Rightarrow> GateLocal" where
  "SetClient uid c l = l\<lparr>ga_users := (ga_users l)(uid \<mapsto> c), ga_net := SetContext c uid (ga_net l)\<rparr>"

definition DelClient :: "u32 \<Rightarrow> GateLocal \<Rightarrow> GateLocal" where
  "DelClient uid l = l\<lparr>ga_users := (ga_users l)(uid := None)\<rparr>"

definition gate_Close :: "nat \<Rightarrow> GateLocal \<Rightarrow> GateLocal" where
  "gate_Close c l = (case Context c (ga_net l) of None \<Rightarrow> l | Some uid \<Rightarrow> DelClient uid l)"

text \<open>An operation of the poll, with the closes it reports.\<close>

definition closes :: "call list \<Rightarrow> nat list" where
  "closes cs = concat (map (\<lambda>c. case c of Called_Close k \<Rightarrow> [k] | _ \<Rightarrow> []) cs)"

definition on_net :: "(Net, 'a) act \<Rightarrow> (GateLocal, 'a) act" where
  "on_net m =
     (\<lambda>l. case m (ga_net l) of
        (x, n) \<Rightarrow> (x, foldl (\<lambda>l c. gate_Close c l) (l\<lparr>ga_net := n\<rparr>)
          (closes (drop (length (n_calls (ga_net l))) (n_calls n)))))"

subsection \<open>Handlers\<close>

record LoginReq =
  lo_GateId :: u32
  lo_Uid :: u32

record LoginRsp =
  lp_Ret :: i32
  lp_GameId :: u32
  lp_Nick :: string
  lp_IconId :: u32
  lp_IsRegist :: bool
  lp_Uid :: u32

record PacketIn =
  pk_Svid :: u32
  pk_Cmd :: u32
  pk_Payload :: "u8 list"

record PacketOut =
  po_Uid :: "u32 list"
  po_Cmd :: u32
  po_Payload :: "u8 list"

text \<open>
  The data base (\<open>DbRedis\<close>), of which every answer may be an error, and the marshallers.
\<close>

record GateEnv =
  ge_GenUserId :: "u32 option"
  ge_SetUser :: "u32 \<Rightarrow> GateUser \<Rightarrow> bool"
  ge_SetGate :: "u32 \<Rightarrow> u8 \<Rightarrow> bool"
  ge_GetUser :: "u32 \<Rightarrow> GateUser option"
  ge_GetGame :: "u32 \<Rightarrow> u8"
  ge_echo :: "u8 list \<Rightarrow> u8 list option"
  ge_login_rsp :: "LoginRsp \<Rightarrow> u8 list option"
  ge_kick :: "u8 list option"
  ge_common_rsp :: "u8 list option"

definition gate_WriteBy :: "Sys \<Rightarrow> nat \<Rightarrow> u16 \<Rightarrow> u8 list option \<Rightarrow> (GateLocal, net_error option) act" where
  "gate_WriteBy y c cmd body = on_net (sys_write y cmd (Some body) c)"

definition gate_Write :: "Sys \<Rightarrow> nat \<Rightarrow> u16 \<Rightarrow> u8 list \<Rightarrow> (GateLocal, net_error option) act" where
  "gate_Write y c cmd payload =
     on_net (Conn_Write (y_dl y c) (y_wr y c) (y_now y) (Some (NewMessageWithPayload (of_int (y_now y)) cmd payload)) c)"

definition echo :: "Sys \<Rightarrow> GateEnv \<Rightarrow> input \<Rightarrow> (GateLocal, unit) act" where
  "echo y env inp =
     seq (gate_WriteBy y (fst inp) (m_Cmd (snd inp)) (ge_echo env (m_Payload (snd inp)))) (\<lambda>_. ret ())"

definition login_failed :: "Sys \<Rightarrow> GateEnv \<Rightarrow> nat \<Rightarrow> (GateLocal, GateUser option) act" where
  "login_failed y env c =
     seq (gate_WriteBy y c 1001 (ge_login_rsp env \<lparr>lp_Ret = 1, lp_GameId = 0, lp_Nick = [], lp_IconId = 0,
       lp_IsRegist = False, lp_Uid = 0\<rparr>)) (\<lambda>_. ret None)"

text \<open>A client without uid is registered.\<close>

definition login_new :: "Sys \<Rightarrow> GateEnv \<Rightarrow> nat \<Rightarrow> (GateLocal, GateUser option) act" where
  "login_new y env c =
     (case ge_GenUserId env of
        None \<Rightarrow> login_failed y env c
      | Some uid \<Rightarrow>
          (let info = \<lparr>gu_Uid = uid, gu_GameId = 0, gu_HallId = 0, gu_Nick = ''Beautify'', gu_Sex = 0, gu_IconId = 1\<rparr>
           in if \<not> ge_SetUser env uid info then login_failed y env c
              else seq (modify (SetClient uid c)) (\<lambda>_. ret (Some info))))"

text \<open>A client with a uid takes over from an older connection, which is told so.\<close>

definition login_old :: "Sys \<Rightarrow> GateEnv \<Rightarrow> LoginReq \<Rightarrow> nat \<Rightarrow> (GateLocal, GateUser option) act" where
  "login_old y env req c =
     seq get_st (\<lambda>l.
     seq (if GetClient (lo_Uid req) l \<noteq> Some c then
            seq (case GetClient (lo_Uid req) l of
                   None \<Rightarrow> ret ()
                 | Some k \<Rightarrow> seq (gate_WriteBy y k 1003 (ge_kick env)) (\<lambda>_. ret ())) (\<lambda>_.
            seq (modify (SetClient (lo_Uid req) c)) (\<lambda>_.
            ret (ge_SetGate env (lo_Uid req) (ucast (lo_GateId req)))))
          else ret True) (\<lambda>ok.
     if \<not> ok then ret None else ret (ge_GetUser env (lo_Uid req))))"

definition login :: "Sys \<Rightarrow> GateEnv \<Rightarrow> input \<Rightarrow> LoginReq option \<Rightarrow> (GateLocal, unit) act" where
  "login y env inp req =
     (case req of
        None \<Rightarrow> ret ()
      | Some q \<Rightarrow>
          seq (if lo_Uid q = 0 then login_new y env (fst inp) else login_old y env q (fst inp)) (\<lambda>info.
          case info of
            None \<Rightarrow> ret ()
          | Some u \<Rightarrow>
              seq (gate_WriteBy y (fst inp) (m_Cmd (snd inp)) (ge_login_rsp env
                \<lparr>lp_Ret = 0, lp_GameId = ucast (ge_GetGame env (lo_Uid q)), lp_Nick = gu_Nick u,
                  lp_IconId = ucast (gu_IconId u), lp_IsRegist = (lo_Uid q = 0), lp_Uid = gu_Uid u\<rparr>)) (\<lambda>_. ret ())))"

definition logout :: "Sys \<Rightarrow> GateEnv \<Rightarrow> input \<Rightarrow> u32 option \<Rightarrow> (GateLocal, unit) act" where
  "logout y env inp req =
     (case req of
        None \<Rightarrow> ret ()
      | Some uid \<Rightarrow>
          seq (gate_WriteBy y (fst inp) (m_Cmd (snd inp)) (ge_common_rsp env)) (\<lambda>_. modify (DelClient uid)))"

definition packetIn :: "Sys \<Rightarrow> PacketIn option \<Rightarrow> (GateLocal, unit) act" where
  "packetIn y req =
     (case req of
        None \<Rightarrow> ret ()
      | Some q \<Rightarrow>
          seq (on_net (sys_server y (ucast (pk_Svid q)))) (\<lambda>cli.
          case cli of
            None \<Rightarrow> ret ()
          | Some c \<Rightarrow> seq (gate_Write y c (ucast (pk_Cmd q)) (pk_Payload q)) (\<lambda>_. ret ())))"

definition packetOut :: "Sys \<Rightarrow> PacketOut option \<Rightarrow> (GateLocal, unit) act" where
  "packetOut y req =
     (case req of
        None \<Rightarrow> ret ()
      | Some q \<Rightarrow>
          for_each (\<lambda>uid.
            seq get_st (\<lambda>l.
            case GetClient uid l of
              None \<Rightarrow> ret ()
            | Some c \<Rightarrow> seq (gate_Write y c (ucast (po_Cmd q)) (po_Payload q)) (\<lambda>_. ret ()))) (po_Uid q))"

subsection \<open>Routes\<close>

record GateUnmarshal =
  gm_login :: "u8 list \<Rightarrow> LoginReq option"
  gm_logout :: "u8 list \<Rightarrow> u32 option"
  gm_in :: "u8 list \<Rightarrow> PacketIn option"
  gm_out :: "u8 list \<Rightarrow> PacketOut option"

definition gate_Init :: "Sys \<Rightarrow> GateEnv \<Rightarrow> GateUnmarshal \<Rightarrow> GateLocal BaseLocal" where
  "gate_Init y env gm =
     (let l = NewBase;
          l = AddRoute 1010 (\<lambda>inp. echo y env inp) l;
          l = AddRoute 1001 (\<lambda>inp. login y env inp (Unpack (gm_login gm) (snd inp) \<lparr>lo_GateId = 0, lo_Uid = 0\<rparr>)) l;
          l = AddRoute 1007 (\<lambda>inp. logout y env inp (Unpack (gm_logout gm) (snd inp) 0)) l;
          l = AddRoute 1012 (\<lambda>inp. packetIn y (Unpack (gm_in gm) (snd inp) \<lparr>pk_Svid = 0, pk_Cmd = 0, pk_Payload = []\<rparr>)) l
      in AddRoute 1013 (\<lambda>inp. packetOut y (Unpack (gm_out gm) (snd inp) \<lparr>po_Uid = [], po_Cmd = 0, po_Payload = []\<rparr>)) l)"

end
