(* ===== verification/GateProps.thy ===== *)
theory GateProps
  imports GateRoute
begin

text \<open>
  Properties of the gate: what a server sends to players reaches exactly their connections, and what
  happens when a player logs in on a second connection.
\<close>

subsection \<open>Writes that succeed\<close>

definition takes_all :: "Sys \<Rightarrow> bool" where
  "takes_all y \<longleftrightarrow> (\<forall>c. y_dl y c) \<and> (\<forall>c bs. y_wr y c bs)"

definition packed :: "Message \<Rightarrow> u8 list" where
  "packed m = fst (Pack m)"

definition written :: "int \<Rightarrow> Message \<Rightarrow> nat \<Rightarrow> GateLocal \<Rightarrow> GateLocal" where
  "written now m c l = l\<lparr>ga_net := SetActiveTime c now (upd_conn c (\<lambda>k. k\<lparr>c_sent := c_sent k @ [packed m]\<rparr>) (ga_net l))\<rparr>"

lemma written_frame [simp]:
  "ga_users (written now m c l) = ga_users l" "n_calls (ga_net (written now m c l)) = n_calls (ga_net l)"
  "n_epoll (ga_net (written now m c l)) = n_epoll (ga_net l)" "n_mgr (ga_net (written now m c l)) = n_mgr (ga_net l)"
  "c_fd (n_store (ga_net (written now m c l)) d) = c_fd (n_store (ga_net l) d)"
  "c_svid (n_store (ga_net (written now m c l)) d) = c_svid (n_store (ga_net l) d)"
  "c_ctx (n_store (ga_net (written now m c l)) d) = c_ctx (n_store (ga_net l) d)"
  "c_open (n_store (ga_net (written now m c l)) d) = c_open (n_store (ga_net l) d)"
  "c_sent (n_store (ga_net (written now m c l)) d) = c_sent (n_store (ga_net l) d) @ (if d = c then [packed m] else [])"
  by (simp_all add: written_def SetActiveTime_def upd_conn_def)

lemma Conn_Write_written:
  assumes "takes_all y"
  shows "on_net (Conn_Write (y_dl y c) (y_wr y c) now (Some m) c) l = (Inr None, written now m c l)"
  using assms
  by (simp add: on_net_def Conn_Write_defs TcpWrite_def WsWrite_def takes_all_def run_simps prod.case_eq_if Let_def
      closes_def written_def packed_def SetActiveTime_def upd_conn_def)

lemma gate_Write_written:
  "takes_all y \<Longrightarrow> gate_Write y c cmd p l = (Inr None, written (y_now y) (NewMessageWithPayload (of_int (y_now y)) cmd p) c l)"
  unfolding gate_Write_def by (rule Conn_Write_written)

lemma gate_WriteBy_written:
  assumes "takes_all y"
  shows "gate_WriteBy y c cmd (Some body) l =
    (Inr None, written (y_now y) (the (NewMessage (of_int (y_now y)) cmd (Some (Some body)))) c l)"
proof -
  obtain m where m: "NewMessage (of_int (y_now y)) cmd (Some (Some body)) = Some m" by (simp add: NewMessage_def Let_def)
  show ?thesis
    unfolding gate_WriteBy_def sys_write_def Conn_WriteBy_Write m by (simp add: Conn_Write_written [OF assms])
qed

subsection \<open>Messages to players\<close>

lemma packetOut_run:
  assumes "takes_all y"
  shows "\<exists>l'. packetOut y (Some q) l = (Inr (), l') \<and> ga_users l' = ga_users l \<and>
    (\<forall>c. c_sent (n_store (ga_net l') c) = c_sent (n_store (ga_net l) c) @
       replicate (length (filter (\<lambda>uid. GetClient uid l = Some c) (po_Uid q)))
         (packed (NewMessageWithPayload (of_int (y_now y)) (ucast (po_Cmd q)) (po_Payload q))))"
proof -
  let ?m = "NewMessageWithPayload (of_int (y_now y)) (ucast (po_Cmd q)) (po_Payload q)"
  let ?one = "\<lambda>uid. seq get_st (\<lambda>l. case GetClient uid l of None \<Rightarrow> ret ()
      | Some c \<Rightarrow> seq (gate_Write y c (ucast (po_Cmd q)) (po_Payload q)) (\<lambda>_. ret ()))"
  have one: "?one uid l = (Inr (), case ga_users l uid of None \<Rightarrow> l | Some c \<Rightarrow> written (y_now y) ?m c l)" for uid l
    by (simp add: GetClient_def run_simps gate_Write_written [OF assms] split: option.split)
  have "\<exists>l'. for_each ?one uids l = (Inr (), l') \<and> ga_users l' = ga_users l \<and>
    (\<forall>c. c_sent (n_store (ga_net l') c) = c_sent (n_store (ga_net l) c) @
       replicate (length (filter (\<lambda>uid. GetClient uid l = Some c) uids)) (packed ?m))" for uids
  proof (induction uids arbitrary: l)
    case Nil
    then show ?case by (simp add: run_simps)
  next
    case (Cons uid uids)
    let ?l1 = "case ga_users l uid of None \<Rightarrow> l | Some c \<Rightarrow> written (y_now y) ?m c l"
    obtain l' where l': "for_each ?one uids ?l1 = (Inr (), l')" "ga_users l' = ga_users ?l1"
      "\<forall>c. c_sent (n_store (ga_net l') c) = c_sent (n_store (ga_net ?l1) c) @
         replicate (length (filter (\<lambda>uid. GetClient uid ?l1 = Some c) uids)) (packed ?m)"
      using Cons.IH [of ?l1] by blast
    have u: "ga_users ?l1 = ga_users l" by (simp split: option.split)
    show ?case
    proof (intro exI [of _ l'] conjI allI)
      show "for_each ?one (uid # uids) l = (Inr (), l')"
        using l'(1) by (simp only: for_each.simps run_simps(9) [OF one])
      show "ga_users l' = ga_users l" using l'(2) u by simp
      show "c_sent (n_store (ga_net l') c) = c_sent (n_store (ga_net l) c) @
        replicate (length (filter (\<lambda>uid. GetClient uid l = Some c) (uid # uids))) (packed ?m)" for c
        using l'(3) u by (auto simp: GetClient_def split: option.split)
    qed
  qed
  then show ?thesis by (simp add: packetOut_def)
qed

text \<open>
  C36. What a server sends to players through the gate reaches them: when no write fails, \<open>packetOut\<close> returns
  with the same clients, and every connection has been sent the packed message once for each listed
  uid that is logged in on it. Uids nobody is logged in with are skipped and other connections get nothing.
\<close>

theorem packetOut_delivers:
  assumes "takes_all y"
  shows "\<exists>l'. packetOut y (Some q) l = (Inr (), l') \<and> ga_users l' = ga_users l \<and>
    (\<forall>c. c_sent (n_store (ga_net l') c) = c_sent (n_store (ga_net l) c) @
       replicate (length (filter (\<lambda>uid. GetClient uid l = Some c) (po_Uid q)))
         (packed (NewMessageWithPayload (of_int (y_now y)) (ucast (po_Cmd q)) (po_Payload q))))"
  by (rule packetOut_run [OF assms])

definition good_sys :: Sys where
  "good_sys = \<lparr>y_now = 7, y_reg = (\<lambda>_. ''''), y_dial = (\<lambda>_ _. None), y_ctl = True, y_dl = (\<lambda>_. True), y_wr = (\<lambda>_ _. True)\<rparr>"

lemma takes_all_good [simp]: "takes_all good_sys"
  by (simp add: takes_all_def good_sys_def)

lemma packetOut_delivers_witness:
  "\<exists>l'. packetOut good_sys (Some \<lparr>po_Uid = [5, 6, 5], po_Cmd = 1, po_Payload = [9]\<rparr>) (SetClient 5 2 (NewGate new_Net)) = (Inr (), l') \<and>
    length (c_sent (n_store (ga_net l') 2)) = 2 \<and> c_sent (n_store (ga_net l') 3) = []"
  using packetOut_delivers [OF takes_all_good, of "\<lparr>po_Uid = [5, 6, 5], po_Cmd = 1, po_Payload = [9]\<rparr>" "SetClient 5 2 (NewGate new_Net)"]
  by (auto simp: SetClient_def NewGate_def GetClient_def SetContext_def upd_conn_def new_Net_def new_Conn_def)

subsection \<open>A second connection\<close>

lemma on_net_Poll_Del:
  assumes "c_fd (n_store (ga_net l) c) \<in> set (n_epoll (ga_net l))" "cm_conns (n_mgr (ga_net l)) (c_fd (n_store (ga_net l) c)) = Some c"
    and "Context c (ga_net l) = Some uid"
  shows "\<exists>n. on_net (Poll_Del (c_fd (n_store (ga_net l) c))) l = (Inr None, \<lparr>ga_net = n, ga_users = (ga_users l)(uid := None)\<rparr>) \<and>
    c_open (n_store n c) = False \<and> (\<forall>d. d \<noteq> c \<longrightarrow> n_store n d = n_store (ga_net l) d)"
  using assms
  by (cases l) (simp add: on_net_def Poll_Del_def run_simps DelByFd_def Let_def closes_def gate_Close_def Context_def DelClient_def upd_conn_def)

text \<open>
  C38. A player who logs in on a second connection is lost: the login goes to the new connection, and
  the gate tells the old one. But when the old one is then closed, as a client told to leave does,
  \<open>Close\<close> removes the uid: the player is still connected, and no message to that uid is delivered any more.
\<close>

theorem squeezed_player_lost:
  assumes "takes_all y" and "ge_kick env = Some kick" and "ge_login_rsp env = (\<lambda>r. Some (answer r))"
    and "ge_SetGate env uid (ucast (lo_GateId q))" and "ge_GetUser env uid = Some u" and "lo_Uid q = uid" and "uid \<noteq> 0"
    and "GetClient uid l = Some old" and "Context old (ga_net l) = Some uid" and "old \<noteq> new"
    and "c_fd (n_store (ga_net l) old) \<in> set (n_epoll (ga_net l))"
    and "cm_conns (n_mgr (ga_net l)) (c_fd (n_store (ga_net l) old)) = Some old"
  shows "\<exists>l1 l2. login y env (new, msg) (Some q) l = (Inr (), l1) \<and> GetClient uid l1 = Some new \<and>
    on_net (Poll_Del (c_fd (n_store (ga_net l) old))) l1 = (Inr None, l2) \<and>
    c_open (n_store (ga_net l2) new) = c_open (n_store (ga_net l) new) \<and>
    packetOut y (Some \<lparr>po_Uid = [uid], po_Cmd = cmd, po_Payload = payload\<rparr>) l2 = (Inr (), l2)"
proof -
  let ?kick = "the (NewMessage (of_int (y_now y)) 1003 (Some (Some kick)))"
  let ?a = "SetClient uid new (written (y_now y) ?kick old l)"
  obtain m where m: "login y env (new, msg) (Some q) l = (Inr (), written (y_now y) m new ?a)"
    using assms(2-8,10)
    by (auto simp: login_def login_old_def run_simps gate_WriteBy_written [OF assms(1)])
  let ?l1 = "written (y_now y) m new ?a"
  have f: "n_epoll (ga_net ?l1) = n_epoll (ga_net l)" "n_mgr (ga_net ?l1) = n_mgr (ga_net l)"
    "c_fd (n_store (ga_net ?l1) old) = c_fd (n_store (ga_net l) old)" "ga_users ?l1 uid = Some new"
    "Context old (ga_net ?l1) = Some uid" "c_open (n_store (ga_net ?l1) new) = c_open (n_store (ga_net l) new)"
    using assms(9,10) by (simp_all add: SetClient_def SetContext_def upd_conn_def Context_def)
  obtain n where n: "on_net (Poll_Del (c_fd (n_store (ga_net l) old))) ?l1 = (Inr None, \<lparr>ga_net = n, ga_users = (ga_users ?l1)(uid := None)\<rparr>)"
    "n_store n new = n_store (ga_net ?l1) new"
    using on_net_Poll_Del [of ?l1 old uid] assms(10-12) f by auto
  show ?thesis
  proof (intro exI conjI)
    show "login y env (new, msg) (Some q) l = (Inr (), ?l1)" by (rule m)
    show "GetClient uid ?l1 = Some new" using f by (simp add: GetClient_def)
    show "on_net (Poll_Del (c_fd (n_store (ga_net l) old))) ?l1 = (Inr None, \<lparr>ga_net = n, ga_users = (ga_users ?l1)(uid := None)\<rparr>)"
      by (rule n)
    show "c_open (n_store (ga_net \<lparr>ga_net = n, ga_users = (ga_users ?l1)(uid := None)\<rparr>) new) = c_open (n_store (ga_net l) new)"
      using n(2) f by simp
  qed (simp add: packetOut_def GetClient_def run_simps)
qed

definition one_client :: GateLocal where
  "one_client = SetClient 5 0 (NewGate (new_Net\<lparr>n_store := (\<lambda>c. new_Conn (int c + 8) False 0 0), n_next := 2, n_epoll := [8, 9],
     n_mgr := \<lparr>cm_conns = [8 \<mapsto> 0, 9 \<mapsto> 1], cm_servers = Map.empty\<rparr>, n_connNum := 2\<rparr>))"

definition gate_db :: GateEnv where
  "gate_db = \<lparr>ge_GenUserId = None, ge_SetUser = (\<lambda>_ _. True), ge_SetGate = (\<lambda>_ _. True),
     ge_GetUser = (\<lambda>uid. Some \<lparr>gu_Uid = uid, gu_GameId = 0, gu_HallId = 0, gu_Nick = '''', gu_Sex = 0, gu_IconId = 1\<rparr>),
     ge_GetGame = (\<lambda>_. 0), ge_echo = Some, ge_login_rsp = (\<lambda>_. Some [1]), ge_kick = Some [2], ge_common_rsp = Some []\<rparr>"

lemma squeezed_player_lost_witness:
  "\<exists>l1 l2. login good_sys gate_db (1, zero_Message) (Some \<lparr>lo_GateId = 1, lo_Uid = 5\<rparr>) one_client = (Inr (), l1) \<and>
    GetClient 5 l1 = Some 1 \<and> on_net (Poll_Del 8) l1 = (Inr None, l2) \<and> c_open (n_store (ga_net l2) 1) \<and>
    packetOut good_sys (Some \<lparr>po_Uid = [5], po_Cmd = 1, po_Payload = [9]\<rparr>) l2 = (Inr (), l2)"
  using squeezed_player_lost [OF takes_all_good, of gate_db "[2]" "\<lambda>_. [1]" 5 "\<lparr>lo_GateId = 1, lo_Uid = 5\<rparr>" _ one_client 0 1 zero_Message 1 "[9]"]
  by (simp add: gate_db_def one_client_def SetClient_def NewGate_def GetClient_def SetContext_def Context_def upd_conn_def new_Net_def new_Conn_def)

end
