(* ===== verification/EvioAddr.thy ===== *)
theory EvioAddr
  imports CoreConfig
begin

text \<open>
  \<open>evio/evio.go\<close> and \<open>evio/internal/socktoaddr.go\<close>: what the event loops share. The constants and
  options, the addresses of listeners and how listeners are set up and closed, and the
  stream that keeps the unprocessed bytes of a connection. The functions of \<open>strings\<close> that the
  source calls are defined as they work on the (non-empty) separators it uses.
\<close>

subsection \<open>Constants and options\<close>

text \<open>An action is an integer: any other than the four named ones is possible.\<close>

datatype Action = DoNothing | Detach | CloseConn | Shutdown | OtherAction

record Options =
  o_TCPKeepAlive :: int
  o_ReuseInputBuffer :: bool

datatype LoadBalance = RandomBalance | RoundRobin | LeastConnections

subsection \<open>Addresses\<close>

fun Contains :: "string \<Rightarrow> string \<Rightarrow> bool" where
  "Contains sub [] = (sub = [])"
| "Contains sub (c # cs) = (take (length sub) (c # cs) = sub \<or> Contains sub cs)"

definition HasSuffix :: "string \<Rightarrow> string \<Rightarrow> bool" where
  "HasSuffix s suf = (length suf \<le> length s \<and> drop (length s - length suf) s = suf)"

text \<open>\<open>strings.Split\<close>; the number is how many characters of a separator are still to be passed over.\<close>

fun split_from :: "string \<Rightarrow> nat \<Rightarrow> string \<Rightarrow> string list" where
  "split_from sep n [] = [[]]"
| "split_from sep (Suc n) (c # cs) = split_from sep n cs"
| "split_from sep 0 (c # cs) =
     (if take (length sep) (c # cs) = sep then [] # split_from sep (length sep - 1) cs
      else case split_from sep 0 cs of [] \<Rightarrow> [[c]] | y # ys \<Rightarrow> (c # y) # ys)"

definition Split :: "string \<Rightarrow> string \<Rightarrow> string list" where
  "Split s sep = split_from sep 0 s"

fun IndexChar :: "char \<Rightarrow> string \<Rightarrow> nat option" where
  "IndexChar c [] = None"
| "IndexChar c (x # xs) = (if x = c then Some 0 else map_option Suc (IndexChar c xs))"

text \<open>One part of the query; a later part replaces what an earlier one said.\<close>

definition reuse_of :: "string \<Rightarrow> bool \<Rightarrow> bool" where
  "reuse_of part reuse =
     (let kv = split_at CHR ''='' part in
      if length kv = 2 \<and> kv ! 0 = ''reuseport'' \<and> kv ! 1 \<noteq> [] then
        (let c = hd (kv ! 1) in
         if c \<in> set ''TtYy'' then True else 49 \<le> (of_char c :: nat) \<and> (of_char c :: nat) \<le> 57)
      else reuse)"

definition parseAddr :: "string \<Rightarrow> string \<times> string \<times> bool \<times> bool" where
  "parseAddr addr =
     (let (network, address) =
            (if Contains ''://'' addr then (Split addr ''://'' ! 0, Split addr ''://'' ! 1) else (''tcp'', addr));
          (network, stdlib) =
            (if HasSuffix network ''-net'' then (take (length network - 4) network, True) else (network, False))
      in case IndexChar CHR ''?'' address of
           None \<Rightarrow> (network, address, False, stdlib)
         | Some q \<Rightarrow>
             (network, take q address, fold reuse_of (split_at CHR ''&'' (drop (q + 1) address)) False, stdlib))"

text \<open>\<open>zone\<close> is the name of an interface, \<open>None\<close> when there is none of this number.\<close>

datatype Sockaddr = SockaddrInet4 int "u8 list" | SockaddrInet6 int "u8 list" nat | SockaddrUnix string | SockaddrOther

datatype Addr = TCPAddr "u8 list" int string | UnixAddr string | NilAddr

definition SockaddrToAddr :: "(nat \<Rightarrow> string option) \<Rightarrow> Sockaddr \<Rightarrow> Addr" where
  "SockaddrToAddr zone sa =
     (case sa of
        SockaddrInet4 port addr \<Rightarrow> TCPAddr addr port ''''
      | SockaddrInet6 port addr z \<Rightarrow>
          TCPAddr addr port (if z \<noteq> 0 then (case zone z of None \<Rightarrow> '''' | Some name \<Rightarrow> name) else '''')
      | SockaddrUnix name \<Rightarrow> UnixAddr name
      | SockaddrOther \<Rightarrow> NilAddr)"

subsection \<open>Listeners\<close>

text \<open>
  What \<open>net\<close> gives for a listener, and the descriptor of its file; \<open>fd\<close> is 0 until \<open>system\<close> has set
  it. Closing is recorded as what is closed or removed, in order.
\<close>

datatype netln = TCPListener | UnixListener | OtherListener

record listener =
  ln_ln :: "netln option"
  ln_lnaddr :: Addr
  ln_udp :: bool
  ln_reusePort :: bool
  ln_file :: bool
  ln_fd :: int
  ln_network :: string
  ln_addr :: string

datatype closing = CloseFd int | CloseFile | CloseListener | ClosePacket | RemoveAll string

definition ln_close :: "listener \<Rightarrow> closing list" where
  "ln_close ln =
     (if ln_fd ln \<noteq> 0 then [CloseFd (ln_fd ln)] else []) @
     (if ln_file ln then [CloseFile] else []) @
     (if ln_ln ln \<noteq> None then [CloseListener] else []) @
     (if ln_udp ln then [ClosePacket] else []) @
     (if ln_network ln = ''unix'' then [RemoveAll (ln_addr ln)] else [])"

text \<open>
  The answers of the library for one listener: \<open>File\<close> (its descriptor), and \<open>SetNonblock\<close>. A listener
  of another type gives no file, whose descriptor is -1.
\<close>

record 'e LnEnv =
  le_file :: "'e + int"
  le_nonblock :: "'e option"

definition ln_system :: "'e LnEnv \<Rightarrow> listener \<Rightarrow> ('e option \<times> closing list) \<times> listener" where
  "ln_system env ln =
     (if ln_ln ln \<in> {Some TCPListener, Some UnixListener} \<or> (ln_ln ln = None \<and> ln_udp ln) then
        (case le_file env of
           Inl e \<Rightarrow> ((Some e, ln_close ln), ln)
         | Inr fd \<Rightarrow> ((le_nonblock env, []), ln\<lparr>ln_file := True, ln_fd := fd\<rparr>))
      else ((le_nonblock env, []), ln\<lparr>ln_fd := - 1\<rparr>))"

text \<open>
  \<open>Serve\<close> up to the choice of the loops: the listeners, whether the loops of the standard library are
  used, the first error, and what was closed or removed on the way. \<open>listen\<close> and \<open>packet\<close> answer the
  request for the listener of a number (reused port or not, network, address).
\<close>

record 'e ServeEnv =
  se_listen :: "nat \<Rightarrow> bool \<Rightarrow> string \<Rightarrow> string \<Rightarrow> 'e + (netln \<times> Addr)"
  se_packet :: "nat \<Rightarrow> bool \<Rightarrow> string \<Rightarrow> string \<Rightarrow> 'e + Addr"
  se_ln :: "nat \<Rightarrow> 'e LnEnv"

definition open_listener :: "'e ServeEnv \<Rightarrow> nat \<Rightarrow> string \<Rightarrow> 'e + listener" where
  "open_listener env i addr =
     (case parseAddr addr of
        (network, address, reuse, _) \<Rightarrow>
          let ln = \<lparr>ln_ln = None, ln_lnaddr = NilAddr, ln_udp = False, ln_reusePort = reuse, ln_file = False, ln_fd = 0,
                    ln_network = network, ln_addr = address\<rparr>
          in if network = ''udp'' then
               (case se_packet env i reuse network address of
                  Inl e \<Rightarrow> Inl e
                | Inr a \<Rightarrow> Inr (ln\<lparr>ln_udp := True, ln_lnaddr := a\<rparr>))
             else
               (case se_listen env i reuse network address of
                  Inl e \<Rightarrow> Inl e
                | Inr (l, a) \<Rightarrow> Inr (ln\<lparr>ln_ln := Some l, ln_lnaddr := a\<rparr>)))"

definition removed :: "string \<Rightarrow> closing list" where
  "removed addr = (case parseAddr addr of (network, address, _) \<Rightarrow> if network = ''unix'' then [RemoveAll address] else [])"

fun Serve_open :: "'e ServeEnv \<Rightarrow> string list \<Rightarrow> bool \<Rightarrow> listener list \<Rightarrow> 'e option \<times> bool \<times> listener list \<times> closing list" where
  "Serve_open env [] stdlib lns = (None, stdlib, lns, [])"
| "Serve_open env (addr # addrs) stdlib lns =
     (let stdlib = (stdlib \<or> snd (snd (snd (parseAddr addr)))) in
      case open_listener env (length lns) addr of
        Inl e \<Rightarrow> (Some e, stdlib, lns, removed addr)
      | Inr ln \<Rightarrow>
          if stdlib then
            (case Serve_open env addrs stdlib (lns @ [ln]) of (e, s, l, cs) \<Rightarrow> (e, s, l, removed addr @ cs))
          else
            (case ln_system (se_ln env (length lns)) ln of
               ((Some e, cs), _) \<Rightarrow> (Some e, stdlib, lns, removed addr @ cs)
             | ((None, cs), ln) \<Rightarrow>
                 (case Serve_open env addrs stdlib (lns @ [ln]) of
                    (e, s, l, cs') \<Rightarrow> (e, s, l, removed addr @ cs @ cs'))))"

text \<open>The whole of it: the loops run until they end, then every listener is closed.\<close>

definition Serve :: "'e ServeEnv \<Rightarrow> (bool \<Rightarrow> listener list \<Rightarrow> 'e option) \<Rightarrow> string list \<Rightarrow> 'e option \<times> closing list" where
  "Serve env run addrs =
     (case Serve_open env addrs False [] of
        (err, stdlib, lns, cs) \<Rightarrow>
          ((case err of Some e \<Rightarrow> Some e | None \<Rightarrow> run stdlib lns), cs @ concat (map ln_close lns)))"

subsection \<open>Input streams\<close>

record InputStream =
  is_b :: "u8 list"

definition Begin :: "u8 list \<Rightarrow> InputStream \<Rightarrow> u8 list \<times> InputStream" where
  "Begin packet s =
     (if length (is_b s) > 0 then (is_b s @ packet, s\<lparr>is_b := is_b s @ packet\<rparr>) else (packet, s))"

definition End :: "u8 list \<Rightarrow> InputStream \<Rightarrow> InputStream" where
  "End data s =
     (if length data > 0 then (if length data \<noteq> length (is_b s) then s\<lparr>is_b := data\<rparr> else s)
      else if length (is_b s) > 0 then s\<lparr>is_b := []\<rparr> else s)"

end
