(* ===== verification/EvioLoop.thy ===== *)
theory EvioLoop
  imports EvioAddr
begin

text \<open>
  \<open>evio/evio_unix.go\<close> and \<open>evio/internal/internal_linux.go\<close>: the event loops. Each loop has a poll, that
  is an epoll descriptor with what it watches and a queue of notes, and the connections it serves.
  Connections are references (natural numbers) into a store. The handlers of the user are arguments:
  functions on a state of their own, \<open>'a\<close>, which also holds the contexts of connections, as only they read and
  write them. The results of system calls are arguments too; what sockets have taken is recorded.
  The bits of \<open>epoll\<close> are kept as \<open>interest\<close>; a call of \<open>epoll_ctl\<close> fails when it adds what is watched or
  changes what is not, or when the system refuses it.
\<close>

subsection \<open>State\<close>

text \<open>What the user sees of a connection: the methods of \<open>Conn\<close> that only read.\<close>

record ConnView =
  AddrIndex :: nat
  LocalAddr :: Addr
  RemoteAddr :: Addr

record conn =
  cn_fd :: int
  cn_lnidx :: nat
  cn_out :: "u8 list"
  cn_sa :: Sockaddr
  cn_reuse :: bool
  cn_opened :: bool
  cn_action :: Action
  cn_addrIndex :: nat
  cn_localAddr :: Addr
  cn_remoteAddr :: Addr
  cn_loop :: "nat option"

datatype errno = EAGAIN | EINTR | Errno int

datatype loop_error = ErrClosing | ErrCloseConns | SysError errno

datatype loop_note = TickNote | ErrorNote loop_error | ConnNote nat

datatype interest = Reads | ReadsWrites

text \<open>What a detached connection is handed over as: its descriptor, or the library's connection with bytes already read.\<close>

datatype Rwc = DetachedFd int | DetachedConn nat "u8 list"

record EvPoll =
  pl_wfd :: int
  pl_watch :: "int \<Rightarrow> interest option"
  pl_notes :: "loop_note list"

record evloop =
  lp_poll :: EvPoll
  lp_fdconns :: "int \<Rightarrow> nat option"
  lp_count :: int

text \<open>\<open>Data\<close> gets no reference for a datagram: its connection is made for the one call.\<close>

record 'a Events =
  ev_NumLoops :: int
  ev_LoadBalance :: LoadBalance
  ev_Serving :: "(nat \<Rightarrow> Addr list \<Rightarrow> 'a \<Rightarrow> Action \<times> 'a) option"
  ev_Opened :: "(nat \<Rightarrow> ConnView \<Rightarrow> 'a \<Rightarrow> (u8 list \<times> Options \<times> Action) \<times> 'a) option"
  ev_Closed :: "(nat \<Rightarrow> ConnView \<Rightarrow> errno option \<Rightarrow> 'a \<Rightarrow> Action \<times> 'a) option"
  ev_Detached :: "(nat \<Rightarrow> ConnView \<Rightarrow> Rwc \<Rightarrow> 'a \<Rightarrow> Action \<times> 'a) option"
  ev_PreWrite :: "('a \<Rightarrow> 'a) option"
  ev_Data :: "(nat option \<Rightarrow> ConnView \<Rightarrow> u8 list \<Rightarrow> 'a \<Rightarrow> (u8 list \<times> Action) \<times> 'a) option"
  ev_Tick :: "('a \<Rightarrow> (int \<times> Action) \<times> 'a) option"

text \<open>What of a server does not change, and what does.\<close>

record 'a Site =
  si_events :: "'a Events"
  si_lns :: "listener list"
  si_zone :: "nat \<Rightarrow> string option"

record 'a evserver =
  sv_app :: 'a
  sv_loops :: "evloop list"
  sv_accepted :: nat
  sv_store :: "nat \<Rightarrow> conn"
  sv_next :: nat
  sv_wire :: "nat \<Rightarrow> u8 list"
  sv_datagrams :: "(Sockaddr \<times> u8 list) list"
  sv_delays :: "int list"
  sv_keepalives :: "(int \<times> int) list"
  sv_waiting :: bool
  sv_woken :: bool

text \<open>The results of the system calls of one step.\<close>

record Env =
  en_ctl :: bool
  en_read :: "errno + u8 list"
  en_write :: "errno + nat"
  en_accept :: "errno + (int \<times> Sockaddr)"
  en_nonblock :: "errno option"
  en_recv :: "errno + (u8 list \<times> Sockaddr)"

definition view :: "conn \<Rightarrow> ConnView" where
  "view k = \<lparr>AddrIndex = cn_addrIndex k, LocalAddr = cn_localAddr k, RemoteAddr = cn_remoteAddr k\<rparr>"

definition upd_loop :: "nat \<Rightarrow> (evloop \<Rightarrow> evloop) \<Rightarrow> 'a evserver \<Rightarrow> 'a evserver" where
  "upd_loop l f s = s\<lparr>sv_loops := (sv_loops s)[l := f (sv_loops s ! l)]\<rparr>"

definition upd_cn :: "nat \<Rightarrow> (conn \<Rightarrow> conn) \<Rightarrow> 'a evserver \<Rightarrow> 'a evserver" where
  "upd_cn c f s = s\<lparr>sv_store := (sv_store s)(c := f (sv_store s c))\<rparr>"

definition on_app :: "('a \<Rightarrow> 'b \<times> 'a) \<Rightarrow> ('a evserver, 'b) act" where
  "on_app f = (\<lambda>s. case f (sv_app s) of (b, a) \<Rightarrow> (Inr b, s\<lparr>sv_app := a\<rparr>))"

definition the_loop :: "nat \<Rightarrow> 'a evserver \<Rightarrow> evloop" where
  "the_loop l s = sv_loops s ! l"

abbreviation watch_of :: "nat \<Rightarrow> 'a evserver \<Rightarrow> int \<Rightarrow> interest option" where
  "watch_of l s \<equiv> pl_watch (lp_poll (the_loop l s))"

abbreviation conns_of :: "nat \<Rightarrow> 'a evserver \<Rightarrow> int \<Rightarrow> nat option" where
  "conns_of l s \<equiv> lp_fdconns (the_loop l s)"

subsection \<open>The poll\<close>

definition watch :: "int \<Rightarrow> interest option \<Rightarrow> EvPoll \<Rightarrow> EvPoll" where
  "watch fd i p = p\<lparr>pl_watch := (pl_watch p)(fd := i)\<rparr>"

definition on_poll :: "nat \<Rightarrow> (EvPoll \<Rightarrow> EvPoll) \<Rightarrow> 'a evserver \<Rightarrow> 'a evserver" where
  "on_poll l f = upd_loop l (\<lambda>lp. lp\<lparr>lp_poll := f (lp_poll lp)\<rparr>)"

text \<open>\<open>epoll_ctl\<close> with \<open>EPOLL_CTL_ADD\<close>, or with one of the others; its failure is a panic.\<close>

definition ctl_add :: "bool \<Rightarrow> nat \<Rightarrow> int \<Rightarrow> interest \<Rightarrow> ('a evserver, unit) act" where
  "ctl_add ok l fd i =
     seq get_st (\<lambda>s. if ok \<and> watch_of l s fd = None then modify (on_poll l (watch fd (Some i))) else throw Explicit)"

definition ctl_mod :: "bool \<Rightarrow> nat \<Rightarrow> int \<Rightarrow> interest option \<Rightarrow> ('a evserver, unit) act" where
  "ctl_mod ok l fd i =
     seq get_st (\<lambda>s. if ok \<and> watch_of l s fd \<noteq> None then modify (on_poll l (watch fd i)) else throw Explicit)"

definition AddReadWrite :: "bool \<Rightarrow> nat \<Rightarrow> int \<Rightarrow> ('a evserver, unit) act" where
  "AddReadWrite ok l fd = ctl_add ok l fd ReadsWrites"

definition AddRead :: "bool \<Rightarrow> nat \<Rightarrow> int \<Rightarrow> ('a evserver, unit) act" where
  "AddRead ok l fd = ctl_add ok l fd Reads"

definition ModRead :: "bool \<Rightarrow> nat \<Rightarrow> int \<Rightarrow> ('a evserver, unit) act" where
  "ModRead ok l fd = ctl_mod ok l fd (Some Reads)"

definition ModReadWrite :: "bool \<Rightarrow> nat \<Rightarrow> int \<Rightarrow> ('a evserver, unit) act" where
  "ModReadWrite ok l fd = ctl_mod ok l fd (Some ReadsWrites)"

definition ModDetach :: "bool \<Rightarrow> nat \<Rightarrow> int \<Rightarrow> ('a evserver, unit) act" where
  "ModDetach ok l fd = ctl_mod ok l fd None"

text \<open>\<open>Trigger\<close>; \<open>wr\<close> is the result of writing to the wake descriptor. The note is queued in any case.\<close>

definition EvTrigger :: "errno option \<Rightarrow> nat \<Rightarrow> loop_note \<Rightarrow> ('a evserver, errno option) act" where
  "EvTrigger wr l note' =
     seq (modify (on_poll l (\<lambda>p. p\<lparr>pl_notes := pl_notes p @ [note']\<rparr>))) (\<lambda>_. ret wr)"

text \<open>A connection wakes itself up in the loop it belongs to.\<close>

definition conn_Wake :: "errno option \<Rightarrow> nat \<Rightarrow> ('a evserver, unit) act" where
  "conn_Wake wr c =
     seq get_st (\<lambda>s. case cn_loop (sv_store s c) of
         None \<Rightarrow> ret ()
       | Some l \<Rightarrow> seq (EvTrigger wr l (ConnNote c)) (\<lambda>_. ret ()))"

text \<open>Closing a descriptor takes it out of every epoll descriptor.\<close>

definition sys_Close :: "int \<Rightarrow> 'a evserver \<Rightarrow> 'a evserver" where
  "sys_Close fd s = s\<lparr>sv_loops := map (\<lambda>lp. lp\<lparr>lp_poll := watch fd None (lp_poll lp)\<rparr>) (sv_loops s)\<rparr>"

subsection \<open>Ends of connections\<close>

definition closing_if :: "Action \<Rightarrow> loop_error option" where
  "closing_if a = (if a = Shutdown then Some ErrClosing else None)"

definition forget_conn :: "nat \<Rightarrow> int \<Rightarrow> 'a evserver \<Rightarrow> 'a evserver" where
  "forget_conn l fd = upd_loop l (\<lambda>lp. lp\<lparr>lp_count := lp_count lp - 1, lp_fdconns := (lp_fdconns lp)(fd := None)\<rparr>)"

definition loopCloseConn :: "'a Site \<Rightarrow> nat \<Rightarrow> nat \<Rightarrow> errno option \<Rightarrow> ('a evserver, loop_error option) act" where
  "loopCloseConn E l c err =
     seq get_st (\<lambda>s. let k = sv_store s c in
     seq (modify (forget_conn l (cn_fd k))) (\<lambda>_.
     seq (modify (sys_Close (cn_fd k))) (\<lambda>_.
     case ev_Closed (si_events E) of
       None \<Rightarrow> ret None
     | Some f \<Rightarrow> seq (on_app (f c (view k) err)) (\<lambda>a. ret (closing_if a)))))"

definition loopDetachConn :: "'a Site \<Rightarrow> Env \<Rightarrow> nat \<Rightarrow> nat \<Rightarrow> errno option \<Rightarrow> ('a evserver, loop_error option) act" where
  "loopDetachConn E env l c err =
     (case ev_Detached (si_events E) of
        None \<Rightarrow> loopCloseConn E l c err
      | Some f \<Rightarrow>
          seq get_st (\<lambda>s. let k = sv_store s c in
          seq (ModDetach (en_ctl env) l (cn_fd k)) (\<lambda>_.
          seq (modify (forget_conn l (cn_fd k))) (\<lambda>_.
          case en_nonblock env of
            Some e \<Rightarrow> ret (Some (SysError e))
          | None \<Rightarrow> seq (on_app (f c (view k) (DetachedFd (cn_fd k)))) (\<lambda>a. ret (closing_if a))))))"

subsection \<open>Events of connections\<close>

definition PreWrite :: "'a Site \<Rightarrow> ('a evserver, unit) act" where
  "PreWrite E = (case ev_PreWrite (si_events E) of None \<Rightarrow> ret () | Some f \<Rightarrow> on_app (\<lambda>a. ((), f a)))"

definition idle :: "conn \<Rightarrow> bool" where
  "idle k \<longleftrightarrow> cn_out k = [] \<and> cn_action k = DoNothing"

definition back_to_reading :: "Env \<Rightarrow> nat \<Rightarrow> nat \<Rightarrow> ('a evserver, loop_error option) act" where
  "back_to_reading env l c =
     seq get_st (\<lambda>s.
     seq (if idle (sv_store s c) then ModRead (en_ctl env) l (cn_fd (sv_store s c)) else ret ()) (\<lambda>_. ret None))"

definition wait_to_write :: "Env \<Rightarrow> nat \<Rightarrow> nat \<Rightarrow> ('a evserver, loop_error option) act" where
  "wait_to_write env l c =
     seq get_st (\<lambda>s.
     seq (if idle (sv_store s c) then ret () else ModReadWrite (en_ctl env) l (cn_fd (sv_store s c))) (\<lambda>_. ret None))"

definition SetKeepAlive :: "int \<Rightarrow> int \<Rightarrow> 'a evserver \<Rightarrow> 'a evserver" where
  "SetKeepAlive fd secs s = s\<lparr>sv_keepalives := sv_keepalives s @ [(fd, secs)]\<rparr>"

definition take_out :: "u8 list \<Rightarrow> conn \<Rightarrow> conn" where
  "take_out out k = (if length out > 0 then k\<lparr>cn_out := out\<rparr> else k)"

definition loopOpened :: "'a Site \<Rightarrow> Env \<Rightarrow> nat \<Rightarrow> nat \<Rightarrow> ('a evserver, loop_error option) act" where
  "loopOpened E env l c =
     seq (modify (upd_cn c (\<lambda>k. k\<lparr>cn_opened := True, cn_addrIndex := cn_lnidx k,
       cn_localAddr := ln_lnaddr (si_lns E ! cn_lnidx k), cn_remoteAddr := SockaddrToAddr (si_zone E) (cn_sa k)\<rparr>))) (\<lambda>_.
     seq (case ev_Opened (si_events E) of
            None \<Rightarrow> ret ()
          | Some f \<Rightarrow>
              seq get_st (\<lambda>s. let k = sv_store s c in
              seq (on_app (f c (view k))) (\<lambda>(out, opts, action).
              seq (modify (upd_cn c (\<lambda>k. (take_out out k)\<lparr>cn_action := action, cn_reuse := o_ReuseInputBuffer opts\<rparr>))) (\<lambda>_.
              if o_TCPKeepAlive opts > 0 \<and> ln_ln (si_lns E ! cn_lnidx k) = Some TCPListener
              then modify (SetKeepAlive (cn_fd k) (o_TCPKeepAlive opts div 1000000000)) else ret ())))) (\<lambda>_.
     back_to_reading env l c))"

definition loopWrite :: "'a Site \<Rightarrow> Env \<Rightarrow> nat \<Rightarrow> nat \<Rightarrow> ('a evserver, loop_error option) act" where
  "loopWrite E env l c =
     seq (PreWrite E) (\<lambda>_.
     case en_write env of
       Inl e \<Rightarrow> if e = EAGAIN then ret None else loopCloseConn E l c (Some e)
     | Inr n \<Rightarrow>
         seq (modify (\<lambda>s. s\<lparr>sv_wire := (sv_wire s)(c := sv_wire s c @ take n (cn_out (sv_store s c)))\<rparr>)) (\<lambda>_.
         seq (modify (upd_cn c (\<lambda>k. k\<lparr>cn_out := drop n (cn_out k)\<rparr>))) (\<lambda>_.
         back_to_reading env l c)))"

definition loopAction :: "'a Site \<Rightarrow> Env \<Rightarrow> nat \<Rightarrow> nat \<Rightarrow> ('a evserver, loop_error option) act" where
  "loopAction E env l c =
     seq get_st (\<lambda>s.
     case cn_action (sv_store s c) of
       CloseConn \<Rightarrow> loopCloseConn E l c None
     | Shutdown \<Rightarrow> ret (Some ErrClosing)
     | Detach \<Rightarrow> loopDetachConn E env l c None
     | _ \<Rightarrow>
         seq (modify (upd_cn c (\<lambda>k. k\<lparr>cn_action := DoNothing\<rparr>))) (\<lambda>_. back_to_reading env l c))"

definition loopWake :: "'a Site \<Rightarrow> Env \<Rightarrow> nat \<Rightarrow> nat \<Rightarrow> ('a evserver, loop_error option) act" where
  "loopWake E env l c =
     (case ev_Data (si_events E) of
        None \<Rightarrow> ret None
      | Some f \<Rightarrow>
          seq get_st (\<lambda>s.
          seq (on_app (f (Some c) (view (sv_store s c)) [])) (\<lambda>(out, action).
          seq (modify (upd_cn c (\<lambda>k. take_out out (k\<lparr>cn_action := action\<rparr>)))) (\<lambda>_.
          wait_to_write env l c))))"

definition loopRead :: "'a Site \<Rightarrow> Env \<Rightarrow> nat \<Rightarrow> nat \<Rightarrow> ('a evserver, loop_error option) act" where
  "loopRead E env l c =
     (case en_read env of
        Inl e \<Rightarrow> if e = EAGAIN then ret None else loopCloseConn E l c (Some e)
      | Inr bs \<Rightarrow>
          if length bs = 0 then loopCloseConn E l c None
          else
            seq (case ev_Data (si_events E) of
                   None \<Rightarrow> ret ()
                 | Some f \<Rightarrow>
                     seq get_st (\<lambda>s.
                     seq (on_app (f (Some c) (view (sv_store s c)) bs)) (\<lambda>(out, action).
                     modify (upd_cn c (\<lambda>k. take_out out (k\<lparr>cn_action := action\<rparr>)))))) (\<lambda>_.
            wait_to_write env l c))"

subsection \<open>New connections and datagrams\<close>

fun find_ln :: "int \<Rightarrow> nat \<Rightarrow> listener list \<Rightarrow> (nat \<times> listener) option" where
  "find_ln fd i [] = None"
| "find_ln fd i (ln # lns) = (if ln_fd ln = fd then Some (i, ln) else find_ln fd (i + 1) lns)"

text \<open>A loop leaves the connection to another one. The turn goes on before anything is accepted.\<close>

definition not_mine :: "'a Site \<Rightarrow> nat \<Rightarrow> ('a evserver, bool) act" where
  "not_mine E l =
     seq get_st (\<lambda>s.
     if length (sv_loops s) > 1 then
       (case ev_LoadBalance (si_events E) of
          RandomBalance \<Rightarrow> ret False
        | LeastConnections \<Rightarrow>
            ret (\<exists>j \<in> set [0..<length (sv_loops s)]. j \<noteq> l \<and> lp_count (the_loop j s) < lp_count (the_loop l s))
        | RoundRobin \<Rightarrow>
            if sv_accepted s mod length (sv_loops s) \<noteq> l then ret True
            else seq (modify (\<lambda>s. s\<lparr>sv_accepted := sv_accepted s + 1\<rparr>)) (\<lambda>_. ret False))
     else ret False)"

text \<open>The address of the peer of a datagram, always in the form of IPv6.\<close>

definition sa6 :: "Sockaddr \<Rightarrow> Sockaddr" where
  "sa6 sa =
     (case sa of
        SockaddrInet4 port addr \<Rightarrow> SockaddrInet6 port (replicate 12 0 @ addr) 0
      | SockaddrInet6 port addr zone \<Rightarrow> SockaddrInet6 port addr zone
      | _ \<Rightarrow> SockaddrInet6 0 (replicate 16 0) 0)"

definition new_conn :: "int \<Rightarrow> Sockaddr \<Rightarrow> nat \<Rightarrow> nat option \<Rightarrow> conn" where
  "new_conn fd sa lnidx loop =
     \<lparr>cn_fd = fd, cn_lnidx = lnidx, cn_out = [], cn_sa = sa, cn_reuse = False, cn_opened = False, cn_action = DoNothing,
      cn_addrIndex = 0, cn_localAddr = NilAddr, cn_remoteAddr = NilAddr, cn_loop = loop\<rparr>"

definition loopUDPRead :: "'a Site \<Rightarrow> Env \<Rightarrow> nat \<Rightarrow> ('a evserver, loop_error option) act" where
  "loopUDPRead E env lnidx =
     (case en_recv env of
        Inl _ \<Rightarrow> ret None
      | Inr (bs, sa) \<Rightarrow>
          if length bs = 0 then ret None
          else
            (case ev_Data (si_events E) of
               None \<Rightarrow> ret None
             | Some f \<Rightarrow>
                 (let c = (new_conn 0 SockaddrOther 0 None)\<lparr>cn_addrIndex := lnidx, cn_localAddr := ln_lnaddr (si_lns E ! lnidx),
                        cn_remoteAddr := SockaddrToAddr (si_zone E) (sa6 sa)\<rparr> in
                  seq (on_app (f None (view c) bs)) (\<lambda>(out, action).
                  seq (if length out > 0
                       then seq (PreWrite E) (\<lambda>_. modify (\<lambda>s. s\<lparr>sv_datagrams := sv_datagrams s @ [(sa, out)]\<rparr>))
                       else ret ()) (\<lambda>_.
                  ret (closing_if action))))))"

text \<open>The new connection is the next reference.\<close>

definition enter_conn :: "nat \<Rightarrow> int \<Rightarrow> Sockaddr \<Rightarrow> nat \<Rightarrow> 'a evserver \<Rightarrow> 'a evserver" where
  "enter_conn l fd sa lnidx s =
     upd_loop l (\<lambda>lp. lp\<lparr>lp_fdconns := (lp_fdconns lp)(fd \<mapsto> sv_next s)\<rparr>)
       (s\<lparr>sv_store := (sv_store s)(sv_next s := new_conn fd sa lnidx (Some l)), sv_next := sv_next s + 1\<rparr>)"

definition loopAccept :: "'a Site \<Rightarrow> Env \<Rightarrow> nat \<Rightarrow> int \<Rightarrow> ('a evserver, loop_error option) act" where
  "loopAccept E env l fd =
     (case find_ln fd 0 (si_lns E) of
        None \<Rightarrow> ret None
      | Some (i, ln) \<Rightarrow>
          seq (not_mine E l) (\<lambda>skip.
          if skip then ret None
          else if ln_udp ln then loopUDPRead E env i
          else
            (case en_accept env of
               Inl e \<Rightarrow> if e = EAGAIN then ret None else ret (Some (SysError e))
             | Inr (nfd, sa) \<Rightarrow>
                 (case en_nonblock env of
                    Some e \<Rightarrow> ret (Some (SysError e))
                  | None \<Rightarrow>
                      seq (modify (enter_conn l nfd sa i)) (\<lambda>_.
                      seq (AddReadWrite (en_ctl env) l nfd) (\<lambda>_.
                      seq (modify (upd_loop l (\<lambda>lp. lp\<lparr>lp_count := lp_count lp + 1\<rparr>))) (\<lambda>_. ret None)))))))"

subsection \<open>The loop\<close>

definition loopNote :: "'a Site \<Rightarrow> Env \<Rightarrow> nat \<Rightarrow> loop_note \<Rightarrow> ('a evserver, loop_error option) act" where
  "loopNote E env l note' =
     (case note' of
        TickNote \<Rightarrow>
          (case ev_Tick (si_events E) of
             None \<Rightarrow> throw NilDereference
           | Some f \<Rightarrow>
               seq (on_app f) (\<lambda>(delay, action).
               seq (modify (\<lambda>s. s\<lparr>sv_delays := sv_delays s @ [delay]\<rparr>)) (\<lambda>_.
               ret (closing_if action))))
      | ErrorNote v \<Rightarrow> ret (Some v)
      | ConnNote c \<Rightarrow>
          seq get_st (\<lambda>s.
          if conns_of l s (cn_fd (sv_store s c)) \<noteq> Some c then ret None else loopWake E env l c))"

text \<open>An event of a descriptor: \<open>iter\<close> in \<open>loopRun\<close>. Descriptor 0 stands for notes, and its nil note does nothing.\<close>

definition loop_event :: "'a Site \<Rightarrow> Env \<Rightarrow> nat \<Rightarrow> int \<Rightarrow> ('a evserver, loop_error option) act" where
  "loop_event E env l fd =
     (if fd = 0 then ret None
      else
        seq get_st (\<lambda>s.
        case conns_of l s fd of
          None \<Rightarrow> loopAccept E env l fd
        | Some c \<Rightarrow>
            (let k = sv_store s c in
             if \<not> cn_opened k then loopOpened E env l c
             else if length (cn_out k) > 0 then loopWrite E env l c
             else if cn_action k \<noteq> DoNothing then loopAction E env l c
             else loopRead E env l c)))"

fun until_error :: "('x \<Rightarrow> ('s, 'e option) act) \<Rightarrow> 'x list \<Rightarrow> ('s, 'e option) act" where
  "until_error f [] = ret None"
| "until_error f (x # xs) = seq (f x) (\<lambda>e. case e of Some _ \<Rightarrow> ret e | None \<Rightarrow> until_error f xs)"

text \<open>What one \<open>EpollWait\<close> gives: an error or the descriptors that are ready, with what their calls will give.\<close>

record evwait =
  wt_env :: Env
  wt_ready :: "errno + (int \<times> Env) list"

definition take_notes :: "nat \<Rightarrow> ('a evserver, loop_note list) act" where
  "take_notes l =
     seq get_st (\<lambda>s. seq (modify (on_poll l (\<lambda>p. p\<lparr>pl_notes := []\<rparr>))) (\<lambda>_. ret (pl_notes (lp_poll (the_loop l s)))))"

definition wait_once :: "'a Site \<Rightarrow> nat \<Rightarrow> evwait \<Rightarrow> ('a evserver, loop_error option) act" where
  "wait_once E l w =
     (case wt_ready w of
        Inl e \<Rightarrow>
          if e \<noteq> EINTR then ret (Some (SysError e))
          else seq (take_notes l) (\<lambda>ns. until_error (loopNote E (wt_env w) l) ns)
      | Inr fds \<Rightarrow>
          seq (take_notes l) (\<lambda>ns.
          seq (until_error (loopNote E (wt_env w) l) ns) (\<lambda>e.
          case e of
            Some _ \<Rightarrow> ret e
          | None \<Rightarrow>
              seq get_st (\<lambda>s.
              until_error (\<lambda>(fd, env). if fd \<noteq> pl_wfd (lp_poll (the_loop l s)) then loop_event E env l fd else ret None) fds))))"

definition signalShutdown :: "'a evserver \<Rightarrow> 'a evserver" where
  "signalShutdown s = (if sv_waiting s then s\<lparr>sv_woken := True\<rparr> else s)"

definition waitForShutdown :: "'a evserver \<Rightarrow> 'a evserver" where
  "waitForShutdown s = s\<lparr>sv_waiting := True, sv_woken := False\<rparr>"

text \<open>\<open>loopRun\<close>: it ends with the first error, and signals the server. \<open>None\<close>: it still runs.\<close>

fun loopRun :: "'a Site \<Rightarrow> nat \<Rightarrow> evwait list \<Rightarrow> ('a evserver, loop_error option) act" where
  "loopRun E l [] = ret None"
| "loopRun E l (w # ws) =
     seq (wait_once E l w) (\<lambda>e.
     case e of
       Some _ \<Rightarrow> seq (modify signalShutdown) (\<lambda>_. ret e)
     | None \<Rightarrow> loopRun E l ws)"

text \<open>The ticker: a note, and then a sleep for the delay of the answer; it ends when it cannot wake the loop.\<close>

fun loopTicker :: "nat \<Rightarrow> errno option list \<Rightarrow> ('a evserver, bool) act" where
  "loopTicker l [] = ret True"
| "loopTicker l (wr # wrs) =
     seq (EvTrigger wr l TickNote) (\<lambda>e. if e \<noteq> None then ret False else loopTicker l wrs)"

subsection \<open>The server\<close>

definition num_loops :: "int \<Rightarrow> int \<Rightarrow> nat" where
  "num_loops cpus n = nat (if n \<le> 0 then (if n = 0 then 1 else cpus) else n)"

definition new_evserver :: "'a \<Rightarrow> 'a evserver" where
  "new_evserver a =
     \<lparr>sv_app = a, sv_loops = [], sv_accepted = 0, sv_store = (\<lambda>_. new_conn 0 SockaddrOther 0 None), sv_next = 0,
      sv_wire = (\<lambda>_. []), sv_datagrams = [], sv_delays = [], sv_keepalives = [], sv_waiting = False, sv_woken = False\<rparr>"

text \<open>\<open>fds\<close> gives the epoll and wake descriptors of each new poll, \<open>None\<close> when there is none.\<close>

definition OpenPoll :: "int \<Rightarrow> evloop" where
  "OpenPoll wfd = \<lparr>lp_poll = watch wfd (Some Reads) \<lparr>pl_wfd = wfd, pl_watch = Map.empty, pl_notes = []\<rparr>, lp_fdconns = Map.empty, lp_count = 0\<rparr>"

fun make_loops :: "'a Site \<Rightarrow> int option list \<Rightarrow> ('a evserver, unit) act" where
  "make_loops E [] = ret ()"
| "make_loops E (None # fds) = throw Explicit"
| "make_loops E (Some wfd # fds) =
     seq (modify (\<lambda>s. s\<lparr>sv_loops := sv_loops s @ [OpenPoll wfd]\<rparr>)) (\<lambda>_.
     seq get_st (\<lambda>s.
     seq (for_each (\<lambda>ln. AddRead True (length (sv_loops s) - 1) (ln_fd ln)) (si_lns E)) (\<lambda>_.
     make_loops E fds)))"

text \<open>The start: whether the loops run (\<open>Serving\<close> may shut the server down).\<close>

definition serve_start :: "'a Site \<Rightarrow> int option list \<Rightarrow> int \<Rightarrow> ('a evserver, bool) act" where
  "serve_start E fds cpus =
     (let n = num_loops cpus (ev_NumLoops (si_events E)) in
      seq (case ev_Serving (si_events E) of
             None \<Rightarrow> ret DoNothing
           | Some f \<Rightarrow> on_app (f n (map ln_lnaddr (si_lns E)))) (\<lambda>action.
      if action = Shutdown then ret False
      else seq (make_loops E (take n fds)) (\<lambda>_. ret True)))"

text \<open>
  The end, once a signal has come: every loop is told to close. When all have ended, what is left of
  their connections is closed, in an order \<open>order\<close> in which Go may visit the map.
\<close>

definition serve_tell :: "errno option \<Rightarrow> ('a evserver, unit) act" where
  "serve_tell wr =
     seq get_st (\<lambda>s. for_each (\<lambda>l. seq (EvTrigger wr l (ErrorNote ErrClosing)) (\<lambda>_. ret ())) [0..<length (sv_loops s)])"

definition serve_end :: "'a Site \<Rightarrow> (nat \<Rightarrow> int list) \<Rightarrow> ('a evserver, unit) act" where
  "serve_end E order =
     seq get_st (\<lambda>s.
     for_each (\<lambda>l.
       for_each (\<lambda>fd.
         seq get_st (\<lambda>s. case conns_of l s fd of
             None \<Rightarrow> ret ()
           | Some c \<Rightarrow> seq (loopCloseConn E l c None) (\<lambda>_. ret ()))) (order l)) [0..<length (sv_loops s)])"

text \<open>Closing a poll: the first error stops it.\<close>

definition EvPoll_Close :: "(int \<Rightarrow> errno option) \<Rightarrow> int \<Rightarrow> EvPoll \<Rightarrow> errno option" where
  "EvPoll_Close close epollFd p = (case close (pl_wfd p) of Some e \<Rightarrow> Some e | None \<Rightarrow> close epollFd)"

subsection \<open>Detached connections\<close>

record detachedConn =
  dc_fd :: int

definition dc_Close :: "(int \<Rightarrow> errno option) \<Rightarrow> detachedConn \<Rightarrow> errno option \<times> detachedConn" where
  "dc_Close close c = (case close (dc_fd c) of Some e \<Rightarrow> (Some e, c) | None \<Rightarrow> (None, c\<lparr>dc_fd := - 1\<rparr>))"

datatype read_end = EOF | ReadError errno

text \<open>\<open>n\<close> is the length of the buffer; the system call gives bytes or an error (with count -1).\<close>

definition dc_Read :: "errno + u8 list \<Rightarrow> nat \<Rightarrow> int \<times> read_end option" where
  "dc_Read res n =
     (case res of
        Inl e \<Rightarrow> (- 1, Some (ReadError e))
      | Inr bs \<Rightarrow> if length bs = 0 then (0, if n = 0 then None else Some EOF) else (int (length bs), None))"

text \<open>Writing in pieces, with the results of the successive calls; \<open>None\<close>: it still writes. The bytes taken are recorded.\<close>

fun dc_pieces :: "(errno + nat) list \<Rightarrow> u8 list \<Rightarrow> u8 list \<times> errno option option" where
  "dc_pieces [] p = ([], if p = [] then Some None else None)"
| "dc_pieces (r # rs) p =
     (if p = [] then ([], Some None)
      else case r of
        Inl e \<Rightarrow> ([], Some (Some e))
      | Inr n \<Rightarrow> (case dc_pieces rs (drop n p) of (w, e) \<Rightarrow> (take n p @ w, e)))"

definition dc_Write :: "(errno + nat) list \<Rightarrow> u8 list \<Rightarrow> u8 list \<times> (nat \<times> errno option) option" where
  "dc_Write rs p = (case dc_pieces rs p of (w, e) \<Rightarrow> (w, map_option (Pair (length p)) e))"

end
