(* ===== verification/EvioLoopProps.thy ===== *)
theory EvioLoopProps
  imports EvioLoop
begin

text \<open>
  Properties of the event loops: no connection is forgotten by its poll, what handlers return is what
  sockets take, what is reported about a connection, and what a wake does to all this.
\<close>

subsection \<open>Frames\<close>

lemma the_loop_upd [simp]:
  "l < length (sv_loops s) \<Longrightarrow> the_loop j (upd_loop l f s) = (if j = l then f (the_loop l s) else the_loop j s)"
  by (simp add: the_loop_def upd_loop_def)

lemma upd_loop_frame [simp]:
  "sv_store (upd_loop l f s) = sv_store s" "sv_next (upd_loop l f s) = sv_next s" "sv_app (upd_loop l f s) = sv_app s"
  "length (sv_loops (upd_loop l f s)) = length (sv_loops s)" "sv_wire (upd_loop l f s) = sv_wire s"
  "sv_accepted (upd_loop l f s) = sv_accepted s"
  by (simp_all add: upd_loop_def)

lemma on_poll_frame [simp]:
  "sv_store (on_poll l f s) = sv_store s" "sv_next (on_poll l f s) = sv_next s" "sv_app (on_poll l f s) = sv_app s"
  "length (sv_loops (on_poll l f s)) = length (sv_loops s)" "sv_wire (on_poll l f s) = sv_wire s"
  "sv_accepted (on_poll l f s) = sv_accepted s"
  by (simp_all add: on_poll_def)

lemma the_loop_on_poll [simp]:
  "l < length (sv_loops s) \<Longrightarrow> watch_of j (on_poll l f s) = (if j = l then pl_watch (f (lp_poll (the_loop l s))) else watch_of j s)"
  "l < length (sv_loops s) \<Longrightarrow> conns_of j (on_poll l f s) = conns_of j s"
  "l < length (sv_loops s) \<Longrightarrow> lp_count (the_loop j (on_poll l f s)) = lp_count (the_loop j s)"
  by (simp_all add: on_poll_def)

lemma upd_cn_frame [simp]:
  "sv_store (upd_cn c f s) = (sv_store s)(c := f (sv_store s c))" "sv_next (upd_cn c f s) = sv_next s"
  "the_loop j (upd_cn c f s) = the_loop j s" "sv_loops (upd_cn c f s) = sv_loops s" "sv_app (upd_cn c f s) = sv_app s"
  "sv_wire (upd_cn c f s) = sv_wire s" "sv_accepted (upd_cn c f s) = sv_accepted s"
  by (simp_all add: upd_cn_def the_loop_def)

lemma sys_Close_frame [simp]:
  "sv_store (sys_Close fd s) = sv_store s" "sv_next (sys_Close fd s) = sv_next s" "sv_app (sys_Close fd s) = sv_app s"
  "length (sv_loops (sys_Close fd s)) = length (sv_loops s)" "sv_wire (sys_Close fd s) = sv_wire s"
  "sv_accepted (sys_Close fd s) = sv_accepted s"
  by (simp_all add: sys_Close_def)

lemma the_loop_sys_Close [simp]:
  "j < length (sv_loops s) \<Longrightarrow> the_loop j (sys_Close fd s) = (the_loop j s)\<lparr>lp_poll := watch fd None (lp_poll (the_loop j s))\<rparr>"
  by (simp add: the_loop_def sys_Close_def)

lemma pl_watch_watch [simp]: "pl_watch (watch fd i p) = (pl_watch p)(fd := i)"
  by (simp add: watch_def)

lemma take_out_frame [simp]:
  "cn_fd (take_out out k) = cn_fd k" "cn_loop (take_out out k) = cn_loop k" "cn_lnidx (take_out out k) = cn_lnidx k"
  "cn_opened (take_out out k) = cn_opened k" "cn_action (take_out out k) = cn_action k"
  "cn_out (take_out out k) = (if out = [] then cn_out k else out)"
  by (simp_all add: take_out_def)

subsection \<open>The invariant\<close>

definition conn_ok :: "'a Site \<Rightarrow> 'a evserver \<Rightarrow> nat \<Rightarrow> int \<Rightarrow> nat \<Rightarrow> bool" where
  "conn_ok E s l fd c \<longleftrightarrow>
     (let k = sv_store s c in
      c < sv_next s \<and> fd \<noteq> 0 \<and> cn_fd k = fd \<and> cn_loop k = Some l \<and> cn_lnidx k < length (si_lns E) \<and>
      (\<exists>i. watch_of l s fd = Some i \<and> (\<not> (cn_opened k \<and> idle k) \<longrightarrow> i = ReadsWrites)))"

definition loop_ok :: "'a Site \<Rightarrow> 'a evserver \<Rightarrow> nat \<Rightarrow> bool" where
  "loop_ok E s l \<longleftrightarrow>
     finite (dom (conns_of l s)) \<and> lp_count (the_loop l s) = int (card (dom (conns_of l s))) \<and>
     (\<forall>ln \<in> set (si_lns E). watch_of l s (ln_fd ln) = Some Reads \<and> conns_of l s (ln_fd ln) = None) \<and>
     (\<forall>fd c. conns_of l s fd = Some c \<longrightarrow> conn_ok E s l fd c)"

definition ev_ok :: "'a Site \<Rightarrow> 'a evserver \<Rightarrow> bool" where
  "ev_ok E s \<longleftrightarrow>
     (\<forall>l < length (sv_loops s). loop_ok E s l) \<and>
     (\<forall>l l' fd. l < length (sv_loops s) \<longrightarrow> l' < length (sv_loops s) \<longrightarrow> conns_of l s fd \<noteq> None \<longrightarrow> conns_of l' s fd \<noteq> None \<longrightarrow> l = l')"

lemma ev_ok_conn: "ev_ok E s \<Longrightarrow> l < length (sv_loops s) \<Longrightarrow> conns_of l s fd = Some c \<Longrightarrow> conn_ok E s l fd c"
  by (simp add: ev_ok_def loop_ok_def)

lemma ev_okD:
  assumes "ev_ok E s" "l < length (sv_loops s)" "conns_of l s fd = Some c"
  shows "conn_ok E s l fd c" "c < sv_next s" "fd \<noteq> 0" "cn_fd (sv_store s c) = fd" "cn_loop (sv_store s c) = Some l"
    "cn_lnidx (sv_store s c) < length (si_lns E)" "watch_of l s fd \<noteq> None"
    "\<not> cn_opened (sv_store s c) \<or> \<not> idle (sv_store s c) \<Longrightarrow> watch_of l s fd = Some ReadsWrites"
  using ev_ok_conn [OF assms] by (auto simp: conn_ok_def Let_def)

text \<open>Parts of the state the invariant does not speak of.\<close>

lemma ev_ok_frame:
  "sv_loops t = sv_loops s \<Longrightarrow> sv_store t = sv_store s \<Longrightarrow> sv_next t = sv_next s \<Longrightarrow> ev_ok E t = ev_ok E s"
  by (simp add: ev_ok_def loop_ok_def conn_ok_def the_loop_def)

text \<open>A change of a connection together with what is watched for it.\<close>

lemma ev_ok_settle:
  assumes "ev_ok E s" "l < length (sv_loops s)" "conns_of l s fd = Some c"
    and "cn_fd (f (sv_store s c)) = fd" "cn_loop (f (sv_store s c)) = Some l" "cn_lnidx (f (sv_store s c)) = cn_lnidx (sv_store s c)"
    and "\<not> (cn_opened (f (sv_store s c)) \<and> idle (f (sv_store s c))) \<Longrightarrow> i = ReadsWrites"
  shows "ev_ok E (on_poll l (watch fd (Some i)) (upd_cn c f s))"
proof -
  let ?t = "on_poll l (watch fd (Some i)) (upd_cn c f s)"
  have conns: "conns_of j ?t = conns_of j s" for j using assms(2) by simp
  have "conn_ok E ?t j gd d" if j: "j < length (sv_loops s)" "conns_of j s gd = Some d" for j gd d
  proof (cases "d = c")
    case True
    then have "j = l" "gd = fd" using ev_okD(4,5) [OF assms(1) j] ev_okD(4,5) [OF assms(1-3)] by auto
    then show ?thesis
      using True assms(2,4-7) ev_okD [OF assms(1-3)] by (auto simp: conn_ok_def Let_def)
  next
    case False
    have "gd \<noteq> fd \<or> j \<noteq> l" using False j assms(3) by auto
    then show ?thesis using ev_okD(1) [OF assms(1) j] False assms(2) by (auto simp: conn_ok_def Let_def)
  qed
  moreover have "watch_of j ?t (ln_fd ln) = Some Reads" if "j < length (sv_loops s)" "ln \<in> set (si_lns E)" for j ln
    using assms(1-3) that by (auto simp: ev_ok_def loop_ok_def)
  ultimately show ?thesis
    using assms(1,2) unfolding ev_ok_def loop_ok_def conns by (simp add: loop_ok_def)
qed

lemma watch_idem: "l < length (sv_loops s) \<Longrightarrow> watch_of l s fd = Some i \<Longrightarrow> on_poll l (watch fd (Some i)) s = s"
  by (cases "the_loop l s"; cases "lp_poll (the_loop l s)")
    (simp add: on_poll_def upd_loop_def watch_def the_loop_def fun_upd_idem list_update_same_conv)

lemma ev_ok_upd:
  assumes "ev_ok E s" "l < length (sv_loops s)" "conns_of l s fd = Some c"
    and "cn_fd (f (sv_store s c)) = fd" "cn_loop (f (sv_store s c)) = Some l" "cn_lnidx (f (sv_store s c)) = cn_lnidx (sv_store s c)"
    and "cn_opened (f (sv_store s c)) \<and> idle (f (sv_store s c)) \<or> watch_of l s fd = Some ReadsWrites"
  shows "ev_ok E (upd_cn c f s)"
proof -
  obtain i where i: "watch_of l s fd = Some i" using ev_okD(7) [OF assms(1-3)] by blast
  then have "on_poll l (watch fd (Some i)) (upd_cn c f s) = upd_cn c f s"
    using assms(2) by (intro watch_idem) simp_all
  moreover have "ev_ok E (on_poll l (watch fd (Some i)) (upd_cn c f s))"
    by (rule ev_ok_settle [where f = f]) (use assms i in auto)
  ultimately show ?thesis by simp
qed

lemma the_loop_frame [simp]:
  "the_loop j (s\<lparr>sv_app := a\<rparr>) = the_loop j s" "the_loop j (s\<lparr>sv_wire := w\<rparr>) = the_loop j s"
  "the_loop j (s\<lparr>sv_datagrams := g\<rparr>) = the_loop j s" "the_loop j (s\<lparr>sv_delays := d\<rparr>) = the_loop j s"
  "the_loop j (s\<lparr>sv_keepalives := k\<rparr>) = the_loop j s" "the_loop j (s\<lparr>sv_accepted := n\<rparr>) = the_loop j s"
  "the_loop j (s\<lparr>sv_store := st\<rparr>) = the_loop j s" "the_loop j (s\<lparr>sv_next := m\<rparr>) = the_loop j s"
  by (simp_all add: the_loop_def)

lemma ev_ok_frames [simp]:
  "ev_ok E (s\<lparr>sv_app := a\<rparr>) = ev_ok E s" "ev_ok E (s\<lparr>sv_wire := w\<rparr>) = ev_ok E s"
  "ev_ok E (s\<lparr>sv_datagrams := g\<rparr>) = ev_ok E s" "ev_ok E (s\<lparr>sv_delays := d\<rparr>) = ev_ok E s"
  "ev_ok E (s\<lparr>sv_keepalives := k\<rparr>) = ev_ok E s" "ev_ok E (s\<lparr>sv_accepted := n\<rparr>) = ev_ok E s"
  by (rule ev_ok_frame; simp)+

text \<open>A connection that ends; \<open>i\<close> loops may stop watching it.\<close>

lemma forget_conn_frame [simp]:
  "sv_store (forget_conn l fd s) = sv_store s" "sv_next (forget_conn l fd s) = sv_next s" "sv_app (forget_conn l fd s) = sv_app s"
  "length (sv_loops (forget_conn l fd s)) = length (sv_loops s)" "sv_wire (forget_conn l fd s) = sv_wire s"
  "sv_accepted (forget_conn l fd s) = sv_accepted s"
  unfolding forget_conn_def by (rule upd_loop_frame)+

lemma the_loop_forget_conn [simp]:
  "l < length (sv_loops s) \<Longrightarrow> watch_of j (forget_conn l fd s) = watch_of j s"
  "l < length (sv_loops s) \<Longrightarrow> conns_of j (forget_conn l fd s) = (if j = l then (conns_of l s)(fd := None) else conns_of j s)"
  "l < length (sv_loops s) \<Longrightarrow> lp_count (the_loop j (forget_conn l fd s)) = lp_count (the_loop j s) - (if j = l then 1 else 0)"
  by (cases "j = l"; simp add: forget_conn_def)+

lemma ev_ok_forget:
  assumes ok: "ev_ok E s" "l < length (sv_loops s)" "conns_of l s fd = Some c"
    and t: "length (sv_loops t) = length (sv_loops s)" "sv_store t = sv_store s" "sv_next t = sv_next s"
    and conns: "\<And>j. j < length (sv_loops s) \<Longrightarrow> conns_of j t = (if j = l then (conns_of l s)(fd := None) else conns_of j s)"
    and cnt: "\<And>j. j < length (sv_loops s) \<Longrightarrow> lp_count (the_loop j t) = lp_count (the_loop j s) - (if j = l then 1 else 0)"
    and watch: "\<And>j gd. j < length (sv_loops s) \<Longrightarrow> gd \<noteq> fd \<Longrightarrow> watch_of j t gd = watch_of j s gd"
  shows "ev_ok E t"
proof -
  have one: "conns_of j s fd \<noteq> None \<Longrightarrow> j < length (sv_loops s) \<Longrightarrow> j = l" for j
    using ok unfolding ev_ok_def by blast
  have "loop_ok E t j" if j: "j < length (sv_loops s)" for j
  proof -
    have ok_j: "loop_ok E s j" using ok(1) j by (simp add: ev_ok_def)
    have dom: "dom (conns_of j t) = dom (conns_of j s) - (if j = l then {fd} else {})"
      using conns [OF j] by auto
    have "lp_count (the_loop j t) = int (card (dom (conns_of j t)))"
    proof (cases "j = l")
      case True
      have "fd \<in> dom (conns_of l s)" using ok(3) by blast
      then have "card (dom (conns_of l s)) = Suc (card (dom (conns_of l s) - {fd}))"
        using ok_j True by (intro card.remove) (auto simp: loop_ok_def)
      then show ?thesis using True cnt [OF j] dom ok_j by (simp add: loop_ok_def)
    qed (use cnt [OF j] dom ok_j in \<open>simp add: loop_ok_def\<close>)
    moreover have "finite (dom (conns_of j t))" using dom ok_j by (simp add: loop_ok_def)
    moreover have "watch_of j t (ln_fd ln) = Some Reads \<and> conns_of j t (ln_fd ln) = None" if ln: "ln \<in> set (si_lns E)" for ln
    proof -
      have "ln_fd ln \<noteq> fd" using ok ln by (auto simp: ev_ok_def loop_ok_def)
      then show ?thesis using watch [OF j] conns [OF j] ok_j ln by (auto simp: loop_ok_def)
    qed
    moreover have "conn_ok E t j gd d" if d: "conns_of j t gd = Some d" for gd d
    proof -
      have s: "conns_of j s gd = Some d" "gd \<noteq> fd"
        using d conns [OF j] one [OF _ j] by (auto split: if_splits)
      then show ?thesis using ev_ok_conn [OF ok(1) j s(1)] watch [OF j s(2)] t by (simp add: conn_ok_def)
    qed
    ultimately show ?thesis by (simp add: loop_ok_def)
  qed
  moreover have "j = j'" if "j < length (sv_loops s)" "j' < length (sv_loops s)" "conns_of j t gd \<noteq> None" "conns_of j' t gd \<noteq> None" for j j' gd
  proof -
    have "conns_of j s gd \<noteq> None" "conns_of j' s gd \<noteq> None"
      using that conns [of j] conns [of j'] by (auto split: if_splits)
    then show ?thesis using ok(1) that(1,2) unfolding ev_ok_def by blast
  qed
  ultimately show ?thesis unfolding ev_ok_def t(1) by blast
qed

lemma wp_on_app [wp_simps]: "wp (on_app f) Q X s = (case f (sv_app s) of (b, a) \<Rightarrow> Q b (s\<lparr>sv_app := a\<rparr>))"
  by (simp add: wp_def on_app_def prod.case_eq_if)

abbreviation keeps_ok :: "'a Site \<Rightarrow> 'a evserver \<Rightarrow> ('a evserver, 'b) act \<Rightarrow> bool" where
  "keeps_ok E s m \<equiv> wp m (\<lambda>_ t. ev_ok E t \<and> length (sv_loops t) = length (sv_loops s)) (\<lambda>_ _. False) s"

lemma loopCloseConn_ok:
  assumes "ev_ok E s" "l < length (sv_loops s)" "conns_of l s fd = Some c"
  shows "keeps_ok E s (loopCloseConn E l c err)"
proof -
  have fd: "cn_fd (sv_store s c) = fd" by (rule ev_okD(4) [OF assms])
  have "ev_ok E (sys_Close fd (forget_conn l fd s))"
    by (rule ev_ok_forget [OF assms]) (use assms(2) in simp_all)
  then show ?thesis
    unfolding loopCloseConn_def Let_def by (simp add: wp_simps fd split: option.split prod.split)
qed

lemma wp_ctl_mod [wp_simps]:
  "wp (ctl_mod ok l fd i) Q X s = (if ok \<and> watch_of l s fd \<noteq> None then Q () (on_poll l (watch fd i) s) else X Explicit s)"
  unfolding ctl_mod_def by (simp add: wp_simps del: not_None_eq)

lemma wp_ctl_add [wp_simps]:
  "wp (ctl_add ok l fd i) Q X s = (if ok \<and> watch_of l s fd = None then Q () (on_poll l (watch fd (Some i)) s) else X Explicit s)"
  unfolding ctl_add_def by (simp add: wp_simps del: not_None_eq)

lemma loopDetachConn_ok:
  assumes "ev_ok E s" "l < length (sv_loops s)" "conns_of l s fd = Some c" "en_ctl env"
  shows "keeps_ok E s (loopDetachConn E env l c err)"
proof (cases "ev_Detached (si_events E)")
  case None
  then show ?thesis by (simp add: loopDetachConn_def loopCloseConn_ok [OF assms(1-3)])
next
  case (Some f)
  have fd: "cn_fd (sv_store s c) = fd" by (rule ev_okD(4) [OF assms(1-3)])
  have "ev_ok E (forget_conn l fd (on_poll l (watch fd None) s))"
    by (rule ev_ok_forget [OF assms(1-3)]) (use assms(2) in simp_all)
  then show ?thesis
    using ev_okD(7) [OF assms(1-3)] assms(4)
    by (simp add: loopDetachConn_def Some Let_def ModDetach_def wp_simps fd split: option.split prod.split)
qed

lemma back_to_reading_ok:
  assumes "ev_ok E s" "l < length (sv_loops s)" "conns_of l s fd = Some c" "en_ctl env" "cn_opened (sv_store s c)"
  shows "keeps_ok E s (back_to_reading env l c)"
proof -
  have fd: "cn_fd (sv_store s c) = fd" by (rule ev_okD(4) [OF assms(1-3)])
  have "ev_ok E (on_poll l (watch fd (Some Reads)) (upd_cn c id s))" if "idle (sv_store s c)"
    by (rule ev_ok_settle [where f = id]) (use assms that fd ev_okD [OF assms(1-3)] in auto)
  moreover have "upd_cn c id s = s" by (simp add: upd_cn_def)
  ultimately show ?thesis
    using ev_okD(7) [OF assms(1-3)] assms(1,4) by (simp add: back_to_reading_def ModRead_def wp_simps fd)
qed

text \<open>A handler's answer is put into the connection, and its socket is watched for writing if need be.\<close>

lemma wait_to_write_ok:
  assumes "ev_ok E s" "l < length (sv_loops s)" "conns_of l s fd = Some c" "en_ctl env"
    and "\<And>k. cn_fd (f k) = cn_fd k" "\<And>k. cn_loop (f k) = cn_loop k" "\<And>k. cn_lnidx (f k) = cn_lnidx k" "\<And>k. cn_opened (f k) = cn_opened k"
  shows "wp (wait_to_write env l c) (\<lambda>_ t. ev_ok E t \<and> length (sv_loops t) = length (sv_loops s)) (\<lambda>_ _. False) (upd_cn c f s)"
proof -
  note D = ev_okD [OF assms(1-3)]
  have "ev_ok E (upd_cn c f s)" if "idle (f (sv_store s c))"
    by (rule ev_ok_upd [OF assms(1-3)]) (use D(4,5,8) that assms(5-8) in auto)
  moreover have "ev_ok E (on_poll l (watch fd (Some ReadsWrites)) (upd_cn c f s))"
    by (rule ev_ok_settle [where f = f]) (use assms(1-3,5-8) D(4,5) in auto)
  ultimately show ?thesis
    using D(4,7) assms(2,4,5) by (simp add: wait_to_write_def ModReadWrite_def wp_simps)
qed

subsection \<open>Every step keeps it\<close>

text \<open>What an event finds: a connection of the loop, watched for writing.\<close>

lemma reading_again:
  assumes "ev_ok E s" "l < length (sv_loops s)" "conns_of l s fd = Some c" "en_ctl env"
    and "watch_of l s fd = Some ReadsWrites" "sv_loops t = sv_loops s" "sv_next t = sv_next s" "sv_store t = (sv_store s)(c := k)"
    and "cn_opened k" "cn_fd k = fd" "cn_loop k = Some l" "cn_lnidx k = cn_lnidx (sv_store s c)"
  shows "wp (back_to_reading env l c) (\<lambda>_ u. ev_ok E u \<and> length (sv_loops u) = length (sv_loops s)) (\<lambda>_ _. False) t"
proof -
  have "ev_ok E (upd_cn c (\<lambda>_. k) s)"
    by (rule ev_ok_upd [OF assms(1-3)]) (use assms in auto)
  moreover have "ev_ok E t = ev_ok E (upd_cn c (\<lambda>_. k) s)"
    by (rule ev_ok_frame) (simp_all add: assms(6-8))
  moreover have "conns_of l t fd = Some c" using assms(3,6) by (simp add: the_loop_def)
  ultimately show ?thesis
    using back_to_reading_ok [of E t l fd c env] assms(2,4,6,8,9) by simp
qed

lemma wp_PreWrite: "(\<And>a. Q () (s\<lparr>sv_app := a\<rparr>)) \<Longrightarrow> wp (PreWrite E) Q X s"
proof -
  assume Q: "\<And>a. Q () (s\<lparr>sv_app := a\<rparr>)"
  moreover have "s\<lparr>sv_app := sv_app s\<rparr> = s" by (cases s) simp
  ultimately have "Q () s" by metis
  with Q show ?thesis by (simp add: PreWrite_def wp_simps split: option.split)
qed

lemma loopWrite_ok:
  assumes "ev_ok E s" "l < length (sv_loops s)" "conns_of l s fd = Some c" "en_ctl env"
    and "cn_opened (sv_store s c)" "cn_out (sv_store s c) \<noteq> []"
  shows "keeps_ok E s (loopWrite E env l c)"
proof -
  have rw: "watch_of l s fd = Some ReadsWrites"
    using assms(6) by (intro ev_okD(8) [OF assms(1-3)]) (simp add: idle_def)
  have "wp (case en_write env of Inl e \<Rightarrow> if e = EAGAIN then ret None else loopCloseConn E l c (Some e)
     | Inr n \<Rightarrow>
         seq (modify (\<lambda>s. s\<lparr>sv_wire := (sv_wire s)(c := sv_wire s c @ take n (cn_out (sv_store s c)))\<rparr>)) (\<lambda>_.
         seq (modify (upd_cn c (\<lambda>k. k\<lparr>cn_out := drop n (cn_out k)\<rparr>))) (\<lambda>_.
         back_to_reading env l c))) (\<lambda>_ t. ev_ok E t \<and> length (sv_loops t) = length (sv_loops s)) (\<lambda>_ _. False) (s\<lparr>sv_app := a\<rparr>)" for a
  proof (cases "en_write env")
    case (Inl e)
    then show ?thesis
      using assms(1,2) loopCloseConn_ok [of E "s\<lparr>sv_app := a\<rparr>" l fd c "Some e"] assms(3) by (simp add: wp_simps)
  next
    case (Inr n)
    then show ?thesis
      using assms ev_okD(4,5) [OF assms(1-3)] rw
      by (auto simp: wp_simps intro!: reading_again [where s = s and fd = fd])
  qed
  then show ?thesis unfolding loopWrite_def wp_seq by (rule wp_PreWrite)
qed

lemma loopAction_ok:
  assumes "ev_ok E s" "l < length (sv_loops s)" "conns_of l s fd = Some c" "en_ctl env"
    and "cn_opened (sv_store s c)" "cn_action (sv_store s c) \<noteq> DoNothing"
  shows "keeps_ok E s (loopAction E env l c)"
proof -
  have rw: "watch_of l s fd = Some ReadsWrites"
    using assms(6) by (intro ev_okD(8) [OF assms(1-3)]) (simp add: idle_def)
  show ?thesis
    using assms rw ev_okD(4,5) [OF assms(1-3)] loopCloseConn_ok [OF assms(1-3), of None] loopDetachConn_ok [OF assms(1-4), of None]
    unfolding loopAction_def wp_seq wp_get_st
    by (cases "cn_action (sv_store s c)") (auto simp: wp_simps intro!: reading_again [where s = s and fd = fd])
qed

lemma upd_cn_app: "upd_cn c f (s\<lparr>sv_app := a\<rparr>) = (upd_cn c f s)\<lparr>sv_app := a\<rparr>"
  by (simp add: upd_cn_def)

lemma answer_ok:
  assumes "ev_ok E s" "l < length (sv_loops s)" "conns_of l s fd = Some c" "en_ctl env"
  shows "wp (wait_to_write env l c) (\<lambda>_ t. ev_ok E t \<and> length (sv_loops t) = length (sv_loops s)) (\<lambda>_ _. False)
    (upd_cn c (\<lambda>k. take_out out (k\<lparr>cn_action := action\<rparr>)) (s\<lparr>sv_app := a\<rparr>))"
  using wait_to_write_ok [of E "s\<lparr>sv_app := a\<rparr>" l fd c env "\<lambda>k. take_out out (k\<lparr>cn_action := action\<rparr>)"] assms by simp

lemma loopWake_ok:
  assumes "ev_ok E s" "l < length (sv_loops s)" "conns_of l s fd = Some c" "en_ctl env"
  shows "keeps_ok E s (loopWake E env l c)"
  using answer_ok [OF assms] assms(1) unfolding loopWake_def
  by (simp add: wp_simps split: option.split prod.split)

lemma loopRead_ok:
  assumes "ev_ok E s" "l < length (sv_loops s)" "conns_of l s fd = Some c" "en_ctl env"
  shows "keeps_ok E s (loopRead E env l c)"
proof -
  have "wp (wait_to_write env l c) (\<lambda>_ t. ev_ok E t \<and> length (sv_loops t) = length (sv_loops s)) (\<lambda>_ _. False) s"
    using wait_to_write_ok [OF assms, of id] by (simp add: upd_cn_def)
  then show ?thesis
    using answer_ok [OF assms] assms(1) loopCloseConn_ok [OF assms(1-3)] unfolding loopRead_def
    by (simp add: wp_simps split: option.split prod.split sum.split)
qed

lemma loopOpened_ok:
  assumes "ev_ok E s" "l < length (sv_loops s)" "conns_of l s fd = Some c" "en_ctl env" "\<not> cn_opened (sv_store s c)"
  shows "keeps_ok E s (loopOpened E env l c)"
proof -
  let ?f = "\<lambda>k. k\<lparr>cn_opened := True, cn_addrIndex := cn_lnidx k,
       cn_localAddr := ln_lnaddr (si_lns E ! cn_lnidx k), cn_remoteAddr := SockaddrToAddr (si_zone E) (cn_sa k)\<rparr>"
  have rw: "watch_of l s fd = Some ReadsWrites" using assms(5) by (intro ev_okD(8) [OF assms(1-3)]) simp
  note D = ev_okD(4,5) [OF assms(1-3)]
  have "wp (back_to_reading env l c) (\<lambda>_ u. ev_ok E u \<and> length (sv_loops u) = length (sv_loops s)) (\<lambda>_ _. False) t"
    if "sv_loops t = sv_loops s" "sv_next t = sv_next s" "sv_store t = (sv_store s)(c := k)" "cn_opened k" "cn_fd k = fd"
      "cn_loop k = Some l" "cn_lnidx k = cn_lnidx (sv_store s c)" for t k
    by (rule reading_again [OF assms(1-4) rw that])
  then show ?thesis
    using D unfolding loopOpened_def
    by (simp add: wp_simps Let_def SetKeepAlive_def split: option.split prod.split)
qed

text \<open>A descriptor the system hands out is none that it already watches.\<close>

definition fresh_fd :: "'a evserver \<Rightarrow> int \<Rightarrow> bool" where
  "fresh_fd s fd \<longleftrightarrow> fd \<noteq> 0 \<and> (\<forall>j < length (sv_loops s). watch_of j s fd = None)"

lemma ev_ok_join:
  assumes ok: "ev_ok E s" "l < length (sv_loops s)" "fresh_fd s fd" "i < length (si_lns E)"
    and t: "length (sv_loops t) = length (sv_loops s)" "sv_store t = (sv_store s)(sv_next s := new_conn fd sa i (Some l))"
      "sv_next t = sv_next s + 1"
    and conns: "\<And>j. j < length (sv_loops s) \<Longrightarrow> conns_of j t = (if j = l then (conns_of l s)(fd \<mapsto> sv_next s) else conns_of j s)"
    and cnt: "\<And>j. j < length (sv_loops s) \<Longrightarrow> lp_count (the_loop j t) = lp_count (the_loop j s) + (if j = l then 1 else 0)"
    and watch: "\<And>j. j < length (sv_loops s) \<Longrightarrow> watch_of j t = (if j = l then (watch_of l s)(fd \<mapsto> ReadsWrites) else watch_of j s)"
  shows "ev_ok E t"
proof -
  have none: "conns_of j s fd = None" if "j < length (sv_loops s)" for j
    using ev_okD(7) [OF ok(1) that, of fd] ok(3) that by (cases "conns_of j s fd") (auto simp: fresh_fd_def)
  have "loop_ok E t j" if j: "j < length (sv_loops s)" for j
  proof -
    have ok_j: "loop_ok E s j" using ok(1) j by (simp add: ev_ok_def)
    have dom: "dom (conns_of j t) = (if j = l then insert fd (dom (conns_of j s)) else dom (conns_of j s))"
      using conns [OF j] by simp
    have "lp_count (the_loop j t) = int (card (dom (conns_of j t)))"
      using dom cnt [OF j] ok_j none [OF j] by (cases "j = l") (auto simp: loop_ok_def card_insert_if)
    moreover have "finite (dom (conns_of j t))" using dom ok_j by (cases "j = l") (auto simp: loop_ok_def)
    moreover have "watch_of j t (ln_fd ln) = Some Reads \<and> conns_of j t (ln_fd ln) = None" if ln: "ln \<in> set (si_lns E)" for ln
    proof -
      have "ln_fd ln \<noteq> fd" using ok(3) ok_j j ln by (auto simp: fresh_fd_def loop_ok_def)
      then show ?thesis using watch [OF j] conns [OF j] ok_j ln by (auto simp: loop_ok_def)
    qed
    moreover have "conn_ok E t j gd d" if d: "conns_of j t gd = Some d" for gd d
    proof (cases "j = l \<and> gd = fd")
      case True
      then show ?thesis using d conns [OF j] watch [OF j] t ok(3,4) by (simp add: conn_ok_def new_conn_def fresh_fd_def)
    next
      case False
      then have s: "conns_of j s gd = Some d" using d conns [OF j] by (auto split: if_splits)
      have "watch_of j t gd = watch_of j s gd" using False watch [OF j] by auto
      then show ?thesis
        using ev_ok_conn [OF ok(1) j s] ev_okD(2) [OF ok(1) j s] t by (simp add: conn_ok_def Let_def)
    qed
    ultimately show ?thesis by (simp add: loop_ok_def)
  qed
  moreover have "j = j'" if j: "j < length (sv_loops s)" "j' < length (sv_loops s)" "conns_of j t gd \<noteq> None" "conns_of j' t gd \<noteq> None" for j j' gd
  proof (cases "gd = fd")
    case True
    then show ?thesis using j none [OF j(1)] none [OF j(2)] conns [OF j(1)] conns [OF j(2)] by (auto split: if_splits)
  next
    case False
    then have "conns_of j s gd \<noteq> None" "conns_of j' s gd \<noteq> None"
      using j conns [OF j(1)] conns [OF j(2)] by (auto split: if_splits)
    then show ?thesis using ok(1) j(1,2) unfolding ev_ok_def by blast
  qed
  ultimately show ?thesis unfolding ev_ok_def t(1) by blast
qed

lemma find_ln_Some: "find_ln fd i lns = Some (j, ln) \<Longrightarrow> i \<le> j \<and> j < i + length lns \<and> lns ! (j - i) = ln \<and> ln_fd ln = fd"
  by (induction lns arbitrary: i) (fastforce split: if_splits simp: nth_Cons')+

lemma wp_not_mine:
  assumes "\<And>b n. Q b (s\<lparr>sv_accepted := n\<rparr>)"
  shows "wp (not_mine E l) Q X s"
proof -
  have "s\<lparr>sv_accepted := sv_accepted s\<rparr> = s" by (cases s) simp
  then have "Q b s" for b using assms [of b "sv_accepted s"] by simp
  with assms show ?thesis by (simp add: not_mine_def wp_simps split: LoadBalance.split)
qed

lemma loopUDPRead_ok:
  assumes "ev_ok E s"
  shows "keeps_ok E s (loopUDPRead E env i)"
  using assms unfolding loopUDPRead_def Let_def
  by (auto simp: wp_simps intro!: wp_PreWrite split: sum.split option.split prod.split)

lemma enter_conn_frame [simp]:
  "l < length (sv_loops s) \<Longrightarrow> watch_of j (enter_conn l fd sa i s) = watch_of j s"
  "l < length (sv_loops s) \<Longrightarrow> conns_of j (enter_conn l fd sa i s) = (if j = l then (conns_of l s)(fd \<mapsto> sv_next s) else conns_of j s)"
  "l < length (sv_loops s) \<Longrightarrow> lp_count (the_loop j (enter_conn l fd sa i s)) = lp_count (the_loop j s)"
  "sv_store (enter_conn l fd sa i s) = (sv_store s)(sv_next s := new_conn fd sa i (Some l))"
  "sv_next (enter_conn l fd sa i s) = sv_next s + 1" "length (sv_loops (enter_conn l fd sa i s)) = length (sv_loops s)"
  "sv_app (enter_conn l fd sa i s) = sv_app s" "sv_wire (enter_conn l fd sa i s) = sv_wire s"
  "sv_accepted (enter_conn l fd sa i s) = sv_accepted s"
  by (auto simp: enter_conn_def)

lemma loopAccept_ok:
  assumes "ev_ok E s" "l < length (sv_loops s)" "en_ctl env"
    and fresh: "\<And>nfd sa. en_accept env = Inr (nfd, sa) \<Longrightarrow> fresh_fd s nfd"
  shows "keeps_ok E s (loopAccept E env l fd)"
proof (cases "find_ln fd 0 (si_lns E)")
  case None
  then show ?thesis using assms(1) by (simp add: loopAccept_def wp_simps)
next
  case (Some p)
  obtain i ln where p: "p = (i, ln)" by fastforce
  have i: "i < length (si_lns E)" using find_ln_Some Some p by fastforce
  have enter: "ev_ok E (upd_loop l (\<lambda>lp. lp\<lparr>lp_count := lp_count lp + 1\<rparr>)
      (on_poll l (watch nfd (Some ReadsWrites)) (enter_conn l nfd sa i (s\<lparr>sv_accepted := n\<rparr>))))"
    if "en_accept env = Inr (nfd, sa)" for nfd sa n
    by (rule ev_ok_join [of E "s\<lparr>sv_accepted := n\<rparr>" l nfd i _ sa])
      (use assms(1,2) i fresh [OF that] in \<open>auto simp: fresh_fd_def\<close>)
  have w: "watch_of l (enter_conn l nfd sa i (s\<lparr>sv_accepted := n\<rparr>)) nfd = None" if "en_accept env = Inr (nfd, sa)" for nfd sa n
    using fresh [OF that] assms(2) by (simp add: fresh_fd_def)
  show ?thesis
    unfolding loopAccept_def Some p option.case prod.case wp_seq
  proof (rule wp_not_mine)
    fix b n
    have udp: "keeps_ok E (s\<lparr>sv_accepted := n\<rparr>) (loopUDPRead E env i)" by (rule loopUDPRead_ok) (use assms(1) in simp)
    show "wp (if b then ret None
         else if ln_udp ln then loopUDPRead E env i
         else case en_accept env of Inl e \<Rightarrow> if e = EAGAIN then ret None else ret (Some (SysError e))
              | Inr (nfd, sa) \<Rightarrow> (case en_nonblock env of Some e \<Rightarrow> ret (Some (SysError e))
                | None \<Rightarrow> seq (modify (enter_conn l nfd sa i)) (\<lambda>_. seq (AddReadWrite (en_ctl env) l nfd)
                     (\<lambda>_. seq (modify (upd_loop l (\<lambda>lp. lp\<lparr>lp_count := lp_count lp + 1\<rparr>))) (\<lambda>_. ret None)))))
        (\<lambda>_ t. ev_ok E t \<and> length (sv_loops t) = length (sv_loops s)) (\<lambda>_ _. False) (s\<lparr>sv_accepted := n\<rparr>)"
      using udp assms(1-3) enter w
      by (simp add: wp_simps AddReadWrite_def split: sum.split option.split prod.split)
  qed
qed

lemma loop_event_ok:
  assumes "ev_ok E s" "l < length (sv_loops s)" "en_ctl env"
    and fresh: "\<And>nfd sa. en_accept env = Inr (nfd, sa) \<Longrightarrow> fresh_fd s nfd"
  shows "keeps_ok E s (loop_event E env l fd)"
proof (cases "conns_of l s fd")
  case None
  then show ?thesis using loopAccept_ok [OF assms] assms(1) by (simp add: loop_event_def wp_simps)
next
  case (Some c)
  then show ?thesis
    using assms(1) loopOpened_ok [OF assms(1,2) Some assms(3)] loopWrite_ok [OF assms(1,2) Some assms(3)]
      loopAction_ok [OF assms(1,2) Some assms(3)] loopRead_ok [OF assms(1,2) Some assms(3)]
    by (auto simp: loop_event_def wp_simps Let_def)
qed

lemma loopNote_ok:
  assumes "ev_ok E s" "l < length (sv_loops s)" "en_ctl env" "note' = TickNote \<Longrightarrow> ev_Tick (si_events E) \<noteq> None"
  shows "keeps_ok E s (loopNote E env l note')"
proof (cases note')
  case (ConnNote c)
  then show ?thesis
    using assms(1) loopWake_ok [OF assms(1,2) _ assms(3), of "cn_fd (sv_store s c)" c]
    by (simp add: loopNote_def wp_simps)
qed (use assms in \<open>auto simp: loopNote_def wp_simps split: option.split prod.split\<close>)

subsection \<open>From the start\<close>

definition blank :: "'a Site \<Rightarrow> 'a evserver \<Rightarrow> bool" where
  "blank E s \<longleftrightarrow> (\<forall>l < length (sv_loops s). conns_of l s = Map.empty \<and> lp_count (the_loop l s) = 0 \<and>
     (\<forall>ln \<in> set (si_lns E). watch_of l s (ln_fd ln) = Some Reads))"

lemma blank_ok: "blank E s \<Longrightarrow> ev_ok E s"
  by (simp add: blank_def ev_ok_def loop_ok_def)

lemma listeners_watched:
  assumes "l < length (sv_loops s)"
  shows "wp (for_each (\<lambda>ln. AddRead True l (ln_fd ln)) lns)
    (\<lambda>_ t. length (sv_loops t) = length (sv_loops s) \<and> (\<forall>j. j \<noteq> l \<longrightarrow> the_loop j t = the_loop j s) \<and>
       conns_of l t = conns_of l s \<and> lp_count (the_loop l t) = lp_count (the_loop l s) \<and>
       (\<forall>ln \<in> set lns. watch_of l t (ln_fd ln) = Some Reads) \<and>
       (\<forall>fd. watch_of l s fd = Some Reads \<longrightarrow> watch_of l t fd = Some Reads) \<and> sv_next t = sv_next s \<and> sv_app t = sv_app s \<and>
       sv_store t = sv_store s \<and> sv_wire t = sv_wire s)
    (\<lambda>_ _. True) s"
  using assms
proof (induction lns arbitrary: s)
  case Nil
  then show ?case by (simp add: wp_simps)
next
  case (Cons ln lns)
  let ?s = "on_poll l (watch (ln_fd ln) (Some Reads)) s"
  have other: "the_loop j ?s = the_loop j s" if "j \<noteq> l" for j
    using that Cons.prems by (simp add: on_poll_def)
  show ?case
  proof (cases "watch_of l s (ln_fd ln) = None")
    case True
    have "wp (for_each (\<lambda>ln. AddRead True l (ln_fd ln)) lns)
      (\<lambda>_ t. length (sv_loops t) = length (sv_loops ?s) \<and> (\<forall>j. j \<noteq> l \<longrightarrow> the_loop j t = the_loop j ?s) \<and>
       conns_of l t = conns_of l ?s \<and> lp_count (the_loop l t) = lp_count (the_loop l ?s) \<and>
       (\<forall>ln \<in> set lns. watch_of l t (ln_fd ln) = Some Reads) \<and>
       (\<forall>fd. watch_of l ?s fd = Some Reads \<longrightarrow> watch_of l t fd = Some Reads) \<and> sv_next t = sv_next ?s \<and> sv_app t = sv_app ?s \<and>
       sv_store t = sv_store ?s \<and> sv_wire t = sv_wire ?s) (\<lambda>_ _. True) ?s"
      by (rule Cons.IH) (use Cons.prems in simp)
    then have "wp (for_each (\<lambda>ln. AddRead True l (ln_fd ln)) lns)
      (\<lambda>_ t. length (sv_loops t) = length (sv_loops s) \<and> (\<forall>j. j \<noteq> l \<longrightarrow> the_loop j t = the_loop j s) \<and>
       conns_of l t = conns_of l s \<and> lp_count (the_loop l t) = lp_count (the_loop l s) \<and>
       (\<forall>ln' \<in> set (ln # lns). watch_of l t (ln_fd ln') = Some Reads) \<and>
       (\<forall>fd. watch_of l s fd = Some Reads \<longrightarrow> watch_of l t fd = Some Reads) \<and> sv_next t = sv_next s \<and> sv_app t = sv_app s \<and>
       sv_store t = sv_store s \<and> sv_wire t = sv_wire s) (\<lambda>_ _. True) ?s"
      by (rule wp_mono) (use Cons.prems other in auto)
    then show ?thesis using True by (simp add: wp_simps AddRead_def)
  qed (auto simp: wp_simps AddRead_def)
qed

lemma make_loops_blank:
  assumes "blank E s"
  shows "wp (make_loops E fds) (\<lambda>_ t. blank E t \<and> sv_next t = sv_next s \<and> sv_app t = sv_app s \<and> sv_store t = sv_store s \<and> sv_wire t = sv_wire s)
    (\<lambda>_ _. True) s"
  using assms
proof (induction E fds arbitrary: s rule: make_loops.induct)
  case (3 E wfd fds)
  let ?s = "s\<lparr>sv_loops := sv_loops s @ [OpenPoll wfd]\<rparr>"
  let ?l = "length (sv_loops s)"
  have l: "the_loop j ?s = (if j = ?l then OpenPoll wfd else the_loop j s)" if "j \<le> ?l" for j
    using that by (auto simp: the_loop_def nth_append)
  have "wp (for_each (\<lambda>ln. AddRead True ?l (ln_fd ln)) (si_lns E))
    (\<lambda>_. wp (make_loops E fds) (\<lambda>_ t. blank E t \<and> sv_next t = sv_next s \<and> sv_app t = sv_app s \<and> sv_store t = sv_store s \<and> sv_wire t = sv_wire s)
      (\<lambda>_ _. True)) (\<lambda>_ _. True) ?s"
  proof (rule wp_mono [OF listeners_watched], goal_cases)
    case (2 u t)
    have "blank E t"
      unfolding blank_def
    proof (intro allI impI)
      fix j assume j: "j < length (sv_loops t)"
      show "conns_of j t = Map.empty \<and> lp_count (the_loop j t) = 0 \<and> (\<forall>ln \<in> set (si_lns E). watch_of j t (ln_fd ln) = Some Reads)"
        using 2 j "3.prems" l [of j] by (cases "j = ?l") (auto simp: blank_def OpenPoll_def)
    qed
    from "3.IH" [OF this] show ?case by (rule wp_mono) (use 2 in auto)
  qed simp_all
  then show ?case by (simp add: wp_simps)
qed (simp_all add: wp_simps)

text \<open>
  The states of a running server. Any event can come on any loop in any order, and any note: more than
  what the polls let through. What the system does for one step is free, but it has the memory \<open>epoll_ctl\<close>
  needs, and hands out descriptors that are not in use. Tick notes come only from the ticker, which runs when
  there is a \<open>Tick\<close>. When the server ends, connections are closed. \<open>P\<close> and \<open>N\<close> can restrict the
  system calls and the notes.
\<close>

inductive ev_reach :: "'a Site \<Rightarrow> (Env \<Rightarrow> bool) \<Rightarrow> ('a evserver \<Rightarrow> loop_note \<Rightarrow> bool) \<Rightarrow> 'a \<Rightarrow> 'a evserver \<Rightarrow> bool"
  for E :: "'a Site" and P :: "Env \<Rightarrow> bool" and N :: "'a evserver \<Rightarrow> loop_note \<Rightarrow> bool" and a :: 'a where
  started: "make_loops E fds (new_evserver a) = (Inr (), s) \<Longrightarrow> ev_reach E P N a s"
| event: "ev_reach E P N a s \<Longrightarrow> l < length (sv_loops s) \<Longrightarrow> en_ctl env \<Longrightarrow> P env \<Longrightarrow>
    (\<And>nfd sa. en_accept env = Inr (nfd, sa) \<Longrightarrow> fresh_fd s nfd) \<Longrightarrow> ev_reach E P N a (snd (loop_event E env l fd s))"
| noted: "ev_reach E P N a s \<Longrightarrow> l < length (sv_loops s) \<Longrightarrow> en_ctl env \<Longrightarrow> P env \<Longrightarrow> N s note' \<Longrightarrow>
    (note' = TickNote \<Longrightarrow> ev_Tick (si_events E) \<noteq> None) \<Longrightarrow> ev_reach E P N a (snd (loopNote E env l note' s))"
| triggered: "ev_reach E P N a s \<Longrightarrow> l < length (sv_loops s) \<Longrightarrow> ev_reach E P N a (snd (EvTrigger wr l note' s))"
| ended: "ev_reach E P N a s \<Longrightarrow> l < length (sv_loops s) \<Longrightarrow> conns_of l s fd = Some c \<Longrightarrow>
    ev_reach E P N a (snd (loopCloseConn E l c None s))"

lemma keeps_ok_snd: "keeps_ok E s m \<Longrightarrow> ev_ok E (snd (m s))"
  by (auto simp: wp_def split: prod.splits sum.splits)

lemma triggered_frame [simp]:
  "sv_store (snd (EvTrigger wr l note' s)) = sv_store s" "sv_next (snd (EvTrigger wr l note' s)) = sv_next s"
  "sv_app (snd (EvTrigger wr l note' s)) = sv_app s" "sv_wire (snd (EvTrigger wr l note' s)) = sv_wire s"
  "length (sv_loops (snd (EvTrigger wr l note' s))) = length (sv_loops s)"
  by (simp_all add: EvTrigger_def run_simps)

lemma triggered_loops [simp]:
  "l < length (sv_loops s) \<Longrightarrow> conns_of j (snd (EvTrigger wr l note' s)) = conns_of j s"
  "l < length (sv_loops s) \<Longrightarrow> watch_of j (snd (EvTrigger wr l note' s)) = watch_of j s"
  "l < length (sv_loops s) \<Longrightarrow> lp_count (the_loop j (snd (EvTrigger wr l note' s))) = lp_count (the_loop j s)"
  by (simp_all add: EvTrigger_def run_simps)

lemma ev_reach_ok: "ev_reach E P N a s \<Longrightarrow> ev_ok E s"
proof (induction rule: ev_reach.induct)
  case (started fds s)
  have "blank E (new_evserver a)" by (simp add: blank_def new_evserver_def)
  from make_loops_blank [OF this, of fds] started show ?case by (simp add: wp_def blank_ok)
next
  case (event s l env fd)
  then show ?case by (intro keeps_ok_snd loop_event_ok) auto
next
  case (noted s l env note')
  then show ?case by (intro keeps_ok_snd loopNote_ok) auto
next
  case (triggered s l wr note')
  then show ?case by (simp add: ev_ok_def loop_ok_def conn_ok_def)
next
  case (ended s l fd c)
  then show ?case by (intro keeps_ok_snd loopCloseConn_ok) auto
qed

end
