(* ===== verification/EvioTrace.thy ===== *)
theory EvioTrace
  imports EvioLoopProps
begin

text \<open>
  What the event loops tell their user and what sockets take: the handlers are wrapped so that every
  call of one is recorded with its answer, and the record is compared with the state of the server.
\<close>

subsection \<open>Recording the handlers\<close>

datatype happening =
    Opening nat "u8 list"
  | Receiving nat "u8 list" "u8 list"
  | Closing nat "errno option"
  | Detaching nat

fun who :: "happening \<Rightarrow> nat" where
  "who (Opening c out) = c"
| "who (Receiving c bs out) = c"
| "who (Closing c err) = c"
| "who (Detaching c) = c"

fun answer :: "happening \<Rightarrow> u8 list" where
  "answer (Opening c out) = out"
| "answer (Receiving c bs out) = out"
| "answer _ = []"

definition tell :: "('r \<Rightarrow> happening list) \<Rightarrow> ('a \<Rightarrow> 'r \<times> 'a) \<Rightarrow> 'a \<times> happening list \<Rightarrow> 'r \<times> ('a \<times> happening list)" where
  "tell what f ah = (case f (fst ah) of (r, a) \<Rightarrow> (r, (a, snd ah @ what r)))"

definition logged :: "'a Site \<Rightarrow> ('a \<times> happening list) Site" where
  "logged E =
     (let e = si_events E in
      \<lparr>si_events =
        \<lparr>ev_NumLoops = ev_NumLoops e, ev_LoadBalance = ev_LoadBalance e,
         ev_Serving = map_option (\<lambda>f n as. tell (\<lambda>_. []) (f n as)) (ev_Serving e),
         ev_Opened = map_option (\<lambda>f c k. tell (\<lambda>r. [Opening c (fst r)]) (f c k)) (ev_Opened e),
         ev_Closed = map_option (\<lambda>f c k err. tell (\<lambda>r. [Closing c err]) (f c k err)) (ev_Closed e),
         ev_Detached = map_option (\<lambda>f c k fd. tell (\<lambda>r. [Detaching c]) (f c k fd)) (ev_Detached e),
         ev_PreWrite = map_option (\<lambda>f ah. (f (fst ah), snd ah)) (ev_PreWrite e),
         ev_Data = map_option (\<lambda>f c k bs. tell (\<lambda>r. case c of None \<Rightarrow> [] | Some c \<Rightarrow> [Receiving c bs (fst r)]) (f c k bs)) (ev_Data e),
         ev_Tick = map_option (tell (\<lambda>_. [])) (ev_Tick e)\<rparr>,
       si_lns = si_lns E, si_zone = si_zone E\<rparr>)"

definition has_handlers :: "'a Site \<Rightarrow> bool" where
  "has_handlers E \<longleftrightarrow> ev_Opened (si_events E) \<noteq> None \<and> ev_Closed (si_events E) \<noteq> None \<and> ev_Detached (si_events E) \<noteq> None \<and>
     ev_Data (si_events E) \<noteq> None"

text \<open>All that was answered for a connection, and what happened to it.\<close>

definition said :: "nat \<Rightarrow> happening list \<Rightarrow> u8 list" where
  "said c h = concat (map (\<lambda>x. if who x = c then answer x else []) h)"

definition about :: "nat \<Rightarrow> happening list \<Rightarrow> happening list" where
  "about c h = filter (\<lambda>x. who x = c) h"

lemma said_append [simp]: "said c (h @ h') = said c h @ said c h'"
  by (simp add: said_def)

lemma said_Nil [simp]: "said c [] = []"
  by (simp add: said_def)

lemma said_one [simp]: "said c [x] = (if who x = c then answer x else [])"
  by (simp add: said_def)

lemma about_simps [simp]: "about c [] = []" "about c (x # h) = (if who x = c then x # about c h else about c h)" "about c (h @ h') = about c h @ about c h'"
  by (simp_all add: about_def)

subsection \<open>The life of a connection\<close>

text \<open>
  The contract: a connection waits, is opened once, then gets data, and in the end is closed or
  detached, once; nothing happens to it afterwards. A connection that waits can be closed at once.
\<close>

datatype life = Waiting | Live | Over

fun life_step :: "life \<Rightarrow> happening \<Rightarrow> life option" where
  "life_step Waiting (Opening c out) = Some Live"
| "life_step Waiting (Closing c err) = Some Over"
| "life_step Live (Receiving c bs out) = Some Live"
| "life_step Live (Closing c err) = Some Over"
| "life_step Live (Detaching c) = Some Over"
| "life_step _ _ = None"

fun lives :: "life \<Rightarrow> happening list \<Rightarrow> life option" where
  "lives x [] = Some x"
| "lives x (e # es) = (case life_step x e of None \<Rightarrow> None | Some y \<Rightarrow> lives y es)"

lemma lives_append: "lives x (es @ fs) = (case lives x es of None \<Rightarrow> None | Some y \<Rightarrow> lives y fs)"
  by (induction es arbitrary: x) (auto split: option.split)

lemma life_step_not_Waiting [simp]: "life_step x e \<noteq> Some Waiting"
  by (cases "(x, e)" rule: life_step.cases) auto

lemma lives_Waiting: "lives x es = Some Waiting \<Longrightarrow> es = []"
proof (induction es arbitrary: x)
  case (Cons e es)
  then obtain y where y: "life_step x e = Some y" "lives y es = Some Waiting" by (auto split: option.splits)
  with Cons.IH have "es = []" by blast
  with y show ?case by simp
qed simp

text \<open>What the state of the server says about a connection.\<close>

definition stage :: "'a evserver \<Rightarrow> nat \<Rightarrow> life" where
  "stage s c =
     (if c \<ge> sv_next s then Waiting
      else case cn_loop (sv_store s c) of
        None \<Rightarrow> Over
      | Some l \<Rightarrow>
          if l < length (sv_loops s) \<and> conns_of l s (cn_fd (sv_store s c)) = Some c then (if cn_opened (sv_store s c) then Live else Waiting) else Over)"

definition trace_ok :: "('a \<times> happening list) evserver \<Rightarrow> bool" where
  "trace_ok s \<longleftrightarrow>
     (\<forall>c. let h = snd (sv_app s) in
        said c h = sv_wire s c @ cn_out (sv_store s c) \<and> lives Waiting (about c h) = Some (stage s c) \<and>
        (stage s c = Waiting \<longrightarrow> cn_out (sv_store s c) = []))"

lemma trace_okD:
  assumes "trace_ok s"
  shows "said c (snd (sv_app s)) = sv_wire s c @ cn_out (sv_store s c)" "lives Waiting (about c (snd (sv_app s))) = Some (stage s c)"
    "stage s c = Waiting \<Longrightarrow> cn_out (sv_store s c) = []"
  using assms by (auto simp: trace_ok_def Let_def)

lemma stage_conn:
  assumes "ev_ok E s" "l < length (sv_loops s)" "conns_of l s fd = Some c"
  shows "stage s c = (if cn_opened (sv_store s c) then Live else Waiting)"
  using ev_okD(2,4,5) [OF assms] assms(2,3) by (simp add: stage_def)

text \<open>A step that concerns one connection of a loop.\<close>

definition changed :: "('a \<times> happening list) evserver \<Rightarrow> nat \<Rightarrow> int \<Rightarrow> nat \<Rightarrow> conn \<Rightarrow> u8 list \<Rightarrow> bool \<Rightarrow> happening list \<Rightarrow>
    ('a \<times> happening list) evserver \<Rightarrow> bool" where
  "changed s l fd c k w gone es t \<longleftrightarrow>
     sv_next t = sv_next s \<and> sv_store t = (sv_store s)(c := k) \<and> sv_wire t = (sv_wire s)(c := w) \<and>
     snd (sv_app t) = snd (sv_app s) @ es \<and> length (sv_loops t) = length (sv_loops s) \<and>
     (\<forall>j < length (sv_loops s). conns_of j t = (if j = l \<and> gone then (conns_of l s)(fd := None) else conns_of j s))"

lemma trace_ok_changed:
  assumes ok: "ev_ok E s" "l < length (sv_loops s)" "conns_of l s fd = Some c" "trace_ok s"
    and t: "changed s l fd c k w gone es t"
    and k: "cn_fd k = fd" "cn_loop k = Some l" and es: "\<And>x. x \<in> set es \<Longrightarrow> who x = c"
    and said: "w @ cn_out k = sv_wire s c @ cn_out (sv_store s c) @ said c es"
    and life: "lives (if cn_opened (sv_store s c) then Live else Waiting) es = Some (if gone then Over else if cn_opened k then Live else Waiting)"
    and out: "\<not> gone \<Longrightarrow> \<not> cn_opened k \<Longrightarrow> cn_out k = []"
  shows "trace_ok t"
proof -
  have next_c: "c < sv_next s" by (rule ev_okD(2) [OF ok(1-3)])
  have here: "stage t c = (if gone then Over else if cn_opened k then Live else Waiting)"
    using next_c t k ok(2,3) by (auto simp: stage_def changed_def)
  have others: "stage t d = stage s d" if d: "d \<noteq> c" for d
  proof -
    have "(conns_of j t gd = Some d) = (conns_of j s gd = Some d)" if "j < length (sv_loops s)" for j gd
      using t ok(3) d that by (auto simp: changed_def)
    moreover have "sv_next t = sv_next s" "sv_store t d = sv_store s d" "length (sv_loops t) = length (sv_loops s)"
      using t d by (simp_all add: changed_def)
    ultimately show ?thesis by (simp add: stage_def cong: conj_cong split: option.split)
  qed
  have none: "about d es = []" "said d es = []" if "d \<noteq> c" for d
    using es that by (auto simp: about_def said_def filter_empty_conv)
  have all: "about c es = es" using es by (simp add: about_def)
  show ?thesis
    unfolding trace_ok_def Let_def
  proof
    fix d
    show "said d (snd (sv_app t)) = sv_wire t d @ cn_out (sv_store t d) \<and> lives Waiting (about d (snd (sv_app t))) = Some (stage t d) \<and>
      (stage t d = Waiting \<longrightarrow> cn_out (sv_store t d) = [])"
    proof (cases "d = c")
      case True
      then show ?thesis
        using t here said life out all trace_okD [OF ok(4), of c] stage_conn [OF ok(1-3)]
        by (auto simp: changed_def lives_append)
    next
      case False
      then show ?thesis using t others none trace_okD [OF ok(4), of d] by (simp add: changed_def)
    qed
  qed
qed

subsection \<open>Every step keeps the record true\<close>

abbreviation keeps_trace :: "('a \<times> happening list) evserver \<Rightarrow> (('a \<times> happening list) evserver, 'b) act \<Rightarrow> bool" where
  "keeps_trace s m \<equiv> wp m (\<lambda>_. trace_ok) (\<lambda>_ _. True) s"

lemma trace_ok_frame:
  assumes "sv_next t = sv_next s" "sv_store t = sv_store s" "sv_wire t = sv_wire s" "snd (sv_app t) = snd (sv_app s)"
    "length (sv_loops t) = length (sv_loops s)" "\<And>j. j < length (sv_loops s) \<Longrightarrow> conns_of j t = conns_of j s"
  shows "trace_ok t = trace_ok s"
proof -
  have "stage t c = stage s c" for c
    using assms by (simp add: stage_def cong: conj_cong split: option.split)
  then show ?thesis using assms by (simp add: trace_ok_def)
qed

lemma trace_on_poll: "l < length (sv_loops s) \<Longrightarrow> trace_ok (on_poll l (watch fd i) s) = trace_ok s"
  by (rule trace_ok_frame) simp_all

lemma back_to_reading_trace: "trace_ok s \<Longrightarrow> l < length (sv_loops s) \<Longrightarrow> keeps_trace s (back_to_reading env l c)"
  by (simp add: back_to_reading_def ModRead_def wp_simps trace_on_poll)

lemma wait_to_write_trace: "trace_ok s \<Longrightarrow> l < length (sv_loops s) \<Longrightarrow> keeps_trace s (wait_to_write env l c)"
  by (simp add: wait_to_write_def ModReadWrite_def wp_simps trace_on_poll)

lemma logged_simps [simp]:
  "si_lns (logged E) = si_lns E" "si_zone (logged E) = si_zone E"
  "ev_Opened (si_events (logged E)) = map_option (\<lambda>f c k. tell (\<lambda>r. [Opening c (fst r)]) (f c k)) (ev_Opened (si_events E))"
  "ev_Closed (si_events (logged E)) = map_option (\<lambda>f c k err. tell (\<lambda>r. [Closing c err]) (f c k err)) (ev_Closed (si_events E))"
  "ev_Detached (si_events (logged E)) = map_option (\<lambda>f c k fd. tell (\<lambda>r. [Detaching c]) (f c k fd)) (ev_Detached (si_events E))"
  "ev_PreWrite (si_events (logged E)) = map_option (\<lambda>f ah. (f (fst ah), snd ah)) (ev_PreWrite (si_events E))"
  "ev_Data (si_events (logged E)) = map_option (\<lambda>f c k bs. tell (\<lambda>r. case c of None \<Rightarrow> [] | Some c \<Rightarrow> [Receiving c bs (fst r)]) (f c k bs)) (ev_Data (si_events E))"
  "ev_Tick (si_events (logged E)) = map_option (tell (\<lambda>_. [])) (ev_Tick (si_events E))"
  "ev_LoadBalance (si_events (logged E)) = ev_LoadBalance (si_events E)"
  by (simp_all add: logged_def Let_def)

lemma loopCloseConn_trace:
  assumes "ev_ok (logged E) s" "l < length (sv_loops s)" "conns_of l s fd = Some c" "trace_ok s" "has_handlers E"
  shows "keeps_trace s (loopCloseConn (logged E) l c err)"
proof -
  note D = ev_okD(4,5) [OF assms(1-3)]
  have "trace_ok ((sys_Close fd (forget_conn l fd s))\<lparr>sv_app := (a, snd (sv_app s) @ [Closing c err])\<rparr>)" for a
    by (rule trace_ok_changed [OF assms(1-4), where k = "sv_store s c" and w = "sv_wire s c" and gone = True and es = "[Closing c err]"])
      (use D assms(2) in \<open>auto simp: changed_def\<close>)
  then show ?thesis
    using assms(5) D unfolding loopCloseConn_def Let_def
    by (auto simp: has_handlers_def wp_simps tell_def split: prod.split)
qed

lemma loopDetachConn_trace:
  assumes "ev_ok (logged E) s" "l < length (sv_loops s)" "conns_of l s fd = Some c" "trace_ok s" "has_handlers E"
    and "en_nonblock env = None" "cn_opened (sv_store s c)"
  shows "keeps_trace s (loopDetachConn (logged E) env l c err)"
proof -
  note D = ev_okD(4,5) [OF assms(1-3)]
  have "trace_ok ((forget_conn l fd (on_poll l (watch fd None) s))\<lparr>sv_app := (a, snd (sv_app s) @ [Detaching c])\<rparr>)" for a
    by (rule trace_ok_changed [OF assms(1-4), where k = "sv_store s c" and w = "sv_wire s c" and gone = True and es = "[Detaching c]"])
      (use D assms(2,7) in \<open>auto simp: changed_def\<close>)
  then show ?thesis
    using assms(5,6) D unfolding loopDetachConn_def Let_def
    by (auto simp: has_handlers_def wp_simps tell_def ModDetach_def split: prod.split)
qed

lemma loopOpened_trace:
  assumes "ev_ok (logged E) s" "l < length (sv_loops s)" "conns_of l s fd = Some c" "trace_ok s" "has_handlers E"
    and "\<not> cn_opened (sv_store s c)"
  shows "keeps_trace s (loopOpened (logged E) env l c)"
proof -
  note D = ev_okD(4,5) [OF assms(1-3)]
  have out: "cn_out (sv_store s c) = []"
    using trace_okD(3) [OF assms(4), of c] stage_conn [OF assms(1-3)] assms(6) by simp
  have "keeps_trace t (back_to_reading env l c)"
    if "changed s l fd c k (sv_wire s c) False [Opening c (cn_out k)] t" "cn_fd k = fd" "cn_loop k = Some l" "cn_opened k" for t k
  proof (rule back_to_reading_trace)
    show "trace_ok t"
      by (rule trace_ok_changed [OF assms(1-4) that(1)]) (use that out assms(6) in auto)
    show "l < length (sv_loops t)" using that(1) assms(2) by (simp add: changed_def)
  qed
  note again = this [unfolded changed_def]
  show ?thesis
    using assms(2,5) D out unfolding loopOpened_def
    by (auto simp: has_handlers_def wp_simps tell_def Let_def SetKeepAlive_def intro!: again split: prod.split)
qed

lemma loopWrite_trace:
  assumes "ev_ok (logged E) s" "l < length (sv_loops s)" "conns_of l s fd = Some c" "trace_ok s" "has_handlers E"
    and "cn_opened (sv_store s c)"
  shows "keeps_trace s (loopWrite (logged E) env l c)"
proof -
  have written: "keeps_trace t (case en_write env of Inl e \<Rightarrow> if e = EAGAIN then ret None else loopCloseConn (logged E) l c (Some e)
     | Inr n \<Rightarrow>
         seq (modify (\<lambda>s. s\<lparr>sv_wire := (sv_wire s)(c := sv_wire s c @ take n (cn_out (sv_store s c)))\<rparr>)) (\<lambda>_.
         seq (modify (upd_cn c (\<lambda>k. k\<lparr>cn_out := drop n (cn_out k)\<rparr>))) (\<lambda>_.
         back_to_reading env l c)))"
    if t: "ev_ok (logged E) t" "l < length (sv_loops t)" "conns_of l t fd = Some c" "trace_ok t" "cn_opened (sv_store t c)" for t
  proof (cases "en_write env")
    case (Inl e)
    then show ?thesis using loopCloseConn_trace [OF t(1-4) assms(5)] t(4) by (simp add: wp_simps)
  next
    case (Inr n)
    let ?u = "upd_cn c (\<lambda>k. k\<lparr>cn_out := drop n (cn_out k)\<rparr>) (t\<lparr>sv_wire := (sv_wire t)(c := sv_wire t c @ take n (cn_out (sv_store t c)))\<rparr>)"
    have "trace_ok ?u"
      by (rule trace_ok_changed [OF t(1-4), where k = "(sv_store t c)\<lparr>cn_out := drop n (cn_out (sv_store t c))\<rparr>"
          and w = "sv_wire t c @ take n (cn_out (sv_store t c))" and gone = False and es = "[]"])
        (use t ev_okD(4,5) [OF t(1-3)] in \<open>auto simp: changed_def\<close>)
    then show ?thesis using Inr t(2) by (simp add: wp_simps back_to_reading_trace)
  qed
  have app: "trace_ok (s\<lparr>sv_app := (a, snd (sv_app s))\<rparr>)" for a
    using assms(4) trace_ok_frame [of "s\<lparr>sv_app := (a, snd (sv_app s))\<rparr>" s] by simp
  show ?thesis
    unfolding loopWrite_def wp_seq PreWrite_def
    using written [OF assms(1-4,6)] written [of "s\<lparr>sv_app := (a, snd (sv_app s))\<rparr>" for a] app assms
    by (simp add: wp_simps split: option.split)
qed

lemma loopAction_trace:
  assumes "ev_ok (logged E) s" "l < length (sv_loops s)" "conns_of l s fd = Some c" "trace_ok s" "has_handlers E"
    and "en_nonblock env = None" "cn_opened (sv_store s c)"
  shows "keeps_trace s (loopAction (logged E) env l c)"
proof -
  have "trace_ok (upd_cn c (\<lambda>k. k\<lparr>cn_action := DoNothing\<rparr>) s)"
    by (rule trace_ok_changed [OF assms(1-4), where k = "(sv_store s c)\<lparr>cn_action := DoNothing\<rparr>" and w = "sv_wire s c" and gone = False and es = "[]"])
      (use assms ev_okD(4,5) [OF assms(1-3)] in \<open>auto simp: changed_def\<close>)
  then show ?thesis
    using loopCloseConn_trace [OF assms(1-5)] loopDetachConn_trace [OF assms] assms(2,4)
    unfolding loopAction_def by (simp add: wp_simps back_to_reading_trace split: Action.split)
qed

text \<open>An answer to data, when nothing is left of earlier answers.\<close>

lemma answer_trace:
  assumes "ev_ok E s" "l < length (sv_loops s)" "conns_of l s fd = Some c" "trace_ok s"
    and "cn_out (sv_store s c) = []" "cn_opened (sv_store s c)"
  shows "keeps_trace (upd_cn c (\<lambda>k. take_out out (k\<lparr>cn_action := action\<rparr>)) (s\<lparr>sv_app := (a, snd (sv_app s) @ [Receiving c bs out])\<rparr>))
    (wait_to_write env l c)"
proof (rule wait_to_write_trace)
  show "trace_ok (upd_cn c (\<lambda>k. take_out out (k\<lparr>cn_action := action\<rparr>)) (s\<lparr>sv_app := (a, snd (sv_app s) @ [Receiving c bs out])\<rparr>))"
    by (rule trace_ok_changed [OF assms(1-4), where k = "take_out out ((sv_store s c)\<lparr>cn_action := action\<rparr>)" and w = "sv_wire s c" and gone = False
        and es = "[Receiving c bs out]"])
      (use assms ev_okD(4,5) [OF assms(1-3)] in \<open>auto simp: changed_def\<close>)
qed (use assms(2) in simp)

lemma loopWake_trace:
  assumes "ev_ok (logged E) s" "l < length (sv_loops s)" "conns_of l s fd = Some c" "trace_ok s" "has_handlers E"
    and "cn_out (sv_store s c) = []" "cn_opened (sv_store s c)"
  shows "keeps_trace s (loopWake (logged E) env l c)"
  using answer_trace [OF assms(1-4,6,7)] assms(4,5) unfolding loopWake_def
  by (auto simp: has_handlers_def wp_simps tell_def split: prod.split)

lemma loopRead_trace:
  assumes "ev_ok (logged E) s" "l < length (sv_loops s)" "conns_of l s fd = Some c" "trace_ok s" "has_handlers E"
    and "cn_out (sv_store s c) = []" "cn_opened (sv_store s c)"
  shows "keeps_trace s (loopRead (logged E) env l c)"
  using answer_trace [OF assms(1-4,6,7)] loopCloseConn_trace [OF assms(1-5)] assms(4,5) unfolding loopRead_def
  by (auto simp: has_handlers_def wp_simps tell_def split: prod.split sum.split)

lemma trace_app: "trace_ok (s\<lparr>sv_app := (a, snd (sv_app s))\<rparr>) = trace_ok s"
  by (rule trace_ok_frame) simp_all

lemma loopUDPRead_trace:
  assumes "trace_ok s"
  shows "keeps_trace s (loopUDPRead (logged E) env i)"
proof -
  have "trace_ok (s\<lparr>sv_app := (a, snd (sv_app s)), sv_datagrams := d\<rparr>)" for a d
    using assms trace_ok_frame [of "s\<lparr>sv_app := (a, snd (sv_app s)), sv_datagrams := d\<rparr>" s] by simp
  then show ?thesis
    using assms trace_app [where s = s] unfolding loopUDPRead_def PreWrite_def Let_def
    by (auto simp: wp_simps tell_def split: sum.split option.split prod.split)
qed

lemma about_said: "about c h = [] \<Longrightarrow> said c h = []"
  by (induction h) (auto simp: about_def said_def split: if_splits)

lemma trace_ok_enter:
  assumes ok: "ev_ok E s" "l < length (sv_loops s)" "fresh_fd s fd" "trace_ok s"
    and t: "length (sv_loops t) = length (sv_loops s)" "sv_store t = (sv_store s)(sv_next s := new_conn fd sa i (Some l))"
      "sv_next t = sv_next s + 1" "sv_wire t = sv_wire s" "snd (sv_app t) = snd (sv_app s)"
    and conns: "\<And>j. j < length (sv_loops s) \<Longrightarrow> conns_of j t = (if j = l then (conns_of l s)(fd \<mapsto> sv_next s) else conns_of j s)"
  shows "trace_ok t"
proof -
  have none: "conns_of l s fd = None"
    using ev_okD(7) [OF ok(1,2), of fd] ok(2,3) by (cases "conns_of l s fd") (auto simp: fresh_fd_def)
  have others: "stage t d = stage s d" if "d \<noteq> sv_next s" for d
  proof (cases "d < sv_next s")
    case True
    have "(conns_of j t gd = Some d) = (conns_of j s gd = Some d)" if "j < length (sv_loops s)" for j gd
      using conns [OF that] none True by auto
    then show ?thesis using t True by (simp add: stage_def cong: conj_cong split: option.split)
  next
    case False
    then show ?thesis using t that by (simp add: stage_def)
  qed
  have old: "stage s (sv_next s) = Waiting" by (simp add: stage_def)
  then have empty: "about (sv_next s) (snd (sv_app s)) = []"
    using trace_okD(2) [OF ok(4), of "sv_next s"] by (simp add: lives_Waiting)
  then have "sv_wire s (sv_next s) = []"
    using trace_okD(1) [OF ok(4), of "sv_next s"] about_said [OF empty] by simp
  moreover have "stage t (sv_next s) = Waiting"
    using t conns [OF ok(2)] ok(2) by (simp add: stage_def new_conn_def)
  ultimately show ?thesis
    using others old empty about_said [OF empty] trace_okD [OF ok(4)] t by (auto simp: trace_ok_def Let_def new_conn_def)
qed

lemma loopAccept_trace:
  assumes "ev_ok (logged E) s" "l < length (sv_loops s)" "trace_ok s"
    and fresh: "\<And>nfd sa. en_accept env = Inr (nfd, sa) \<Longrightarrow> fresh_fd s nfd"
  shows "keeps_trace s (loopAccept (logged E) env l fd)"
proof (cases "find_ln fd 0 (si_lns E)")
  case None
  then show ?thesis using assms(3) by (simp add: loopAccept_def wp_simps)
next
  case (Some p)
  obtain i ln where p: "p = (i, ln)" by fastforce
  have acc: "trace_ok (s\<lparr>sv_accepted := n\<rparr>)" for n
    using assms(3) trace_ok_frame [of "s\<lparr>sv_accepted := n\<rparr>" s] by simp
  have enter: "trace_ok (upd_loop l (\<lambda>lp. lp\<lparr>lp_count := lp_count lp + 1\<rparr>)
      (on_poll l (watch nfd (Some ReadsWrites)) (enter_conn l nfd sa i (s\<lparr>sv_accepted := n\<rparr>))))"
    if "en_accept env = Inr (nfd, sa)" for nfd sa n
    by (rule trace_ok_enter [of "logged E" "s\<lparr>sv_accepted := n\<rparr>" l nfd _ sa i])
      (use assms(1,2) fresh [OF that] acc in \<open>auto simp: fresh_fd_def\<close>)
  show ?thesis
    unfolding loopAccept_def Some p option.case prod.case wp_seq logged_simps
  proof (rule wp_not_mine)
    fix b n
    show "wp (if b then ret None
         else if ln_udp ln then loopUDPRead (logged E) env i
         else case en_accept env of Inl e \<Rightarrow> if e = EAGAIN then ret None else ret (Some (SysError e))
              | Inr (nfd, sa) \<Rightarrow> (case en_nonblock env of Some e \<Rightarrow> ret (Some (SysError e))
                | None \<Rightarrow> seq (modify (enter_conn l nfd sa i)) (\<lambda>_. seq (AddReadWrite (en_ctl env) l nfd)
                     (\<lambda>_. seq (modify (upd_loop l (\<lambda>lp. lp\<lparr>lp_count := lp_count lp + 1\<rparr>))) (\<lambda>_. ret None)))))
        (\<lambda>_. trace_ok) (\<lambda>_ _. True) (s\<lparr>sv_accepted := n\<rparr>)"
      using loopUDPRead_trace [OF acc [of n]] acc enter assms(2)
      by (simp add: wp_simps AddReadWrite_def split: sum.split option.split prod.split)
  qed
qed

lemma loop_event_trace:
  assumes "ev_ok (logged E) s" "l < length (sv_loops s)" "trace_ok s" "has_handlers E" "en_nonblock env = None"
    and fresh: "\<And>nfd sa. en_accept env = Inr (nfd, sa) \<Longrightarrow> fresh_fd s nfd"
  shows "keeps_trace s (loop_event (logged E) env l fd)"
proof (cases "conns_of l s fd")
  case None
  then show ?thesis using loopAccept_trace [OF assms(1-3,6)] assms(3) by (simp add: loop_event_def wp_simps)
next
  case (Some c)
  note c = assms(1,2) Some assms(3,4)
  show ?thesis
    using assms(3) Some loopOpened_trace [OF c] loopWrite_trace [OF c] loopAction_trace [OF c assms(5)] loopRead_trace [OF c]
    by (auto simp: loop_event_def wp_simps Let_def)
qed

text \<open>A wake that comes when the connection is open and nothing waits to be written.\<close>

definition calm :: "'a evserver \<Rightarrow> loop_note \<Rightarrow> bool" where
  "calm s note' = (case note' of ConnNote c \<Rightarrow> cn_opened (sv_store s c) \<and> cn_out (sv_store s c) = [] | _ \<Rightarrow> True)"

lemma loopNote_trace:
  assumes "ev_ok (logged E) s" "l < length (sv_loops s)" "trace_ok s" "has_handlers E" "calm s note'"
  shows "keeps_trace s (loopNote (logged E) env l note')"
proof (cases note')
  case TickNote
  have "trace_ok (s\<lparr>sv_app := (a, snd (sv_app s)), sv_delays := d\<rparr>)" for a d
    using assms(3) trace_ok_frame [of "s\<lparr>sv_app := (a, snd (sv_app s)), sv_delays := d\<rparr>" s] by simp
  then show ?thesis
    using TickNote by (simp add: loopNote_def wp_simps tell_def split: option.split prod.split)
next
  case (ConnNote c)
  then show ?thesis
    using assms(3,5) loopWake_trace [OF assms(1,2) _ assms(3,4), of "cn_fd (sv_store s c)" c]
    by (simp add: loopNote_def wp_simps calm_def)
qed (use assms in \<open>simp add: loopNote_def wp_simps\<close>)

lemma trace_snd: "keeps_trace s m \<Longrightarrow> keeps_ok E s m \<Longrightarrow> trace_ok (snd (m s))"
  by (auto simp: wp_def split: prod.splits sum.splits)

text \<open>
  The states reached with calm wakes only, and as long as making the socket of a detached connection blocking
  (or that of an accepted one nonblocking) never fails: after a failure \<open>loopDetachConn\<close> drops the
  connection without telling anybody.
\<close>

abbreviation calm_reach :: "'a Site \<Rightarrow> 'a \<Rightarrow> ('a \<times> happening list) evserver \<Rightarrow> bool" where
  "calm_reach E a \<equiv> ev_reach (logged E) (\<lambda>env. en_nonblock env = None) calm (a, [])"

lemma new_trace_ok: "trace_ok (new_evserver (a, []))"
  by (simp add: trace_ok_def new_evserver_def stage_def new_conn_def)

lemma calm_reach_trace:
  assumes "has_handlers E"
  shows "calm_reach E a s \<Longrightarrow> trace_ok s"
proof (induction rule: ev_reach.induct)
  case (started fds s)
  have b: "blank (logged E) (new_evserver (a, []))" by (simp add: blank_def new_evserver_def)
  have "blank (logged E) s" "sv_next s = 0" "sv_app s = (a, [])" "sv_store s = (\<lambda>_. new_conn 0 SockaddrOther 0 None)" "sv_wire s = (\<lambda>_. [])"
    using make_loops_blank [OF b, of fds] started by (auto simp: wp_def new_evserver_def)
  then show ?case by (simp add: trace_ok_def stage_def new_conn_def)
next
  case (event s l env fd)
  then show ?case
    by (intro trace_snd [where E = "logged E"] loop_event_trace loop_event_ok) (auto simp: assms ev_reach_ok)
next
  case (noted s l env note')
  then show ?case
    by (intro trace_snd [where E = "logged E"] loopNote_trace loopNote_ok) (auto simp: assms ev_reach_ok)
next
  case (triggered s l wr note')
  then show ?case using trace_ok_frame [of "snd (EvTrigger wr l note' s)" s] by simp
next
  case (ended s l fd c)
  then show ?case
    by (intro trace_snd [where E = "logged E"] loopCloseConn_trace loopCloseConn_ok) (auto simp: assms ev_reach_ok)
qed

end
