(* ===== verification/EvioWire.thy ===== *)
theory EvioWire
  imports EvioTrace
begin

text \<open>
  What becomes of the answers of the handlers, in every reachable state of the event loops, whatever wakes
  come and whatever system calls give: an automaton over the record of a connection says which bytes
  its socket has taken and which are waiting, and every step follows it.
\<close>

subsection \<open>The automaton\<close>

text \<open>A wake is reported as data without bytes.\<close>

fun wake :: "happening \<Rightarrow> bool" where
  "wake (Receiving c bs out) \<longleftrightarrow> bs = []"
| "wake _ \<longleftrightarrow> False"

fun is_opening :: "happening \<Rightarrow> bool" where
  "is_opening (Opening c out) \<longleftrightarrow> True"
| "is_opening _ \<longleftrightarrow> False"

text \<open>
  \<open>kept h w d\<close>: after the happenings \<open>h\<close> the socket has taken the bytes \<open>w\<close> and the bytes \<open>d\<close> are waiting. The
  socket takes bytes from the front of those waiting. An answer goes behind what is waiting; only the answer
  to a wake, or that of the opening when a wake has come before it, may replace what is waiting.
\<close>

inductive kept :: "happening list \<Rightarrow> u8 list \<Rightarrow> u8 list \<Rightarrow> bool" where
  none: "kept [] [] []"
| taken: "kept h w d \<Longrightarrow> kept h (w @ take n d) (drop n d)"
| answered: "kept h w d \<Longrightarrow> kept (h @ [x]) w (d @ answer x)"
| replaced: "kept h w d \<Longrightarrow> wake x \<or> is_opening x \<and> (\<exists>y \<in> set h. wake y) \<Longrightarrow> kept (h @ [x]) w (answer x)"

lemma kept_all: "kept h w d \<Longrightarrow> \<forall>x \<in> set h. \<not> wake x \<Longrightarrow> w @ d = concat (map answer h)"
  by (induction rule: kept.induct) auto

lemma said_about: "said c h = concat (map answer (about c h))"
  by (induction h) (auto simp: said_def about_def)

text \<open>An answer without bytes changes nothing, as the code takes it.\<close>

lemma kept_take_out:
  assumes "kept h w d" "d = [] \<or> wake x \<or> is_opening x \<and> (\<exists>y \<in> set h. wake y)"
  shows "kept (h @ [x]) w (if answer x = [] then d else answer x)"
  using kept.answered [OF assms(1), of x] kept.replaced [OF assms(1), of x] assms(2) by auto

subsection \<open>Every step follows the automaton\<close>

definition wire_ok :: "('a \<times> happening list) evserver \<Rightarrow> bool" where
  "wire_ok s \<longleftrightarrow>
     (\<forall>c. let h = about c (snd (sv_app s)); k = sv_store s c in
        kept h (sv_wire s c) (cn_out k) \<and> (c \<ge> sv_next s \<longrightarrow> cn_out k = []) \<and>
        (\<not> cn_opened k \<and> cn_out k \<noteq> [] \<longrightarrow> (\<exists>y \<in> set h. wake y)))"

lemma wire_okD:
  assumes "wire_ok s"
  shows "kept (about c (snd (sv_app s))) (sv_wire s c) (cn_out (sv_store s c))"
    "c \<ge> sv_next s \<Longrightarrow> cn_out (sv_store s c) = []"
    "\<not> cn_opened (sv_store s c) \<Longrightarrow> cn_out (sv_store s c) \<noteq> [] \<Longrightarrow> \<exists>y \<in> set (about c (snd (sv_app s))). wake y"
  using assms by (auto simp: wire_ok_def Let_def)

abbreviation keeps_wire :: "('a \<times> happening list) evserver \<Rightarrow> (('a \<times> happening list) evserver, 'b) act \<Rightarrow> bool" where
  "keeps_wire s m \<equiv> wp m (\<lambda>_. wire_ok) (\<lambda>_ _. True) s"

lemma wire_frame:
  assumes "wire_ok s" "snd (sv_app t) = snd (sv_app s)" "sv_wire t = sv_wire s" "sv_store t = sv_store s" "sv_next t = sv_next s"
  shows "wire_ok t"
  using assms by (simp add: wire_ok_def)

lemma wire_frames [simp]:
  "wire_ok (upd_loop l f s) = wire_ok s" "wire_ok (on_poll l g s) = wire_ok s" "wire_ok (forget_conn l fd s) = wire_ok s"
  "wire_ok (sys_Close fd s) = wire_ok s" "wire_ok (s\<lparr>sv_accepted := n\<rparr>) = wire_ok s" "wire_ok (s\<lparr>sv_delays := ds\<rparr>) = wire_ok s"
  "wire_ok (s\<lparr>sv_datagrams := dg\<rparr>) = wire_ok s" "wire_ok (s\<lparr>sv_keepalives := ks\<rparr>) = wire_ok s"
  "wire_ok (s\<lparr>sv_app := (a, snd (sv_app s))\<rparr>) = wire_ok s"
  by (simp_all add: wire_ok_def)

text \<open>A step that concerns one connection.\<close>

lemma wire_step:
  assumes ok: "wire_ok s" "c < sv_next s"
    and t: "sv_next t = sv_next s" "snd (sv_app t) = snd (sv_app s) @ es" "sv_store t = (sv_store s)(c := k)"
      "sv_wire t = (sv_wire s)(c := w)"
    and es: "\<And>x. x \<in> set es \<Longrightarrow> who x = c"
    and k: "kept (about c (snd (sv_app s)) @ es) w (cn_out k)"
    and early: "\<not> cn_opened k \<Longrightarrow> cn_out k \<noteq> [] \<Longrightarrow> \<exists>y \<in> set (about c (snd (sv_app s)) @ es). wake y"
  shows "wire_ok t"
proof -
  have "about c es = es" "about d es = []" if "d \<noteq> c" for d
    using es that by (auto simp: about_def filter_empty_conv)
  then have "about d (snd (sv_app t)) = (if d = c then about c (snd (sv_app s)) @ es else about d (snd (sv_app s)))" for d
    by (cases "d = c") (use es t(2) in \<open>auto simp: about_def\<close>)
  then show ?thesis
    using wire_okD [OF ok(1)] ok(2) t k early by (simp add: wire_ok_def Let_def)
qed

lemma back_to_reading_wire: "wire_ok s \<Longrightarrow> keeps_wire s (back_to_reading env l c)"
  by (simp add: back_to_reading_def ModRead_def wp_simps)

lemma wait_to_write_wire: "wire_ok s \<Longrightarrow> keeps_wire s (wait_to_write env l c)"
  by (simp add: wait_to_write_def ModReadWrite_def wp_simps)

text \<open>What ends a connection is told to its user and answered with nothing.\<close>

lemma wire_told:
  assumes "wire_ok s" "c < sv_next s" "who x = c" "answer x = []"
    and "sv_next t = sv_next s" "snd (sv_app t) = snd (sv_app s) @ [x]" "sv_store t = sv_store s" "sv_wire t = sv_wire s"
  shows "wire_ok t"
proof (rule wire_step [OF assms(1,2,5,6), where k = "sv_store s c" and w = "sv_wire s c"])
  show "kept (about c (snd (sv_app s)) @ [x]) (sv_wire s c) (cn_out (sv_store s c))"
    using kept.answered [OF wire_okD(1) [OF assms(1)], of c x] assms(4) by simp
qed (use assms(3,7,8) wire_okD(3) [OF assms(1), of c] in auto)

lemma loopCloseConn_wire:
  assumes "wire_ok s" "c < sv_next s"
  shows "keeps_wire s (loopCloseConn (logged E) l c err)"
  using assms(1) unfolding loopCloseConn_def Let_def
  by (auto simp: wp_simps tell_def split: option.split prod.split intro!: wire_told [OF assms, of "Closing c err"])

lemma loopDetachConn_wire:
  assumes "wire_ok s" "c < sv_next s"
  shows "keeps_wire s (loopDetachConn (logged E) env l c err)"
  using assms(1) loopCloseConn_wire [OF assms] unfolding loopDetachConn_def Let_def
  by (auto simp: wp_simps tell_def ModDetach_def split: option.split prod.split intro!: wire_told [OF assms, of "Detaching c"])

lemma wire_upd:
  assumes "wire_ok s" "c < sv_next s" "cn_out (f (sv_store s c)) = cn_out (sv_store s c)"
    and "cn_opened (sv_store s c) \<longrightarrow> cn_opened (f (sv_store s c))"
  shows "wire_ok (upd_cn c f s)"
  by (rule wire_step [OF assms(1,2), where es = "[]" and k = "f (sv_store s c)" and w = "sv_wire s c"])
    (use assms(3,4) wire_okD [OF assms(1), of c] in auto)

text \<open>An answer.\<close>

lemma wire_answer:
  assumes "wire_ok s" "c < sv_next s" "who x = c" "wake x \<or> is_opening x \<or> cn_out (sv_store s c) = []"
    and "is_opening x \<longrightarrow> \<not> cn_opened (sv_store s c)"
    and k: "cn_out k = (if answer x = [] then cn_out (sv_store s c) else answer x)" "cn_opened k \<or> wake x"
    and t: "sv_next t = sv_next s" "snd (sv_app t) = snd (sv_app s) @ [x]" "sv_store t = (sv_store s)(c := k)" "sv_wire t = sv_wire s"
  shows "wire_ok t"
proof (rule wire_step [OF assms(1,2) t(1-3), where w = "sv_wire s c"])
  show "kept (about c (snd (sv_app s)) @ [x]) (sv_wire s c) (cn_out k)"
    unfolding k(1)
    by (rule kept_take_out [OF wire_okD(1) [OF assms(1)]]) (use assms(4,5) wire_okD(3) [OF assms(1), of c] in auto)
qed (use assms(3) k(2) t(4) in auto)

lemma loopOpened_wire:
  assumes "wire_ok s" "c < sv_next s" "\<not> cn_opened (sv_store s c)"
  shows "keeps_wire s (loopOpened (logged E) env l c)"
proof -
  have quiet: "wire_ok (upd_cn c (\<lambda>k. k\<lparr>cn_opened := True, cn_addrIndex := cn_lnidx k,
      cn_localAddr := ln_lnaddr (si_lns E ! cn_lnidx k), cn_remoteAddr := SockaddrToAddr (si_zone E) (cn_sa k)\<rparr>) s)"
    by (rule wire_upd [OF assms(1,2)]) simp_all
  have told: "wire_ok t"
    if "sv_next t = sv_next s" "snd (sv_app t) = snd (sv_app s) @ [Opening c out]" "sv_store t = (sv_store s)(c := k)" "sv_wire t = sv_wire s"
      "cn_out k = (if out = [] then cn_out (sv_store s c) else out)" "cn_opened k" for t :: "('a \<times> happening list) evserver" and out k
    by (rule wire_answer [OF assms(1,2) _ _ _ _ _ that(1-4)]) (use that(5,6) assms(3) in simp_all)
  show ?thesis
    unfolding loopOpened_def
    using quiet
    by (auto simp: wp_simps tell_def Let_def SetKeepAlive_def split: option.split prod.split intro!: back_to_reading_wire told)
qed

lemma loopWrite_wire:
  assumes "wire_ok s" "c < sv_next s"
  shows "keeps_wire s (loopWrite (logged E) env l c)"
proof -
  have taken: "wire_ok (upd_cn c (\<lambda>k. k\<lparr>cn_out := drop n (cn_out k)\<rparr>) (t\<lparr>sv_wire := (sv_wire t)(c := sv_wire t c @ take n (cn_out (sv_store t c)))\<rparr>))"
    if t: "wire_ok t" "c < sv_next t" for t n
    by (rule wire_step [OF t, where es = "[]" and k = "(sv_store t c)\<lparr>cn_out := drop n (cn_out (sv_store t c))\<rparr>"
          and w = "sv_wire t c @ take n (cn_out (sv_store t c))"])
      (use wire_okD(1) [OF t(1), of c] wire_okD(3) [OF t(1), of c] in \<open>auto intro: kept.taken\<close>, fastforce)
  have go: "keeps_wire t (case en_write env of Inl e \<Rightarrow> if e = EAGAIN then ret None else loopCloseConn (logged E) l c (Some e)
     | Inr n \<Rightarrow>
         seq (modify (\<lambda>s. s\<lparr>sv_wire := (sv_wire s)(c := sv_wire s c @ take n (cn_out (sv_store s c)))\<rparr>)) (\<lambda>_.
         seq (modify (upd_cn c (\<lambda>k. k\<lparr>cn_out := drop n (cn_out k)\<rparr>))) (\<lambda>_.
         back_to_reading env l c)))" if t: "wire_ok t" "c < sv_next t" for t
    using taken [OF t] loopCloseConn_wire [OF t] t(1)
    by (auto simp: wp_simps split: sum.split intro!: back_to_reading_wire)
  show ?thesis
    unfolding loopWrite_def wp_seq PreWrite_def
    using go [OF assms] go [of "s\<lparr>sv_app := (a, snd (sv_app s))\<rparr>" for a] assms
    by (simp add: wp_simps split: option.split)
qed

lemma loopAction_wire:
  assumes "wire_ok s" "c < sv_next s"
  shows "keeps_wire s (loopAction (logged E) env l c)"
  using loopCloseConn_wire [OF assms] loopDetachConn_wire [OF assms] wire_upd [OF assms, of "\<lambda>k. k\<lparr>cn_action := DoNothing\<rparr>"] assms(1)
  unfolding loopAction_def by (simp add: wp_simps back_to_reading_wire split: Action.split)

lemma received_wire:
  assumes "wire_ok s" "c < sv_next s" "bs = [] \<or> cn_out (sv_store s c) = [] \<and> cn_opened (sv_store s c)"
  shows "wire_ok (upd_cn c (\<lambda>k. take_out out (k\<lparr>cn_action := action\<rparr>)) (s\<lparr>sv_app := (a, snd (sv_app s) @ [Receiving c bs out])\<rparr>))"
  by (rule wire_answer [OF assms(1,2), where x = "Receiving c bs out" and k = "take_out out ((sv_store s c)\<lparr>cn_action := action\<rparr>)"])
    (use assms(3) in auto)

lemma loopWake_wire:
  assumes "wire_ok s" "c < sv_next s"
  shows "keeps_wire s (loopWake (logged E) env l c)"
  using received_wire [OF assms] assms(1) unfolding loopWake_def
  by (auto simp: wp_simps tell_def split: option.split prod.split intro!: wait_to_write_wire)

lemma loopRead_wire:
  assumes "wire_ok s" "c < sv_next s" "cn_out (sv_store s c) = []" "cn_opened (sv_store s c)"
  shows "keeps_wire s (loopRead (logged E) env l c)"
  using received_wire [OF assms(1,2)] loopCloseConn_wire [OF assms(1,2)] assms(1,3,4) unfolding loopRead_def
  by (auto simp: wp_simps tell_def split: sum.split option.split prod.split intro!: wait_to_write_wire)

lemma loopUDPRead_wire: "wire_ok s \<Longrightarrow> keeps_wire s (loopUDPRead (logged E) env i)"
  unfolding loopUDPRead_def PreWrite_def Let_def
  by (auto simp: wp_simps tell_def split: sum.split option.split prod.split)

lemma enter_wire: "wire_ok s \<Longrightarrow> wire_ok (enter_conn l fd sa i s)"
  using wire_okD(2) [of s "sv_next s"] unfolding wire_ok_def Let_def enter_conn_def
  by (auto simp: new_conn_def dest!: spec [of _ "sv_next s"])

lemma loopAccept_wire:
  assumes "wire_ok s"
  shows "keeps_wire s (loopAccept (logged E) env l fd)"
proof (cases "find_ln fd 0 (si_lns E)")
  case (Some p)
  obtain i ln where p: "p = (i, ln)" by fastforce
  show ?thesis
    unfolding loopAccept_def Some p option.case prod.case wp_seq logged_simps
  proof (rule wp_not_mine)
    fix b n
    have ok: "wire_ok (s\<lparr>sv_accepted := n\<rparr>)" using assms by simp
    show "wp (if b then ret None
         else if ln_udp ln then loopUDPRead (logged E) env i
         else case en_accept env of Inl e \<Rightarrow> if e = EAGAIN then ret None else ret (Some (SysError e))
              | Inr (nfd, sa) \<Rightarrow> (case en_nonblock env of Some e \<Rightarrow> ret (Some (SysError e))
                | None \<Rightarrow> seq (modify (enter_conn l nfd sa i)) (\<lambda>_. seq (AddReadWrite (en_ctl env) l nfd)
                     (\<lambda>_. seq (modify (upd_loop l (\<lambda>lp. lp\<lparr>lp_count := lp_count lp + 1\<rparr>))) (\<lambda>_. ret None)))))
        (\<lambda>_. wire_ok) (\<lambda>_ _. True) (s\<lparr>sv_accepted := n\<rparr>)"
      using ok loopUDPRead_wire [OF ok] enter_wire [OF ok]
      by (auto simp: wp_simps AddReadWrite_def split: sum.split option.split prod.split)
  qed
qed (use assms in \<open>simp add: loopAccept_def wp_simps\<close>)

lemma loop_event_wire:
  assumes "ev_ok (logged E) s" "l < length (sv_loops s)" "wire_ok s"
  shows "keeps_wire s (loop_event (logged E) env l fd)"
proof (cases "conns_of l s fd")
  case None
  then show ?thesis using loopAccept_wire [OF assms(3)] assms(3) by (simp add: loop_event_def wp_simps)
next
  case (Some c)
  note c = assms(3) ev_okD(2) [OF assms(1,2) Some]
  show ?thesis
    using assms(3) Some loopOpened_wire [OF c] loopWrite_wire [OF c] loopAction_wire [OF c] loopRead_wire [OF c]
    by (auto simp: loop_event_def wp_simps Let_def)
qed

lemma loopNote_wire:
  assumes "ev_ok (logged E) s" "l < length (sv_loops s)" "wire_ok s"
  shows "keeps_wire s (loopNote (logged E) env l note')"
proof (cases note')
  case TickNote
  then show ?thesis
    using assms(3) by (simp add: loopNote_def wp_simps tell_def split: option.split prod.split)
next
  case (ConnNote c)
  then show ?thesis
    using assms(3) loopWake_wire [OF assms(3)] ev_okD(2) [OF assms(1,2), of "cn_fd (sv_store s c)" c]
    by (simp add: loopNote_def wp_simps)
qed (use assms in \<open>simp add: loopNote_def wp_simps\<close>)

lemma wire_snd: "keeps_wire s m \<Longrightarrow> keeps_ok E s m \<Longrightarrow> wire_ok (snd (m s))"
  by (auto simp: wp_def split: prod.splits sum.splits)

lemma ev_reach_wire: "ev_reach (logged E) P N (a, []) s \<Longrightarrow> wire_ok s"
proof (induction rule: ev_reach.induct)
  case (started fds s)
  have b: "blank (logged E) (new_evserver (a, []))" by (simp add: blank_def new_evserver_def)
  have "sv_app s = (a, [])" "sv_store s = (\<lambda>_. new_conn 0 SockaddrOther 0 None)" "sv_wire s = (\<lambda>_. [])"
    using make_loops_blank [OF b, of fds] started by (auto simp: wp_def new_evserver_def)
  then show ?case by (simp add: wire_ok_def new_conn_def kept.none)
next
  case (event s l env fd)
  then show ?case by (intro wire_snd [where E = "logged E"] loop_event_wire loop_event_ok) (auto simp: ev_reach_ok)
next
  case (noted s l env note')
  then show ?case by (intro wire_snd [where E = "logged E"] loopNote_wire loopNote_ok) (auto simp: ev_reach_ok)
next
  case (triggered s l wr note')
  then show ?case using wire_frame [of s "snd (EvTrigger wr l note' s)"] by simp
next
  case (ended s l fd c)
  note ok = ev_reach_ok [OF ended.hyps(1)]
  then show ?case
    using loopCloseConn_wire [OF ended.IH ev_okD(2) [OF ok ended.hyps(2,3)]] loopCloseConn_ok [OF ok ended.hyps(2,3)]
    by (rule_tac wire_snd [where E = "logged E"])
qed

end
