(* ===== verification/EvioAddrProps.thy ===== *)
theory EvioAddrProps
  imports EvioAddr
begin

text \<open>
  Properties of what the event loops share: an input stream is a queue of bytes, and addresses are
  read back as they are documented to be written.
\<close>

subsection \<open>Input streams are queues of bytes\<close>

text \<open>
  The contract of a buffer between packets and a reader: \<open>begins\<close> shows what is pending and the new packet,
  and after \<open>ends\<close> exactly the part the reader has left over is pending.
\<close>

locale byte_buffer =
  fixes pending :: "'s \<Rightarrow> 'b list" and begins :: "'b list \<Rightarrow> 's \<Rightarrow> 'b list \<times> 's" and ends :: "'b list \<Rightarrow> 's \<Rightarrow> 's"
  assumes begins: "fst (begins p s) = pending s @ p"
    and ends: "pending (ends (drop k (fst (begins p s))) (snd (begins p s))) = drop k (pending s @ p)"
begin

text \<open>A reader that takes \<open>k\<close> bytes of what it is shown, packet after packet.\<close>

fun reads :: "('b list \<times> nat) list \<Rightarrow> 's \<Rightarrow> 'b list \<times> 's" where
  "reads [] s = ([], s)"
| "reads ((p, k) # xs) s =
     (let (data, s') = begins p s; (out, s'') = reads xs (ends (drop k data) s') in (take k data @ out, s''))"

lemma reads_queue: "fst (reads xs s) @ pending (snd (reads xs s)) = pending s @ concat (map fst xs)"
proof (induction xs arbitrary: s)
  case (Cons x xs)
  obtain p k where x: "x = (p, k)" by fastforce
  let ?s = "ends (drop k (fst (begins p s))) (snd (begins p s))"
  have "fst (reads (x # xs) s) @ pending (snd (reads (x # xs) s)) =
      take k (pending s @ p) @ (fst (reads xs ?s) @ pending (snd (reads xs ?s)))"
    by (simp add: x begins case_prod_beta Let_def)
  also have "\<dots> = take k (pending s @ p) @ drop k (pending s @ p) @ concat (map fst xs)"
    by (simp only: Cons.IH ends)
  also have "\<dots> = pending s @ concat (map fst (x # xs))"
    by (simp only: append_assoc [symmetric] append_take_drop_id) (simp add: x)
  finally show ?case .
qed simp

end

interpretation evs: byte_buffer is_b Begin End
proof unfold_locales
  show "is_b (End (drop k (fst (Begin p s))) (snd (Begin p s))) = drop k (is_b s @ p)" for k p s
  proof (cases "k = 0")
    case False
    have "length xs - k \<noteq> length xs \<or> xs = []" for xs :: "u8 list" using False by (cases xs) auto
    from this [of "is_b s @ p"] show ?thesis by (auto simp: Begin_def End_def)
  qed (auto simp: Begin_def End_def)
qed (auto simp: Begin_def)

text \<open>The same reader on the stream of the source.\<close>

fun stream_session :: "(u8 list \<times> nat) list \<Rightarrow> InputStream \<Rightarrow> u8 list \<times> InputStream" where
  "stream_session [] s = ([], s)"
| "stream_session ((p, k) # xs) s =
     (let (data, s') = Begin p s; (out, s'') = stream_session xs (End (drop k data) s') in (take k data @ out, s''))"

lemma stream_session_reads: "stream_session xs s = evs.reads xs s"
  by (induction xs arbitrary: s) (auto simp: case_prod_beta Let_def)

text \<open>
  C27. An input stream refines a queue of bytes: whatever packets arrive and however many bytes of what it is
  shown the handler uses up each time, the bytes used up so far followed by the bytes kept are the bytes
  that arrived, in order: none is lost, repeated or moved.
\<close>

theorem InputStream_refines_queue:
  "fst (stream_session xs s) @ is_b (snd (stream_session xs s)) = is_b s @ concat (map fst xs)"
  unfolding stream_session_reads by (rule evs.reads_queue)

subsection \<open>Reading an address\<close>

lemma take_sep_no_colon:
  "c \<noteq> CHR '':'' \<Longrightarrow> take (length ''://'') (c # cs) \<noteq> ''://''"
  by simp

lemma Contains_append: "Contains sub s \<Longrightarrow> Contains sub (p @ s)"
  by (induction p) auto

lemma Contains_sep: "Contains ''://'' (n @ ''://'' @ a)"
  by (rule Contains_append) simp

lemma split_no_sep: "\<not> Contains ''://'' s \<Longrightarrow> split_from ''://'' 0 s = [s]"
  by (induction s) auto

lemma split_scheme:
  assumes "CHR '':'' \<notin> set n"
  shows "split_from ''://'' 0 (n @ ''://'' @ a) = n # split_from ''://'' 0 a"
  using assms by (induction n) (auto simp: numeral_2_eq_2)

lemma IndexChar_append: "c \<notin> set a \<Longrightarrow> IndexChar c (a @ c # r) = Some (length a)"
  by (induction a) auto

lemma IndexChar_None: "c \<notin> set a \<Longrightarrow> IndexChar c a = None"
  by (induction a) auto

lemma not_Contains_query:
  assumes "\<not> Contains ''://'' a"
  shows "\<not> Contains ''://'' (a @ ''?reuseport=1'')"
  using assms
proof (induction a)
  case (Cons c cs)
  have "take 3 (c # cs @ ''?reuseport=1'') \<noteq> ''://''"
    using Cons.prems by (cases cs; cases "tl cs") auto
  then show ?case using Cons by (simp add: numeral_3_eq_3)
qed simp

lemma HasSuffix_append [simp]: "HasSuffix (n @ suf) suf"
  by (simp add: HasSuffix_def)

text \<open>
  An address is read back as it is written: for a network without colon, an address without question
  mark and without \<open>://\<close>, the string \<open>network[-net]://address[?reuseport=1]\<close> gives this network, this
  address, and whether the port is reused and the standard library's loops are used; an address without scheme is a tcp address.
\<close>

theorem parseAddr_written:
  assumes "CHR '':'' \<notin> set n" and "\<not> HasSuffix n ''-net''" and "\<not> Contains ''://'' a" and "CHR ''?'' \<notin> set a"
  shows "parseAddr (n @ (if std then ''-net'' else '''') @ ''://'' @ a @ (if reuse then ''?reuseport=1'' else '''')) =
      (n, a, reuse, std) \<and>
    parseAddr (a @ (if reuse then ''?reuseport=1'' else '''')) = (''tcp'', a, reuse, False)"
proof -
  let ?n = "n @ (if std then ''-net'' else '''')"
  let ?a = "a @ (if reuse then ''?reuseport=1'' else '''')"
  have a: "\<not> Contains ''://'' ?a"
    using not_Contains_query [OF assms(3)] assms(3) by simp
  have n: "CHR '':'' \<notin> set ?n" using assms(1) by simp
  have net: "(if HasSuffix ?n ''-net'' then (take (length ?n - 4) ?n, True) else (?n, False)) = (n, std)"
    using assms(2) by simp
  have tcp: "\<not> HasSuffix ''tcp'' ''-net''" by (simp add: HasSuffix_def)
  have opts: "(case IndexChar CHR ''?'' ?a of None \<Rightarrow> (x, ?a, False, b)
      | Some q \<Rightarrow> (x, take q ?a, fold reuse_of (split_at CHR ''&'' (drop (q + 1) ?a)) False, b)) = (x, a, reuse, b)" for x :: string and b :: bool
    by (cases reuse) (simp_all add: IndexChar_append [OF assms(4)] IndexChar_None [OF assms(4)] reuse_of_def)
  have s: "Split (?n @ ''://'' @ ?a) ''://'' = [?n, ?a]"
    unfolding Split_def split_scheme [OF n] split_no_sep [OF a] ..
  have "parseAddr (?n @ ''://'' @ ?a) = (n, a, reuse, std)"
    using s net opts Contains_sep [of ?n ?a] unfolding parseAddr_def Let_def by simp
  moreover have "parseAddr ?a = (''tcp'', a, reuse, False)"
    using a opts tcp unfolding parseAddr_def Let_def by simp
  ultimately show ?thesis by simp
qed

lemma parseAddr_written_witness:
  "parseAddr ''unix-net://socket?reuseport=1'' = (''unix'', ''socket'', True, True) \<and>
   parseAddr ''192.168.0.10:9851'' = (''tcp'', ''192.168.0.10:9851'', False, False)"
  using parseAddr_written [of "''unix''" "''socket''" True True]
    parseAddr_written [of "''unix''" "''192.168.0.10:9851''" False False]
  by (simp add: HasSuffix_def)

end
