(* ===== verification/EvioProps.thy ===== *)
theory EvioProps
  imports EvioWire EvioAddrProps
begin

text \<open>
  The properties of the event loops, from their invariant and the record of their handlers.
\<close>

subsection \<open>Nothing is forgotten, nothing fails\<close>

text \<open>
  C11. In every reachable state of a server each loop watches its listeners and its connections, one descriptor
  for each; it watches a connection for writing whenever the connection is not opened yet, has bytes to be
  written or an action to be taken, so no answer of a handler is left lying; and the number by which
  connections are balanced is the number of connections of the loop.
\<close>

theorem evio_nothing_forgotten:
  assumes "ev_reach E P N a s" and "l < length (sv_loops s)"
  shows "lp_count (the_loop l s) = int (card (dom (conns_of l s))) \<and>
    (\<forall>ln \<in> set (si_lns E). watch_of l s (ln_fd ln) = Some Reads) \<and>
    (\<forall>fd c. conns_of l s fd = Some c \<longrightarrow>
       cn_fd (sv_store s c) = fd \<and> cn_loop (sv_store s c) = Some l \<and> watch_of l s fd \<noteq> None \<and>
       (\<not> cn_opened (sv_store s c) \<or> cn_out (sv_store s c) \<noteq> [] \<or> cn_action (sv_store s c) \<noteq> DoNothing \<longrightarrow>
          watch_of l s fd = Some ReadsWrites))"
proof -
  have ok: "ev_ok E s" by (rule ev_reach_ok [OF assms(1)])
  then have "loop_ok E s l" using assms(2) by (simp add: ev_ok_def)
  moreover have "cn_fd (sv_store s c) = fd \<and> cn_loop (sv_store s c) = Some l \<and> watch_of l s fd \<noteq> None \<and>
       (\<not> cn_opened (sv_store s c) \<or> cn_out (sv_store s c) \<noteq> [] \<or> cn_action (sv_store s c) \<noteq> DoNothing \<longrightarrow>
          watch_of l s fd = Some ReadsWrites)" if "conns_of l s fd = Some c" for fd c
    using ev_okD(4,5,7,8) [OF ok assms(2) that] by (auto simp: idle_def)
  ultimately show ?thesis unfolding loop_ok_def by blast
qed

text \<open>
  C14. A reachable server does not fail: whatever event comes on whatever descriptor, whatever note is
  taken out of a queue, and whatever reads, writes and the other system calls of the step give, no \<open>epoll_ctl\<close>
  fails for what it is asked (the kernel itself not refusing it, as for want of memory) and so the step returns; and the state it leaves is reachable again, with as many loops.
\<close>

theorem evio_never_fails:
  assumes "ev_reach E (\<lambda>_. True) (\<lambda>_ _. True) a s" and "l < length (sv_loops s)" and "en_ctl env"
    and "\<And>nfd sa. en_accept env = Inr (nfd, sa) \<Longrightarrow> fresh_fd s nfd" and "note' = TickNote \<Longrightarrow> ev_Tick (si_events E) \<noteq> None"
  shows "(\<exists>e t. loop_event E env l fd s = (Inr e, t) \<and> ev_reach E (\<lambda>_. True) (\<lambda>_ _. True) a t \<and> length (sv_loops t) = length (sv_loops s)) \<and>
    (\<exists>e t. loopNote E env l note' s = (Inr e, t) \<and> ev_reach E (\<lambda>_. True) (\<lambda>_ _. True) a t \<and> length (sv_loops t) = length (sv_loops s))"
proof -
  have ok: "ev_ok E s" by (rule ev_reach_ok [OF assms(1)])
  have "ev_reach E (\<lambda>_. True) (\<lambda>_ _. True) a (snd (loop_event E env l fd s))"
    by (rule ev_reach.event [OF assms(1-3)]) (use assms(4) in auto)
  moreover have "ev_reach E (\<lambda>_. True) (\<lambda>_ _. True) a (snd (loopNote E env l note' s))"
    by (rule ev_reach.noted [OF assms(1-3)]) (use assms(5) in auto)
  moreover have "keeps_ok E s (loop_event E env l fd)"
    by (rule loop_event_ok [OF ok assms(2,3)]) (use assms(4) in auto)
  ultimately show ?thesis
    using loopNote_ok [OF ok assms(2,3), of note'] assms(5)
    by (auto simp: wp_def split: prod.splits sum.splits)
qed

subsection \<open>The life of a connection\<close>

lemma loopCloseConn_conns:
  assumes "l < length (sv_loops s)"
  shows "\<exists>e t. loopCloseConn E l c err s = (Inr e, t) \<and> length (sv_loops t) = length (sv_loops s) \<and> sv_next t = sv_next s \<and>
    (\<forall>j < length (sv_loops s). conns_of j t = (if j = l then (conns_of l s)(cn_fd (sv_store s c) := None) else conns_of j s))"
proof -
  have "wp (loopCloseConn E l c err) (\<lambda>_ t. length (sv_loops t) = length (sv_loops s) \<and> sv_next t = sv_next s \<and>
    (\<forall>j < length (sv_loops s). conns_of j t = (if j = l then (conns_of l s)(cn_fd (sv_store s c) := None) else conns_of j s))) (\<lambda>_ _. False) s"
    using assms unfolding loopCloseConn_def Let_def by (simp add: wp_simps split: option.split prod.split)
  then show ?thesis by (auto simp: wp_def split: prod.splits sum.splits)
qed

definition end_one :: "'a Site \<Rightarrow> nat \<Rightarrow> int \<Rightarrow> ('a evserver, unit) act" where
  "end_one E l fd = seq get_st (\<lambda>s. case conns_of l s fd of None \<Rightarrow> ret () | Some c \<Rightarrow> seq (loopCloseConn E l c None) (\<lambda>_. ret ()))"

definition fewer :: "'a evserver \<Rightarrow> 'a evserver \<Rightarrow> bool" where
  "fewer t s \<longleftrightarrow> length (sv_loops t) = length (sv_loops s) \<and> sv_next t = sv_next s \<and>
     (\<forall>j fd. j < length (sv_loops s) \<longrightarrow> conns_of j s fd = None \<longrightarrow> conns_of j t fd = None)"

lemma fewer_refl: "fewer s s"
  by (simp add: fewer_def)

lemma fewer_trans: "fewer u t \<Longrightarrow> fewer t s \<Longrightarrow> fewer u s"
  by (auto simp: fewer_def)

lemma end_one_run:
  assumes "ev_reach E P N a s" "l < length (sv_loops s)"
  shows "\<exists>t. end_one E l fd s = (Inr (), t) \<and> ev_reach E P N a t \<and> fewer t s \<and> conns_of l t fd = None"
proof (cases "conns_of l s fd")
  case None
  then show ?thesis using assms by (simp add: end_one_def run_simps fewer_refl)
next
  case (Some c)
  obtain e t where t: "loopCloseConn E l c None s = (Inr e, t)" "length (sv_loops t) = length (sv_loops s)" "sv_next t = sv_next s"
    "\<forall>j < length (sv_loops s). conns_of j t = (if j = l then (conns_of l s)(cn_fd (sv_store s c) := None) else conns_of j s)"
    using loopCloseConn_conns [OF assms(2)] by blast
  have fd: "cn_fd (sv_store s c) = fd" by (rule ev_okD(4) [OF ev_reach_ok [OF assms(1)] assms(2) Some])
  have "ev_reach E P N a t" using ev_reach.ended [OF assms Some] t(1) by simp
  moreover have "end_one E l fd s = (Inr (), t)"
    by (simp add: end_one_def run_simps Some) (simp add: seq_def t(1) run_simps)
  ultimately show ?thesis using t fd assms(2) by (auto simp: fewer_def)
qed

lemma end_loop_run:
  assumes "ev_reach E P N a s" "l < length (sv_loops s)"
  shows "\<exists>t. for_each (end_one E l) fds s = (Inr (), t) \<and> ev_reach E P N a t \<and> fewer t s \<and> (\<forall>fd \<in> set fds. conns_of l t fd = None)"
  using assms
proof (induction fds arbitrary: s)
  case Nil
  then show ?case by (simp add: run_simps fewer_refl)
next
  case (Cons fd fds)
  obtain t where t: "end_one E l fd s = (Inr (), t)" "ev_reach E P N a t" "fewer t s" "conns_of l t fd = None"
    using end_one_run [OF Cons.prems] by blast
  have l: "l < length (sv_loops t)" using t(3) Cons.prems(2) by (simp add: fewer_def)
  obtain u where u: "for_each (end_one E l) fds t = (Inr (), u)" "ev_reach E P N a u" "fewer u t" "\<forall>fd \<in> set fds. conns_of l u fd = None"
    using Cons.IH [OF t(2) l] by blast
  have "for_each (end_one E l) (fd # fds) s = (Inr (), u)"
    by (simp add: seq_def t(1) u(1))
  moreover have "conns_of l u fd = None" using u(3) t(4) l by (simp add: fewer_def)
  ultimately show ?case using u fewer_trans [OF u(3) t(3)] by auto
qed

lemma end_loops_run:
  assumes "ev_reach E P N a s" "\<And>l. l \<in> set ls \<Longrightarrow> l < length (sv_loops s)"
  shows "\<exists>t. for_each (\<lambda>l. for_each (end_one E l) (order l)) ls s = (Inr (), t) \<and> ev_reach E P N a t \<and> fewer t s \<and>
    (\<forall>l \<in> set ls. \<forall>fd \<in> set (order l). conns_of l t fd = None)"
  using assms
proof (induction ls arbitrary: s)
  case Nil
  then show ?case by (simp add: run_simps fewer_refl)
next
  case (Cons l ls)
  have l: "l < length (sv_loops s)" using Cons.prems(2) by simp
  obtain t where t: "for_each (end_one E l) (order l) s = (Inr (), t)" "ev_reach E P N a t" "fewer t s"
    "\<forall>fd \<in> set (order l). conns_of l t fd = None"
    using end_loop_run [OF Cons.prems(1) l] by blast
  have ls: "j < length (sv_loops t)" if "j \<in> set (l # ls)" for j
    using t(3) Cons.prems(2) [OF that] by (simp add: fewer_def)
  obtain u where u: "for_each (\<lambda>l. for_each (end_one E l) (order l)) ls t = (Inr (), u)" "ev_reach E P N a u" "fewer u t"
    "\<forall>l \<in> set ls. \<forall>fd \<in> set (order l). conns_of l u fd = None"
    using Cons.IH [OF t(2)] ls by (metis list.set_intros(2))
  have "for_each (\<lambda>l. for_each (end_one E l) (order l)) (l # ls) s = (Inr (), u)"
    by (simp add: seq_def t(1) u(1))
  moreover have "conns_of l u fd = None" if "fd \<in> set (order l)" for fd
    using u(3) t(4) ls [of l] that by (simp add: fewer_def)
  ultimately show ?case using u fewer_trans [OF u(3) t(3)] by auto
qed

lemma serve_end_run:
  assumes "ev_reach E P N a s" "\<And>l. l < length (sv_loops s) \<Longrightarrow> dom (conns_of l s) \<subseteq> set (order l)"
  shows "\<exists>t. serve_end E order s = (Inr (), t) \<and> ev_reach E P N a t \<and> sv_next t = sv_next s \<and>
    length (sv_loops t) = length (sv_loops s) \<and> (\<forall>l < length (sv_loops s). conns_of l t = Map.empty)"
proof -
  obtain t where t: "for_each (\<lambda>l. for_each (end_one E l) (order l)) [0..<length (sv_loops s)] s = (Inr (), t)" "ev_reach E P N a t"
    "fewer t s" "\<forall>l \<in> set [0..<length (sv_loops s)]. \<forall>fd \<in> set (order l). conns_of l t fd = None"
    using end_loops_run [OF assms(1), of "[0..<length (sv_loops s)]" order] by auto
  have "conns_of l t fd = None" if "l < length (sv_loops s)" for l fd
  proof (cases "fd \<in> set (order l)")
    case False
    then have "conns_of l s fd = None" using assms(2) [OF that] by (auto simp: domIff)
    then show ?thesis using t(3) that by (simp add: fewer_def)
  qed (use t(4) that in auto)
  then have "\<forall>l < length (sv_loops s). conns_of l t = Map.empty" by blast
  moreover have "serve_end E order s = (Inr (), t)"
    using t(1) by (simp add: serve_end_def end_one_def [abs_def] run_simps)
  ultimately show ?thesis using t(2,3) by (auto simp: fewer_def)
qed

text \<open>
  C12. The loops keep the contract of a connection with its user, an automaton: for a server with all handlers,
  whose wakes come only for connections that are open and have nothing left to write, and as long as making a
  detached socket blocking does not fail, the record of what
  the handlers were told about a connection is a run of the automaton to the very state in which the
  server has the connection. In the end, when what is left is closed, every connection that was ever
  accepted has been opened at most once, and closed or detached exactly once, as the last thing.
\<close>

theorem evio_refines_life:
  assumes "has_handlers E" and "calm_reach E a s" and "\<And>l. l < length (sv_loops s) \<Longrightarrow> dom (conns_of l s) \<subseteq> set (order l)"
  shows "(\<forall>c. lives Waiting (about c (snd (sv_app s))) = Some (stage s c)) \<and>
    (\<exists>t. serve_end (logged E) order s = (Inr (), t) \<and> (\<forall>c < sv_next s. lives Waiting (about c (snd (sv_app t))) = Some Over))"
proof -
  obtain t where t: "serve_end (logged E) order s = (Inr (), t)" "calm_reach E a t" "sv_next t = sv_next s"
    "length (sv_loops t) = length (sv_loops s)" "\<forall>l < length (sv_loops s). conns_of l t = Map.empty"
    using serve_end_run [OF assms(2), of order] assms(3) by auto
  have "stage t c = Over" if "c < sv_next s" for c
  proof -
    have "conns_of l t fd \<noteq> Some c" if "l < length (sv_loops t)" for l fd using t(4,5) that by simp
    then show ?thesis using t(3) that by (auto simp: stage_def split: option.split)
  qed
  then have "lives Waiting (about c (snd (sv_app t))) = Some Over" if "c < sv_next s" for c
    using trace_okD(2) [OF calm_reach_trace [OF assms(1) t(2)], of c] that by simp
  moreover have "lives Waiting (about c (snd (sv_app s))) = Some (stage s c)" for c
    by (rule trace_okD(2) [OF calm_reach_trace [OF assms(1,2)]])
  ultimately show ?thesis using t(1) by blast
qed

lemma waiting_watched:
  assumes "ev_reach (logged E) P N (a, []) s" "stage s c \<noteq> Over" "cn_out (sv_store s c) \<noteq> []"
  shows "\<exists>l. cn_loop (sv_store s c) = Some l \<and> watch_of l s (cn_fd (sv_store s c)) = Some ReadsWrites"
proof -
  have "c < sv_next s" using wire_okD(2) [OF ev_reach_wire [OF assms(1)], of c] assms(3) leI by blast
  then obtain l where l: "cn_loop (sv_store s c) = Some l" "l < length (sv_loops s)" "conns_of l s (cn_fd (sv_store s c)) = Some c"
    using assms(2) by (auto simp: stage_def split: if_splits option.splits)
  then show ?thesis using ev_okD(8) [OF ev_reach_ok [OF assms(1)] l(2,3)] assms(3) by (auto simp: idle_def)
qed

text \<open>
  C13. What becomes of the answers of handlers, in every reachable state, whatever wakes come, whatever
  system calls give and whichever handlers there are. The bytes the socket of a connection has taken and
  those waiting follow from the record of the connection by the automaton \<open>kept\<close>: bytes taken are taken for
  good and from the front, an answer goes behind the bytes waiting, and only the answer to a wake,
  or that of the opening when a wake came before it, can take their place. So without wakes the
  bytes taken, followed by those waiting, are all the bytes the handlers have answered, in order; the
  same holds for a server with all handlers when wakes come only for connections that are open and have
  nothing waiting and making a detached socket blocking never fails. And while there are bytes
  waiting on a connection that is not over the loop watches its socket for writing.
\<close>

theorem evio_answers_written:
  assumes "ev_reach (logged E) P N (a, []) s"
  shows "kept (about c (snd (sv_app s))) (sv_wire s c) (cn_out (sv_store s c)) \<and>
    ((\<forall>x \<in> set (about c (snd (sv_app s))). \<not> wake x) \<or> has_handlers E \<and> calm_reach E a s \<longrightarrow>
       sv_wire s c @ cn_out (sv_store s c) = said c (snd (sv_app s))) \<and>
    (stage s c \<noteq> Over \<and> cn_out (sv_store s c) \<noteq> [] \<longrightarrow>
       (\<exists>l. cn_loop (sv_store s c) = Some l \<and> watch_of l s (cn_fd (sv_store s c)) = Some ReadsWrites))"
proof -
  note k = wire_okD(1) [OF ev_reach_wire [OF assms], of c]
  have "sv_wire s c @ cn_out (sv_store s c) = said c (snd (sv_app s))" if "has_handlers E" "calm_reach E a s"
    using trace_okD(1) [OF calm_reach_trace [OF that], of c] by simp
  then show ?thesis using k kept_all [OF k] waiting_watched [OF assms] by (auto simp: said_about)
qed

subsection \<open>Wakes\<close>

text \<open>
  A wake that comes while an answer waits to be written destroys it: when the handler answers the wake with
  bytes \<open>q\<close>, they replace the bytes that were waiting, which no socket will ever take; and its action
  replaces the one that was waiting, so that a connection about to be closed stays open.
\<close>

theorem wake_drops_pending:
  assumes "ev_reach E P N a s" and "l < length (sv_loops s)" and "conns_of l s fd = Some c" and "cn_opened (sv_store s c)"
    and "ev_Data (si_events E) = Some f" and "f (Some c) (view (sv_store s c)) [] (sv_app s) = ((q, DoNothing), b)" and "q \<noteq> []"
    and "ev_PreWrite (si_events E) = None" and "en_ctl env" and "en_write env = Inr (length q)"
  shows "\<exists>t u. loopNote E env l (ConnNote c) s = (Inr None, t) \<and> cn_action (sv_store t c) = DoNothing \<and>
    loop_event E env l fd t = (Inr None, u) \<and> sv_wire u c = sv_wire s c @ q \<and> cn_out (sv_store u c) = [] \<and> conns_of l u fd = Some c"
proof -
  note D = ev_okD(3,4,7) [OF ev_reach_ok [OF assms(1)] assms(2,3)]
  let ?t = "on_poll l (watch fd (Some ReadsWrites)) (upd_cn c (\<lambda>k. take_out q (k\<lparr>cn_action := DoNothing\<rparr>)) (s\<lparr>sv_app := b\<rparr>))"
  have note': "loopNote E env l (ConnNote c) s = (Inr None, ?t)"
    using D assms(2-7,9)
    by (simp add: loopNote_def loopWake_def wait_to_write_def ModReadWrite_def ctl_mod_def run_simps on_app_def seq_def idle_def)
  have ev: "loop_event E env l fd ?t = loopWrite E env l c ?t"
    using D assms(2-4,7) by (simp add: loop_event_def run_simps Let_def)
  let ?u = "on_poll l (watch fd (Some Reads)) (upd_cn c (\<lambda>k. k\<lparr>cn_out := drop (length q) (cn_out k)\<rparr>) (?t\<lparr>sv_wire := (sv_wire s)(c := sv_wire s c @ q)\<rparr>))"
  have "loopWrite E env l c ?t = (Inr None, ?u)"
    using D assms(2-4,7-10)
    by (simp add: loopWrite_def PreWrite_def back_to_reading_def ModRead_def ctl_mod_def run_simps idle_def)
  then show ?thesis
    using note' ev D assms(2,3,7) by (intro exI [of _ ?t] exI [of _ ?u]) simp
qed

subsection \<open>A server that runs\<close>

definition demo_site :: "unit Site" where
  "demo_site = \<lparr>si_events =
     \<lparr>ev_NumLoops = 1, ev_LoadBalance = RandomBalance, ev_Serving = None,
      ev_Opened = Some (\<lambda>c k a. (([1, 2], \<lparr>o_TCPKeepAlive = 0, o_ReuseInputBuffer = False\<rparr>, DoNothing), a)),
      ev_Closed = Some (\<lambda>c k err a. (DoNothing, a)), ev_Detached = Some (\<lambda>c k fd a. (DoNothing, a)), ev_PreWrite = None,
      ev_Data = Some (\<lambda>c k bs a. ((7 # bs, DoNothing), a)), ev_Tick = None\<rparr>,
    si_lns = [\<lparr>ln_ln = Some TCPListener, ln_lnaddr = NilAddr, ln_udp = False, ln_reusePort = False, ln_file = True, ln_fd = 5,
       ln_network = ''tcp'', ln_addr = '':80''\<rparr>], si_zone = (\<lambda>_. None)\<rparr>"

definition demo_env :: Env where
  "demo_env = \<lparr>en_ctl = True, en_read = Inl EAGAIN, en_write = Inr 1, en_accept = Inr (9, SockaddrOther), en_nonblock = None, en_recv = Inl EAGAIN\<rparr>"

definition demo0 :: "(unit \<times> happening list) evserver" where
  "demo0 = snd (make_loops (logged demo_site) [Some 3] (new_evserver ((), [])))"

definition demo1 :: "(unit \<times> happening list) evserver" where
  "demo1 = snd (loop_event (logged demo_site) demo_env 0 5 demo0)"

definition demo2 :: "(unit \<times> happening list) evserver" where
  "demo2 = snd (loop_event (logged demo_site) (demo_env\<lparr>en_accept := Inl EAGAIN\<rparr>) 0 9 demo1)"

lemma demo_facts:
  "fst (make_loops (logged demo_site) [Some 3] (new_evserver ((), []))) = Inr ()"
  "length (sv_loops demo0) = 1" "fresh_fd demo0 9" "length (sv_loops demo1) = 1" "length (sv_loops demo2) = 1"
  "sv_next demo2 = 1" "conns_of 0 demo2 9 = Some 0" "sv_app demo2 = ((), [Opening 0 [1, 2]])"
  "cn_loop (sv_store demo2 0) = Some 0" "cn_fd (sv_store demo2 0) = 9" "lp_count (the_loop 0 demo2) = 1"
  "cn_out (sv_store demo2 0) = [1, 2]" "cn_opened (sv_store demo2 0)" "sv_wire demo2 0 = []"
  by code_simp+


lemma demo_reach:
  assumes "\<And>env. en_nonblock env = None \<Longrightarrow> P env"
  shows "ev_reach (logged demo_site) P N ((), []) demo2"
proof -
  have "ev_reach (logged demo_site) P N ((), []) demo0"
    using demo_facts(1) unfolding demo0_def by (intro ev_reach.started [of _ "[Some 3]"]) (simp add: prod_eq_iff)
  then have "ev_reach (logged demo_site) P N ((), []) demo1"
    unfolding demo1_def
    by (rule ev_reach.event) (use demo_facts(2,3) assms in \<open>simp_all add: demo_env_def\<close>)
  then show ?thesis
    unfolding demo2_def
    by (rule ev_reach.event) (use demo_facts(4) assms in \<open>simp_all add: demo_env_def\<close>)
qed

lemma demo_handlers: "has_handlers demo_site"
  by (simp add: has_handlers_def demo_site_def)

lemma evio_nothing_forgotten_witness:
  "lp_count (the_loop 0 demo2) = int (card (dom (conns_of 0 demo2))) \<and> watch_of 0 demo2 9 = Some ReadsWrites"
  using evio_nothing_forgotten [OF demo_reach [where P = "\<lambda>_. True" and N = "\<lambda>_ _. True"], of 0] demo_facts by auto

lemma evio_never_fails_witness:
  "\<exists>e t. loop_event (logged demo_site) (demo_env\<lparr>en_accept := Inl EAGAIN\<rparr>) 0 9 demo2 = (Inr e, t) \<and> length (sv_loops t) = 1"
  using evio_never_fails [OF demo_reach, of 0 "demo_env\<lparr>en_accept := Inl EAGAIN\<rparr>" "ConnNote 0" 9] demo_facts
  by (auto simp: demo_env_def)

lemma evio_refines_life_witness:
  "lives Waiting (about 0 (snd (sv_app demo2))) = Some Live \<and>
   (\<exists>t. serve_end (logged demo_site) (\<lambda>_. [9]) demo2 = (Inr (), t) \<and> lives Waiting (about 0 (snd (sv_app t))) = Some Over)"
proof -
  have "loop_ok (logged demo_site) demo2 0"
    using ev_reach_ok [OF demo_reach [where P = "\<lambda>_. True" and N = "\<lambda>_ _. True"]] demo_facts(5) by (simp add: ev_ok_def)
  then have "card (dom (conns_of 0 demo2)) = 1" using demo_facts(11) by (simp add: loop_ok_def)
  moreover have "9 \<in> dom (conns_of 0 demo2)" using demo_facts(7) by blast
  ultimately have "dom (conns_of 0 demo2) = {9}" by (metis card_1_singletonE singletonD)
  then have "dom (conns_of l demo2) \<subseteq> set [9]" if "l < length (sv_loops demo2)" for l
    using that demo_facts(5) by simp
  then show ?thesis
    using evio_refines_life [OF demo_handlers demo_reach, of "\<lambda>_. [9]"] demo_facts(6-) by (auto simp: about_def)
qed

lemma evio_answers_written_witness:
  "said 0 (snd (sv_app demo2)) = [1, 2] \<and> (\<exists>l. watch_of l demo2 9 = Some ReadsWrites)"
  using evio_answers_written [OF demo_reach [where P = "\<lambda>_. True" and N = "\<lambda>_ _. True"], of 0] demo_facts(5-)
  by (auto simp: stage_def)

lemma wake_drops_pending_witness:
  "\<exists>t u. loopNote (logged demo_site) (demo_env\<lparr>en_write := Inr 1\<rparr>) 0 (ConnNote 0) demo2 = (Inr None, t) \<and>
     loop_event (logged demo_site) (demo_env\<lparr>en_write := Inr 1\<rparr>) 0 9 t = (Inr None, u) \<and> sv_wire u 0 = [7]"
  using wake_drops_pending [OF demo_reach [where P = "\<lambda>_. True" and N = "\<lambda>_ _. True"], of 0 9 0 _ "[7]" "((), [Opening 0 [1, 2], Receiving 0 [] [7]])"
      "demo_env\<lparr>en_write := Inr 1\<rparr>"] demo_facts
  by (auto simp: demo_site_def demo_env_def tell_def)

end
