(* ===== verification/EvioStd.thy ===== *)
theory EvioStd
  imports EvioTrace
begin

text \<open>
  \<open>evio/evio_std.go\<close>: the same server on the connections of the standard library. Each listener has a
  goroutine that accepts, each connection one that reads; both hand what they get to a loop over its channel,
  which has no buffer, so that a message is taken as it is sent. A loop works on one message after the
  other. The results of the library are arguments; what connections have taken is recorded.
\<close>

subsection \<open>State\<close>

record stdconn =
  sc_addrIndex :: nat
  sc_localAddr :: Addr
  sc_remoteAddr :: Addr
  sc_peer :: Addr
  sc_loop :: nat
  sc_lnidx :: nat
  sc_donein :: "u8 list"
  sc_done :: int
  sc_reading :: bool
  sc_open :: bool
  sc_deadline :: bool
  sc_wrote :: "u8 list"

record stdudpconn =
  su_addrIndex :: nat
  su_localAddr :: Addr
  su_remoteAddr :: Addr
  su_in :: "u8 list"

record stdloop =
  sl_conns :: "nat list"

datatype stdmsg =
    MsgError loop_error
  | MsgConn nat
  | MsgIn nat "u8 list"
  | MsgUDP stdudpconn
  | MsgStderr nat read_end
  | MsgWake nat

record 'a stdserver =
  ss_app :: 'a
  ss_loops :: "stdloop list"
  ss_accepted :: nat
  ss_store :: "nat \<Rightarrow> stdconn"
  ss_next :: nat
  ss_datagrams :: "(Addr \<times> u8 list) list"
  ss_delays :: "int list"
  ss_waiting :: bool
  ss_woken :: bool
  ss_serr :: "loop_error option"

definition stdview :: "stdconn \<Rightarrow> ConnView" where
  "stdview k = \<lparr>AddrIndex = sc_addrIndex k, LocalAddr = sc_localAddr k, RemoteAddr = sc_remoteAddr k\<rparr>"

definition udpview :: "stdudpconn \<Rightarrow> ConnView" where
  "udpview k = \<lparr>AddrIndex = su_addrIndex k, LocalAddr = su_localAddr k, RemoteAddr = su_remoteAddr k\<rparr>"

definition upd_sc :: "nat \<Rightarrow> (stdconn \<Rightarrow> stdconn) \<Rightarrow> 'a stdserver \<Rightarrow> 'a stdserver" where
  "upd_sc c f s = s\<lparr>ss_store := (ss_store s)(c := f (ss_store s c))\<rparr>"

definition upd_sl :: "nat \<Rightarrow> (nat list \<Rightarrow> nat list) \<Rightarrow> 'a stdserver \<Rightarrow> 'a stdserver" where
  "upd_sl l f s = s\<lparr>ss_loops := (ss_loops s)[l := (ss_loops s ! l)\<lparr>sl_conns := f (sl_conns (ss_loops s ! l))\<rparr>]\<rparr>"

definition std_app :: "('a \<Rightarrow> 'b \<times> 'a) \<Rightarrow> ('a stdserver, 'b) act" where
  "std_app f = (\<lambda>s. case f (ss_app s) of (b, a) \<Rightarrow> (Inr b, s\<lparr>ss_app := a\<rparr>))"

subsection \<open>Events of connections\<close>

text \<open>\<open>done\<close> is 0 for a connection that is attached, 1 for a closed and 2 for a detached one. Ending a connection: its reader is interrupted, and its error then ends it.\<close>

definition stdloopDetach :: "nat \<Rightarrow> ('a stdserver, loop_error option) act" where
  "stdloopDetach c = seq (modify (upd_sc c (\<lambda>k. k\<lparr>sc_done := 2, sc_deadline := True\<rparr>))) (\<lambda>_. ret None)"

definition stdloopClose :: "nat \<Rightarrow> ('a stdserver, loop_error option) act" where
  "stdloopClose c = seq (modify (upd_sc c (\<lambda>k. k\<lparr>sc_done := 1, sc_deadline := True\<rparr>))) (\<lambda>_. ret None)"

definition std_action :: "nat \<Rightarrow> Action \<Rightarrow> ('a stdserver, loop_error option) act" where
  "std_action c action =
     (case action of
        Shutdown \<Rightarrow> ret (Some ErrClosing)
      | Detach \<Rightarrow> stdloopDetach c
      | CloseConn \<Rightarrow> stdloopClose c
      | _ \<Rightarrow> ret None)"

definition std_PreWrite :: "'a Site \<Rightarrow> ('a stdserver, unit) act" where
  "std_PreWrite E = (case ev_PreWrite (si_events E) of None \<Rightarrow> ret () | Some f \<Rightarrow> std_app (\<lambda>a. ((), f a)))"

text \<open>Of these bytes the connection takes \<open>n\<close> many; the error is not looked at.\<close>

definition std_write :: "'a Site \<Rightarrow> (u8 list \<Rightarrow> nat) \<Rightarrow> nat \<Rightarrow> u8 list \<Rightarrow> ('a stdserver, unit) act" where
  "std_write E n c out =
     (if length out > 0
      then seq (std_PreWrite E) (\<lambda>_. modify (upd_sc c (\<lambda>k. k\<lparr>sc_wrote := sc_wrote k @ take (n out) out\<rparr>)))
      else ret ())"

definition stdloopAccept :: "'a Site \<Rightarrow> (u8 list \<Rightarrow> nat) \<Rightarrow> nat \<Rightarrow> nat \<Rightarrow> ('a stdserver, loop_error option) act" where
  "stdloopAccept E n l c =
     seq (modify (upd_sl l (\<lambda>cs. if c \<in> set cs then cs else c # cs))) (\<lambda>_.
     seq (modify (upd_sc c (\<lambda>k. k\<lparr>sc_addrIndex := sc_lnidx k, sc_localAddr := ln_lnaddr (si_lns E ! sc_lnidx k),
       sc_remoteAddr := sc_peer k\<rparr>))) (\<lambda>_.
     case ev_Opened (si_events E) of
       None \<Rightarrow> ret None
     | Some f \<Rightarrow>
         seq get_st (\<lambda>s.
         seq (std_app (f c (stdview (ss_store s c)))) (\<lambda>(out, opts, action).
         seq (std_write E n c out) (\<lambda>_. std_action c action)))))"

text \<open>A nil \<open>bs\<close> is a wake; a detached connection keeps what still comes in.\<close>

definition stdloopRead :: "'a Site \<Rightarrow> (u8 list \<Rightarrow> nat) \<Rightarrow> nat \<Rightarrow> u8 list \<Rightarrow> ('a stdserver, loop_error option) act" where
  "stdloopRead E n c bs =
     seq get_st (\<lambda>s.
     if sc_done (ss_store s c) = 2 then
       seq (modify (upd_sc c (\<lambda>k. k\<lparr>sc_donein := sc_donein k @ bs\<rparr>))) (\<lambda>_. ret None)
     else
       case ev_Data (si_events E) of
         None \<Rightarrow> ret None
       | Some f \<Rightarrow>
           seq (std_app (f (Some c) (stdview (ss_store s c)) bs)) (\<lambda>(out, action).
           seq (std_write E n c out) (\<lambda>_. std_action c action)))"

definition stdloopReadUDP :: "'a Site \<Rightarrow> stdudpconn \<Rightarrow> ('a stdserver, loop_error option) act" where
  "stdloopReadUDP E u =
     (case ev_Data (si_events E) of
        None \<Rightarrow> ret None
      | Some f \<Rightarrow>
          seq (std_app (f None (udpview u) (su_in u))) (\<lambda>(out, action).
          seq (if length out > 0
               then seq (std_PreWrite E) (\<lambda>_. modify (\<lambda>s. s\<lparr>ss_datagrams := ss_datagrams s @ [(su_remoteAddr u, out)]\<rparr>))
               else ret ()) (\<lambda>_.
          ret (closing_if action))))"

definition std_Closed :: "'a Site \<Rightarrow> nat \<Rightarrow> errno option \<Rightarrow> ('a stdserver, loop_error option) act" where
  "std_Closed E c err =
     (case ev_Closed (si_events E) of
        None \<Rightarrow> ret None
      | Some f \<Rightarrow>
          seq get_st (\<lambda>s.
          seq (std_app (f c (stdview (ss_store s c)) err)) (\<lambda>action. ret (closing_if action))))"

definition std_shut :: "nat \<Rightarrow> 'a stdserver \<Rightarrow> 'a stdserver" where
  "std_shut c = upd_sc c (\<lambda>k. k\<lparr>sc_open := False\<rparr>)"

definition stdloopError :: "'a Site \<Rightarrow> nat \<Rightarrow> nat \<Rightarrow> read_end \<Rightarrow> ('a stdserver, loop_error option) act" where
  "stdloopError E l c err =
     seq (modify (upd_sl l (removeAll c))) (\<lambda>_.
     seq get_st (\<lambda>s.
     let k = ss_store s c in
     if sc_done k = 0 then
       seq (modify (std_shut c)) (\<lambda>_. std_Closed E c (case err of EOF \<Rightarrow> None | ReadError e \<Rightarrow> Some e))
     else if sc_done k = 1 then seq (modify (std_shut c)) (\<lambda>_. std_Closed E c None)
     else
       (case ev_Detached (si_events E) of
          None \<Rightarrow> seq (modify (std_shut c)) (\<lambda>_. std_Closed E c None)
        | Some f \<Rightarrow>
            seq (std_app (f c (stdview k) (DetachedConn c (sc_donein k)))) (\<lambda>action. ret (closing_if action)))))"

subsection \<open>The loop\<close>

definition std_msg :: "'a Site \<Rightarrow> (u8 list \<Rightarrow> nat) \<Rightarrow> nat \<Rightarrow> stdmsg \<Rightarrow> ('a stdserver, loop_error option) act" where
  "std_msg E n l msg =
     (case msg of
        MsgError v \<Rightarrow> ret (Some v)
      | MsgConn c \<Rightarrow> stdloopAccept E n l c
      | MsgIn c bs \<Rightarrow> stdloopRead E n c bs
      | MsgUDP u \<Rightarrow> stdloopReadUDP E u
      | MsgStderr c err \<Rightarrow> stdloopError E l c err
      | MsgWake c \<Rightarrow> stdloopRead E n c [])"

definition std_tick :: "'a Site \<Rightarrow> ('a stdserver, loop_error option) act" where
  "std_tick E =
     (case ev_Tick (si_events E) of
        None \<Rightarrow> throw NilDereference
      | Some f \<Rightarrow>
          seq (std_app f) (\<lambda>(delay, action).
          seq (modify (\<lambda>s. s\<lparr>ss_delays := ss_delays s @ [delay]\<rparr>)) (\<lambda>_. ret (closing_if action))))"

definition std_signalShutdown :: "loop_error option \<Rightarrow> 'a stdserver \<Rightarrow> 'a stdserver" where
  "std_signalShutdown err s = s\<lparr>ss_serr := err, ss_woken := (ss_woken s \<or> ss_waiting s)\<rparr>"

definition std_waitForShutdown :: "'a stdserver \<Rightarrow> 'a stdserver" where
  "std_waitForShutdown s = s\<lparr>ss_waiting := True, ss_woken := False\<rparr>"

text \<open>One round of the \<open>select\<close>: a tick, or a message with the bytes a write of its answer takes.\<close>

datatype stdinput = StdTick | StdMsg "u8 list \<Rightarrow> nat" stdmsg

definition std_input :: "'a Site \<Rightarrow> nat \<Rightarrow> stdinput \<Rightarrow> ('a stdserver, loop_error option) act" where
  "std_input E l i = (case i of StdTick \<Rightarrow> std_tick E | StdMsg n msg \<Rightarrow> std_msg E n l msg)"

fun stdloopRun :: "'a Site \<Rightarrow> nat \<Rightarrow> stdinput list \<Rightarrow> ('a stdserver, loop_error option) act" where
  "stdloopRun E l [] = ret None"
| "stdloopRun E l (i # is') =
     seq (std_input E l i) (\<lambda>e.
     case e of
       Some _ \<Rightarrow> seq (modify (std_signalShutdown e)) (\<lambda>_. ret e)
     | None \<Rightarrow> stdloopRun E l is')"

text \<open>
  After the loop: until all connections are closed and gone, errors of readers are still dealt with;
  anything else is dropped. The answer says whether it has ended.
\<close>

definition std_no_conns :: "nat \<Rightarrow> 'a stdserver \<Rightarrow> bool" where
  "std_no_conns l s \<longleftrightarrow> sl_conns (ss_loops s ! l) = []"

definition egress_msg :: "'a Site \<Rightarrow> nat \<Rightarrow> bool \<Rightarrow> stdmsg \<Rightarrow> ('a stdserver, bool) act" where
  "egress_msg E l closed msg =
     (case msg of
        MsgError v \<Rightarrow>
          if v = ErrCloseConns
          then seq get_st (\<lambda>s. seq (for_each (\<lambda>c. seq (stdloopClose c) (\<lambda>_. ret ())) (sl_conns (ss_loops s ! l))) (\<lambda>_. ret True))
          else ret closed
      | MsgStderr c err \<Rightarrow> seq (stdloopError E l c err) (\<lambda>_. ret closed)
      | _ \<Rightarrow> ret closed)"

fun stdloopEgress :: "'a Site \<Rightarrow> nat \<Rightarrow> bool \<Rightarrow> stdmsg list \<Rightarrow> ('a stdserver, bool) act" where
  "stdloopEgress E l closed [] = ret False"
| "stdloopEgress E l closed (msg # msgs) =
     seq (egress_msg E l closed msg) (\<lambda>closed.
     seq get_st (\<lambda>s. if std_no_conns l s \<and> closed then ret True else stdloopEgress E l closed msgs))"

subsection \<open>Listeners and readers\<close>

text \<open>The loop a new connection or a datagram goes to: the counter after it has been increased.\<close>

definition next_loop :: "('a stdserver, nat) act" where
  "next_loop =
     seq (modify (\<lambda>s. s\<lparr>ss_accepted := ss_accepted s + 1\<rparr>)) (\<lambda>_.
     seq get_st (\<lambda>s. ret (ss_accepted s mod length (ss_loops s))))"

definition new_stdconn :: "Addr \<Rightarrow> nat \<Rightarrow> nat \<Rightarrow> stdconn" where
  "new_stdconn peer l lnidx =
     \<lparr>sc_addrIndex = 0, sc_localAddr = NilAddr, sc_remoteAddr = NilAddr, sc_peer = peer, sc_loop = l, sc_lnidx = lnidx,
      sc_donein = [], sc_done = 0, sc_reading = True, sc_open = True, sc_deadline = False, sc_wrote = []\<rparr>"

text \<open>
  One round of a listener: an error ends it and the server; otherwise the message it sends, and to which
  loop. The reader of a new connection starts after the loop has taken the connection.
\<close>

definition stdlistener_udp :: "'a Site \<Rightarrow> nat \<Rightarrow> errno + (u8 list \<times> Addr) \<Rightarrow> ('a stdserver, (nat \<times> stdmsg) option) act" where
  "stdlistener_udp E lnidx res =
     (case res of
        Inl e \<Rightarrow> seq (modify (std_signalShutdown (Some (SysError e)))) (\<lambda>_. ret None)
      | Inr (bs, addr) \<Rightarrow>
          seq next_loop (\<lambda>l.
          ret (Some (l, MsgUDP \<lparr>su_addrIndex = lnidx, su_localAddr = ln_lnaddr (si_lns E ! lnidx), su_remoteAddr = addr, su_in = bs\<rparr>))))"

definition stdlistener_tcp :: "nat \<Rightarrow> errno + Addr \<Rightarrow> ('a stdserver, (nat \<times> stdmsg) option) act" where
  "stdlistener_tcp lnidx res =
     (case res of
        Inl e \<Rightarrow> seq (modify (std_signalShutdown (Some (SysError e)))) (\<lambda>_. ret None)
      | Inr peer \<Rightarrow>
          seq next_loop (\<lambda>l.
          seq get_st (\<lambda>s.
          seq (modify (\<lambda>s. s\<lparr>ss_store := (ss_store s)(ss_next s := new_stdconn peer l lnidx), ss_next := ss_next s + 1\<rparr>)) (\<lambda>_.
          ret (Some (l, MsgConn (ss_next s)))))))"

text \<open>One round of a reader: an error ends it, and it clears the deadline that may have caused it.\<close>

definition std_reader :: "nat \<Rightarrow> read_end + u8 list \<Rightarrow> ('a stdserver, nat \<times> stdmsg) act" where
  "std_reader c res =
     seq get_st (\<lambda>s.
     case res of
       Inl err \<Rightarrow>
         seq (modify (upd_sc c (\<lambda>k. k\<lparr>sc_deadline := False, sc_reading := False\<rparr>))) (\<lambda>_.
         ret (sc_loop (ss_store s c), MsgStderr c err))
     | Inr bs \<Rightarrow> ret (sc_loop (ss_store s c), MsgIn c bs))"

definition std_Wake :: "nat \<Rightarrow> 'a stdserver \<Rightarrow> nat \<times> stdmsg" where
  "std_Wake c s = (sc_loop (ss_store s c), MsgWake c)"

subsection \<open>The server\<close>

definition new_stdserver :: "'a \<Rightarrow> nat \<Rightarrow> 'a stdserver" where
  "new_stdserver a n =
     \<lparr>ss_app = a, ss_loops = replicate n \<lparr>sl_conns = []\<rparr>, ss_accepted = 0, ss_store = (\<lambda>_. new_stdconn NilAddr 0 0), ss_next = 0,
      ss_datagrams = [], ss_delays = [], ss_waiting = False, ss_woken = False, ss_serr = None\<rparr>"

definition stdserve_start :: "'a Site \<Rightarrow> int \<Rightarrow> 'a \<Rightarrow> 'a stdserver option" where
  "stdserve_start E cpus a =
     (let n = num_loops cpus (ev_NumLoops (si_events E));
          (action, a) = (case ev_Serving (si_events E) of None \<Rightarrow> (DoNothing, a) | Some f \<Rightarrow> f n (map ln_lnaddr (si_lns E)) a)
      in if action = Shutdown then None else Some (new_stdserver a n))"

text \<open>
  The end: what the loops are sent, what is closed, and the error returned. The result is read before
  the deferred function has set it, so it is always nil.
\<close>

definition stdserve_end :: "'a Site \<Rightarrow> 'a stdserver \<Rightarrow> (nat \<times> stdmsg) list \<times> closing list \<times> (nat \<times> stdmsg) list \<times> loop_error option" where
  "stdserve_end E s =
     (map (\<lambda>l. (l, MsgError ErrClosing)) [0..<length (ss_loops s)], concat (map ln_close (si_lns E)),
      map (\<lambda>l. (l, MsgError ErrCloseConns)) [0..<length (ss_loops s)], None)"

subsection \<open>Detached connections\<close>

record stddetachedConn =
  sd_conn :: nat
  sd_in :: "u8 list"

text \<open>A read into a buffer of \<open>n\<close> bytes; \<open>res\<close> is what a read of the connection itself would give.\<close>

definition sd_Read :: "read_end + u8 list \<Rightarrow> nat \<Rightarrow> stddetachedConn \<Rightarrow> (read_end + u8 list) \<times> stddetachedConn" where
  "sd_Read res n c =
     (if length (sd_in c) > 0 then
        (if length (sd_in c) \<le> n then (Inr (sd_in c), c\<lparr>sd_in := []\<rparr>)
         else (Inr (take n (sd_in c)), c\<lparr>sd_in := drop n (sd_in c)\<rparr>))
      else (res, c))"

definition sd_Write :: "nat \<Rightarrow> u8 list \<Rightarrow> stddetachedConn \<Rightarrow> ('a stdserver, unit) act" where
  "sd_Write n p c = modify (upd_sc (sd_conn c) (\<lambda>k. k\<lparr>sc_wrote := sc_wrote k @ take n p\<rparr>))"

definition sd_Close :: "stddetachedConn \<Rightarrow> ('a stdserver, unit) act" where
  "sd_Close c = modify (std_shut (sd_conn c))"

end
