(* ===== verification/EvioStdProps.thy ===== *)
theory EvioStdProps
  imports EvioStd EvioWire
begin

text \<open>
  The server on the standard library keeps the same contract with its user as the event loops do, in every
  state it can reach: with loops that have ended and drop what they are sent, with writes that
  take part of an answer only, and with wakes that come after the end of a connection.
\<close>

subsection \<open>The record and the state\<close>

definition std_conns :: "'a stdserver \<Rightarrow> nat \<Rightarrow> nat list" where
  "std_conns s l = sl_conns (ss_loops s ! l)"

text \<open>
  A connection whose reader runs is live when its loop has taken it; a loop that had ended has dropped
  it, and its user has never heard of it.
\<close>

definition std_stage :: "'a stdserver \<Rightarrow> nat \<Rightarrow> life" where
  "std_stage s c =
     (if c \<ge> ss_next s then Waiting
      else if \<not> sc_reading (ss_store s c) then Over
      else if c \<in> set (std_conns s (sc_loop (ss_store s c))) then Live else Waiting)"

text \<open>A run of the automaton, to which only wakes may be added, and only when it is over.\<close>

definition late_run :: "life \<Rightarrow> happening list \<Rightarrow> bool" where
  "late_run y h \<longleftrightarrow> (\<exists>h1 h2. h = h1 @ h2 \<and> lives Waiting h1 = Some y \<and> (h2 \<noteq> [] \<longrightarrow> y = Over \<and> (\<forall>x \<in> set h2. wake x)))"

lemma late_run_Nil: "late_run Waiting []"
  by (auto simp: late_run_def)

lemma late_run_step: "late_run y h \<Longrightarrow> y \<noteq> Over \<Longrightarrow> lives y es = Some z \<Longrightarrow> late_run z (h @ es)"
  unfolding late_run_def by (intro exI [of _ "h @ es"] exI [of _ "[]"]) (auto simp: lives_append)

lemma late_run_late: "late_run Over h \<Longrightarrow> \<forall>x \<in> set es. wake x \<Longrightarrow> late_run Over (h @ es)"
  unfolding late_run_def by (elim exE conjE, rule_tac x = h1 in exI, rule_tac x = "h2 @ es" in exI) auto

lemma late_run_Waiting: "late_run Waiting h \<Longrightarrow> h = []"
  by (auto simp: late_run_def dest: lives_Waiting)

text \<open>
  What a connection has taken: of each answer as many bytes from the front as its write took, \<open>W\<close> says
  how writes may do.
\<close>

inductive took :: "((u8 list \<Rightarrow> nat) \<Rightarrow> bool) \<Rightarrow> happening list \<Rightarrow> u8 list \<Rightarrow> bool" for W :: "(u8 list \<Rightarrow> nat) \<Rightarrow> bool" where
  none: "took W [] []"
| silent: "took W h w \<Longrightarrow> answer x = [] \<Longrightarrow> took W (h @ [x]) w"
| wrote: "took W h w \<Longrightarrow> W n \<Longrightarrow> took W (h @ [x]) (w @ take (n (answer x)) (answer x))"

definition in_full :: "((u8 list \<Rightarrow> nat) \<Rightarrow> bool) \<Rightarrow> bool" where
  "in_full W \<longleftrightarrow> (\<forall>n bs. W n \<longrightarrow> length bs \<le> n bs)"

lemma took_all: "took W h w \<Longrightarrow> in_full W \<Longrightarrow> w = concat (map answer h)"
  by (induction rule: took.induct) (auto simp: in_full_def)

text \<open>\<open>En\<close> are the loops that have ended.\<close>

definition std_ok :: "((u8 list \<Rightarrow> nat) \<Rightarrow> bool) \<Rightarrow> nat set \<Rightarrow> ('a \<times> happening list) stdserver \<Rightarrow> bool" where
  "std_ok W En s \<longleftrightarrow>
     0 < length (ss_loops s) \<and>
     (\<forall>l < length (ss_loops s). \<forall>c \<in> set (std_conns s l). c < ss_next s \<and> sc_reading (ss_store s c) \<and> sc_loop (ss_store s c) = l) \<and>
     (\<forall>c < ss_next s. sc_loop (ss_store s c) < length (ss_loops s) \<and>
        (sc_reading (ss_store s c) \<and> c \<notin> set (std_conns s (sc_loop (ss_store s c))) \<longrightarrow>
           sc_loop (ss_store s c) \<in> En \<and> sc_done (ss_store s c) = 0)) \<and>
     (\<forall>c. took W (about c (snd (ss_app s))) (if c < ss_next s then sc_wrote (ss_store s c) else []) \<and>
        late_run (std_stage s c) (about c (snd (ss_app s))))"

abbreviation keeps_std :: "((u8 list \<Rightarrow> nat) \<Rightarrow> bool) \<Rightarrow> nat set \<Rightarrow> ('a \<times> happening list) stdserver \<Rightarrow>
    (('a \<times> happening list) stdserver, 'b) act \<Rightarrow> bool" where
  "keeps_std W En s m \<equiv> wp m (\<lambda>_ t. std_ok W En t \<and> length (ss_loops t) = length (ss_loops s)) (\<lambda>_ _. False) s"

lemma std_okD:
  assumes "std_ok W En s"
  shows "0 < length (ss_loops s)"
    "l < length (ss_loops s) \<Longrightarrow> c \<in> set (std_conns s l) \<Longrightarrow> c < ss_next s \<and> sc_reading (ss_store s c) \<and> sc_loop (ss_store s c) = l"
    "c < ss_next s \<Longrightarrow> sc_loop (ss_store s c) < length (ss_loops s)"
    "c < ss_next s \<Longrightarrow> sc_reading (ss_store s c) \<Longrightarrow> c \<notin> set (std_conns s (sc_loop (ss_store s c))) \<Longrightarrow>
       sc_loop (ss_store s c) \<in> En \<and> sc_done (ss_store s c) = 0"
    "took W (about c (snd (ss_app s))) (if c < ss_next s then sc_wrote (ss_store s c) else [])"
    "late_run (std_stage s c) (about c (snd (ss_app s)))"
  using assms by (auto simp: std_ok_def)

lemma std_ok_mono: "std_ok W En s \<Longrightarrow> En \<subseteq> En' \<Longrightarrow> std_ok W En' s"
  unfolding std_ok_def by blast

text \<open>A step that concerns one connection that was accepted.\<close>

definition std_changed :: "('a \<times> happening list) stdserver \<Rightarrow> nat \<Rightarrow> stdconn \<Rightarrow> happening list \<Rightarrow> ('a \<times> happening list) stdserver \<Rightarrow> bool" where
  "std_changed s c k es t \<longleftrightarrow>
     ss_next t = ss_next s \<and> ss_store t = (ss_store s)(c := k) \<and> snd (ss_app t) = snd (ss_app s) @ es \<and>
     length (ss_loops t) = length (ss_loops s) \<and>
     (\<forall>l < length (ss_loops s). std_conns t l = (if sc_reading k \<or> l \<noteq> sc_loop k then std_conns s l else removeAll c (std_conns s l)))"

lemma std_ok_changed:
  assumes ok: "std_ok W En s" "c < ss_next s" "std_changed s c k es t"
    and k: "sc_loop k = sc_loop (ss_store s c)" "sc_reading k \<Longrightarrow> sc_reading (ss_store s c) \<and> c \<in> set (std_conns s (sc_loop k))"
      "\<And>x. x \<in> set es \<Longrightarrow> who x = c"
    and took: "took W (about c (snd (ss_app s)) @ es) (sc_wrote k)"
    and life: "late_run (if sc_reading k then Live else Over) (about c (snd (ss_app s)) @ es)"
  shows "std_ok W En t"
proof -
  note D = std_okD [OF ok(1)]
  have none: "about d es = []" if "d \<noteq> c" for d using k(3) that by (auto simp: about_def filter_empty_conv)
  have all: "about c es = es" using k(3) by (simp add: about_def)
  have t: "ss_next t = ss_next s" "ss_store t = (ss_store s)(c := k)" "snd (ss_app t) = snd (ss_app s) @ es"
    "length (ss_loops t) = length (ss_loops s)"
    "l < length (ss_loops s) \<Longrightarrow> std_conns t l = (if sc_reading k \<or> l \<noteq> sc_loop k then std_conns s l else removeAll c (std_conns s l))" for l
    using ok(3) by (simp_all add: std_changed_def)
  have lc: "sc_loop k < length (ss_loops s)" using D(3) [OF ok(2)] k(1) by simp
  have other: "d \<in> set (std_conns t l) \<longleftrightarrow> d \<in> set (std_conns s l)" if "l < length (ss_loops s)" "d \<noteq> c" for d l
    using t(5) [OF that(1)] that(2) by auto
  have here: "c \<in> set (std_conns t l) \<longleftrightarrow> sc_reading k \<and> l = sc_loop k" if "l < length (ss_loops s)" for l
    using t(5) [OF that] k(1,2) D(2) [OF that, of c] by auto
  have conns: "d < ss_next t \<and> sc_reading (ss_store t d) \<and> sc_loop (ss_store t d) = l" if "l < length (ss_loops s)" "d \<in> set (std_conns t l)" for l d
    using that t(1,2) ok(2) here [OF that(1)] other [OF that(1), of d] D(2) [OF that(1), of d] by (cases "d = c") auto
  have loops: "sc_loop (ss_store t d) < length (ss_loops t)" if "d < ss_next t" for d
    using that t(1,2,4) D(3) [of d] lc by auto
  have dropped: "sc_loop (ss_store t d) \<in> En \<and> sc_done (ss_store t d) = 0"
    if "d < ss_next t" "sc_reading (ss_store t d)" "d \<notin> set (std_conns t (sc_loop (ss_store t d)))" for d
    using that t(1,2) here [OF lc] other [OF D(3), of d d] D(4) [of d] by (cases "d = c") auto
  have stage: "std_stage t d = (if d = c then if sc_reading k then Live else Over else std_stage s d)" for d
    using t(1,2) here [OF lc] other [OF D(3), of d d] ok(2) by (auto simp: std_stage_def)
  have "took W (about d (snd (ss_app t))) (if d < ss_next t then sc_wrote (ss_store t d) else [])" for d
    using t(1-3) D(5) [of d] none all took ok(2) by (cases "d = c") auto
  moreover have "late_run (std_stage t d) (about d (snd (ss_app t)))" for d
    unfolding stage using t(3) D(6) [of d] none all life by (cases "d = c") auto
  ultimately show ?thesis
    using conns loops dropped D(1) t(4) unfolding std_ok_def by auto
qed

lemma std_ok_frame:
  assumes "ss_next t = ss_next s" "ss_store t = ss_store s" "snd (ss_app t) = snd (ss_app s)" "ss_loops t = ss_loops s"
  shows "std_ok W En t = std_ok W En s"
  using assms by (simp add: std_ok_def std_stage_def std_conns_def)

subsection \<open>Every step keeps them true\<close>

lemma wp_std_app [wp_simps]: "wp (std_app f) Q X s = (case f (ss_app s) of (b, a) \<Rightarrow> Q b (s\<lparr>ss_app := a\<rparr>))"
  by (simp add: wp_def std_app_def prod.case_eq_if)

lemma upd_sc_frame [simp]:
  "ss_store (upd_sc c f s) = (ss_store s)(c := f (ss_store s c))" "ss_next (upd_sc c f s) = ss_next s"
  "ss_loops (upd_sc c f s) = ss_loops s" "ss_app (upd_sc c f s) = ss_app s" "std_conns (upd_sc c f s) l = std_conns s l"
  by (simp_all add: upd_sc_def std_conns_def)

lemma std_conns_frame [simp]:
  "std_conns (s\<lparr>ss_app := a\<rparr>) l = std_conns s l" "std_conns (s\<lparr>ss_datagrams := g\<rparr>) l = std_conns s l"
  "std_conns (s\<lparr>ss_delays := d\<rparr>) l = std_conns s l" "std_conns (s\<lparr>ss_accepted := n\<rparr>) l = std_conns s l"
  "std_conns (s\<lparr>ss_store := st\<rparr>) l = std_conns s l" "std_conns (s\<lparr>ss_next := m\<rparr>) l = std_conns s l"
  by (simp_all add: std_conns_def)

lemma upd_sl_frame [simp]:
  "ss_store (upd_sl l f s) = ss_store s" "ss_next (upd_sl l f s) = ss_next s" "ss_app (upd_sl l f s) = ss_app s"
  "length (ss_loops (upd_sl l f s)) = length (ss_loops s)"
  "l < length (ss_loops s) \<Longrightarrow> std_conns (upd_sl l f s) j = (if j = l then f (std_conns s l) else std_conns s j)"
  by (simp_all add: upd_sl_def std_conns_def)

text \<open>An answer: it is written, and its action may end the connection.\<close>

lemma std_answer:
  fixes s :: "('a \<times> happening list) stdserver"
  assumes ok: "\<And>(t :: ('a \<times> happening list) stdserver) k. ss_next t = ss_next s \<Longrightarrow> ss_store t = (ss_store s)(c := k) \<Longrightarrow> snd (ss_app t) = snd (ss_app s) \<Longrightarrow>
      ss_loops t = ss_loops s \<Longrightarrow> sc_wrote k = sc_wrote (ss_store s c) @ take (n out) out \<Longrightarrow> sc_loop k = sc_loop (ss_store s c) \<Longrightarrow>
      sc_reading k = sc_reading (ss_store s c) \<Longrightarrow> std_ok W En t"
  shows "keeps_std W En s (seq (std_write (logged E) n c out) (\<lambda>_. std_action c action))"
proof -
  have act: "keeps_std W En t (std_action c action)"
    if t: "ss_next t = ss_next s" "ss_store t = (ss_store s)(c := k)" "snd (ss_app t) = snd (ss_app s)" "ss_loops t = ss_loops s"
      "sc_wrote k = sc_wrote (ss_store s c) @ take (n out) out" "sc_loop k = sc_loop (ss_store s c)" "sc_reading k = sc_reading (ss_store s c)" for t :: "('a \<times> happening list) stdserver" and k
  proof -
    have "std_ok W En t" by (rule ok [OF t])
    moreover have "std_ok W En (upd_sc c (\<lambda>k. k\<lparr>sc_done := d, sc_deadline := True\<rparr>) t)" for d
      by (rule ok [where k = "k\<lparr>sc_done := d, sc_deadline := True\<rparr>"]) (use t in auto)
    ultimately show ?thesis
      by (cases action) (simp_all add: std_action_def stdloopClose_def stdloopDetach_def wp_simps)
  qed
  show ?thesis
  proof (cases "out = []")
    case True
    then show ?thesis using act [of s "ss_store s c"] by (simp add: std_write_def wp_simps)
  next
    case False
    let ?k = "(ss_store s c)\<lparr>sc_wrote := sc_wrote (ss_store s c) @ take (n out) out\<rparr>"
    let ?w = "upd_sc c (\<lambda>k. k\<lparr>sc_wrote := sc_wrote k @ take (n out) out\<rparr>)"
    show ?thesis
      using False act [of "?w s" ?k] act [of "?w (s\<lparr>ss_app := (a, snd (ss_app s))\<rparr>)" ?k for a]
      by (simp add: std_write_def std_PreWrite_def wp_simps split: option.split)
  qed
qed

lemma std_changed_loops: "ss_loops t = ss_loops s \<Longrightarrow> std_conns t l = std_conns s l"
  by (simp add: std_conns_def)

text \<open>What a change of a connection that is not dropped has to keep, when its reader goes on as it did.\<close>

lemma std_ok_same:
  fixes s t :: "('a \<times> happening list) stdserver"
  assumes "std_ok W En s" "c < ss_next s" "std_stage s c \<noteq> Waiting"
    and "ss_next t = ss_next s" "ss_store t = (ss_store s)(c := k)" "snd (ss_app t) = snd (ss_app s) @ es" "ss_loops t = ss_loops s"
    and "sc_loop k = sc_loop (ss_store s c)" "sc_reading k = sc_reading (ss_store s c)" "\<And>x. x \<in> set es \<Longrightarrow> who x = c"
    and "took W (about c (snd (ss_app s)) @ es) (sc_wrote k)" "late_run (std_stage s c) (about c (snd (ss_app s)) @ es)"
  shows "std_ok W En t"
proof (rule std_ok_changed [OF assms(1,2), of k es])
  show "sc_loop k = sc_loop (ss_store s c)" "\<And>x. x \<in> set es \<Longrightarrow> who x = c" "took W (about c (snd (ss_app s)) @ es) (sc_wrote k)"
    using assms(8,10,11) by blast+
  have "c \<notin> set (std_conns s l)" if "\<not> sc_reading k" "l < length (ss_loops s)" for l
    using std_okD(2) [OF assms(1) that(2), of c] that(1) assms(9) by auto
  then show "std_changed s c k es t"
    using assms(4-7) by (auto simp: std_changed_def std_changed_loops [OF assms(7)] removeAll_id)
  show "sc_reading (ss_store s c) \<and> c \<in> set (std_conns s (sc_loop k))" if "sc_reading k"
    using that assms(2,3,8,9) by (auto simp: std_stage_def split: if_splits)
  then show "late_run (if sc_reading k then Live else Over) (about c (snd (ss_app s)) @ es)"
    using assms(2,8,9,12) by (auto simp: std_stage_def split: if_splits)
qed

text \<open>Data or a wake, also after the end of the connection.\<close>

lemma stdloopRead_std:
  fixes s :: "('a \<times> happening list) stdserver"
  assumes "std_ok W En s" "c < ss_next s" "std_stage s c = Live \<or> std_stage s c = Over \<and> bs = []" "has_handlers E" "W n"
  shows "keeps_std W En s (stdloopRead (logged E) n c bs)"
proof -
  note D = std_okD(5,6) [OF assms(1), of c]
  have nw: "std_stage s c \<noteq> Waiting" using assms(3) by auto
  have kept: "std_ok W En (upd_sc c (\<lambda>k. k\<lparr>sc_donein := sc_donein k @ bs\<rparr>) s)"
    by (rule std_ok_same [OF assms(1,2) nw, of _ "(ss_store s c)\<lparr>sc_donein := sc_donein (ss_store s c) @ bs\<rparr>" "[]"])
      (use D assms(2) in auto)
  have run: "late_run (std_stage s c) (about c (snd (ss_app s)) @ [Receiving c bs out])" for out
    using D(2) assms(3) late_run_step [of Live _ "[Receiving c bs out]" Live] late_run_late [of _ "[Receiving c bs out]"] by auto
  have took: "took W (about c (snd (ss_app s)) @ [Receiving c bs out]) (sc_wrote (ss_store s c) @ take (n out) out)" for out
    using took.wrote [OF D(1) assms(5), of "Receiving c bs out"] assms(2) by simp
  have answered: "keeps_std W En (s\<lparr>ss_app := (a, snd (ss_app s) @ [Receiving c bs out])\<rparr>)
      (seq (std_write (logged E) n c out) (\<lambda>_. std_action c action))" for a out action
  proof (rule std_answer)
    let ?s = "s\<lparr>ss_app := (a, snd (ss_app s) @ [Receiving c bs out])\<rparr>"
    show "std_ok W En t" if "ss_next t = ss_next ?s" "ss_store t = (ss_store ?s)(c := k)" "snd (ss_app t) = snd (ss_app ?s)"
      "ss_loops t = ss_loops ?s" "sc_wrote k = sc_wrote (ss_store ?s c) @ take (n out) out" "sc_loop k = sc_loop (ss_store ?s c)"
      "sc_reading k = sc_reading (ss_store ?s c)" for t :: "('a \<times> happening list) stdserver" and k
      by (rule std_ok_same [OF assms(1,2) nw, where es = "[Receiving c bs out]" and k = k]) (use that run took in auto)
  qed
  show ?thesis
    using kept answered assms(4) unfolding stdloopRead_def
    by (auto simp: has_handlers_def wp_simps tell_def split: prod.split)
qed

text \<open>The end of a reader: its connection is closed or detached, also one that was dropped.\<close>

lemma stdloopError_std:
  fixes s :: "('a \<times> happening list) stdserver"
  assumes "std_ok W En s" "c < ss_next s" "l = sc_loop (ss_store s c)" "has_handlers E"
    and "sc_reading (ss_store s c)" "s' = upd_sc c (\<lambda>k. k\<lparr>sc_deadline := False, sc_reading := False\<rparr>) s"
  shows "wp (stdloopError (logged E) l c err) (\<lambda>_ t. std_ok W En t \<and> length (ss_loops t) = length (ss_loops s)) (\<lambda>_ _. False) s'"
proof -
  note D = std_okD(5,6) [OF assms(1), of c]
  have l: "l < length (ss_loops s)" using std_okD(3) [OF assms(1,2)] assms(3) by simp
  have dropped: "sc_done (ss_store s c) = 0" if "std_stage s c \<noteq> Live"
    using that assms(2,5) std_okD(4) [OF assms(1,2)] by (auto simp: std_stage_def split: if_splits)
  have nov: "std_stage s c \<noteq> Over" using assms(2,5) by (simp add: std_stage_def)
  have over: "std_ok W En t"
    if t: "ss_next t = ss_next s" "ss_store t = (ss_store s)(c := k)" "snd (ss_app t) = snd (ss_app s) @ [e]"
      "ss_loops t = ss_loops (upd_sl l (removeAll c) s)" "sc_wrote k = sc_wrote (ss_store s c)" "sc_loop k = l" "\<not> sc_reading k"
      "e = Detaching c \<and> std_stage s c = Live \<or> (\<exists>x. e = Closing c x)" for t :: "('a \<times> happening list) stdserver" and k e
  proof (rule std_ok_changed [OF assms(1,2), of k "[e]"])
    have e: "who e = c" "answer e = []" "life_step (std_stage s c) e = Some Over"
      using t(8) nov by (cases "std_stage s c"; auto)+
    then show "late_run (if sc_reading k then Live else Over) (about c (snd (ss_app s)) @ [e])"
      using late_run_step [OF D(2) nov, of "[e]" Over] t(7) by simp
    show "took W (about c (snd (ss_app s)) @ [e]) (sc_wrote k)" using took.silent [OF D(1) e(2)] t(5) assms(2) by simp
    show "\<And>x. x \<in> set [e] \<Longrightarrow> who x = c" using e(1) by simp
    have "std_conns t j = std_conns (upd_sl l (removeAll c) s) j" for j using t(4) by (simp add: std_conns_def)
    then show "std_changed s c k [e] t" using t l by (simp add: std_changed_def)
  qed (use t assms(3) in simp_all)
  have loops: "ss_loops (upd_sl l (removeAll c) (upd_sc c f s)) = ss_loops (upd_sl l (removeAll c) s)" for f
    by (simp add: upd_sl_def)
  let ?u = "upd_sl l (removeAll c) s'"
  have detached: "std_ok W En (?u\<lparr>ss_app := (a, snd (ss_app s) @ [Detaching c])\<rparr>)" if "std_stage s c = Live" for a
    by (rule over [where e = "Detaching c" and k = "(ss_store s c)\<lparr>sc_deadline := False, sc_reading := False\<rparr>"])
      (use that assms(3,6) loops in auto)
  have closed: "std_ok W En (upd_sc c (\<lambda>k. k\<lparr>sc_open := False\<rparr>) ?u\<lparr>ss_app := (a, snd (ss_app s) @ [Closing c x])\<rparr>)" for a x
    by (rule over [where e = "Closing c x" and k = "(ss_store s c)\<lparr>sc_deadline := False, sc_reading := False, sc_open := False\<rparr>"])
      (use assms(3,6) loops in auto)
  have s': "ss_app s' = ss_app s" "length (ss_loops s') = length (ss_loops s)" "sc_done (ss_store s' c) = sc_done (ss_store s c)"
    using assms(6) by simp_all
  have "std_stage s c = Live" if "sc_done (ss_store s c) \<noteq> 0" using dropped that by blast
  then show ?thesis
    using assms(4) detached closed
    by (auto simp: stdloopError_def has_handlers_def std_Closed_def std_shut_def wp_simps Let_def tell_def s' split: prod.split)
qed

lemma std_ok_joined:
  fixes s :: "('a \<times> happening list) stdserver"
  assumes ok: "std_ok W En s" "l < length (ss_loops s)"
    and t: "ss_next t = ss_next s + 1" "ss_store t = (ss_store s)(ss_next s := k)" "snd (ss_app t) = snd (ss_app s) @ es"
      "length (ss_loops t) = length (ss_loops s)"
      "\<And>j. j < length (ss_loops s) \<Longrightarrow> std_conns t j = (if j = l \<and> es \<noteq> [] then ss_next s # std_conns s l else std_conns s j)"
    and k: "sc_loop k = l" "sc_reading k" "took W es (sc_wrote k)"
    and es: "es = [] \<and> l \<in> En \<and> sc_done k = 0 \<or> (\<exists>out. es = [Opening (ss_next s) out])"
  shows "std_ok W En t"
proof -
  note D = std_okD [OF ok(1)]
  let ?c = "ss_next s"
  have new: "?c \<notin> set (std_conns s j)" if "j < length (ss_loops s)" for j using D(2) [OF that, of ?c] by auto
  have none: "about ?c (snd (ss_app s)) = []"
    using D(6) [of ?c] late_run_Waiting by (simp add: std_stage_def)
  have ab: "about d es = (if d = ?c then es else [])" for d using es by auto
  have conns: "d < ss_next t \<and> sc_reading (ss_store t d) \<and> sc_loop (ss_store t d) = j" if "j < length (ss_loops s)" "d \<in> set (std_conns t j)" for j d
    using that(2) t(1,2) t(5) [OF that(1)] D(2) [OF that(1), of d] k(1,2) by (cases "d = ?c") (auto split: if_splits)
  have loops: "sc_loop (ss_store t d) < length (ss_loops t)" if "d < ss_next t" for d
    using that t(1,2,4) D(3) [of d] k(1) ok(2) by (auto simp: less_Suc_eq)
  have mem: "d \<in> set (std_conns t j) \<longleftrightarrow> (if d = ?c then j = l \<and> es \<noteq> [] else d \<in> set (std_conns s j))" if "j < length (ss_loops s)" for d j
    using t(5) [OF that] new [OF that] by auto
  have dropped: "sc_loop (ss_store t d) \<in> En \<and> sc_done (ss_store t d) = 0"
    if "d < ss_next t" "sc_reading (ss_store t d)" "d \<notin> set (std_conns t (sc_loop (ss_store t d)))" for d
  proof (cases "d = ?c")
    case True
    then show ?thesis using that(3) t(2) mem [OF ok(2), of d] k(1) es by auto
  next
    case False
    then have "d < ss_next s" using that(1) t(1) by simp
    then show ?thesis using that t(2) mem [OF D(3), of d d] D(4) [of d] False by auto
  qed
  have stage: "std_stage t d = (if d = ?c then if es = [] then Waiting else Live else std_stage s d)" for d
  proof (cases "d < ?c")
    case True
    then show ?thesis using t(1,2) mem [OF D(3), of d d] by (simp add: std_stage_def)
  next
    case False
    then show ?thesis using t(1,2) mem [OF ok(2), of d] k(1,2) by (auto simp: std_stage_def)
  qed
  have "took W (about d (snd (ss_app t))) (if d < ss_next t then sc_wrote (ss_store t d) else [])" for d
    using t(1-3) D(5) [of d] k(3) none ab by (auto simp: less_Suc_eq)
  moreover have "late_run (std_stage t d) (about d (snd (ss_app t)))" for d
    unfolding stage using t(3) D(6) [of d] none ab es late_run_Nil late_run_step [OF late_run_Nil, of es Live] by auto
  ultimately show ?thesis using conns loops dropped D(1) t(4) unfolding std_ok_def by auto
qed

lemma stdloopAccept_std:
  fixes s :: "('a \<times> happening list) stdserver"
  assumes "std_ok W En s" "l < length (ss_loops s)" "has_handlers E" "W n"
    and s1: "ss_next s1 = ss_next s + 1" "ss_store s1 = (ss_store s)(ss_next s := new_stdconn peer l lnidx)" "ss_app s1 = ss_app s"
      "ss_loops s1 = ss_loops s"
  shows "wp (stdloopAccept (logged E) n l (ss_next s)) (\<lambda>_ t. std_ok W En t \<and> length (ss_loops t) = length (ss_loops s)) (\<lambda>_ _. False) s1"
proof -
  let ?c = "ss_next s"
  let ?f = "\<lambda>k. k\<lparr>sc_addrIndex := sc_lnidx k, sc_localAddr := ln_lnaddr (si_lns E ! sc_lnidx k), sc_remoteAddr := sc_peer k\<rparr>"
  let ?s2 = "upd_sc ?c ?f (upd_sl l (\<lambda>cs. if ?c \<in> set cs then cs else ?c # cs) s1)"
  have fresh: "?c \<notin> set (std_conns s l)" using std_okD(2) [OF assms(1,2), of ?c] by auto
  have c1: "std_conns s1 j = std_conns s j" for j using s1(4) by (simp add: std_conns_def)
  have s2: "ss_next ?s2 = ?c + 1" "ss_store ?s2 = (ss_store s)(?c := ?f (new_stdconn peer l lnidx))" "ss_app ?s2 = ss_app s"
    "length (ss_loops ?s2) = length (ss_loops s)"
    "\<And>j. j < length (ss_loops s) \<Longrightarrow> std_conns ?s2 j = (if j = l then ?c # std_conns s l else std_conns s j)"
    using assms(2) fresh s1 c1 by simp_all
  have answered: "wp (seq (std_write (logged E) n ?c out) (\<lambda>_. std_action ?c action))
      (\<lambda>_ t. std_ok W En t \<and> length (ss_loops t) = length (ss_loops (?s2\<lparr>ss_app := (a, snd (ss_app s) @ [Opening ?c out])\<rparr>))) (\<lambda>_ _. False)
      (?s2\<lparr>ss_app := (a, snd (ss_app s) @ [Opening ?c out])\<rparr>)" for a out action
  proof (rule std_answer)
    fix t :: "('a \<times> happening list) stdserver" and k
    let ?s3 = "?s2\<lparr>ss_app := (a, snd (ss_app s) @ [Opening ?c out])\<rparr>"
    assume t: "ss_next t = ss_next ?s3" "ss_store t = (ss_store ?s3)(?c := k)" "snd (ss_app t) = snd (ss_app ?s3)"
      "ss_loops t = ss_loops ?s3" "sc_wrote k = sc_wrote (ss_store ?s3 ?c) @ take (n out) out" "sc_loop k = sc_loop (ss_store ?s3 ?c)"
      "sc_reading k = sc_reading (ss_store ?s3 ?c)"
    show "std_ok W En t"
    proof (rule std_ok_joined [OF assms(1,2), where es = "[Opening ?c out]"])
      have "std_conns t j = std_conns ?s2 j" for j using t(4) by (simp add: std_conns_def)
      then show "std_conns t j = (if j = l \<and> [Opening ?c out] \<noteq> [] then ?c # std_conns s l else std_conns s j)" if "j < length (ss_loops s)" for j
        using s2(5) [OF that] by simp
      show "ss_next t = ?c + 1" "ss_store t = (ss_store s)(?c := k)" "snd (ss_app t) = snd (ss_app s) @ [Opening ?c out]"
        "sc_loop k = l" "sc_reading k"
        using t(1-3,6,7) s1 by (simp_all add: new_stdconn_def)
      show "took W [Opening ?c out] (sc_wrote k)"
        using took.wrote [of W "[]" "[]" n "Opening ?c out", OF took.none assms(4)] t(5) s1(2) by (simp add: new_stdconn_def)
      show "length (ss_loops t) = length (ss_loops s)" using t(4) s2(4) by simp
    qed simp
  qed
  show ?thesis
    using answered assms(3) s2(3,4) unfolding stdloopAccept_def
    by (auto simp: has_handlers_def wp_simps tell_def simp del: upd_sc_frame upd_sl_frame split: prod.split)
qed

lemma tick_std:
  fixes s :: "('a \<times> happening list) stdserver"
  assumes "std_ok W En s" "ev_Tick (si_events E) \<noteq> None"
  shows "keeps_std W En s (std_tick (logged E))"
proof -
  have same: "std_ok W En t" if "ss_next t = ss_next s" "ss_store t = ss_store s" "snd (ss_app t) = snd (ss_app s)" "ss_loops t = ss_loops s"
    for t :: "('a \<times> happening list) stdserver"
    using assms(1) std_ok_frame [OF that] by simp
  show ?thesis using assms(2) by (auto simp: std_tick_def wp_simps tell_def intro!: same split: prod.split)
qed

lemma udp_std:
  fixes s :: "('a \<times> happening list) stdserver"
  assumes "std_ok W En s"
  shows "keeps_std W En s (stdloopReadUDP (logged E) u)"
proof -
  have same: "std_ok W En t" if "ss_next t = ss_next s" "ss_store t = ss_store s" "snd (ss_app t) = snd (ss_app s)" "ss_loops t = ss_loops s"
    for t :: "('a \<times> happening list) stdserver"
    using assms std_ok_frame [OF that] by simp
  show ?thesis
    by (auto simp: stdloopReadUDP_def std_PreWrite_def wp_simps tell_def assms intro!: same split: option.split prod.split)
qed

text \<open>Closing a connection of a loop, and all of them at the end.\<close>

lemma close_std:
  fixes s :: "('a \<times> happening list) stdserver"
  assumes "std_ok W En s" "l < length (ss_loops s)" "c \<in> set (std_conns s l)"
  shows "wp (stdloopClose c) (\<lambda>_ t. std_ok W En t \<and> ss_loops t = ss_loops s) (\<lambda>_ _. False) s"
proof -
  note C = std_okD(2) [OF assms]
  have "std_stage s c = Live" using C assms(3) by (simp add: std_stage_def)
  then have "std_ok W En (upd_sc c (\<lambda>k. k\<lparr>sc_done := 1, sc_deadline := True\<rparr>) s)"
    using C std_okD(5,6) [OF assms(1), of c]
    by (intro std_ok_same [OF assms(1), of c _ "(ss_store s c)\<lparr>sc_done := 1, sc_deadline := True\<rparr>" "[]"]) auto
  then show ?thesis by (simp add: stdloopClose_def wp_simps)
qed

lemma close_all_std:
  fixes s :: "('a \<times> happening list) stdserver"
  assumes "std_ok W En s" "l < length (ss_loops s)" "set cs \<subseteq> set (std_conns s l)"
  shows "keeps_std W En s (for_each (\<lambda>c. seq (stdloopClose c) (\<lambda>_. ret ())) cs)"
  using assms
proof (induction cs arbitrary: s)
  case (Cons c cs)
  have c: "wp (stdloopClose c) (\<lambda>_ t. std_ok W En t \<and> ss_loops t = ss_loops s) (\<lambda>_ _. False) s"
    using Cons.prems by (intro close_std) auto
  show ?case
    unfolding for_each.simps wp_seq
  proof (rule wp_mono [OF c], goal_cases)
    case (1 u t)
    then show ?case using Cons.IH [of t] Cons.prems(2,3) by (simp add: wp_simps std_changed_loops [of t s])
  qed simp
qed (simp add: wp_simps)

subsection \<open>Reachable states\<close>

text \<open>
  A message is taken by its loop. A loop that meets an error ends and signals the server; from then on it
  only deals with errors of readers and with the call to close its connections. \<open>n\<close> says how many bytes of the
  answer the connection takes.
\<close>

definition std_after :: "nat \<Rightarrow> nat set \<Rightarrow> (panic + loop_error option) \<times> 'a stdserver \<Rightarrow> nat set \<times> 'a stdserver" where
  "std_after l En r =
     (case r of (Inr (Some e), t) \<Rightarrow> (insert l En, std_signalShutdown (Some e) t) | (_, t) \<Rightarrow> (En, t))"

definition std_take :: "'a Site \<Rightarrow> (u8 list \<Rightarrow> nat) \<Rightarrow> nat set \<Rightarrow> (nat \<times> stdmsg) option \<Rightarrow> 'a stdserver \<Rightarrow> nat set \<times> 'a stdserver" where
  "std_take E n En m s =
     (case m of
        None \<Rightarrow> (En, s)
      | Some (l, msg) \<Rightarrow>
          if l \<in> En then (En, snd (egress_msg E l False msg s)) else std_after l En (std_msg E n l msg s))"

text \<open>
  Listeners that accept, get datagrams or fail, readers, wakes, errors sent to loops and ticks, in any order.
  A wake comes for a connection its user has been told of, also after its end. Ticks come to the first
  loop while it runs. \<open>W\<close> restricts what writes take.
\<close>

inductive std_reach :: "'a Site \<Rightarrow> ((u8 list \<Rightarrow> nat) \<Rightarrow> bool) \<Rightarrow> 'a \<Rightarrow> nat set \<Rightarrow> ('a \<times> happening list) stdserver \<Rightarrow> bool"
  for E :: "'a Site" and W :: "(u8 list \<Rightarrow> nat) \<Rightarrow> bool" and a :: 'a where
  started: "stdserve_start (logged E) cpus (a, []) = Some s \<Longrightarrow> 0 < cpus \<Longrightarrow> std_reach E W a {} s"
| accepting: "std_reach E W a En s \<Longrightarrow> stdlistener_tcp lnidx res s = (Inr m, s') \<Longrightarrow> W n \<Longrightarrow>
    std_take (logged E) n En m s' = (En', t) \<Longrightarrow> std_reach E W a En' t"
| datagram: "std_reach E W a En s \<Longrightarrow> stdlistener_udp (logged E) lnidx dg s = (Inr m, s') \<Longrightarrow> W n \<Longrightarrow>
    std_take (logged E) n En m s' = (En', t) \<Longrightarrow> std_reach E W a En' t"
| reading: "std_reach E W a En s \<Longrightarrow> c < ss_next s \<Longrightarrow> sc_reading (ss_store s c) \<Longrightarrow> std_reader c got s = (Inr msg, s') \<Longrightarrow> W n \<Longrightarrow>
    std_take (logged E) n En (Some msg) s' = (En', t) \<Longrightarrow> std_reach E W a En' t"
| woken: "std_reach E W a En s \<Longrightarrow> about c (snd (ss_app s)) \<noteq> [] \<Longrightarrow> W n \<Longrightarrow>
    std_take (logged E) n En (Some (std_Wake c s)) s = (En', t) \<Longrightarrow> std_reach E W a En' t"
| told: "std_reach E W a En s \<Longrightarrow> l < length (ss_loops s) \<Longrightarrow>
    std_take (logged E) n En (Some (l, MsgError v)) s = (En', t) \<Longrightarrow> std_reach E W a En' t"
| ticked: "std_reach E W a En s \<Longrightarrow> ev_Tick (si_events E) \<noteq> None \<Longrightarrow> 0 \<notin> En \<Longrightarrow>
    std_after 0 En (std_tick (logged E) s) = (En', t) \<Longrightarrow> std_reach E W a En' t"

lemma std_ok_signal [simp]: "std_ok W En (std_signalShutdown err s) = std_ok W En s"
  by (rule std_ok_frame) (simp_all add: std_signalShutdown_def)

lemma std_after_ok:
  assumes "wp m (\<lambda>_ t. std_ok W En t \<and> k = length (ss_loops t)) (\<lambda>_ _. False) s" "std_after l En (m s) = (En', t)"
  shows "std_ok W En' t"
proof -
  obtain e u where "m s = (Inr e, u)" "std_ok W En u" using assms(1) by (auto simp: wp_def split: prod.splits sum.splits)
  then show ?thesis
    using assms(2) std_ok_mono [OF _ subset_insertI, of W En u l] by (cases e) (auto simp: std_after_def)
qed

lemma told_of: "std_ok W En s \<Longrightarrow> about c (snd (ss_app s)) \<noteq> [] \<Longrightarrow> c < ss_next s \<and> std_stage s c \<noteq> Waiting"
  using std_okD(6) [of W En s c] late_run_Waiting by (fastforce simp: std_stage_def split: if_splits)

lemma accepting_std:
  fixes s :: "('a \<times> happening list) stdserver"
  assumes "std_ok W En s" "stdlistener_tcp lnidx res s = (Inr m, s')" "W n" "std_take (logged E) n En m s' = (En', t)" "has_handlers E"
  shows "std_ok W En' t"
proof (cases res)
  case (Inl e)
  then show ?thesis using assms(1,2,4) by (auto simp: stdlistener_tcp_def run_simps std_take_def)
next
  case (Inr peer)
  let ?l = "Suc (ss_accepted s) mod length (ss_loops s)"
  let ?s1 = "s\<lparr>ss_accepted := ss_accepted s + 1, ss_store := (ss_store s)(ss_next s := new_stdconn peer ?l lnidx), ss_next := ss_next s + 1\<rparr>"
  have l: "?l < length (ss_loops s)" using std_okD(1) [OF assms(1)] by simp
  have m: "m = Some (?l, MsgConn (ss_next s))" "s' = ?s1"
    using assms(2) by (auto simp: stdlistener_tcp_def Inr next_loop_def run_simps)
  show ?thesis
  proof (cases "?l \<in> En")
    case True
    then have "En' = En" "t = ?s1" using assms(4) m by (auto simp: std_take_def egress_msg_def run_simps)
    then show ?thesis
      using True took.none by (auto intro!: std_ok_joined [OF assms(1) l, where es = "[]"] simp: new_stdconn_def)
  next
    case False
    have "wp (stdloopAccept (logged E) n ?l (ss_next s)) (\<lambda>_ t. std_ok W En t \<and> length (ss_loops t) = length (ss_loops s)) (\<lambda>_ _. False) ?s1"
      by (rule stdloopAccept_std [OF assms(1) l assms(5,3)]) simp_all
    then have "wp (stdloopAccept (logged E) n ?l (ss_next s)) (\<lambda>_ t. std_ok W En t \<and> length (ss_loops s) = length (ss_loops t)) (\<lambda>_ _. False) ?s1"
      by (rule wp_mono) auto
    then show ?thesis by (rule std_after_ok) (use False assms(4) m in \<open>simp add: std_take_def std_msg_def\<close>)
  qed
qed

lemma keeps_std_sym: "keeps_std W En s m \<Longrightarrow> wp m (\<lambda>_ t. std_ok W En t \<and> length (ss_loops s) = length (ss_loops t)) (\<lambda>_ _. False) s"
  by (erule wp_mono) auto

lemma datagram_std:
  fixes s :: "('a \<times> happening list) stdserver"
  assumes "std_ok W En s" "stdlistener_udp (logged E) lnidx dg s = (Inr m, s')" "std_take (logged E) n En m s' = (En', t)"
  shows "std_ok W En' t"
proof (cases dg)
  case (Inl e)
  then show ?thesis using assms by (auto simp: stdlistener_udp_def run_simps std_take_def)
next
  case (Inr p)
  then obtain l u where m: "m = Some (l, MsgUDP u)" "s' = s\<lparr>ss_accepted := ss_accepted s + 1\<rparr>"
    using assms(2) by (cases p) (auto simp: stdlistener_udp_def next_loop_def run_simps)
  have s': "std_ok W En s'" using assms(1) std_ok_frame [of s' s] m(2) by simp
  show ?thesis
  proof (cases "l \<in> En")
    case True
    then show ?thesis using s' assms(3) m(1) by (auto simp: std_take_def egress_msg_def run_simps)
  next
    case False
    show ?thesis
      by (rule std_after_ok [OF keeps_std_sym [OF udp_std [OF s']]]) (use False assms(3) m(1) in \<open>simp add: std_take_def std_msg_def\<close>)
  qed
qed

lemma reading_std:
  fixes s :: "('a \<times> happening list) stdserver"
  assumes "std_ok W En s" "c < ss_next s" "sc_reading (ss_store s c)" "std_reader c got s = (Inr msg, s')" "W n"
    "std_take (logged E) n En (Some msg) s' = (En', t)" "has_handlers E"
  shows "std_ok W En' t"
proof (cases got)
  case (Inl err)
  let ?l = "sc_loop (ss_store s c)"
  have m: "msg = (?l, MsgStderr c err)" "s' = upd_sc c (\<lambda>k. k\<lparr>sc_deadline := False, sc_reading := False\<rparr>) s"
    using assms(4) by (auto simp: std_reader_def Inl run_simps)
  note e = stdloopError_std [OF assms(1,2) refl assms(7,3) m(2), of err]
  show ?thesis
  proof (cases "?l \<in> En")
    case True
    have "wp (egress_msg (logged E) ?l False (MsgStderr c err)) (\<lambda>_ t. std_ok W En t \<and> length (ss_loops t) = length (ss_loops s)) (\<lambda>_ _. False) s'"
      unfolding egress_msg_def stdmsg.case wp_seq by (rule wp_mono [OF e]) (simp_all add: wp_simps)
    then have "std_ok W En (snd (egress_msg (logged E) ?l False (MsgStderr c err) s'))"
      by (auto simp: wp_def split: prod.splits sum.splits)
    then show ?thesis using True assms(6) m(1) by (auto simp: std_take_def)
  next
    case False
    have "wp (std_msg (logged E) n ?l (MsgStderr c err)) (\<lambda>_ t. std_ok W En t \<and> length (ss_loops s) = length (ss_loops t)) (\<lambda>_ _. False) s'"
      unfolding std_msg_def stdmsg.case by (rule wp_mono [OF e]) auto
    then show ?thesis by (rule std_after_ok) (use False assms(6) m(1) in \<open>simp add: std_take_def\<close>)
  qed
next
  case (Inr bs)
  have m: "msg = (sc_loop (ss_store s c), MsgIn c bs)" "s' = s" using assms(4) by (auto simp: std_reader_def Inr run_simps)
  show ?thesis
  proof (cases "sc_loop (ss_store s c) \<in> En")
    case True
    then show ?thesis using assms(1,6) m by (auto simp: std_take_def egress_msg_def run_simps)
  next
    case False
    then have "std_stage s c = Live" using assms(2,3) std_okD(4) [OF assms(1)] by (auto simp: std_stage_def)
    then have "keeps_std W En s (stdloopRead (logged E) n c bs)"
      by (intro stdloopRead_std [OF assms(1,2) _ assms(7,5)]) simp
    from std_after_ok [OF keeps_std_sym [OF this]] show ?thesis using False assms(6) m by (simp add: std_take_def std_msg_def)
  qed
qed

lemma woken_std:
  fixes s :: "('a \<times> happening list) stdserver"
  assumes "std_ok W En s" "about c (snd (ss_app s)) \<noteq> []" "W n" "std_take (logged E) n En (Some (std_Wake c s)) s = (En', t)" "has_handlers E"
  shows "std_ok W En' t"
proof (cases "sc_loop (ss_store s c) \<in> En")
  case True
  then show ?thesis using assms(1,4) by (auto simp: std_take_def std_Wake_def egress_msg_def run_simps)
next
  case False
  have c: "c < ss_next s" "std_stage s c \<noteq> Waiting" using told_of [OF assms(1,2)] by simp_all
  then have "keeps_std W En s (stdloopRead (logged E) n c [])"
    by (intro stdloopRead_std [OF assms(1) c(1) _ assms(5,3)]) (cases "std_stage s c", auto)
  from std_after_ok [OF keeps_std_sym [OF this]] show ?thesis
    using False assms(4) by (simp add: std_take_def std_msg_def std_Wake_def)
qed

lemma told_std:
  fixes s :: "('a \<times> happening list) stdserver"
  assumes "std_ok W En s" "l < length (ss_loops s)" "std_take (logged E) n En (Some (l, MsgError v)) s = (En', t)"
  shows "std_ok W En' t"
proof (cases "l \<in> En")
  case True
  have "wp (for_each (\<lambda>c. seq (stdloopClose c) (\<lambda>_. ret ())) (sl_conns (ss_loops s ! l)))
      (\<lambda>_. wp (ret True) (\<lambda>_ t. std_ok W En t \<and> length (ss_loops t) = length (ss_loops s)) (\<lambda>_ _. False)) (\<lambda>_ _. False) s"
    by (rule wp_mono [OF close_all_std [OF assms(1,2)]]) (simp_all add: std_conns_def wp_simps)
  then have "keeps_std W En s (egress_msg (logged E) l False (MsgError v))"
    using assms(1) by (simp add: egress_msg_def wp_simps)
  then have "std_ok W En (snd (egress_msg (logged E) l False (MsgError v) s))"
    by (auto simp: wp_def split: prod.splits sum.splits)
  then show ?thesis using True assms(3) by (auto simp: std_take_def)
next
  case False
  then show ?thesis
    using assms(1,3) std_ok_mono [OF assms(1) subset_insertI, of l] by (auto simp: std_take_def std_msg_def std_after_def run_simps)
qed

lemma std_reach_ok:
  assumes "has_handlers E"
  shows "std_reach E W a En s \<Longrightarrow> std_ok W En s"
proof (induction rule: std_reach.induct)
  case (started cpus s)
  have "0 < num_loops cpus (ev_NumLoops (si_events E))" using started(2) by (simp add: num_loops_def)
  then have "ss_next s = 0" "snd (ss_app s) = []" "\<And>l. l < length (ss_loops s) \<Longrightarrow> std_conns s l = []" "0 < length (ss_loops s)"
    using started
    by (auto simp: stdserve_start_def new_stdserver_def logged_def tell_def std_conns_def Let_def split: option.splits prod.splits if_splits)
  then show ?case using took.none late_run_Nil by (simp add: std_ok_def std_stage_def)
next
  case (ticked En s En' t)
  show ?case by (rule std_after_ok [OF keeps_std_sym [OF tick_std [OF ticked.IH ticked.hyps(2)]] ticked.hyps(4)])
qed (blast intro: accepting_std datagram_std reading_std woken_std told_std assms)+

text \<open>
  C16. The server on the standard library keeps the same contract with its user as the event loops, for a server
  with all handlers: with any listeners, readers and wakes (for connections its user knows), loops that end
  and then drop what they are sent, and writes that take any part of an answer. What the handlers were
  told about a connection is a run of the same automaton, to the state in which the server has the
  connection; only wakes may follow it, once it is over. The connection has taken from each answer, in order,
  what its write took; when writes take all, exactly what the handlers answered. And when the loops
  have no connections left, each one ever accepted was opened once, and closed or detached once, except
  those that were dropped by a loop that had ended and that its user never heard of.
\<close>

theorem std_refines_life:
  assumes "has_handlers E" and "std_reach E W a En s"
  shows "late_run (std_stage s c) (about c (snd (ss_app s))) \<and>
    (c < ss_next s \<longrightarrow> took W (about c (snd (ss_app s))) (sc_wrote (ss_store s c)) \<and>
       (in_full W \<longrightarrow> said c (snd (ss_app s)) = sc_wrote (ss_store s c))) \<and>
    ((\<forall>l < length (ss_loops s). std_no_conns l s) \<and> c < ss_next s \<longrightarrow>
       late_run Over (about c (snd (ss_app s))) \<or> about c (snd (ss_app s)) = [] \<and> sc_loop (ss_store s c) \<in> En)"
proof -
  note D = std_okD [OF std_reach_ok [OF assms]]
  have took: "took W (about c (snd (ss_app s))) (sc_wrote (ss_store s c))" if "c < ss_next s" using D(5) [of c] that by simp
  have "late_run Over (about c (snd (ss_app s))) \<or> about c (snd (ss_app s)) = [] \<and> sc_loop (ss_store s c) \<in> En"
    if h: "\<forall>l < length (ss_loops s). std_no_conns l s" "c < ss_next s"
  proof (cases "sc_reading (ss_store s c)")
    case True
    have none: "c \<notin> set (std_conns s (sc_loop (ss_store s c)))"
      using h D(3) [OF h(2)] by (auto simp: std_no_conns_def std_conns_def)
    then have "std_stage s c = Waiting" using True h(2) by (simp add: std_stage_def)
    then show ?thesis using D(4) [OF h(2) True none] D(6) [of c] late_run_Waiting by simp
  next
    case False
    then show ?thesis using D(6) [of c] h(2) by (simp add: std_stage_def)
  qed
  then show ?thesis using D(6) [of c] took took_all [OF took] by (auto simp: said_about)
qed

subsection \<open>A connection in the standard library\<close>

definition std_demo_site :: "unit Site" where
  "std_demo_site = \<lparr>si_events =
     \<lparr>ev_NumLoops = 1, ev_LoadBalance = RandomBalance, ev_Serving = None,
      ev_Opened = Some (\<lambda>c k a. (([1, 2], \<lparr>o_TCPKeepAlive = 0, o_ReuseInputBuffer = False\<rparr>, DoNothing), a)),
      ev_Closed = Some (\<lambda>c k err a. (DoNothing, a)), ev_Detached = Some (\<lambda>c k d a. (DoNothing, a)), ev_PreWrite = None,
      ev_Data = Some (\<lambda>c k bs a. ((bs, DoNothing), a)), ev_Tick = None\<rparr>,
    si_lns = [\<lparr>ln_ln = Some TCPListener, ln_lnaddr = NilAddr, ln_udp = False, ln_reusePort = False, ln_file = False, ln_fd = 0,
       ln_network = ''tcp'', ln_addr = '':80''\<rparr>], si_zone = (\<lambda>_. None)\<rparr>"

text \<open>
  The server accepts a connection, its peer closes it, the user wakes it and the handler answers nothing;
  the loop is told to end, and the next connection is dropped.
\<close>

abbreviation full :: "u8 list \<Rightarrow> nat" where
  "full \<equiv> length"

definition std_demo1 :: "nat set \<times> (unit \<times> happening list) stdserver" where
  "std_demo1 = (case stdlistener_tcp 0 (Inr NilAddr) (new_stdserver ((), []) 1) of (Inr m, s) \<Rightarrow> std_take (logged std_demo_site) full {} m s
     | (Inl _, s) \<Rightarrow> ({}, s))"

definition std_demo2 :: "nat set \<times> (unit \<times> happening list) stdserver" where
  "std_demo2 = (case std_reader 0 (Inl EOF) (snd std_demo1) of (Inr m, s) \<Rightarrow> std_take (logged std_demo_site) full {} (Some m) s
     | (Inl _, s) \<Rightarrow> ({}, s))"

definition std_demo3 :: "nat set \<times> (unit \<times> happening list) stdserver" where
  "std_demo3 = std_take (logged std_demo_site) full {} (Some (std_Wake 0 (snd std_demo2))) (snd std_demo2)"

definition std_demo4 :: "nat set \<times> (unit \<times> happening list) stdserver" where
  "std_demo4 = std_take (logged std_demo_site) full {} (Some (0, MsgError ErrClosing)) (snd std_demo3)"

definition std_demo5 :: "nat set \<times> (unit \<times> happening list) stdserver" where
  "std_demo5 = (case stdlistener_tcp 0 (Inr NilAddr) (snd std_demo4) of (Inr m, s) \<Rightarrow> std_take (logged std_demo_site) full (fst std_demo4) m s
     | (Inl _, s) \<Rightarrow> ({}, s))"

lemma std_demo_runs:
  "isl (fst (stdlistener_tcp i (Inr peer) s)) = False" "isl (fst (std_reader c got s)) = False"
  by (simp_all add: stdlistener_tcp_def std_reader_def next_loop_def run_simps split: sum.split)

lemma std_demo12_facts:
  "fst std_demo1 = {}" "fst std_demo2 = {}"
  "ss_next (snd std_demo1) = 1" "sc_reading (ss_store (snd std_demo1) 0)" "snd (ss_app (snd std_demo2)) = [Opening 0 [1, 2], Closing 0 None]"
  by code_simp+

lemma std_demo3_facts: "fst std_demo3 = {}" "length (ss_loops (snd std_demo3)) = 1"
  by code_simp+

lemma std_demo5_facts:
  "(let s = snd std_demo5 in (length (ss_loops s), ss_next s, std_no_conns 0 s, sc_wrote (ss_store s 0), sc_loop (ss_store s 1), snd (ss_app s))) =
   (1, 2, True, [1, 2], 0, [Opening 0 [1, 2], Closing 0 None, Receiving 0 [] []])"
  by code_simp

lemma std_demo_reach: "std_reach std_demo_site (\<lambda>n. n = full) () (fst std_demo5) (snd std_demo5)"
proof -
  note r = std_reach.intros [where E = std_demo_site and W = "\<lambda>n. n = full" and a = "()"]
  have "std_reach std_demo_site (\<lambda>n. n = full) () {} (new_stdserver ((), []) 1)"
    by (rule r(1) [of 1]) (simp_all add: stdserve_start_def logged_def std_demo_site_def num_loops_def)
  then have "std_reach std_demo_site (\<lambda>n. n = full) () (fst std_demo1) (snd std_demo1)"
    using std_demo_runs(1) [of 0 NilAddr "new_stdserver ((), []) 1 :: (unit \<times> happening list) stdserver"] by (auto simp: std_demo1_def split: prod.split sum.split intro: r(2))
  then have "std_reach std_demo_site (\<lambda>n. n = full) () (fst std_demo2) (snd std_demo2)"
    using std_demo_runs(2) [of 0 "Inl EOF" "snd std_demo1"] std_demo12_facts(1,3,4) by (auto simp: std_demo2_def split: prod.split sum.split intro: r(4))
  then have "std_reach std_demo_site (\<lambda>n. n = full) () (fst std_demo3) (snd std_demo3)"
    using std_demo12_facts(2,5) by (auto simp: std_demo3_def intro!: r(5) [of "{}" "snd std_demo2" 0])
  then have "std_reach std_demo_site (\<lambda>n. n = full) () (fst std_demo4) (snd std_demo4)"
    using std_demo3_facts by (auto simp: std_demo4_def intro!: r(6) [of "{}" "snd std_demo3" 0])
  then show ?thesis
    using std_demo_runs(1) [of 0 NilAddr "snd std_demo4"] by (auto simp: std_demo5_def split: prod.split sum.split intro: r(2))
qed

lemma std_refines_life_witness:
  "late_run Over [Opening 0 [1, 2], Closing 0 None, Receiving 0 [] []] \<and> said 0 (snd (ss_app (snd std_demo5))) = [1, 2] \<and>
   0 \<in> fst std_demo5"
proof -
  have h: "has_handlers std_demo_site" by (simp add: has_handlers_def std_demo_site_def)
  have l: "\<forall>l < length (ss_loops (snd std_demo5)). std_no_conns l (snd std_demo5)" using std_demo5_facts by (simp add: Let_def)
  have f: "in_full (\<lambda>n. n = full)" by (simp add: in_full_def)
  from std_refines_life [OF h std_demo_reach, of 0] std_refines_life [OF h std_demo_reach, of 1]
  show ?thesis using l f std_demo5_facts by (auto simp: Let_def late_run_def)
qed

subsection \<open>Reading a detached connection\<close>

text \<open>Reads into buffers of any sizes; each comes with what a read of the connection would give.\<close>

fun sd_reads :: "(nat \<times> u8 list) list \<Rightarrow> stddetachedConn \<Rightarrow> u8 list \<times> u8 list \<times> stddetachedConn" where
  "sd_reads [] c = ([], [], c)"
| "sd_reads ((n, bs) # xs) c =
     (case sd_Read (Inr bs) n c of
        (Inr got, c') \<Rightarrow>
          (case sd_reads xs c' of (out, used, c'') \<Rightarrow> (got @ out, (if sd_in c = [] then bs else []) @ used, c''))
      | (Inl e, c') \<Rightarrow> ([], [], c'))"

text \<open>
  A detached connection loses nothing: what reads give, followed by what is kept, is what was kept
  at first followed by what the reads took from the connection.
\<close>

lemma sd_reads_all: "case sd_reads xs c of (out, used, c') \<Rightarrow> out @ sd_in c' = sd_in c @ used \<and> (sd_in c' \<noteq> [] \<longrightarrow> used = [])"
proof (induction xs arbitrary: c)
  case (Cons x xs)
  obtain n bs where x: "x = (n, bs)" by fastforce
  show ?case
    using Cons.IH [of c] Cons.IH [of "c\<lparr>sd_in := []\<rparr>"] Cons.IH [of "c\<lparr>sd_in := drop n (sd_in c)\<rparr>"]
    by (auto simp: x sd_Read_def split: prod.splits)
qed simp


end
