(* ===== verification/Registry.thy ===== *)
theory Registry
  imports CoreConfig
begin

text \<open>
  \<open>third/etcd.go\<close> and \<open>third/grpc.go\<close>: the two caches of what servers have put into the etcd store.
  Both read the keys of a prefix once and then follow the events of a watch. The store itself is not part of
  the program: what it answers and the events it sends are arguments.
\<close>

datatype kv_event = KvPut string string | KvDelete string

subsection \<open>The registry of servers\<close>

text \<open>\<open>fmt.Sprintf\<close> of a number.\<close>

fun dec :: "nat \<Rightarrow> string" where
  "dec n = (if n < 10 then [char_of (48 + n)] else dec (n div 10) @ [char_of (48 + n mod 10)])"

declare dec.simps [simp del]

definition server_key :: "u16 \<Rightarrow> string" where
  "server_key svid = ''server/'' @ dec (unat svid)"

text \<open>\<open>er_deleted\<close> are the keys the cache has asked the store to delete.\<close>

record EtcdRegistry =
  er_client :: bool
  er_map :: "u16 \<Rightarrow> string option"
  er_deleted :: "string list"

definition no_registry :: EtcdRegistry where
  "no_registry = \<lparr>er_client = False, er_map = Map.empty, er_deleted = []\<rparr>"

text \<open>A key of another number of parts is deleted from the store when it is met.\<close>

definition meet_key :: "string \<Rightarrow> EtcdRegistry \<Rightarrow> u16 \<times> EtcdRegistry" where
  "meet_key key r =
     (parseKey key, if length (split_at CHR ''/'' key) \<noteq> 2 then r\<lparr>er_deleted := er_deleted r @ [key]\<rparr> else r)"

definition get_config :: "string \<times> string \<Rightarrow> EtcdRegistry \<Rightarrow> EtcdRegistry" where
  "get_config kv r =
     (case meet_key (fst kv) r of (key, r) \<Rightarrow> if key > 0 then r\<lparr>er_map := (er_map r)(key \<mapsto> snd kv)\<rparr> else r)"

text \<open>\<open>res\<close> are the keys with the prefix \<open>server/\<close>, \<open>None\<close> for an error.\<close>

definition get_configs :: "(string \<times> string) list option \<Rightarrow> EtcdRegistry \<Rightarrow> EtcdRegistry" where
  "get_configs res r = (if \<not> er_client r then r else case res of None \<Rightarrow> r | Some kvs \<Rightarrow> fold get_config kvs r)"

definition watch_event :: "kv_event \<Rightarrow> EtcdRegistry \<Rightarrow> EtcdRegistry" where
  "watch_event e r =
     (case e of
        KvPut k v \<Rightarrow> (case meet_key k r of (key, r) \<Rightarrow> r\<lparr>er_map := (er_map r)(key \<mapsto> v)\<rparr>)
      | KvDelete k \<Rightarrow> (case meet_key k r of (key, r) \<Rightarrow> r\<lparr>er_map := (er_map r)(key := None)\<rparr>))"

definition watch_etcd :: "kv_event list \<Rightarrow> EtcdRegistry \<Rightarrow> EtcdRegistry" where
  "watch_etcd es r = fold watch_event es r"

text \<open>\<open>None\<close>: there is no client, and the process ends.\<close>

definition init_client :: "bool \<Rightarrow> (string \<times> string) list option \<Rightarrow> EtcdRegistry \<Rightarrow> EtcdRegistry option" where
  "init_client ok res r =
     (if er_client r then Some r
      else if \<not> ok then None
      else Some (get_configs res (r\<lparr>er_client := True, er_map := Map.empty\<rparr>)))"

text \<open>The operations start the client when it is not there yet; \<open>None\<close>: the process has ended.\<close>

definition etcd_Get :: "bool \<Rightarrow> (string \<times> string) list option \<Rightarrow> u16 \<Rightarrow> EtcdRegistry \<Rightarrow> (string \<times> EtcdRegistry) option" where
  "etcd_Get ok res svid r = (case init_client ok res r of
       None \<Rightarrow> None
     | Some r \<Rightarrow> if \<not> er_client r then Some ('''', r) else Some (case er_map r svid of None \<Rightarrow> '''' | Some addr \<Rightarrow> addr, r))"

text \<open>\<open>order\<close> is the order in which Go visits the map.\<close>

definition etcd_Gets :: "bool \<Rightarrow> (string \<times> string) list option \<Rightarrow> u8 \<Rightarrow> u16 list \<Rightarrow> EtcdRegistry \<Rightarrow> (u8 list \<times> EtcdRegistry) option" where
  "etcd_Gets ok res serverType order r = (case init_client ok res r of
       None \<Rightarrow> None
     | Some r \<Rightarrow> if \<not> er_client r then Some ([], r)
         else Some (map (\<lambda>svid. ucast (svid - (svid div 100) * 100))
           (filter (\<lambda>svid. er_map r svid \<noteq> None \<and> ucast (svid div 100) = serverType) order), r))"

text \<open>
  A request to the store: what is to be put or deleted, and whether the store did it. The returned flag is
  that there is no error.
\<close>

definition etcd_Put :: "bool \<Rightarrow> (string \<times> string) list option \<Rightarrow> bool \<Rightarrow> u16 \<Rightarrow> string \<Rightarrow> EtcdRegistry \<Rightarrow>
    (bool \<times> kv_event list \<times> EtcdRegistry) option" where
  "etcd_Put ok res answered svid addr r = (case init_client ok res r of
       None \<Rightarrow> None
     | Some r \<Rightarrow> if \<not> er_client r then Some (False, [], r)
         else Some (answered, if answered then [KvPut (server_key svid) addr] else [], r))"

definition etcd_Del :: "bool \<Rightarrow> u16 \<Rightarrow> EtcdRegistry \<Rightarrow> bool \<times> kv_event list" where
  "etcd_Del answered svid r =
     (if er_client r then (if answered then (True, [KvDelete (server_key svid)]) else (False, [])) else (True, []))"

subsection \<open>The services of gRPC\<close>

text \<open>A connection to a service is a number; \<open>gr_open\<close> are those not closed yet.\<close>

record GRPCServer =
  gr_name :: string
  gr_addr :: string
  gr_servers :: "string \<Rightarrow> string option"
  gr_clients :: "string \<Rightarrow> nat option"
  gr_next :: nat
  gr_open :: "nat list"
  gr_stopped :: bool
  gr_serving :: bool

datatype grpc_error = NoEtcd | NoLease | NoPut | NoKeepAlive | NoServices | NoConnection | NoListener | NoService

definition NewGRPCServer :: "bool \<Rightarrow> string \<Rightarrow> string \<Rightarrow> grpc_error + GRPCServer" where
  "NewGRPCServer ok name addr =
     (if \<not> ok then Inl NoEtcd
      else Inr \<lparr>gr_name = name, gr_addr = addr, gr_servers = Map.empty, gr_clients = Map.empty, gr_next = 0, gr_open = [],
        gr_stopped = False, gr_serving = False\<rparr>)"

definition service_key :: "string \<Rightarrow> string \<Rightarrow> string" where
  "service_key name addr = ''/services/'' @ name @ ''/'' @ addr"

text \<open>The lease, the put and the keep-alive may fail; what was put stays.\<close>

definition Register :: "bool \<Rightarrow> bool \<Rightarrow> bool \<Rightarrow> GRPCServer \<Rightarrow> grpc_error option \<times> kv_event list" where
  "Register lease_ok put_ok alive_ok s =
     (if \<not> lease_ok then (Some NoLease, [])
      else if \<not> put_ok then (Some NoPut, [])
      else (if alive_ok then None else Some NoKeepAlive, [KvPut (service_key (gr_name s) (gr_addr s)) (gr_addr s)]))"

definition close_client :: "string \<Rightarrow> GRPCServer \<Rightarrow> GRPCServer" where
  "close_client key s =
     (case gr_clients s key of
        None \<Rightarrow> s
      | Some c \<Rightarrow> s\<lparr>gr_clients := (gr_clients s)(key := None), gr_open := removeAll c (gr_open s)\<rparr>)"

text \<open>\<open>ok\<close>: the library makes a client for the address.\<close>

definition addService :: "bool \<Rightarrow> string \<Rightarrow> string \<Rightarrow> GRPCServer \<Rightarrow> grpc_error option \<times> GRPCServer" where
  "addService ok key addr s =
     (if addr = gr_addr s then (None, s)
      else if gr_servers s key = Some addr then (None, s)
      else
        (let s = (if gr_servers s key \<noteq> None then close_client key s else s) in
         if \<not> ok then (Some NoConnection, s)
         else
           (None, s\<lparr>gr_servers := (gr_servers s)(key \<mapsto> addr), gr_clients := (gr_clients s)(key \<mapsto> gr_next s),
              gr_next := gr_next s + 1, gr_open := gr_next s # gr_open s\<rparr>)))"

definition removeService :: "string \<Rightarrow> GRPCServer \<Rightarrow> GRPCServer" where
  "removeService key s = (let s = close_client key s in s\<lparr>gr_servers := (gr_servers s)(key := None)\<rparr>)"

definition service_event :: "bool \<times> kv_event \<Rightarrow> GRPCServer \<Rightarrow> GRPCServer" where
  "service_event e s =
     (case snd e of
        KvPut k v \<Rightarrow> snd (addService (fst e) k v s)
      | KvDelete k \<Rightarrow> removeService k s)"

text \<open>The watch ends when the server has stopped.\<close>

definition watchServices :: "(bool \<times> kv_event) list \<Rightarrow> GRPCServer \<Rightarrow> GRPCServer" where
  "watchServices es s = (if gr_stopped s then s else fold service_event es s)"

definition WatchServices :: "(bool \<times> string \<times> string) list option \<Rightarrow> GRPCServer \<Rightarrow> grpc_error option \<times> GRPCServer" where
  "WatchServices res s =
     (case res of
        None \<Rightarrow> (Some NoServices, s)
      | Some kvs \<Rightarrow> (None, fold (\<lambda>(ok, k, v) s. snd (addService ok k v s)) kvs s))"

definition GetServices :: "GRPCServer \<Rightarrow> string \<Rightarrow> string option" where
  "GetServices s = gr_servers s"

definition grpc_GetClient :: "string \<Rightarrow> GRPCServer \<Rightarrow> grpc_error + nat" where
  "grpc_GetClient name s = (case gr_clients s name of None \<Rightarrow> Inl NoService | Some c \<Rightarrow> Inr c)"

definition StartGRPC :: "bool \<Rightarrow> bool \<Rightarrow> bool \<Rightarrow> (bool \<times> string \<times> string) list option \<Rightarrow> bool \<Rightarrow> GRPCServer \<Rightarrow>
    (grpc_error option \<times> kv_event list) \<times> GRPCServer" where
  "StartGRPC lease_ok put_ok alive_ok res listen_ok s =
     (case Register lease_ok put_ok alive_ok s of
        (Some e, puts) \<Rightarrow> ((Some e, puts), s)
      | (None, puts) \<Rightarrow>
          (case WatchServices res s of
             (Some e, s) \<Rightarrow> ((Some e, puts), s)
           | (None, s) \<Rightarrow>
               if \<not> listen_ok then ((Some NoListener, puts), s) else ((None, puts), s\<lparr>gr_serving := True\<rparr>)))"

text \<open>Stopping twice closes a closed channel. The maps are left as they are.\<close>

definition grpc_Stop :: "(string list) \<Rightarrow> (GRPCServer, unit) act" where
  "grpc_Stop order =
     seq get_st (\<lambda>s.
     if gr_stopped s then throw ClosedChannel
     else
       seq (modify (\<lambda>s. s\<lparr>gr_stopped := True, gr_serving := False\<rparr>)) (\<lambda>_.
       for_each (\<lambda>key.
         seq get_st (\<lambda>s. case gr_clients s key of
             None \<Rightarrow> ret ()
           | Some c \<Rightarrow> modify (\<lambda>s. s\<lparr>gr_open := removeAll c (gr_open s)\<rparr>))) order))"

subsection \<open>The store\<close>

text \<open>What the store does with an event, and what both caches are to follow.\<close>

fun kv_apply :: "kv_event \<Rightarrow> (string \<Rightarrow> string option) \<Rightarrow> string \<Rightarrow> string option" where
  "kv_apply (KvPut k v) K = K(k \<mapsto> v)"
| "kv_apply (KvDelete k) K = K(k := None)"

fun kv_key :: "kv_event \<Rightarrow> string" where
  "kv_key (KvPut k v) = k"
| "kv_key (KvDelete k) = k"

subsection \<open>Keys\<close>

lemma digits_append: "digits acc (xs @ ys) = (case digits acc xs of None \<Rightarrow> None | Some v \<Rightarrow> digits v ys)"
  by (induction acc xs rule: digits.induct) (auto split: option.split)

lemma digit_char: "n < 10 \<Longrightarrow> digit (char_of (48 + n)) = Some n"
  by (simp add: digit_def Let_def)

lemma digits_dec: "digits 0 (dec n) = Some (int n)"
proof (induction n rule: dec.induct)
  case (1 n)
  show ?case
  proof (cases "n < 10")
    case True
    then show ?thesis by (simp add: dec.simps [of n] digit_char)
  next
    case False
    have "int (n mod 10) + 10 * int (n div 10) = int n" by presburger
    then show ?thesis using 1 [OF False] False by (simp add: dec.simps [of n] digits_append digit_char)
  qed
qed

lemma dec_chars: "set (dec n) \<subseteq> (\<lambda>d :: nat. char_of (48 + d)) ` {..<10}"
proof (induction n rule: dec.induct)
  case (1 n)
  have "char_of (48 + n mod 10) \<in> (\<lambda>d :: nat. char_of (48 + d) :: char) ` {..<10}" by (rule imageI) simp
  then show ?case using 1 by (cases "n < 10") (auto simp: dec.simps [of n] simp del: char_of_def)
qed

lemma dec_not: "of_char x < (48 :: nat) \<Longrightarrow> x \<notin> set (dec n)"
proof
  assume x: "of_char x < (48 :: nat)" "x \<in> set (dec n)"
  then obtain d :: nat where "d < 10" "x = char_of (48 + d)" using dec_chars by blast
  then show False using x(1) by simp
qed

lemma dec_nonempty [simp]: "dec n \<noteq> []"
  by (subst dec.simps) simp

lemma split_at_no: "c \<notin> set xs \<Longrightarrow> split_at c xs = [xs]"
  by (induction xs) auto

lemma atoi_dec: "n < 2 ^ 63 \<Longrightarrow> atoi_full (dec n) = (int n, True)"
proof -
  assume n: "n < 2 ^ 63"
  have "hd (dec n) \<in> set (dec n)" by simp
  then have "hd (dec n) \<noteq> CHR ''-'' \<and> hd (dec n) \<noteq> CHR ''+''"
    using dec_not [of "CHR ''-''" n] dec_not [of "CHR ''+''" n] by fastforce
  then show ?thesis using n digits_dec [of n] by (simp add: atoi_full_def Let_def)
qed

lemma parseKey_server_key [simp]: "parseKey (server_key svid) = svid"
proof -
  have "CHR ''/'' \<notin> set (dec (unat svid))" by (rule dec_not) simp
  then have s: "split_at CHR ''/'' (server_key svid) = [''server'', dec (unat svid)]"
    by (simp add: server_key_def split_at_no)
  have "unat svid < 65536" using unsigned_less [of svid] by simp
  then have "atoi_full (dec (unat svid)) = (int (unat svid), True)" by (intro atoi_dec) simp
  then show ?thesis by (simp add: parseKey_def s)
qed

lemma server_key_inject [simp]: "server_key a = server_key b \<longleftrightarrow> a = b"
  by (metis parseKey_server_key)

subsection \<open>The registry follows the store\<close>

text \<open>What a change sets the address under its key to.\<close>

fun kv_value :: "kv_event \<Rightarrow> string option" where
  "kv_value (KvPut k v) = Some v"
| "kv_value (KvDelete k) = None"

text \<open>The address the last change leaves whose key reads as the number \<open>svid\<close>.\<close>

definition last_addr :: "u16 \<Rightarrow> kv_event list \<Rightarrow> string option" where
  "last_addr svid es = fold (\<lambda>e addr. if parseKey (kv_key e) = svid then kv_value e else addr) es None"

text \<open>The keys the registry takes for wrong and has deleted.\<close>

definition wrong_keys :: "string list \<Rightarrow> string list" where
  "wrong_keys ks = filter (\<lambda>k. length (split_at CHR ''/'' k) \<noteq> 2) ks"

definition as_puts :: "(string \<times> string) list \<Rightarrow> kv_event list" where
  "as_puts kvs = map (\<lambda>(k, v). KvPut k v) kvs"

definition kept_by :: "(EtcdRegistry \<Rightarrow> EtcdRegistry) \<Rightarrow> kv_event list \<Rightarrow> bool" where
  "kept_by f es \<longleftrightarrow> (\<forall>r. er_client (f r) = er_client r \<and> er_deleted (f r) = er_deleted r @ wrong_keys (map kv_key es) \<and>
     (\<forall>svid > 0. er_map (f r) svid = fold (\<lambda>e addr. if parseKey (kv_key e) = svid then kv_value e else addr) es (er_map r svid)))"

lemma kept_by_event: "kept_by (watch_event e) [e]"
  by (cases e) (auto simp: kept_by_def watch_event_def meet_key_def wrong_keys_def)

lemma kept_by_config: "kept_by (get_config kv) (as_puts [kv])"
  by (cases kv) (auto simp: kept_by_def get_config_def meet_key_def wrong_keys_def as_puts_def word_neq_0_conv)

lemma kept_by_fold: "\<forall>x \<in> set xs. kept_by (f x) (g x) \<Longrightarrow> kept_by (fold f xs) (concat (map g xs))"
  by (induction xs) (auto simp: kept_by_def wrong_keys_def)

lemma kept_by_watch: "kept_by (watch_etcd es) es"
  using kept_by_fold [of es watch_event "\<lambda>e. [e]"] kept_by_event by (auto simp: watch_etcd_def [abs_def])

lemma kept_by_read: "kept_by (fold get_config kvs) (as_puts kvs)"
  using kept_by_fold [of kvs get_config "\<lambda>kv. as_puts [kv]"] kept_by_config by (auto simp: as_puts_def)

text \<open>When only one key reads as a number, the last change of that number is what the store has under the key.\<close>

lemma last_addr_store:
  assumes "\<forall>e \<in> set es. parseKey (kv_key e) = svid \<longrightarrow> kv_key e = server_key svid"
  shows "fold (\<lambda>e addr. if parseKey (kv_key e) = svid then kv_value e else addr) es (K (server_key svid)) =
    fold kv_apply es K (server_key svid)"
  using assms
proof (induction es arbitrary: K)
  case (Cons e es)
  have "(if parseKey (kv_key e) = svid then kv_value e else K (server_key svid)) = kv_apply e K (server_key svid)"
    using Cons.prems by (cases e) auto
  then show ?case using Cons by simp
qed simp

lemma puts_store: "distinct (map fst kvs) \<Longrightarrow> fold kv_apply (as_puts kvs) K = K ++ map_of kvs"
proof (induction kvs arbitrary: K)
  case (Cons kv kvs)
  then have "map_of kvs (fst kv) = None" by (simp add: map_of_eq_None_iff)
  then show ?case using Cons by (cases kv) (auto simp: as_puts_def fun_eq_iff map_add_def split: option.split)
qed (simp add: as_puts_def)

text \<open>
  C18. The registry is what it has been told: the client starts on the pairs \<open>kvs\<close> it finds in the store and is
  then sent the events \<open>es\<close>, with any keys. \<open>Get\<close> returns for a server number the address of the last of these
  changes whose key reads as that number, and nothing when that was a deletion or there was none; and after \<open>Put\<close>
  and the event the store sends for it, the address put. The keys met that have not two parts are deleted from the
  store, in order. Where no key but \<open>server/n\<close> reads as the number \<open>n\<close> (\<open>Put\<close> and \<open>Del\<close> use no other), \<open>Get\<close>
  returns exactly the address under that key in the store that was read, with the events applied.
\<close>

theorem registry_follows:
  assumes "init_client True (Some kvs) no_registry = Some r" and "t = watch_etcd es r" and "svid > 0"
  shows "etcd_Get ok res svid t =
      Some (case last_addr svid (as_puts kvs @ es) of None \<Rightarrow> '''' | Some addr \<Rightarrow> addr, t) \<and>
    etcd_Put ok res True svid addr t = Some (True, [KvPut (server_key svid) addr], t) \<and>
    etcd_Get ok res svid (watch_etcd [KvPut (server_key svid) addr] t) = Some (addr, watch_etcd [KvPut (server_key svid) addr] t) \<and>
    er_deleted t = wrong_keys (map fst kvs @ map kv_key es) \<and>
    (distinct (map fst kvs) \<and>
       (\<forall>k \<in> set (map fst kvs @ map kv_key es). parseKey k = svid \<longrightarrow> k = server_key svid) \<longrightarrow>
       etcd_Get ok res svid t =
         Some (case fold kv_apply es (map_of kvs) (server_key svid) of None \<Rightarrow> '''' | Some addr \<Rightarrow> addr, t))"
proof -
  let ?r = "no_registry\<lparr>er_client := True, er_map := Map.empty\<rparr>"
  let ?last = "\<lambda>svid es addr. fold (\<lambda>e addr. if parseKey (kv_key e) = svid then kv_value e else addr) es addr"
  have r: "r = fold get_config kvs ?r" using assms(1) by (simp add: init_client_def no_registry_def get_configs_def)
  note read = kept_by_read [unfolded kept_by_def, rule_format, of kvs]
    and watch = kept_by_watch [unfolded kept_by_def, rule_format]
  have t: "er_client t" "er_map t svid = last_addr svid (as_puts kvs @ es)"
    "er_deleted t = wrong_keys (map fst kvs @ map kv_key es)"
    using read [of ?r] watch [of es r] assms(2,3)
    by (auto simp: r no_registry_def last_addr_def wrong_keys_def as_puts_def comp_def split_beta)
  have get: "etcd_Get ok res svid t = Some (case last_addr svid (as_puts kvs @ es) of None \<Rightarrow> '''' | Some addr \<Rightarrow> addr, t)"
    using t by (simp add: etcd_Get_def init_client_def)
  have put: "etcd_Put ok res True svid addr t = Some (True, [KvPut (server_key svid) addr], t)"
    using t by (simp add: etcd_Put_def init_client_def)
  have again: "etcd_Get ok res svid (watch_etcd [KvPut (server_key svid) addr] t) = Some (addr, watch_etcd [KvPut (server_key svid) addr] t)"
    using watch [of "[KvPut (server_key svid) addr]" t] t(1) assms(3) by (simp add: etcd_Get_def init_client_def)
  have store: "last_addr svid (as_puts kvs @ es) = fold kv_apply es (map_of kvs) (server_key svid)"
    if "distinct (map fst kvs)" "\<forall>k \<in> set (map fst kvs @ map kv_key es). parseKey k = svid \<longrightarrow> k = server_key svid"
  proof -
    have "\<forall>e \<in> set (as_puts kvs @ es). parseKey (kv_key e) = svid \<longrightarrow> kv_key e = server_key svid"
      using that(2) by (force simp: as_puts_def)
    from last_addr_store [OF this, of Map.empty] show ?thesis using puts_store [OF that(1), of Map.empty] by (simp add: last_addr_def)
  qed
  show ?thesis using get put again t(3) store by auto
qed

text \<open>A key \<open>server/007\<close> sets the address of number 7; \<open>server/801\<close> is put and deleted.\<close>

lemma registry_follows_witness:
  "\<exists>t u. etcd_Get True None 7 t = Some (''c'', t) \<and> etcd_Get True None 801 u = Some ('''', u)"
proof -
  let ?kvs = "[(server_key 801, ''a''), (server_key 7, ''b'')]"
  let ?es = "[KvPut ''server/007'' ''c'', KvDelete (server_key 801)]"
  obtain r where r: "init_client True (Some ?kvs) no_registry = Some r"
    by (simp add: init_client_def no_registry_def)
  have "parseKey ''server/007'' = 7" by code_simp
  then have "last_addr 7 (as_puts ?kvs @ ?es) = Some ''c''" "last_addr 801 (as_puts ?kvs @ ?es) = None"
    by (simp_all add: last_addr_def as_puts_def)
  then show ?thesis
    using registry_follows [OF r refl, of 7 True None ?es] registry_follows [OF r refl, of 801 True None ?es]
    by (auto simp: word_gt_0)
qed

subsection \<open>The services follow the store\<close>

text \<open>The open connections are those the services have, one for each.\<close>

definition conns_ok :: "GRPCServer \<Rightarrow> bool" where
  "conns_ok s \<longleftrightarrow> set (gr_open s) = ran (gr_clients s) \<and> (\<forall>c \<in> ran (gr_clients s). c < gr_next s) \<and>
     inj_on (gr_clients s) (dom (gr_clients s)) \<and> dom (gr_clients s) \<subseteq> dom (gr_servers s)"

lemma ran_del: "inj_on m (dom m) \<Longrightarrow> m k = Some c \<Longrightarrow> ran (m(k := None)) = ran m - {c}"
  by (auto simp: ran_def inj_on_def dom_def; metis option.inject)

lemma close_client_ok:
  assumes "conns_ok s"
  shows "conns_ok (close_client k s)" "gr_clients (close_client k s) = (gr_clients s)(k := None)"
    "gr_servers (close_client k s) = gr_servers s" "gr_addr (close_client k s) = gr_addr s" "gr_stopped (close_client k s) = gr_stopped s"
proof -
  show "conns_ok (close_client k s)"
    using assms ran_del [of "gr_clients s" k]
    by (auto simp: close_client_def conns_ok_def inj_on_def dom_def split: option.split)
qed (auto simp: close_client_def split: option.split)

lemma ran_add: "ran (m(k \<mapsto> c)) \<subseteq> insert c (ran m)"
  by (auto simp: ran_def)

lemma addService_ok:
  assumes "conns_ok s"
  shows "conns_ok (snd (addService ok k v s))"
proof -
  define t where "t = (if gr_servers s k \<noteq> None then close_client k s else s)"
  have t: "conns_ok t" "gr_clients t k = None" "gr_servers t = gr_servers s"
  proof -
    have "gr_clients s k = None" if "gr_servers s k = None"
      using assms that by (auto simp: conns_ok_def dom_def)
    then show "conns_ok t" "gr_clients t k = None" "gr_servers t = gr_servers s"
      using close_client_ok [OF assms, of k] assms by (auto simp: t_def)
  qed
  have "gr_next t \<notin> ran (gr_clients t)" using t(1) by (auto simp: conns_ok_def)
  moreover have "ran ((gr_clients t)(k \<mapsto> gr_next t)) = insert (gr_next t) (ran (gr_clients t))"
    using t(2) by (rule ran_map_upd)
  ultimately have "conns_ok (t\<lparr>gr_servers := (gr_servers t)(k \<mapsto> v), gr_clients := (gr_clients t)(k \<mapsto> gr_next t),
      gr_next := gr_next t + 1, gr_open := gr_next t # gr_open t\<rparr>)"
    using t(1,2) by (auto simp: conns_ok_def inj_on_def ran_def less_Suc_eq)
  then show ?thesis using t assms unfolding addService_def t_def [symmetric] by (simp add: Let_def)
qed

lemma removeService_ok: "conns_ok s \<Longrightarrow> conns_ok (removeService k s)"
  using close_client_ok [of s k] by (auto simp: removeService_def Let_def conns_ok_def)

lemma service_event_ok: "conns_ok s \<Longrightarrow> conns_ok (service_event e s)"
  by (cases "snd e") (simp_all add: service_event_def addService_ok removeService_ok)

lemma services_ok: "conns_ok s \<Longrightarrow> conns_ok (fold service_event es s)"
  by (induction es arbitrary: s) (simp_all add: service_event_ok)

lemma snapshot_ok: "conns_ok s \<Longrightarrow> conns_ok (fold (\<lambda>(ok, k, v) s. snd (addService ok k v s)) kvs s)"
  by (induction kvs arbitrary: s) (auto simp: addService_ok)

text \<open>What the services are, when every client can be made and the own address is put under the own key only.\<close>

definition own_at :: "string \<Rightarrow> string \<Rightarrow> string \<Rightarrow> string \<Rightarrow> bool" where
  "own_at own addr k v \<longleftrightarrow> (k = own \<longleftrightarrow> v = addr)"

definition listed :: "string \<Rightarrow> GRPCServer \<Rightarrow> (string \<Rightarrow> string option) \<Rightarrow> bool" where
  "listed own s K \<longleftrightarrow> conns_ok s \<and> dom (gr_clients s) = dom (gr_servers s) \<and> (\<forall>k. gr_servers s k = (if k = own then None else K k))"

lemma addService_listed:
  assumes "listed own s K" "own_at own (gr_addr s) k v"
  shows "listed own (snd (addService True k v s)) (K(k \<mapsto> v)) \<and> gr_addr (snd (addService True k v s)) = gr_addr s \<and>
    gr_stopped (snd (addService True k v s)) = gr_stopped s"
proof -
  have c: "conns_ok s" using assms(1) by (simp add: listed_def)
  have "conns_ok (snd (addService True k v s))" by (rule addService_ok [OF c])
  then show ?thesis
    using assms close_client_ok [OF c, of k] by (auto simp: listed_def own_at_def addService_def Let_def)
qed

lemma removeService_listed:
  assumes "listed own s K"
  shows "listed own (removeService k s) (K(k := None)) \<and> gr_addr (removeService k s) = gr_addr s \<and> gr_stopped (removeService k s) = gr_stopped s"
  using assms close_client_ok [of s k] removeService_ok [of s k] by (auto simp: listed_def removeService_def Let_def)

lemma events_listed:
  assumes "listed own s K" "\<forall>k v. KvPut k v \<in> set es \<longrightarrow> own_at own (gr_addr s) k v"
  shows "listed own (fold service_event (map (Pair True) es) s) (fold kv_apply es K) \<and>
    gr_stopped (fold service_event (map (Pair True) es) s) = gr_stopped s"
  using assms
proof (induction es arbitrary: s K)
  case (Cons e es)
  have "listed own (service_event (True, e) s) (kv_apply e K) \<and> gr_addr (service_event (True, e) s) = gr_addr s \<and>
    gr_stopped (service_event (True, e) s) = gr_stopped s"
    using Cons.prems addService_listed [of own s K] removeService_listed [of own s K]
    by (cases e) (auto simp: service_event_def)
  then show ?case using Cons.IH [of "service_event (True, e) s" "kv_apply e K"] Cons.prems(2) by simp
qed simp

lemma snapshot_listed:
  assumes "listed own s K" "\<forall>(k, v) \<in> set kvs. own_at own (gr_addr s) k v"
  shows "listed own (fold (\<lambda>(ok, k, v) s. snd (addService ok k v s)) (map (Pair True) kvs) s) (fold (\<lambda>(k, v) K. K(k \<mapsto> v)) kvs K) \<and>
    gr_addr (fold (\<lambda>(ok, k, v) s. snd (addService ok k v s)) (map (Pair True) kvs) s) = gr_addr s \<and>
    gr_stopped (fold (\<lambda>(ok, k, v) s. snd (addService ok k v s)) (map (Pair True) kvs) s) = gr_stopped s"
  using assms
proof (induction kvs arbitrary: s K)
  case (Cons kv kvs)
  obtain k v where kv: "kv = (k, v)" by fastforce
  have "own_at own (gr_addr s) k v" using Cons.prems(2) kv by simp
  from addService_listed [OF Cons.prems(1) this] show ?case
    using Cons.IH [of "snd (addService True k v s)" "K(k \<mapsto> v)"] Cons.prems(2) kv by (simp del: fun_upd_apply)
qed simp

lemma fold_map_of: "distinct (map fst kvs) \<Longrightarrow> fold (\<lambda>(k, v) K. K(k \<mapsto> v)) kvs K = K ++ map_of kvs"
proof (induction kvs arbitrary: K)
  case (Cons kv kvs)
  then have "map_of kvs (fst kv) = None" by (simp add: map_of_eq_None_iff)
  then show ?case using Cons by (cases kv) (auto simp: fun_eq_iff map_add_def split: option.split)
qed simp

lemma stop_closes:
  "\<exists>t. for_each (\<lambda>key. seq get_st (\<lambda>s. case gr_clients s key of None \<Rightarrow> ret ()
      | Some c \<Rightarrow> modify (\<lambda>s. s\<lparr>gr_open := removeAll c (gr_open s)\<rparr>))) order s = (Inr (), t) \<and> gr_clients t = gr_clients s \<and>
    set (gr_open t) = set (gr_open s) - {c. \<exists>k \<in> set order. gr_clients s k = Some c}"
proof (induction order arbitrary: s)
  case Nil
  then show ?case by (simp add: run_simps)
next
  case (Cons k order)
  show ?case
  proof (cases "gr_clients s k")
    case None
    then show ?thesis using Cons.IH [of s] by (auto simp: run_simps)
  next
    case (Some c)
    then show ?thesis using Cons.IH [of "s\<lparr>gr_open := removeAll c (gr_open s)\<rparr>"] by (auto simp: run_simps)
  qed
qed

text \<open>
  C28. The services are those of the store, that is of what it had at the start with the events it has sent
  since (a change before the watch starts is in neither): from the services found and any events, when every
  client can be made and no one else uses the own key or address, the services listed are exactly those
  the store has, without the own one; \<open>GetClient\<close> finds a connection for exactly these; the
  connections open are theirs, one for each; and \<open>Stop\<close> closes them all.
\<close>

theorem services_follow:
  assumes "NewGRPCServer True name addr = Inr s0" and "WatchServices (Some (map (Pair True) kvs)) s0 = (None, s)" and "distinct (map fst kvs)"
    and "\<forall>(k, v) \<in> set kvs. own_at own addr k v" and "\<forall>k v. KvPut k v \<in> set es \<longrightarrow> own_at own addr k v"
    and "t = watchServices (map (Pair True) es) s" and "dom (gr_clients t) \<subseteq> set order"
  shows "(\<forall>k. GetServices t k = (if k = own then None else fold kv_apply es (map_of kvs) k)) \<and>
    (\<forall>k. (\<exists>c. grpc_GetClient k t = Inr c) \<longleftrightarrow> GetServices t k \<noteq> None) \<and>
    set (gr_open t) = ran (gr_clients t) \<and> inj_on (gr_clients t) (dom (gr_clients t)) \<and>
    (\<exists>u. grpc_Stop order t = (Inr (), u) \<and> gr_open u = [])"
proof -
  have s0: "listed own s0 Map.empty" "gr_addr s0 = addr" "\<not> gr_stopped s0"
    using assms(1) by (auto simp: NewGRPCServer_def listed_def conns_ok_def)
  have "listed own s (map_of kvs)" "gr_addr s = addr" "\<not> gr_stopped s"
    using snapshot_listed [OF s0(1), of kvs] assms(2-4) s0(2,3) fold_map_of [OF assms(3), of Map.empty]
    by (auto simp: WatchServices_def)
  then have t: "listed own t (fold kv_apply es (map_of kvs))" "\<not> gr_stopped t"
    using events_listed [of own s "map_of kvs" es] assms(5,6) by (auto simp: watchServices_def)
  then have c: "conns_ok t" "dom (gr_clients t) = dom (gr_servers t)" by (simp_all add: listed_def)
  let ?s = "t\<lparr>gr_stopped := True, gr_serving := False\<rparr>"
  obtain u where u: "for_each (\<lambda>key. seq get_st (\<lambda>s. case gr_clients s key of None \<Rightarrow> ret ()
      | Some c \<Rightarrow> modify (\<lambda>s. s\<lparr>gr_open := removeAll c (gr_open s)\<rparr>))) order ?s = (Inr (), u)"
    "set (gr_open u) = set (gr_open t) - {c. \<exists>k \<in> set order. gr_clients t k = Some c}"
    using stop_closes [of order ?s] by auto
  have "set (gr_open u) = {}"
    using u(2) c(1) assms(7) by (auto simp: conns_ok_def ran_def dom_def subset_iff)
  then have "grpc_Stop order t = (Inr (), u) \<and> gr_open u = []"
    using u(1) t(2) by (simp add: grpc_Stop_def run_simps)
  moreover have "(\<exists>c. grpc_GetClient k t = Inr c) \<longleftrightarrow> GetServices t k \<noteq> None" for k
  proof -
    have "k \<in> dom (gr_clients t) \<longleftrightarrow> k \<in> dom (gr_servers t)" by (simp only: c(2))
    then show ?thesis by (auto simp: grpc_GetClient_def GetServices_def split: option.split)
  qed
  ultimately show ?thesis
    using t(1) c(1) by (auto simp: GetServices_def listed_def conns_ok_def)
qed

lemma services_follow_witness:
  "\<exists>t u. GetServices t ''b'' = Some ''2'' \<and> GetServices t ''a'' = None \<and> grpc_Stop [''b''] t = (Inr (), u) \<and> gr_open u = []"
proof -
  obtain s0 where s0: "NewGRPCServer True ''a'' ''1'' = Inr s0" by (simp add: NewGRPCServer_def)
  let ?kvs = "[(''a'', ''1'')]"
  let ?es = "[KvPut ''b'' ''2'']"
  obtain s where s: "WatchServices (Some (map (Pair True) ?kvs)) s0 = (None, s)" by (simp add: WatchServices_def)
  define t where "t = watchServices (map (Pair True) ?es) s"
  have d: "gr_clients t = [''b'' \<mapsto> 0]" using s0 s
    by (simp add: t_def NewGRPCServer_def WatchServices_def watchServices_def service_event_def addService_def) (clarsimp simp: addService_def)
  then have "dom (gr_clients t) \<subseteq> set [''b'']" by simp
  from services_follow [OF s0 s, of "''a''" ?es, OF _ _ _ t_def this]
  have f: "\<forall>k. GetServices t k = (if k = ''a'' then None else fold kv_apply ?es (map_of ?kvs) k)"
    and u: "\<exists>u. grpc_Stop [''b''] t = (Inr (), u) \<and> gr_open u = []"
    by (simp_all add: own_at_def)
  have "GetServices t ''b'' = Some ''2''" "GetServices t ''a'' = None" using f by simp_all
  then show ?thesis using u by blast
qed

end
