(* ===== verification/DbRedis.thy ===== *)
theory DbRedis
  imports Registry
begin

text \<open>
  \<open>examples/db/redis.go\<close> over \<open>Do\<close> of \<open>local/redis.go\<close>: what the servers keep in Redis. The Redis server is not
  part of the repository: its state is a type parameter, and one command with its reply is the argument
  \<open>rd_Do\<close>; the client library's conversions of a reply are arguments too. What Redis documents of a command
  is a hypothesis of the theorem that needs it (\<open>counts\<close>, \<open>pops_lowest\<close>, \<open>keeps_fields\<close>).
\<close>

subsection \<open>Commands and replies\<close>

datatype arg = Txt string | Num int

type_synonym command = "string \<times> arg list"

text \<open>A conversion takes the reply with its error, and answers with a value and an error or with nothing.\<close>

record ('s, 'r) Redis =
  rd_Do :: "command \<Rightarrow> 's \<Rightarrow> 'r \<times> 's"
  rd_failed :: "'r \<Rightarrow> bool"
  rd_Int64 :: "'r \<Rightarrow> i64 \<times> bool"
  rd_Ints :: "'r \<Rightarrow> int list option"
  rd_Values :: "'r \<Rightarrow> string list option"

definition Redis_Do :: "('s, 'r) Redis \<Rightarrow> string \<Rightarrow> arg list \<Rightarrow> ('s, 'r) act" where
  "Redis_Do R name args = (\<lambda>s. case rd_Do R (name, args) s of (r, s') \<Rightarrow> (Inr r, s'))"

lemma run_Redis_Do [run_simps]:
  "seq (Redis_Do R name args) f s = f (fst (rd_Do R (name, args) s)) (snd (rd_Do R (name, args) s))"
  by (simp add: seq_def Redis_Do_def split: prod.split)

subsection \<open>Keys\<close>

definition keyUserOnline :: "u32 \<Rightarrow> string" where
  "keyUserOnline uid = ''online:'' @ dec (unat uid)"

definition keyRoomMatch :: "u32 \<Rightarrow> u32 \<Rightarrow> string" where
  "keyRoomMatch roomId gameId = ''match:'' @ dec (unat roomId) @ '':'' @ dec (unat gameId)"

definition keyUser :: "u32 \<Rightarrow> string" where
  "keyUser uid = ''user:'' @ dec (unat uid)"

subsection \<open>Accounts and queues\<close>

definition db_UpdateMoney :: "('s, 'r) Redis \<Rightarrow> u32 \<Rightarrow> i64 \<Rightarrow> ('s, i64 \<times> bool) act" where
  "db_UpdateMoney R uid change =
     seq (Redis_Do R ''HINCRBY'' [Txt (keyUserOnline uid), Txt ''money'', Num (sint change)]) (\<lambda>r. ret (rd_Int64 R r))"

definition AddQueen :: "('s, 'r) Redis \<Rightarrow> u32 \<Rightarrow> i64 \<Rightarrow> u32 \<Rightarrow> u32 \<Rightarrow> ('s, bool) act" where
  "AddQueen R uid weight roomId gameId =
     seq (Redis_Do R ''ZADD'' [Txt (keyRoomMatch roomId gameId), Num (sint weight), Num (uint uid)]) (\<lambda>r.
     ret (rd_failed R r))"

definition GetQueenCnt :: "('s, 'r) Redis \<Rightarrow> u32 \<Rightarrow> u32 \<Rightarrow> ('s, i64 \<times> bool) act" where
  "GetQueenCnt R roomId gameId =
     seq (Redis_Do R ''ZCARD'' [Txt (keyRoomMatch roomId gameId)]) (\<lambda>r. ret (rd_Int64 R r))"

text \<open>The numbers of the reply are stored one by one into a slice made before.\<close>

fun fill :: "nat \<Rightarrow> int list \<Rightarrow> u32 list \<Rightarrow> panic + u32 list" where
  "fill i [] us = Inr us"
| "fill i (x # xs) us = (if i < length us then fill (Suc i) xs (us[i := of_int x]) else Inl IndexOutOfRange)"

text \<open>\<open>None\<close> is an error.\<close>

definition GetQueenUsers :: "('s, 'r) Redis \<Rightarrow> u32 \<Rightarrow> u32 \<Rightarrow> u32 \<Rightarrow> ('s, u32 list option) act" where
  "GetQueenUsers R roomId gameId want =
     seq (Redis_Do R ''ZPOPMIN'' [Txt (keyRoomMatch roomId gameId), Num (uint want)]) (\<lambda>r.
     case rd_Ints R r of
       None \<Rightarrow> ret None
     | Some xs \<Rightarrow> seq (lift (fill 0 xs (replicate (unat want) 0))) (\<lambda>us. ret (Some us)))"

subsection \<open>Where a player is\<close>

text \<open>Setters answer whether they failed; getters of small numbers drop the error.\<close>

definition SetDesk :: "('s, 'r) Redis \<Rightarrow> u32 \<Rightarrow> u32 \<Rightarrow> ('s, bool) act" where
  "SetDesk R uid deskId =
     seq (Redis_Do R ''HSET'' [Txt (keyUserOnline uid), Txt ''deskId'', Num (uint deskId)]) (\<lambda>r. ret (rd_failed R r))"

definition GetDesk :: "('s, 'r) Redis \<Rightarrow> u32 \<Rightarrow> ('s, u32 \<times> bool) act" where
  "GetDesk R uid =
     seq (Redis_Do R ''HGET'' [Txt (keyUserOnline uid), Txt ''deskId'']) (\<lambda>r.
     case rd_Int64 R r of (deskId, err) \<Rightarrow> ret (ucast deskId, err))"

definition SetGate :: "('s, 'r) Redis \<Rightarrow> u32 \<Rightarrow> u8 \<Rightarrow> ('s, bool) act" where
  "SetGate R uid gateId =
     seq (Redis_Do R ''HSET'' [Txt (keyUserOnline uid), Txt ''gateId'', Num (uint gateId)]) (\<lambda>r. ret (rd_failed R r))"

definition GetGate :: "('s, 'r) Redis \<Rightarrow> u32 \<Rightarrow> ('s, u8) act" where
  "GetGate R uid =
     seq (Redis_Do R ''HGET'' [Txt (keyUserOnline uid), Txt ''gateId'']) (\<lambda>r. ret (ucast (fst (rd_Int64 R r))))"

definition SetGame :: "('s, 'r) Redis \<Rightarrow> u32 \<Rightarrow> u8 \<Rightarrow> u32 \<Rightarrow> ('s, bool) act" where
  "SetGame R uid gameId deskId =
     seq (Redis_Do R ''HSET'' [Txt (keyUserOnline uid), Txt ''gameId'', Num (uint gameId), Txt ''deskId'', Num (uint deskId)])
       (\<lambda>r. ret (rd_failed R r))"

definition GetGame :: "('s, 'r) Redis \<Rightarrow> u32 \<Rightarrow> ('s, u8) act" where
  "GetGame R uid =
     seq (Redis_Do R ''HGET'' [Txt (keyUserOnline uid), Txt ''gameId'']) (\<lambda>r. ret (ucast (fst (rd_Int64 R r))))"

subsection \<open>Users\<close>

text \<open>\<open>scan\<close> and \<open>flat\<close> are the library's reading of a struct from values, and its arguments for one.\<close>

definition db_GetUser :: "('s, 'r) Redis \<Rightarrow> (string list \<Rightarrow> 'u option) \<Rightarrow> u32 \<Rightarrow> ('s, 'u option) act" where
  "db_GetUser R scan uid =
     seq (Redis_Do R ''HGETALL'' [Txt (keyUser uid)]) (\<lambda>r.
     ret (case rd_Values R r of None \<Rightarrow> None | Some vs \<Rightarrow> scan vs))"

definition db_SetUser :: "('s, 'r) Redis \<Rightarrow> ('u \<Rightarrow> arg list) \<Rightarrow> u32 \<Rightarrow> 'u \<Rightarrow> ('s, bool) act" where
  "db_SetUser R flat uid d = seq (Redis_Do R ''HSET'' (Txt (keyUser uid) # flat d)) (\<lambda>r. ret (rd_failed R r))"

text \<open>The second increment makes the first uids large; its error replaces the first one.\<close>

definition GenUserId :: "('s, 'r) Redis \<Rightarrow> ('s, u32 \<times> bool) act" where
  "GenUserId R =
     seq (Redis_Do R ''INCRBY'' [Txt ''uid'', Num 1]) (\<lambda>r.
     seq (if sint (fst (rd_Int64 R r)) < 100000
          then seq (Redis_Do R ''INCRBY'' [Txt ''uid'', Num 100000]) (\<lambda>r. ret (rd_Int64 R r))
          else ret (rd_Int64 R r)) (\<lambda>(uid, err).
     ret (ucast uid, err)))"

text \<open>
  Several processes generate uids at the same time. One command is the atomic step of each: \<open>i\<close> is the
  process whose turn it is, \<open>pend\<close> are those between their two commands. A step gives a result or none.
\<close>

type_synonym 's generators = "'s \<times> (nat \<Rightarrow> bool)"

definition gen_step :: "('s, 'r) Redis \<Rightarrow> nat \<Rightarrow> 's generators \<Rightarrow> (u32 \<times> bool) option \<times> 's generators" where
  "gen_step R i g =
     (case g of (s, pend) \<Rightarrow>
        if pend i then
          (case rd_Do R (''INCRBY'', [Txt ''uid'', Num 100000]) s of (r, s') \<Rightarrow>
             (Some (ucast (fst (rd_Int64 R r)), snd (rd_Int64 R r)), (s', pend(i := False))))
        else
          (case rd_Do R (''INCRBY'', [Txt ''uid'', Num 1]) s of (r, s') \<Rightarrow>
             if sint (fst (rd_Int64 R r)) < 100000 then (None, (s', pend(i := True)))
             else (Some (ucast (fst (rd_Int64 R r)), snd (rd_Int64 R r)), (s', pend))))"

fun gen_run :: "('s, 'r) Redis \<Rightarrow> nat list \<Rightarrow> 's generators \<Rightarrow> (u32 \<times> bool) list \<times> 's generators" where
  "gen_run R [] g = ([], g)"
| "gen_run R (i # is) g =
     (case gen_step R i g of (out, g) \<Rightarrow>
      case gen_run R is g of (outs, g) \<Rightarrow> ((case out of None \<Rightarrow> outs | Some u \<Rightarrow> u # outs), g))"

subsection \<open>Keys are separate\<close>

lemma dec_inject [simp]: "dec m = dec n \<longleftrightarrow> m = n"
  by (metis digits_dec of_nat_eq_iff option.inject)

lemma colon_not_dec: "CHR '':'' \<notin> set (dec n)"
proof
  assume "CHR '':'' \<in> set (dec n)"
  with dec_chars obtain d :: nat where d: "d < 10" "CHR '':'' = (char_of (48 + d) :: char)" by blast
  then have "of_char (CHR '':'') = (48 + d :: nat)" by simp
  with d(1) show False by simp
qed

lemma append_sep_inject:
  assumes "c \<notin> set xs" and "c \<notin> set ys" and "xs @ c # us = ys @ c # vs"
  shows "xs = ys \<and> us = vs"
  using assms by (induction xs ys rule: list_induct2') auto

text \<open>No two players share a key and no two rooms a queue.\<close>

lemma keys_separate:
  "keyUserOnline u = keyUserOnline v \<longleftrightarrow> u = v"
  "keyUser u = keyUser v \<longleftrightarrow> u = v"
  "keyRoomMatch r g = keyRoomMatch r' g' \<longleftrightarrow> r = r' \<and> g = g'"
  "keyUserOnline u \<noteq> keyUser v" "keyUserOnline u \<noteq> keyRoomMatch r g" "keyUser u \<noteq> keyRoomMatch r g"
proof -
  show "keyRoomMatch r g = keyRoomMatch r' g' \<longleftrightarrow> r = r' \<and> g = g'"
    using append_sep_inject [OF colon_not_dec colon_not_dec, of "unat r" "dec (unat g)" "unat r'" "dec (unat g')"]
    by (auto simp: keyRoomMatch_def intro: unsigned_word_eqI)
qed (simp_all add: keyUserOnline_def keyUser_def keyRoomMatch_def word_unat_eq_iff)

subsection \<open>What is written about a player is read again\<close>

text \<open>
  Redis on hashes: a successful \<open>HSET\<close> sets the named fields and no others, \<open>HGET\<close> changes nothing and answers
  with the field or an error. \<open>h\<close> reads the hashes off the state of the server.
\<close>

definition keeps_fields :: "('s, 'r) Redis \<Rightarrow> ('s \<Rightarrow> string \<Rightarrow> string \<Rightarrow> int option) \<Rightarrow> bool" where
  "keeps_fields R h \<longleftrightarrow>
     (\<forall>s k f n r s'. rd_Do R (''HSET'', [Txt k, Txt f, Num n]) s = (r, s') \<longrightarrow>
        \<not> rd_failed R r \<longrightarrow> h s' = (h s)(k := (h s k)(f \<mapsto> n))) \<and>
     (\<forall>s k f n g m r s'. rd_Do R (''HSET'', [Txt k, Txt f, Num n, Txt g, Num m]) s = (r, s') \<longrightarrow>
        \<not> rd_failed R r \<longrightarrow> h s' = (h s)(k := (h s k)(f \<mapsto> n, g \<mapsto> m))) \<and>
     (\<forall>s k f r s' v. rd_Do R (''HGET'', [Txt k, Txt f]) s = (r, s') \<longrightarrow>
        h s' = h s \<and> (rd_Int64 R r = (v, False) \<longrightarrow> map_option of_int (h s k f) = Some v))"

lemma ucast_of_uint [simp]:
  "ucast (of_int (uint (x :: u8)) :: i64) = x" "ucast (of_int (uint (y :: u32)) :: i64) = y"
  by (rule bit_word_eqI; simp add: bit_simps)+

lemma HSET_one:
  assumes "keeps_fields R h" and "rd_Do R (''HSET'', [Txt k, Txt f, Num n]) s = (r, s')" and "\<not> rd_failed R r"
  shows "h s' k f = Some n"
proof -
  have "h s' = (h s)(k := (h s k)(f \<mapsto> n))" using assms unfolding keeps_fields_def by blast
  then show ?thesis by simp
qed

lemma HSET_two:
  assumes "keeps_fields R h" and "rd_Do R (''HSET'', [Txt k, Txt f, Num n, Txt g, Num m]) s = (r, s')"
    and "\<not> rd_failed R r"
  shows "h s' k g = Some m"
proof -
  have "h s' = (h s)(k := (h s k)(f \<mapsto> n, g \<mapsto> m))" using assms unfolding keeps_fields_def by blast
  then show ?thesis by simp
qed

lemma HGET_field:
  assumes "keeps_fields R h" and "rd_Do R (''HGET'', [Txt k, Txt f]) s = (r, s')" and "rd_Int64 R r = (v, False)"
    and "h s k f = Some n"
  shows "v = of_int n"
proof -
  have "map_option of_int (h s k f) = Some v" using assms(1-3) unfolding keeps_fields_def by blast
  with assms(4) show ?thesis by simp
qed

text \<open>A desk that was set is read again, also when it was set together with the game.\<close>

lemma GetDesk_field:
  assumes "keeps_fields R h" and "GetDesk R uid s = (Inr (d', False), s')"
    and "h s (keyUserOnline uid) ''deskId'' = Some (uint d)"
  shows "d' = d"
proof -
  define D where "D = rd_Do R (''HGET'', [Txt (keyUserOnline uid), Txt ''deskId'']) s"
  define V where "V = rd_Int64 R (fst D)"
  have "GetDesk R uid s = (Inr (ucast (fst V), snd V), snd D)"
    by (simp add: GetDesk_def run_simps split_beta D_def V_def)
  with assms(2) have *: "d' = ucast (fst V)" "\<not> snd V" "s' = snd D" by auto
  have "rd_Int64 R (fst D) = (fst V, False)" using *(2) by (simp add: V_def prod_eq_iff)
  moreover have "rd_Do R (''HGET'', [Txt (keyUserOnline uid), Txt ''deskId'']) s = (fst D, snd D)" by (simp add: D_def)
  ultimately have "fst V = of_int (uint d)" using HGET_field [OF assms(1)] assms(3) by blast
  then show ?thesis using *(1) by (simp only: ucast_of_uint)
qed

lemma desk_read_back:
  assumes "keeps_fields R h" and "SetDesk R uid d s = (Inr False, s')" and "GetDesk R uid s' = (Inr (d', False), s'')"
  shows "d' = d"
proof (rule GetDesk_field [OF assms(1,3)])
  obtain r where "rd_Do R (''HSET'', [Txt (keyUserOnline uid), Txt ''deskId'', Num (uint d)]) s = (r, s')" "\<not> rd_failed R r"
    using assms(2) by (auto simp: SetDesk_def run_simps prod_eq_iff)
  then show "h s' (keyUserOnline uid) ''deskId'' = Some (uint d)" by (rule HSET_one [OF assms(1)])
qed

lemma game_sets_desk:
  assumes "keeps_fields R h" and "SetGame R uid g d s = (Inr False, s')" and "GetDesk R uid s' = (Inr (d', False), s'')"
  shows "d' = d"
proof (rule GetDesk_field [OF assms(1,3)])
  obtain r where "rd_Do R (''HSET'', [Txt (keyUserOnline uid), Txt ''gameId'', Num (uint g), Txt ''deskId'', Num (uint d)]) s = (r, s')"
    "\<not> rd_failed R r"
    using assms(2) by (auto simp: SetGame_def run_simps prod_eq_iff)
  then show "h s' (keyUserOnline uid) ''deskId'' = Some (uint d)" by (rule HSET_two [OF assms(1)])
qed

subsection \<open>User ids\<close>

text \<open>
  Redis on counters: an \<open>INCRBY\<close> that answers has added and answers with the sum; one that fails may have
  added or not. \<open>cnt\<close> reads the counter of uids off the state of the server.
\<close>

definition counts :: "('s, 'r) Redis \<Rightarrow> ('s \<Rightarrow> int) \<Rightarrow> bool" where
  "counts R cnt \<longleftrightarrow>
     (\<forall>s n r s' v err. 0 < n \<longrightarrow> rd_Do R (''INCRBY'', [Txt ''uid'', Num n]) s = (r, s') \<longrightarrow> rd_Int64 R r = (v, err) \<longrightarrow>
        (if err then cnt s' \<in> {cnt s, cnt s + n} else cnt s' = cnt s + n \<and> sint v = cnt s'))"

lemma INCRBY_counts:
  assumes "counts R cnt" and "0 < n" and "rd_Do R (''INCRBY'', [Txt ''uid'', Num n]) s = (r, s')"
  shows "cnt s \<le> cnt s'" and "rd_Int64 R r = (v, False) \<Longrightarrow> cnt s' = cnt s + n \<and> sint v = cnt s'"
proof -
  have a: "if err then cnt s' \<in> {cnt s, cnt s + n} else cnt s' = cnt s + n \<and> sint v = cnt s'"
    if "rd_Int64 R r = (v, err)" for v err
    using assms that unfolding counts_def by blast
  show "cnt s \<le> cnt s'" using a [OF prod.collapse [symmetric]] assms(2) by (auto split: if_splits)
  show "rd_Int64 R r = (v, False) \<Longrightarrow> cnt s' = cnt s + n \<and> sint v = cnt s'" using a by fastforce
qed

lemma uid_of_sint: "uint (ucast (v :: i64) :: u32) = sint v" if "0 \<le> sint v" "sint v < 2 ^ 32"
proof -
  have "take_bit 32 (sint v) = sint v" using that by (simp add: take_bit_int_eq_self)
  then show ?thesis by (simp add: unsigned_ucast_eq uint_sint [of v])
qed

text \<open>One process alone takes its two steps after each other.\<close>

lemma GenUserId_steps:
  "GenUserId R s =
     (case gen_step R i (s, \<lambda>_. False) of
        (Some u, (s, _)) \<Rightarrow> (Inr u, s)
      | (None, g) \<Rightarrow> (case gen_step R i g of (Some u, (s, _)) \<Rightarrow> (Inr u, s) | (None, (s, _)) \<Rightarrow> (Inl Explicit, s)))"
  by (simp add: GenUserId_def gen_step_def run_simps split_beta)

lemma gen_step_counts:
  assumes R: "counts R cnt" and step: "gen_step R i (s, pend) = (out, (s', pend'))"
  shows "cnt s \<le> cnt s'"
    and "\<lbrakk>out = Some (u, False); 0 \<le> cnt s; cnt s' < 2 ^ 32\<rbrakk> \<Longrightarrow> cnt s < uint u \<and> uint u \<le> cnt s' \<and> 100000 \<le> uint u"
proof -
  define n where "n = (if pend i then 100000 else 1 :: int)"
  obtain r where r: "rd_Do R (''INCRBY'', [Txt ''uid'', Num n]) s = (r, s')"
    and out: "out = None \<or> (\<exists>v err. rd_Int64 R r = (v, err) \<and> out = Some (ucast v, err) \<and> (pend i \<or> 100000 \<le> sint v))"
    using step by (cases "rd_Int64 R (fst (rd_Do R (''INCRBY'', [Txt ''uid'', Num n]) s))")
      (auto simp: gen_step_def n_def split: if_splits prod.splits)
  have n: "0 < n" by (simp add: n_def)
  show "cnt s \<le> cnt s'" by (rule INCRBY_counts(1) [OF R n r])
  assume u: "out = Some (u, False)" and range: "0 \<le> cnt s" "cnt s' < 2 ^ 32"
  then obtain v where v: "rd_Int64 R r = (v, False)" "u = ucast v" "pend i \<or> 100000 \<le> sint v" using out by auto
  have "cnt s' = cnt s + n" "sint v = cnt s'" using INCRBY_counts(2) [OF R n r v(1)] by auto
  with v range n uid_of_sint [of v] show "cnt s < uint u \<and> uint u \<le> cnt s' \<and> 100000 \<le> uint u"
    by (auto simp: n_def split: if_splits)
qed

text \<open>The uids that were handed out without an error.\<close>

definition uids :: "(u32 \<times> bool) list \<Rightarrow> u32 list" where
  "uids outs = map fst (filter (\<lambda>x. \<not> snd x) outs)"

lemma uids_simps [simp]: "uids [] = []" "uids ((u, err) # outs) = (if err then uids outs else u # uids outs)"
  by (simp_all add: uids_def)

lemma gen_run_counts:
  assumes "counts R cnt" and "gen_run R is (s, pend) = (outs, (s', pend'))"
  shows "cnt s \<le> cnt s' \<and> (0 \<le> cnt s \<longrightarrow> cnt s' < 2 ^ 32 \<longrightarrow>
    distinct (uids outs) \<and> (\<forall>u \<in> set (uids outs). cnt s < uint u \<and> 100000 \<le> uint u))"
  using assms(2)
proof (induction "is" arbitrary: s pend outs)
  case (Cons i "is")
  obtain out s1 p1 where step: "gen_step R i (s, pend) = (out, (s1, p1))" by (metis prod.collapse)
  obtain outs1 where run: "gen_run R is (s1, p1) = (outs1, (s', pend'))"
    and outs: "outs = (case out of None \<Rightarrow> outs1 | Some u \<Rightarrow> u # outs1)"
    using Cons.prems step by (auto split: prod.splits)
  note st = gen_step_counts [OF assms(1) step]
  note ih = Cons.IH [OF run]
  have "distinct (uids outs) \<and> (\<forall>u \<in> set (uids outs). cnt s < uint u \<and> 100000 \<le> uint u)"
    if range: "0 \<le> cnt s" "cnt s' < 2 ^ 32"
  proof (cases "\<exists>u. out = Some (u, False)")
    case True
    then obtain u where u: "out = Some (u, False)" by blast
    have "cnt s < uint u \<and> uint u \<le> cnt s1 \<and> 100000 \<le> uint u" using st(2) [OF u] ih range by simp
    with u ih st(1) range outs show ?thesis by fastforce
  next
    case False
    then have "uids outs = uids outs1" using outs by (auto split: option.splits)
    with ih st(1) range show ?thesis by fastforce
  qed
  with ih st(1) show ?case by auto
qed simp

text \<open>
  C30. Uids never repeat. Whatever processes generate uids at the same time, however their commands to Redis
  interleave and whichever of them fail, the uids handed out without an error are all different, larger than
  the counter was before, and at least 100000; as long as the counter stays below 2 to the 32.
\<close>

theorem ids_never_repeat:
  assumes "counts R cnt" and "0 \<le> cnt s"
    and "gen_run R turns (s, pend) = (outs, (s', pend'))" and "cnt s' < 2 ^ 32"
  shows "distinct (uids outs) \<and> (\<forall>u \<in> set (uids outs). cnt s < uint u \<and> 100000 \<le> uint u)"
  using gen_run_counts [OF assms(1,3)] assms(2,4) by blast

subsection \<open>Taking players out of a queue\<close>

text \<open>
  Redis on sorted sets: \<open>ZPOPMIN\<close> takes the first members of the set out and answers with each of them followed
  by its score. \<open>q\<close> reads the members with their scores, lowest first, off the state of the server.
\<close>

definition scored :: "(i64 \<times> u32) list \<Rightarrow> int list" where
  "scored ms = concat (map (\<lambda>(w, u). [uint u, sint w]) ms)"

definition pops_lowest :: "('s, 'r) Redis \<Rightarrow> ('s \<Rightarrow> string \<Rightarrow> (i64 \<times> u32) list) \<Rightarrow> bool" where
  "pops_lowest R q \<longleftrightarrow>
     (\<forall>s k n r s' xs. rd_Do R (''ZPOPMIN'', [Txt k, Num n]) s = (r, s') \<longrightarrow> rd_Ints R r = Some xs \<longrightarrow>
        xs = scored (take (nat n) (q s k)) \<and> q s' = (q s)(k := drop (nat n) (q s k)))"

lemma length_scored [simp]: "length (scored ms) = 2 * length ms"
  by (induction ms) (auto simp: scored_def)

lemma map_scored: "map of_int (scored ms) = concat (map (\<lambda>(w, u). [u, scast w]) ms :: u32 list list)"
  by (induction ms) (auto simp: scored_def)

lemma fill_eq:
  "i \<le> length us \<Longrightarrow> fill i xs us =
     (if i + length xs \<le> length us then Inr (take i us @ map of_int xs @ drop (i + length xs) us) else Inl IndexOutOfRange)"
proof (induction i xs us rule: fill.induct)
  case (2 i x xs us)
  then show ?case by (auto simp: upd_conv_take_nth_drop take_Suc_conv_app_nth add.commute)
qed simp

text \<open>
  C37. Taking players out of a matching queue. As the answer of Redis holds the score of every member too, the
  call panics exactly when more than half as many players are taken out as were asked for, and they are lost from
  the queue. Otherwise the result alternates uids and weights, and ends in zeros.
\<close>

theorem GetQueenUsers_exact:
  assumes "pops_lowest R q" and "popped = take (unat want) (q s (keyRoomMatch room game))"
  shows "case GetQueenUsers R room game want s of
      (Inl p, s') \<Rightarrow> p = IndexOutOfRange \<and> unat want < 2 * length popped \<and>
        q s' = (q s)(keyRoomMatch room game := drop (unat want) (q s (keyRoomMatch room game)))
    | (Inr None, s') \<Rightarrow> rd_Ints R (fst (rd_Do R (''ZPOPMIN'', [Txt (keyRoomMatch room game), Num (uint want)]) s)) = None
    | (Inr (Some us), s') \<Rightarrow> 2 * length popped \<le> unat want \<and>
        us = concat (map (\<lambda>(w, u). [u, scast w]) popped) @ replicate (unat want - 2 * length popped) 0 \<and>
        q s' = (q s)(keyRoomMatch room game := drop (unat want) (q s (keyRoomMatch room game)))"
proof -
  let ?D = "rd_Do R (''ZPOPMIN'', [Txt (keyRoomMatch room game), Num (uint want)]) s"
  show ?thesis
  proof (cases "rd_Ints R (fst ?D)")
    case None
    then show ?thesis by (simp add: GetQueenUsers_def run_simps)
  next
    case (Some xs)
    have "?D = (fst ?D, snd ?D)" by simp
    with assms(1) Some have "xs = scored (take (nat (uint want)) (q s (keyRoomMatch room game))) \<and>
        q (snd ?D) = (q s)(keyRoomMatch room game := drop (nat (uint want)) (q s (keyRoomMatch room game)))"
      unfolding pops_lowest_def by blast
    then have *: "xs = scored popped"
      "q (snd ?D) = (q s)(keyRoomMatch room game := drop (unat want) (q s (keyRoomMatch room game)))"
      by (simp_all add: assms(2) unsigned_word_eqI)
    have "fill 0 xs (replicate (unat want) 0) =
        (if 2 * length popped \<le> unat want
         then Inr (concat (map (\<lambda>(w, u). [u, scast w]) popped) @ replicate (unat want - 2 * length popped) 0)
         else Inl IndexOutOfRange)"
      by (simp add: fill_eq *(1) map_scored)
    with Some *(2) show ?thesis by (simp add: GetQueenUsers_def run_simps)
  qed
qed

subsection \<open>A Redis for the witnesses\<close>

text \<open>A counter and sorted sets, with numbers as replies.\<close>

type_synonym demo = "int \<times> (string \<Rightarrow> (i64 \<times> u32) list)"

definition demo_do :: "command \<Rightarrow> demo \<Rightarrow> int list \<times> demo" where
  "demo_do c d =
     (case (c, d) of
        ((name, [Txt k, Num n]), (uid, sets)) \<Rightarrow>
          if name = ''INCRBY'' then ([uid + n], (uid + n, sets))
          else (scored (take (nat n) (sets k)), (uid, sets(k := drop (nat n) (sets k))))
      | _ \<Rightarrow> ([], d))"

definition demo_redis :: "(demo, int list) Redis" where
  "demo_redis =
     \<lparr>rd_Do = demo_do, rd_failed = (\<lambda>_. False),
      rd_Int64 = (\<lambda>r. (of_int (hd r), sint (of_int (hd r) :: i64) \<noteq> hd r)), rd_Ints = Some, rd_Values = (\<lambda>_. None)\<rparr>"

lemma demo_counts: "counts demo_redis fst"
  by (auto simp: counts_def demo_redis_def demo_do_def)

lemma demo_pops: "pops_lowest demo_redis snd"
  by (auto simp: pops_lowest_def demo_redis_def demo_do_def)

text \<open>Two processes interleave their first two commands; then one of them goes on alone.\<close>

lemma ids_never_repeat_witness:
  "\<exists>outs g. gen_run demo_redis [0, 1, 0, 1, 0] ((0, \<lambda>_. []), \<lambda>_. False) = (outs, g) \<and>
     map fst outs = [100002, 200002, 200003] \<and> distinct (uids outs) \<and> (\<forall>u \<in> set (uids outs). 0 < uint u \<and> 100000 \<le> uint u)"
proof -
  have "case gen_run demo_redis [0, 1, 0, 1, 0] ((0, \<lambda>_. []), \<lambda>_. False) of
      (outs, (s', _)) \<Rightarrow> fst s' = 200003 \<and> map fst outs = [100002, 200002, 200003]"
    by code_simp
  then obtain outs s' pend' where run: "gen_run demo_redis [0, 1, 0, 1, 0] ((0, \<lambda>_. []), \<lambda>_. False) = (outs, (s', pend'))"
    and final: "fst s' = 200003" "map fst outs = [100002, 200002, 200003]" by (auto split: prod.splits)
  have "distinct (uids outs) \<and> (\<forall>u \<in> set (uids outs). fst (0 :: int, \<lambda>_ :: string. [] :: (i64 \<times> u32) list) < uint u \<and> 100000 \<le> uint u)"
    by (rule ids_never_repeat [OF demo_counts _ run]) (simp_all add: final)
  with run final show ?thesis by auto
qed

text \<open>Three players wait; whoever asks for four of them panics.\<close>

lemma GetQueenUsers_exact_witness:
  "fst (GetQueenUsers demo_redis 1 2 4 (0, (\<lambda>_. [])(keyRoomMatch 1 2 := [(5, 100), (6, 101), (7, 102)]))) = Inl IndexOutOfRange"
  using GetQueenUsers_exact [OF demo_pops refl,
      of 4 "(0, (\<lambda>_. [])(keyRoomMatch 1 2 := [(5, 100), (6, 101), (7, 102)]))" 1 2]
  by (auto simp: demo_redis_def split: prod.splits sum.splits option.splits)

end
