(* ===== verification/EvioKqueue.thy ===== *)
theory EvioKqueue
  imports EvioLoop
begin

text \<open>
  \<open>evio/internal/internal_bsd.go\<close>: the poll on a kqueue. It differs from the one on epoll in two ways: it watches
  reading and writing of a descriptor as separate filters, and it only notes changes, which the system takes
  with the next wait. What the system keeps is part of the state: the descriptors that are open, and the filters on
  each. The two polls are shown to be interchangeable.
\<close>

subsection \<open>The poll\<close>

datatype kfilter = KRead | KWrite

datatype kflag = KAdd | KDelete

record Kevent =
  ke_Ident :: int
  ke_Filter :: kfilter
  ke_Flags :: kflag

record 'n KPoll =
  kq_changes :: "Kevent list"
  kq_notes :: "'n list"
  kq_user :: bool
  kq_open :: "int \<Rightarrow> bool"
  kq_filters :: "int \<Rightarrow> kfilter \<Rightarrow> bool"

text \<open>\<open>ok1\<close>, \<open>ok2\<close>: there is a kqueue, and it takes the filter that wakes it, which is for ident 0.\<close>

definition kq_OpenPoll :: "bool \<Rightarrow> bool \<Rightarrow> (int \<Rightarrow> bool) \<Rightarrow> panic + 'n KPoll" where
  "kq_OpenPoll ok1 ok2 opened =
     (if \<not> ok1 then Inl Explicit
      else if \<not> ok2 then Inl Explicit
      else Inr \<lparr>kq_changes = [], kq_notes = [], kq_user = True, kq_open = opened, kq_filters = \<lambda>_ _. False\<rparr>)"

definition kq_Close :: "(int \<Rightarrow> errno option) \<Rightarrow> int \<Rightarrow> errno option" where
  "kq_Close close fd = close fd"

definition kq_change :: "Kevent list \<Rightarrow> 'n KPoll \<Rightarrow> 'n KPoll" where
  "kq_change es p = p\<lparr>kq_changes := kq_changes p @ es\<rparr>"

definition kevent :: "int \<Rightarrow> kflag \<Rightarrow> kfilter \<Rightarrow> Kevent" where
  "kevent fd fl flt = \<lparr>ke_Ident = fd, ke_Filter = flt, ke_Flags = fl\<rparr>"

definition kq_AddRead :: "int \<Rightarrow> 'n KPoll \<Rightarrow> 'n KPoll" where
  "kq_AddRead fd = kq_change [kevent fd KAdd KRead]"

definition kq_AddReadWrite :: "int \<Rightarrow> 'n KPoll \<Rightarrow> 'n KPoll" where
  "kq_AddReadWrite fd = kq_change [kevent fd KAdd KRead, kevent fd KAdd KWrite]"

definition kq_ModRead :: "int \<Rightarrow> 'n KPoll \<Rightarrow> 'n KPoll" where
  "kq_ModRead fd = kq_change [kevent fd KDelete KWrite]"

definition kq_ModReadWrite :: "int \<Rightarrow> 'n KPoll \<Rightarrow> 'n KPoll" where
  "kq_ModReadWrite fd = kq_change [kevent fd KAdd KWrite]"

definition kq_ModDetach :: "int \<Rightarrow> 'n KPoll \<Rightarrow> 'n KPoll" where
  "kq_ModDetach fd = kq_change [kevent fd KDelete KRead, kevent fd KDelete KWrite]"

definition kq_Trigger :: "errno option \<Rightarrow> 'n \<Rightarrow> 'n KPoll \<Rightarrow> errno option \<times> 'n KPoll" where
  "kq_Trigger err note' p = (err, p\<lparr>kq_notes := kq_notes p @ [note']\<rparr>)"

text \<open>
  How the system takes one change: it fails for a closed descriptor, and when the filter to be deleted is not
  there. A failed change is reported as an event of its descriptor.
\<close>

definition kev_one :: "Kevent \<Rightarrow> 'n KPoll \<Rightarrow> bool \<times> 'n KPoll" where
  "kev_one e p =
     (let fd = ke_Ident e; flt = ke_Filter e in
      if \<not> kq_open p fd then (False, p)
      else case ke_Flags e of
        KAdd \<Rightarrow> (True, p\<lparr>kq_filters := (kq_filters p)(fd := (kq_filters p fd)(flt := True))\<rparr>)
      | KDelete \<Rightarrow> (kq_filters p fd flt, p\<lparr>kq_filters := (kq_filters p)(fd := (kq_filters p fd)(flt := False))\<rparr>))"

fun kev_all :: "Kevent list \<Rightarrow> 'n KPoll \<Rightarrow> int list \<times> 'n KPoll" where
  "kev_all [] p = ([], p)"
| "kev_all (e # es) p =
     (case kev_one e p of (ok, p) \<Rightarrow> case kev_all es p of (bad, p) \<Rightarrow> (if ok then bad else ke_Ident e # bad, p))"

text \<open>The changes are taken also when the wait is interrupted.\<close>

definition kq_flush :: "'n KPoll \<Rightarrow> int list \<times> 'n KPoll" where
  "kq_flush p = (case kev_all (kq_changes p) p of (bad, p) \<Rightarrow> (bad, p\<lparr>kq_changes := []\<rparr>))"

text \<open>
  One round of \<open>Wait\<close>: an error other than an interruption ends it; else the notes and then the events, of
  which those of ident 0 only wake.
\<close>

definition kq_wait_once :: "(int \<Rightarrow> 'n option \<Rightarrow> ('n KPoll \<times> 's, 'e option) act) \<Rightarrow> (errno \<Rightarrow> 'e) \<Rightarrow> errno + int list \<Rightarrow>
    ('n KPoll \<times> 's, 'e option) act" where
  "kq_wait_once iter sys ready =
     seq get_st (\<lambda>(p, s).
     case kq_flush p of (bad, p) \<Rightarrow>
     case ready of
       Inl e \<Rightarrow>
         if e \<noteq> EINTR then ret (Some (sys e))
         else seq (modify (\<lambda>_. (p\<lparr>kq_notes := []\<rparr>, s))) (\<lambda>_. until_error (\<lambda>n. iter 0 (Some n)) (kq_notes p))
     | Inr fds \<Rightarrow>
         seq (modify (\<lambda>_. (p\<lparr>kq_notes := []\<rparr>, s))) (\<lambda>_.
         seq (until_error (\<lambda>n. iter 0 (Some n)) (kq_notes p)) (\<lambda>e.
         case e of
           Some _ \<Rightarrow> ret e
         | None \<Rightarrow> until_error (\<lambda>fd. if fd \<noteq> 0 then iter fd None else ret None) (bad @ fds))))"

subsection \<open>What a poll is to do\<close>

text \<open>
  The calls of the event loops: a new connection is watched for both, a change of what is watched, a detached
  or closed descriptor, and a wait between them.
\<close>

datatype poll_op = PAccept int | PRead int | PReadWrite int | PDetach int | PClose int | PWait

fun allowed :: "poll_op \<Rightarrow> (int \<Rightarrow> interest option) \<Rightarrow> bool" where
  "allowed (PAccept fd) w \<longleftrightarrow> w fd = None"
| "allowed (PRead fd) w \<longleftrightarrow> w fd \<noteq> None"
| "allowed (PReadWrite fd) w \<longleftrightarrow> w fd \<noteq> None"
| "allowed (PDetach fd) w \<longleftrightarrow> w fd \<noteq> None"
| "allowed (PClose fd) w \<longleftrightarrow> True"
| "allowed PWait w \<longleftrightarrow> True"

fun after :: "poll_op \<Rightarrow> (int \<Rightarrow> interest option) \<Rightarrow> int \<Rightarrow> interest option" where
  "after (PAccept fd) w = w(fd \<mapsto> ReadsWrites)"
| "after (PRead fd) w = w(fd \<mapsto> Reads)"
| "after (PReadWrite fd) w = w(fd \<mapsto> ReadsWrites)"
| "after (PDetach fd) w = w(fd := None)"
| "after (PClose fd) w = w(fd := None)"
| "after PWait w = w"

fun allowed_all :: "poll_op list \<Rightarrow> (int \<Rightarrow> interest option) \<Rightarrow> bool" where
  "allowed_all [] w \<longleftrightarrow> True"
| "allowed_all (op # ops) w \<longleftrightarrow> allowed op w \<and> allowed_all ops (after op w)"

locale watcher =
  fixes ok :: "'s \<Rightarrow> bool" and watching :: "'s \<Rightarrow> int \<Rightarrow> interest option" and perform :: "poll_op \<Rightarrow> ('s, unit) act"
  assumes performs: "ok s \<Longrightarrow> allowed op (watching s) \<Longrightarrow>
    \<exists>t. perform op s = (Inr (), t) \<and> ok t \<and> watching t = after op (watching s)"
begin

lemma performs_all:
  assumes "ok s" "allowed_all ops (watching s)"
  shows "\<exists>t. for_each perform ops s = (Inr (), t) \<and> ok t \<and> watching t = fold after ops (watching s)"
  using assms
proof (induction ops arbitrary: s)
  case Nil
  then show ?case by (auto simp: ret_def)
next
  case (Cons op ops)
  then obtain t where t: "perform op s = (Inr (), t)" "ok t" "watching t = after op (watching s)" using performs by fastforce
  then show ?case using Cons.IH [of t] Cons.prems(2) by (auto simp: run_simps)
qed

end

subsection \<open>The poll on epoll\<close>

definition ep_perform :: "poll_op \<Rightarrow> ('a evserver, unit) act" where
  "ep_perform op =
     (case op of
        PAccept fd \<Rightarrow> AddReadWrite True 0 fd
      | PRead fd \<Rightarrow> ModRead True 0 fd
      | PReadWrite fd \<Rightarrow> ModReadWrite True 0 fd
      | PDetach fd \<Rightarrow> ModDetach True 0 fd
      | PClose fd \<Rightarrow> modify (sys_Close fd)
      | PWait \<Rightarrow> ret ())"

lemma watch_of_poll: "0 < length (sv_loops s) \<Longrightarrow> watch_of 0 (on_poll 0 (watch fd i) s) = (watch_of 0 s)(fd := i)"
  by (simp add: the_loop_def on_poll_def upd_loop_def watch_def)

lemma watch_of_close: "0 < length (sv_loops s) \<Longrightarrow> watch_of 0 (sys_Close fd s) = (watch_of 0 s)(fd := None)"
  by (simp add: the_loop_def sys_Close_def watch_def)

lemma loops_poll [simp]: "sv_loops (on_poll l f s) = [] \<longleftrightarrow> sv_loops s = []" "sv_loops (sys_Close fd s) = [] \<longleftrightarrow> sv_loops s = []"
  by (simp_all add: on_poll_def upd_loop_def sys_Close_def)

interpretation ep: watcher "\<lambda>s. sv_loops s \<noteq> []" "watch_of 0" ep_perform
proof
  fix s :: "'a evserver" and op
  assume "sv_loops s \<noteq> []" "allowed op (watch_of 0 s)"
  then show "\<exists>t. ep_perform op s = (Inr (), t) \<and> sv_loops t \<noteq> [] \<and> watch_of 0 t = after op (watch_of 0 s)"
    by (cases op) (simp_all add: ep_perform_def AddReadWrite_def ModRead_def ModReadWrite_def ModDetach_def ctl_add_def ctl_mod_def
      run_simps watch_of_poll watch_of_close)
qed

subsection \<open>The poll on a kqueue\<close>

text \<open>What the filters of an open descriptor are once the changes are taken.\<close>

definition settled :: "'n KPoll \<Rightarrow> int \<Rightarrow> kfilter \<Rightarrow> bool" where
  "settled p fd flt =
     foldl (\<lambda>b e. if ke_Ident e = fd \<and> ke_Filter e = flt then ke_Flags e = KAdd else b) (kq_filters p fd flt) (kq_changes p)"

definition kq_watching :: "'n KPoll \<Rightarrow> int \<Rightarrow> interest option" where
  "kq_watching p fd =
     (if kq_open p fd \<and> settled p fd KRead then Some (if settled p fd KWrite then ReadsWrites else Reads) else None)"

definition kq_ok :: "'n KPoll \<Rightarrow> bool" where
  "kq_ok p \<longleftrightarrow> (\<forall>fd. (\<not> kq_open p fd \<longrightarrow> \<not> kq_filters p fd KRead \<and> \<not> kq_filters p fd KWrite) \<and>
     (kq_open p fd \<longrightarrow> settled p fd KWrite \<longrightarrow> settled p fd KRead))"

text \<open>The descriptor of a new connection is open; closing one takes its filters away, but not the changes noted for it.\<close>

definition kq_perform :: "poll_op \<Rightarrow> ('n KPoll, unit) act" where
  "kq_perform op =
     modify (case op of
        PAccept fd \<Rightarrow> (\<lambda>p. kq_AddReadWrite fd (p\<lparr>kq_open := (kq_open p)(fd := True)\<rparr>))
      | PRead fd \<Rightarrow> kq_ModRead fd
      | PReadWrite fd \<Rightarrow> kq_ModReadWrite fd
      | PDetach fd \<Rightarrow> kq_ModDetach fd
      | PClose fd \<Rightarrow> (\<lambda>p. p\<lparr>kq_open := (kq_open p)(fd := False), kq_filters := (kq_filters p)(fd := \<lambda>_. False)\<rparr>)
      | PWait \<Rightarrow> (\<lambda>p. snd (kq_flush p)))"

lemma settled_change:
  "settled (kq_change es p) fd flt =
     foldl (\<lambda>b e. if ke_Ident e = fd \<and> ke_Filter e = flt then ke_Flags e = KAdd else b) (settled p fd flt) es"
  "kq_open (kq_change es p) = kq_open p" "kq_filters (kq_change es p) = kq_filters p"
  by (simp_all add: settled_def kq_change_def)

lemma settled_frame [simp]:
  "settled (p\<lparr>kq_open := opened\<rparr>) fd flt = settled p fd flt"
  "fd \<noteq> fd' \<Longrightarrow> settled (p\<lparr>kq_open := opened, kq_filters := (kq_filters p)(fd' := f)\<rparr>) fd flt = settled p fd flt"
  by (simp_all add: settled_def)

lemma kev_all_filters:
  assumes "kev_all es p = (bad, p')"
  shows "kq_open p' = kq_open p \<and> kq_notes p' = kq_notes p \<and> (\<forall>fd flt. kq_filters p' fd flt =
    (if kq_open p fd then foldl (\<lambda>b e. if ke_Ident e = fd \<and> ke_Filter e = flt then ke_Flags e = KAdd else b) (kq_filters p fd flt) es
     else kq_filters p fd flt))"
  using assms
proof (induction es arbitrary: p bad)
  case (Cons e es)
  obtain ok q where q: "kev_one e p = (ok, q)" by force
  obtain bad' where bad': "kev_all es q = (bad', p')" using Cons.prems q by (auto split: prod.splits)
  have "kq_open q = kq_open p" "kq_notes q = kq_notes p"
    "kq_filters q fd flt = (if kq_open p fd \<and> ke_Ident e = fd \<and> ke_Filter e = flt then ke_Flags e = KAdd else kq_filters p fd flt)" for fd flt
    using q by (auto simp: kev_one_def Let_def split: if_splits kflag.splits)
  then show ?case using Cons.IH [OF bad'] by simp
qed simp

lemma kq_flush_filters:
  "kq_filters (snd (kq_flush p)) fd flt = (if kq_open p fd then settled p fd flt else kq_filters p fd flt)"
  "kq_open (snd (kq_flush p)) = kq_open p" "kq_changes (snd (kq_flush p)) = []"
  using kev_all_filters [of "kq_changes p" p] by (auto simp: kq_flush_def settled_def split: prod.split)

lemma settled_flush: "kq_open p fd \<Longrightarrow> settled (snd (kq_flush p)) fd flt = settled p fd flt"
  by (simp add: settled_def [of "snd (kq_flush p)"] kq_flush_filters)

lemmas kq_calls = kq_AddReadWrite_def kq_AddRead_def kq_ModRead_def kq_ModReadWrite_def kq_ModDetach_def settled_change kevent_def

text \<open>What a call does to the filters to come.\<close>

definition kq_after :: "poll_op \<Rightarrow> 'n KPoll \<Rightarrow> 'n KPoll" where
  "kq_after op p = snd (kq_perform op p)"

lemma kq_perform_after: "kq_perform op p = (Inr (), kq_after op p)"
  by (simp add: kq_after_def kq_perform_def run_simps)

lemma kfilter_cases: "flt = KRead \<or> flt = KWrite"
  by (cases flt) simp_all

lemma settled_after:
  "settled (kq_after (PAccept fd) p) fd' flt \<longleftrightarrow> fd' = fd \<or> settled p fd' flt"
  "settled (kq_after (PRead fd) p) fd' flt \<longleftrightarrow> settled p fd' flt \<and> \<not> (fd' = fd \<and> flt = KWrite)"
  "settled (kq_after (PReadWrite fd) p) fd' flt \<longleftrightarrow> settled p fd' flt \<or> fd' = fd \<and> flt = KWrite"
  "settled (kq_after (PDetach fd) p) fd' flt \<longleftrightarrow> settled p fd' flt \<and> fd' \<noteq> fd"
  "fd' \<noteq> fd \<Longrightarrow> settled (kq_after (PClose fd) p) fd' flt = settled p fd' flt"
  "kq_open p fd' \<Longrightarrow> settled (kq_after PWait p) fd' flt = settled p fd' flt"
  using kfilter_cases [of flt] by (auto simp: kq_after_def kq_perform_def run_simps kq_calls settled_flush)

lemma open_after:
  "kq_open (kq_after (PAccept fd) p) = (kq_open p)(fd := True)" "kq_open (kq_after (PRead fd) p) = kq_open p"
  "kq_open (kq_after (PReadWrite fd) p) = kq_open p" "kq_open (kq_after (PDetach fd) p) = kq_open p"
  "kq_open (kq_after (PClose fd) p) = (kq_open p)(fd := False)" "kq_open (kq_after PWait p) = kq_open p"
  by (simp_all add: kq_after_def kq_perform_def run_simps kq_calls kq_flush_filters)

lemma filters_after:
  "op \<noteq> PWait \<Longrightarrow> kq_filters (kq_after op p) fd flt \<Longrightarrow> kq_filters p fd flt"
  "kq_filters (kq_after (PClose fd') p) fd' flt = False"
  "kq_filters (kq_after PWait p) fd flt = (if kq_open p fd then settled p fd flt else kq_filters p fd flt)"
  by (cases op) (auto simp: kq_after_def kq_perform_def run_simps kq_calls kq_flush_filters split: if_splits)

lemma kq_ok_after:
  assumes "kq_ok p" "allowed op (kq_watching p)"
  shows "kq_ok (kq_after op p)"
  unfolding kq_ok_def
proof (intro allI conjI impI)
  fix fd
  assume "\<not> kq_open (kq_after op p) fd"
  then have c: "\<not> kq_filters p fd flt \<or> op = PClose fd" for flt
    using assms(1) kfilter_cases [of flt] by (cases op) (auto simp: open_after kq_ok_def split: if_splits)
  have "\<not> kq_filters (kq_after op p) fd flt" for flt
  proof (cases "op = PWait")
    case True
    then show ?thesis using c [of flt] \<open>\<not> kq_open (kq_after op p) fd\<close> by (simp add: filters_after(3) open_after)
  next
    case False
    then show ?thesis using c [of flt] filters_after(1) [OF False, of p fd flt] filters_after(2) [of fd p flt] by auto
  qed
  then show "\<not> kq_filters (kq_after op p) fd KRead" "\<not> kq_filters (kq_after op p) fd KWrite" by blast+
next
  fix fd
  assume o: "kq_open (kq_after op p) fd" and w: "settled (kq_after op p) fd KWrite"
  show "settled (kq_after op p) fd KRead"
  proof (cases op)
    case (PReadWrite fd')
    then show ?thesis using assms o w by (auto simp: settled_after open_after kq_ok_def kq_watching_def split: if_splits)
  next
    case (PClose fd')
    then have "fd \<noteq> fd'" using o by (auto simp: open_after)
    then show ?thesis using PClose assms o w by (simp add: settled_after open_after kq_ok_def)
  qed (use assms(1) o w in \<open>auto simp: settled_after open_after kq_ok_def split: if_splits\<close>)
qed

lemma kq_watching_after:
  assumes "allowed op (kq_watching p)"
  shows "kq_watching (kq_after op p) fd = after op (kq_watching p) fd"
proof (cases op)
  case (PClose fd')
  then show ?thesis by (cases "fd = fd'") (simp_all add: kq_watching_def open_after settled_after)
next
  case PWait
  then show ?thesis by (cases "kq_open p fd") (simp_all add: kq_watching_def open_after settled_after)
qed (use assms in \<open>auto simp: kq_watching_def open_after settled_after split: if_splits\<close>)

interpretation kq: watcher kq_ok kq_watching kq_perform
  by unfold_locales (auto simp: kq_perform_after kq_ok_after kq_watching_after)

subsection \<open>The two polls agree\<close>

fun poll_fd :: "poll_op \<Rightarrow> int option" where
  "poll_fd (PAccept fd) = Some fd"
| "poll_fd (PRead fd) = Some fd"
| "poll_fd (PReadWrite fd) = Some fd"
| "poll_fd (PDetach fd) = Some fd"
| "poll_fd (PClose fd) = Some fd"
| "poll_fd PWait = None"

text \<open>Calls for other descriptors than the wake descriptor do not depend on it.\<close>

lemma after_other:
  assumes "poll_fd op \<noteq> Some wfd"
  shows "after op (w(wfd := x)) = (after op w)(wfd := x)" "allowed op (w(wfd := x)) = allowed op w"
  using assms by (cases op; simp add: fun_upd_twist)+

lemma after_others:
  assumes "\<forall>op \<in> set ops. poll_fd op \<noteq> Some wfd"
  shows "fold after ops (w(wfd := x)) = (fold after ops w)(wfd := x) \<and> allowed_all ops (w(wfd := x)) = allowed_all ops w"
  using assms by (induction ops arbitrary: w) (simp_all add: after_other)

definition listening :: "int list \<Rightarrow> int \<Rightarrow> interest option" where
  "listening lns = (\<lambda>fd. if fd \<in> set lns then Some Reads else None)"

lemma ep_listens:
  assumes "distinct lns" "\<forall>fd \<in> set lns. watch_of 0 s fd = None" "sv_loops s \<noteq> []"
  shows "\<exists>t. for_each (AddRead True 0) lns s = (Inr (), t) \<and> sv_loops t \<noteq> [] \<and> watch_of 0 t = watch_of 0 s ++ listening lns"
  using assms
proof (induction lns arbitrary: s)
  case Nil
  then show ?case by (simp add: ret_def listening_def map_add_def)
next
  case (Cons fd lns)
  let ?s = "on_poll 0 (watch fd (Some Reads)) s"
  have a: "AddRead True 0 fd s = (Inr (), ?s)" using Cons.prems by (simp add: AddRead_def ctl_add_def run_simps)
  have w: "watch_of 0 ?s = (watch_of 0 s)(fd \<mapsto> Reads)" using Cons.prems(3) by (simp add: watch_of_poll)
  have "\<forall>fd' \<in> set lns. watch_of 0 ?s fd' = None" "sv_loops ?s \<noteq> []" using Cons.prems unfolding w by auto
  from Cons.IH [OF _ this] Cons.prems(1) obtain t where "for_each (AddRead True 0) lns ?s = (Inr (), t)" "sv_loops t \<noteq> []"
    "watch_of 0 t = (watch_of 0 s)(fd \<mapsto> Reads) ++ listening lns"
    unfolding w by (auto simp del: fun_upd_apply)
  moreover have "(watch_of 0 s)(fd \<mapsto> Reads) ++ listening lns = watch_of 0 s ++ listening (fd # lns)"
    by (auto simp: fun_eq_iff map_add_def listening_def)
  ultimately show ?case using a by (simp add: run_simps)
qed

lemma kq_listens:
  assumes "\<forall>fd \<in> set lns. kq_open p fd"
  shows "kq_open (fold kq_AddRead lns p) = kq_open p \<and> kq_filters (fold kq_AddRead lns p) = kq_filters p \<and>
    (\<forall>fd flt. settled (fold kq_AddRead lns p) fd flt \<longleftrightarrow> settled p fd flt \<or> fd \<in> set lns \<and> flt = KRead)"
  using assms by (induction lns arbitrary: p) (auto simp: kq_calls)

text \<open>
  C15. The polls on epoll and on a kqueue are interchangeable: after the listeners are added and then any calls as the
  event loops make them (a new connection is not watched yet, a change or detachment is of one that is), with waits and
  closed descriptors between them in any order, the filters that the kqueue has once the noted changes are taken are
  those that epoll has at once, for every descriptor but the one that wakes epoll; and no call fails.
\<close>

theorem polls_agree:
  assumes "distinct lns" and "wfd \<notin> set lns" and "kq_OpenPoll True True (\<lambda>fd. fd \<in> set lns) = Inr p0"
    and "allowed_all ops (listening lns)" and "\<forall>op \<in> set ops. poll_fd op \<noteq> Some wfd"
  shows "\<exists>s p. seq (for_each (AddRead True 0) lns) (\<lambda>_. for_each ep_perform ops) ((new_evserver a)\<lparr>sv_loops := [OpenPoll wfd]\<rparr>) = (Inr (), s) \<and>
    for_each kq_perform ops (fold kq_AddRead lns p0) = (Inr (), p) \<and>
    (\<forall>fd. fd \<noteq> wfd \<longrightarrow>
       kq_filters (snd (kq_flush p)) fd KRead = (watch_of 0 s fd \<noteq> None) \<and>
       kq_filters (snd (kq_flush p)) fd KWrite = (watch_of 0 s fd = Some ReadsWrites))"
proof -
  let ?s = "(new_evserver a)\<lparr>sv_loops := [OpenPoll wfd]\<rparr>"
  have w: "watch_of 0 ?s = [wfd \<mapsto> Reads]" by (simp add: the_loop_def OpenPoll_def watch_def)
  obtain s1 where s1: "for_each (AddRead True 0) lns ?s = (Inr (), s1)" "sv_loops s1 \<noteq> []" "watch_of 0 s1 = watch_of 0 ?s ++ listening lns"
    using ep_listens [of lns ?s] assms(1,2) w by fastforce
  have w1: "watch_of 0 s1 = (listening lns)(wfd \<mapsto> Reads)"
    unfolding s1(3) w using assms(2) by (auto simp: fun_eq_iff map_add_def listening_def)
  obtain s where s: "for_each ep_perform ops s1 = (Inr (), s)" "watch_of 0 s = fold after ops (watch_of 0 s1)"
    using ep.performs_all [OF s1(2), of ops] after_others [OF assms(5), of "listening lns"] assms(4) w1 by auto
  let ?p = "fold kq_AddRead lns p0"
  have p0: "kq_open p0 = (\<lambda>fd. fd \<in> set lns)" "kq_filters p0 = (\<lambda>_ _. False)" "\<not> settled p0 fd flt" for fd flt
    using assms(3) by (auto simp: kq_OpenPoll_def settled_def)
  then have l: "kq_open ?p = (\<lambda>fd. fd \<in> set lns)" "kq_filters ?p = (\<lambda>_ _. False)" "settled ?p fd flt \<longleftrightarrow> fd \<in> set lns \<and> flt = KRead" for fd flt
    using kq_listens [of lns p0] by simp_all
  have ok: "kq_ok ?p" and p1: "kq_watching ?p = listening lns"
    by (simp_all add: kq_ok_def kq_watching_def listening_def fun_eq_iff l)
  obtain p where p: "for_each kq_perform ops ?p = (Inr (), p)" "kq_ok p" "kq_watching p = fold after ops (listening lns)"
    using kq.performs_all [OF ok, of ops] assms(4) unfolding p1 by blast
  have "watch_of 0 s fd = kq_watching p fd" if "fd \<noteq> wfd" for fd
    using after_others [OF assms(5), of "listening lns" "Some Reads"] that by (simp add: s(2) w1 p(3))
  moreover have "kq_filters (snd (kq_flush p)) fd KRead = (kq_watching p fd \<noteq> None)"
    "kq_filters (snd (kq_flush p)) fd KWrite = (kq_watching p fd = Some ReadsWrites)" for fd
    using p(2) by (auto simp: kq_flush_filters kq_watching_def kq_ok_def)
  ultimately show ?thesis using s1(1) s(1) p(1) by (intro exI [of _ s] exI [of _ p]) (simp add: run_simps)
qed

lemma polls_agree_witness:
  "\<exists>s. \<exists>p :: nat KPoll. seq (for_each (AddRead True 0) [3]) (\<lambda>_. for_each ep_perform [PAccept 7, PRead 7, PWait, PReadWrite 7, PClose 7, PAccept 7])
      ((new_evserver ())\<lparr>sv_loops := [OpenPoll 4]\<rparr>) = (Inr (), s) \<and>
    watch_of 0 s 7 = Some ReadsWrites \<and> kq_filters (snd (kq_flush p)) 7 KWrite \<and> kq_filters (snd (kq_flush p)) 3 KRead"
proof -
  let ?ops = "[PAccept 7, PRead 7, PWait, PReadWrite 7, PClose 7, PAccept 7]"
  obtain p0 :: "nat KPoll" where p0: "kq_OpenPoll True True (\<lambda>fd. fd \<in> set [3]) = Inr p0" by (simp add: kq_OpenPoll_def)
  from polls_agree [OF _ _ p0, of 4 ?ops "()"] obtain s and p :: "nat KPoll" where
    s: "seq (for_each (AddRead True 0) [3]) (\<lambda>_. for_each ep_perform ?ops) ((new_evserver ())\<lparr>sv_loops := [OpenPoll 4]\<rparr>) = (Inr (), s)"
    and f: "\<forall>fd. fd \<noteq> 4 \<longrightarrow> kq_filters (snd (kq_flush p)) fd KRead = (watch_of 0 s fd \<noteq> None) \<and>
       kq_filters (snd (kq_flush p)) fd KWrite = (watch_of 0 s fd = Some ReadsWrites)"
    by (simp add: listening_def) blast
  have "watch_of 0 s 7 = Some ReadsWrites" "watch_of 0 s 3 = Some Reads"
  proof -
    have "map (watch_of 0 (snd (seq (for_each (AddRead True 0) [3]) (\<lambda>_. for_each ep_perform ?ops) ((new_evserver ())\<lparr>sv_loops := [OpenPoll 4]\<rparr>))))
        [7, 3] = [Some ReadsWrites, Some Reads]"
      by code_simp
    then show "watch_of 0 s 7 = Some ReadsWrites" "watch_of 0 s 3 = Some Reads" unfolding s by simp_all
  qed
  then show ?thesis using s f by (intro exI [of _ s] exI [of _ p]) simp
qed

end
