(* ===== verification/Robot.thy ===== *)
theory Robot
  imports GameRoom HallRoute GateRoute
begin

text \<open>
  \<open>examples/wsclient/main.go\<close>: the client of the mahjong server, a robot. It logs in at the gate, asks the hall
  for its lists, enters the first room, and plays: it keeps the tiles it was told of and answers every offer with
  the first operation offered. What is read from its connection, and whether writing to it works, are
  arguments; what it has sent and the errors it has met are recorded. The unmarshallers are parameters: what
  they leave in the empty answer is used also when they fail, as errors are only logged.
\<close>

subsection \<open>State\<close>

datatype request =
    Req_Login LoginReq | Req_Games u32 u32 | Req_Rooms u32 u32 u32 | Req_Enter u32 u32 u32 u32
  | Req_Opt MjOpt | Req_Continue u32 u32 u32 u32

text \<open>A request to the gate itself, or one packed for another server.\<close>

datatype parcel = ToGate u16 request | Packed u32 u32 request

datatype robot_error = NoDeadline | NoWrite parcel | NoRead | ServerError | NoHeartBeat

record Robot =
  rb_uid :: u32
  rb_mjs :: "u8 list"
  rb_player :: "u32 option"
  rb_rooms :: "RoomInfo list"
  rb_sent :: "parcel list"
  rb_errors :: "robot_error list"
  rb_timers :: nat

definition new_robot :: "u32 \<Rightarrow> Robot" where
  "new_robot uid = \<lparr>rb_uid = uid, rb_mjs = [], rb_player = None, rb_rooms = [], rb_sent = [], rb_errors = [], rb_timers = 0\<rparr>"

record RobotEnv =
  re_deadline :: bool
  re_write :: "parcel \<Rightarrow> bool"

text \<open>
  Payloads, of any type \<open>'p\<close>, as they are unpacked: \<open>None\<close> for a list of rooms without payload, which leaves
  the list as it was.
\<close>

record 'p Decoders =
  un_rooms :: "'p \<Rightarrow> RoomInfo list option"
  un_start :: "'p \<Rightarrow> StartGameRsp"
  un_fapai :: "'p \<Rightarrow> MjFaPai"
  un_opt :: "'p \<Rightarrow> MjOpt"
  un_snapshot :: "'p \<Rightarrow> DeskSnapshot"

subsection \<open>Sending\<close>

definition robot_error :: "robot_error \<Rightarrow> (Robot, unit) act" where
  "robot_error e = modify (\<lambda>b. b\<lparr>rb_errors := rb_errors b @ [e]\<rparr>)"

definition parcel_of :: "u8 \<Rightarrow> u16 \<Rightarrow> request \<Rightarrow> parcel" where
  "parcel_of svid cmd req = (if svid = 3 then ToGate cmd req else Packed (ucast (Svid svid 1)) (ucast cmd) req)"

definition robot_send :: "RobotEnv \<Rightarrow> u8 \<Rightarrow> u16 \<Rightarrow> request \<Rightarrow> (Robot, unit) act" where
  "robot_send env svid cmd req =
     (let msg = parcel_of svid cmd req in
      if \<not> re_deadline env then robot_error NoDeadline
      else if \<not> re_write env msg then robot_error (NoWrite msg)
      else modify (\<lambda>b. b\<lparr>rb_sent := rb_sent b @ [msg]\<rparr>))"

definition robot_login :: "RobotEnv \<Rightarrow> (Robot, unit) act" where
  "robot_login env = seq get_st (\<lambda>b. robot_send env 3 1001 (Req_Login \<lparr>lo_GateId = 1, lo_Uid = rb_uid b\<rparr>))"

text \<open>Each beat: whether it was written; the first failure ends it.\<close>

fun robot_Tick :: "bool list \<Rightarrow> (Robot, bool) act" where
  "robot_Tick [] = ret True"
| "robot_Tick (ok # oks) = (if ok then robot_Tick oks else seq (robot_error NoHeartBeat) (\<lambda>_. ret False))"

subsection \<open>Playing\<close>

text \<open>The room, once the robot is in one; reading it from a nil answer panics.\<close>

definition my_room :: "(Robot, u32) act" where
  "my_room = seq get_st (\<lambda>b. case rb_player b of None \<Rightarrow> throw NilDereference | Some rid \<Rightarrow> ret rid)"

text \<open>The loop over the offered operations leaves after the first.\<close>

definition answer_first :: "RobotEnv \<Rightarrow> CanOp list \<Rightarrow> (Robot, unit) act" where
  "answer_first env ops =
     (case ops of
        [] \<Rightarrow> ret ()
      | c # _ \<Rightarrow>
          seq my_room (\<lambda>rid.
          seq get_st (\<lambda>b.
          robot_send env 8 3003 (Req_Opt (zero_MjOpt\<lparr>mo_uid := rb_uid b, mo_roomId := rid, mo_op := co_Op c, mo_mj := co_Mj c\<rparr>)))))"

definition robot_continue :: "RobotEnv \<Rightarrow> (Robot, unit) act" where
  "robot_continue env =
     seq my_room (\<lambda>rid.
     seq get_st (\<lambda>b. robot_send env 8 3011 (Req_Continue (rb_uid b) rid 1 1)))"

fun remove_first :: "i32 \<Rightarrow> u8 list \<Rightarrow> u8 list" where
  "remove_first val [] = []"
| "remove_first val (mj # mjs) = (if ucast mj = val then mjs else mj # remove_first val mjs)"

definition own_tiles :: "u32 \<Rightarrow> DeskMj list \<Rightarrow> u8 list" where
  "own_tiles uid fapai = map (\<lambda>d. ucast (d_MjVal d)) (filter (\<lambda>d. d_Uid d = uid) fapai)"

definition on_FaPai :: "RobotEnv \<Rightarrow> MjFaPai \<Rightarrow> (Robot, unit) act" where
  "on_FaPai env rsp =
     seq (modify (\<lambda>b. b\<lparr>rb_mjs := rb_mjs b @ own_tiles (rb_uid b) (fp_Fapai rsp)\<rparr>)) (\<lambda>_. answer_first env (fp_CanOps rsp))"

definition opt_tiles :: "u32 \<Rightarrow> MjOpt \<Rightarrow> u8 list \<Rightarrow> u8 list" where
  "opt_tiles uid rsp mjs =
     (if mo_uid rsp = uid then
        if mo_op rsp = ChuPai \<and> slt 0 (mo_mj rsp) then remove_first (mo_mj rsp) mjs
        else if mo_op rsp = MoPai \<and> slt 0 (mo_mj rsp) then mjs @ [ucast (mo_mj rsp)] else mjs
      else mjs)"

definition on_BcOpt :: "RobotEnv \<Rightarrow> MjOpt \<Rightarrow> (Robot, unit) act" where
  "on_BcOpt env rsp =
     seq (modify (\<lambda>b. b\<lparr>rb_mjs := opt_tiles (rb_uid b) rsp (rb_mjs b)\<rparr>)) (\<lambda>_. answer_first env (mo_canOps rsp))"

definition on_Reconnect :: "RobotEnv \<Rightarrow> DeskSnapshot \<Rightarrow> (Robot, unit) act" where
  "on_Reconnect env rsp =
     seq (modify (\<lambda>b. b\<lparr>rb_player := Some (ds_RoomId rsp)\<rparr>)) (\<lambda>_.
     if ds_Playing rsp then
       for_each (\<lambda>info.
         seq get_st (\<lambda>b.
         if pi_Uid info = rb_uid b then
           seq (modify (\<lambda>b. b\<lparr>rb_mjs := rb_mjs b @ pi_Hands info\<rparr>)) (\<lambda>_. answer_first env (pi_CanOps info))
         else ret ())) (ds_Info rsp)
     else robot_continue env)"

text \<open>What is to be done 100 milliseconds after the end of a game.\<close>

definition robot_timer :: "RobotEnv \<Rightarrow> (Robot, unit) act" where
  "robot_timer env =
     seq get_st (\<lambda>b.
     if rb_timers b = 0 then ret ()
     else seq (modify (\<lambda>b. b\<lparr>rb_timers := rb_timers b - 1, rb_mjs := []\<rparr>)) (\<lambda>_. robot_continue env))"

subsection \<open>The loop\<close>

text \<open>
  One message; the answer is whether the loop goes on. The list of rooms is kept from one answer to the next, and
  an answer without payload leaves it.
\<close>

definition robot_message :: "'p Decoders \<Rightarrow> RobotEnv \<Rightarrow> u16 \<Rightarrow> 'p \<Rightarrow> (Robot, bool) act" where
  "robot_message um env cmd body =
     (let going = (\<lambda>m. seq m (\<lambda>_. ret True)) in
      if cmd = 1002 then seq (robot_error ServerError) (\<lambda>_. ret False)
      else if cmd = 1001 then going (seq get_st (\<lambda>b. robot_send env 5 2001 (Req_Games (rb_uid b) 1)))
      else if cmd = 2001 then going (seq get_st (\<lambda>b. robot_send env 5 2002 (Req_Rooms (rb_uid b) 1 1)))
      else if cmd = 2002 then
        going (seq (modify (\<lambda>b. case un_rooms um body of None \<Rightarrow> b | Some rooms \<Rightarrow> b\<lparr>rb_rooms := rooms\<rparr>)) (\<lambda>_.
          seq get_st (\<lambda>b.
          seq (lift (index (rb_rooms b) 0)) (\<lambda>room. robot_send env 5 2003 (Req_Enter (rb_uid b) 1 1 (ri_RoomId room))))))
      else if cmd = 3001 then going (modify (\<lambda>b. b\<lparr>rb_player := Some (sg_RoomId (un_start um body))\<rparr>))
      else if cmd = 3008 then going (on_FaPai env (un_fapai um body))
      else if cmd = 3002 then going (on_BcOpt env (un_opt um body))
      else if cmd = 3006 then going (on_Reconnect env (un_snapshot um body))
      else if cmd = 3005 then going (modify (\<lambda>b. b\<lparr>rb_timers := rb_timers b + 1\<rparr>))
      else if cmd = 1007 then going (robot_login env)
      else ret True)"

text \<open>What comes next: a message, a failure to read, or the time of a timer.\<close>

datatype 'p robot_input = RobotGets u16 'p | RobotCannotRead | RobotTimer

fun robot_inputs :: "'p Decoders \<Rightarrow> RobotEnv \<Rightarrow> 'p robot_input list \<Rightarrow> (Robot, unit) act" where
  "robot_inputs um env [] = ret ()"
| "robot_inputs um env (RobotGets cmd body # is) =
     seq (robot_message um env cmd body) (\<lambda>more. if more then robot_inputs um env is else ret ())"
| "robot_inputs um env (RobotCannotRead # is) = robot_error NoRead"
| "robot_inputs um env (RobotTimer # is) = seq (robot_timer env) (\<lambda>_. robot_inputs um env is)"

definition robot_Loop :: "'p Decoders \<Rightarrow> RobotEnv \<Rightarrow> 'p robot_input list \<Rightarrow> (Robot, unit) act" where
  "robot_Loop um env is = seq (robot_login env) (\<lambda>_. robot_inputs um env is)"

end
