(* ===== verification/RobotHand.thy ===== *)
theory RobotHand
  imports Robot GameDeal
begin

text \<open>
  What a robot hears of a game, and the invariant that it has heard of every tile in its hand. An operation that
  panics half way may leave a tile drawn and not told, so the invariant is kept by the operations that return.
\<close>

subsection \<open>What a robot has heard\<close>

definition hear :: "u32 \<Rightarrow> u8 list \<Rightarrow> sent \<Rightarrow> u8 list" where
  "hear uid mjs m =
     (case s_msg m of
        Out_FaPai f \<Rightarrow> mjs @ own_tiles uid (fp_Fapai f)
      | Out_Opt opt \<Rightarrow> opt_tiles uid opt mjs
      | _ \<Rightarrow> mjs)"

definition to_uid :: "u32 \<Rightarrow> sent list \<Rightarrow> sent list" where
  "to_uid uid ms = filter (\<lambda>m. s_uid m = uid) ms"

definition heard :: "u32 \<Rightarrow> sent list \<Rightarrow> u8 list" where
  "heard uid ms = foldl (hear uid) [] (to_uid uid ms)"

text \<open>Messages of a game have the command that belongs to them.\<close>

definition labelled :: "sent \<Rightarrow> bool" where
  "labelled m =
     (case s_msg m of
        Out_FaPai _ \<Rightarrow> s_cmd m = 3008
      | Out_Opt _ \<Rightarrow> s_cmd m = 3002
      | Out_Over _ \<Rightarrow> s_cmd m = 3005
      | _ \<Rightarrow> False)"

lemma answer_first_run:
  assumes "rb_player b \<noteq> None"
  shows "\<exists>b'. answer_first env ops b = (Inr (), b') \<and> rb_mjs b' = rb_mjs b \<and> rb_uid b' = rb_uid b \<and> rb_player b' = rb_player b"
  using assms
  by (cases ops) (auto simp: answer_first_def my_room_def robot_send_def robot_error_def Let_def run_simps)

lemma seq_ok: "m s = (Inr a, t) \<Longrightarrow> seq m f s = f a t"
  by (simp add: seq_def)

text \<open>One message of a game.\<close>

lemma robot_hears:
  assumes "labelled m" "rb_player b \<noteq> None" "\<And>f. un_fapai um (enc (Out_FaPai f)) = f" "\<And>opt. un_opt um (enc (Out_Opt opt)) = opt"
  shows "\<exists>b'. robot_message um env (s_cmd m) (enc (s_msg m)) b = (Inr True, b') \<and> rb_mjs b' = hear (rb_uid b) (rb_mjs b) m \<and>
    rb_uid b' = rb_uid b \<and> rb_player b' = rb_player b"
proof (cases "s_msg m")
  case (Out_FaPai f)
  let ?b = "b\<lparr>rb_mjs := rb_mjs b @ own_tiles (rb_uid b) (fp_Fapai f)\<rparr>"
  obtain b' where b': "answer_first env (fp_CanOps f) ?b = (Inr (), b')" "rb_mjs b' = rb_mjs ?b" "rb_uid b' = rb_uid ?b"
    "rb_player b' = rb_player ?b"
    using answer_first_run [of ?b env "fp_CanOps f"] assms(2) by auto
  then show ?thesis using assms(1,3) Out_FaPai
    by (simp add: labelled_def robot_message_def Let_def on_FaPai_def hear_def run_simps)
next
  case (Out_Opt opt)
  let ?b = "b\<lparr>rb_mjs := opt_tiles (rb_uid b) opt (rb_mjs b)\<rparr>"
  obtain b' where b': "answer_first env (mo_canOps opt) ?b = (Inr (), b')" "rb_mjs b' = rb_mjs ?b" "rb_uid b' = rb_uid ?b"
    "rb_player b' = rb_player ?b"
    using answer_first_run [of ?b env "mo_canOps opt"] assms(2) by auto
  then show ?thesis using assms(1,4) Out_Opt
    by (simp add: labelled_def robot_message_def Let_def on_BcOpt_def hear_def run_simps)
next
  case (Out_Over us)
  then show ?thesis using assms(1) by (simp add: labelled_def robot_message_def Let_def hear_def run_simps)
qed (use assms(1) in \<open>simp_all add: labelled_def\<close>)

definition parcels :: "(out_msg \<Rightarrow> 'p) \<Rightarrow> sent list \<Rightarrow> 'p robot_input list" where
  "parcels enc ms = map (\<lambda>m. RobotGets (s_cmd m) (enc (s_msg m))) ms"

lemma robot_hears_all:
  assumes "list_all labelled ms" "rb_player b \<noteq> None" "\<And>f. un_fapai um (enc (Out_FaPai f)) = f" "\<And>opt. un_opt um (enc (Out_Opt opt)) = opt"
  shows "\<exists>b'. robot_inputs um env (parcels enc ms) b = (Inr (), b') \<and> rb_mjs b' = foldl (hear (rb_uid b)) (rb_mjs b) ms"
  using assms(1,2)
proof (induction ms arbitrary: b)
  case Nil
  then show ?case by (simp add: parcels_def run_simps)
next
  case (Cons m ms)
  obtain b' where "robot_message um env (s_cmd m) (enc (s_msg m)) b = (Inr True, b')"
    "rb_mjs b' = hear (rb_uid b) (rb_mjs b) m" "rb_uid b' = rb_uid b" "rb_player b' = rb_player b"
    using robot_hears [of m b um enc env] Cons.prems assms(3,4) by auto
  then show ?case using Cons.IH [of b'] Cons.prems by (simp add: parcels_def run_simps)
qed

subsection \<open>What is heard of each message\<close>

lemma remove_first_mset: "mset mjs \<subseteq># mset (remove_first val mjs) + {#ucast val#}"
proof (induction val mjs rule: remove_first.induct)
  case (2 val mj mjs)
  then show ?case by (cases "ucast mj = val") (auto simp: add_mset_commute)
qed simp

lemma heard_snoc: "heard uid (ms @ [m]) = (if s_uid m = uid then hear uid (heard uid ms) m else heard uid ms)"
  by (simp add: heard_def to_uid_def)

lemma slt_byte: "(v :: u8) \<noteq> 0 \<Longrightarrow> slt 0 (ucast v :: i32)"
proof -
  assume "v \<noteq> 0"
  have b: "uint v < 256" using unsigned_less [of v] by simp
  have u: "uint (ucast v :: i32) = uint v" using b by (simp add: unsigned_ucast_eq) (intro take_bit_int_eq_self; simp)
  have "sint (ucast v :: i32) = uint v"
    unfolding sint_uint u using b by (intro signed_take_bit_int_eq_self; simp) (rule order_trans [of _ 0]; simp)
  moreover have "0 < uint v" using \<open>v \<noteq> 0\<close> by (metis order_le_less unsigned_eq_0_iff unsigned_greater_eq)
  ultimately show ?thesis by simp
qed

subsection \<open>Operations that return\<close>

text \<open>From \<open>P\<close>, an operation that returns gives \<open>Q\<close>; nothing is said when it panics.\<close>

definition calm :: "('s \<Rightarrow> bool) \<Rightarrow> ('s, 'a) act \<Rightarrow> ('a \<Rightarrow> 's \<Rightarrow> bool) \<Rightarrow> bool" where
  "calm P m Q \<longleftrightarrow> (\<forall>s a t. P s \<longrightarrow> m s = (Inr a, t) \<longrightarrow> Q a t)"

named_theorems calm_intros "operations that return"

lemma calmD: "calm P m Q \<Longrightarrow> P s \<Longrightarrow> m s = (Inr a, t) \<Longrightarrow> Q a t"
  by (simp add: calm_def)

lemma calm_ret [calm_intros]: "(\<And>s. P s \<Longrightarrow> Q a s) \<Longrightarrow> calm P (ret a) Q"
  by (simp add: calm_def ret_def)

lemma calm_throw [calm_intros]: "calm P (throw p) Q"
  by (simp add: calm_def throw_def)

lemma calm_seq: "calm P m R \<Longrightarrow> (\<And>a. calm (R a) (f a) Q) \<Longrightarrow> calm P (seq m f) Q"
  by (fastforce simp: calm_def seq_def split: prod.splits sum.splits)

lemma calm_seq_same [calm_intros]: "calm P m (\<lambda>_. P) \<Longrightarrow> (\<And>a. calm P (f a) Q) \<Longrightarrow> calm P (seq m f) Q"
  by (rule calm_seq)

lemma calm_get_st [calm_intros]: "(\<And>s. P s \<Longrightarrow> calm P (f s) Q) \<Longrightarrow> calm P (seq get_st f) Q"
  by (simp add: calm_def seq_def get_st_def)

lemma calm_lift [calm_intros]: "calm P (lift r) (\<lambda>_. P)"
  by (auto simp: calm_def lift_def ret_def throw_def split: sum.splits)

lemma calm_modify [calm_intros]: "(\<And>s. P s \<Longrightarrow> Q () (f s)) \<Longrightarrow> calm P (modify f) Q"
  by (simp add: calm_def modify_def)

lemma calm_if [calm_intros]: "(b \<Longrightarrow> calm P m Q) \<Longrightarrow> (\<not> b \<Longrightarrow> calm P n Q) \<Longrightarrow> calm P (if b then m else n) Q"
  by simp

lemma calm_let [calm_intros]: "(\<And>x. x = e \<Longrightarrow> calm P (f x) Q) \<Longrightarrow> calm P (let x = e in f x) Q"
  by simp

lemma calm_case_option [calm_intros]:
  "(x = None \<Longrightarrow> calm P m Q) \<Longrightarrow> (\<And>a. x = Some a \<Longrightarrow> calm P (f a) Q) \<Longrightarrow> calm P (case x of None \<Rightarrow> m | Some a \<Rightarrow> f a) Q"
  by (simp split: option.split)

lemma calm_case_prod [calm_intros]: "(\<And>a b. calm P (f a b) Q) \<Longrightarrow> calm P (case x of (a, b) \<Rightarrow> f a b) Q"
  by (simp split: prod.split)

lemma calm_pre: "calm P m Q \<Longrightarrow> (\<And>s. P' s \<Longrightarrow> P s) \<Longrightarrow> calm P' m Q"
  unfolding calm_def by blast

lemma calm_post: "calm P m Q \<Longrightarrow> (\<And>a s. Q a s \<Longrightarrow> Q' a s) \<Longrightarrow> calm P m Q'"
  by (simp add: calm_def)

subsection \<open>The invariant of a game\<close>

text \<open>A player who is waited for is not to discard.\<close>

definition only_asked :: "User \<Rightarrow> bool" where
  "only_asked u \<longleftrightarrow> (u_waiting u \<longrightarrow> \<not> HasOp (u_canOpsFlag u) ChuPai)"

text \<open>
  The players, known by \<open>us\<close>, have told tiles only, of which \<open>X\<close> are still to be told, and \<open>Y\<close> are told but
  have left the hand. \<open>q\<close>: a discard is being answered, so nobody may discard; otherwise nobody is asked.
\<close>

definition knows :: "nat \<Rightarrow> u32 list \<Rightarrow> bool \<Rightarrow> (u32 \<Rightarrow> u8 multiset) \<Rightarrow> (u32 \<Rightarrow> u8 multiset) \<Rightarrow> Room \<Rightarrow> bool" where
  "knows n us q X Y r \<longleftrightarrow>
     map u_uid (r_Users r) = us \<and> distinct us \<and> map u_seat (r_Users r) = [0..<length us] \<and> 0 \<notin> set (r_mj r) \<and>
     n \<le> length (r_out r) \<and> list_all labelled (drop n (r_out r)) \<and>
     (if q then list_all only_asked (r_Users r) else \<not> r_waitMulti r) \<and>
     (\<forall>u \<in> set (r_Users r). mset (u_mjHands u) + Y (u_uid u) \<subseteq># mset (heard (u_uid u) (drop n (r_out r))) + X (u_uid u))"

abbreviation none :: "u32 \<Rightarrow> u8 multiset" where
  "none \<equiv> \<lambda>_. {#}"

lemma knows_frame:
  "r_Users s = r_Users r \<Longrightarrow> r_mj s = r_mj r \<Longrightarrow> r_out s = r_out r \<Longrightarrow> (q \<or> r_waitMulti s = r_waitMulti r) \<Longrightarrow>
    knows n us q X Y r \<Longrightarrow> knows n us q X Y s"
  by (auto simp: knows_def)

lemma knows_user:
  assumes "knows n us q X Y r" "i < length (r_Users r)"
  shows "i < length us" "u_uid (r_Users r ! i) = us ! i" "u_seat (r_Users r ! i) = i"
proof -
  have l: "length us = length (r_Users r)" using assms(1) by (auto simp: knows_def)
  then show "i < length us" using assms(2) by simp
  show "u_uid (r_Users r ! i) = us ! i" using assms by (auto simp: knows_def)
  have "map u_seat (r_Users r) ! i = [0..<length us] ! i" using assms(1) by (simp add: knows_def)
  then show "u_seat (r_Users r ! i) = i" using assms(2) l by simp
qed

lemma calm_user_at:
  assumes "\<And>u. i < length us \<Longrightarrow> u_uid u = us ! i \<Longrightarrow> u_seat u = i \<Longrightarrow> calm (knows n us q X Y) (f u) Q"
  shows "calm (knows n us q X Y) (seq (user_at i) f) Q"
  unfolding calm_def
proof (intro allI impI)
  fix r a t assume k: "knows n us q X Y r" and run: "seq (user_at i) f r = (Inr a, t)"
  show "Q a t"
  proof (cases "i < length (r_Users r)")
    case True
    then have "f (r_Users r ! i) r = (Inr a, t)" using run by (simp add: user_at_def run_simps seq_def get_st_def)
    then show ?thesis using assms [OF knows_user [OF k True]] k by (simp add: calm_def)
  next
    case False
    then show ?thesis using run by (simp add: user_at_def index_def seq_def get_st_def lift_def throw_def)
  qed
qed

text \<open>Operations of a player: what they keep, and at most the tiles they add.\<close>

definition gains :: "u8 multiset \<Rightarrow> (User, 'a) act \<Rightarrow> bool" where
  "gains V m \<longleftrightarrow> (\<forall>u a v. m u = (Inr a, v) \<longrightarrow>
     u_uid v = u_uid u \<and> u_seat v = u_seat u \<and> mset (u_mjHands v) \<subseteq># mset (u_mjHands u) + V)"

definition asks_only :: "(User, 'a) act \<Rightarrow> bool" where
  "asks_only m \<longleftrightarrow> (\<forall>u a v. m u = (Inr a, v) \<longrightarrow> only_asked u \<longrightarrow> only_asked v)"

lemma calm_on_user:
  assumes "gains V m" "q \<Longrightarrow> asks_only m"
  shows "calm (knows n us q X Y) (on_user i m) (\<lambda>_. knows n us q (X(us ! i := X (us ! i) + V)) Y)"
  unfolding calm_def
proof (intro allI impI)
  fix r a t assume k: "knows n us q X Y r" and run: "on_user i m r = (Inr a, t)"
  have i: "i < length (r_Users r)" using run by (auto simp: on_user_def split: if_splits)
  obtain v where v: "m (r_Users r ! i) = (Inr a, v)" "t = r\<lparr>r_Users := (r_Users r)[i := v]\<rparr>"
    using run i by (auto simp: on_user_def split: prod.splits)
  note u = knows_user [OF k i]
  have g: "u_uid v = us ! i" "u_seat v = i" "mset (u_mjHands v) \<subseteq># mset (u_mjHands (r_Users r ! i)) + V"
    using assms(1) v(1) u unfolding gains_def by metis+
  have uids: "map u_uid (r_Users t) = us"
  proof (rule nth_equalityI)
    fix j assume "j < length (map u_uid (r_Users t))"
    then have "j < length (r_Users r)" by (simp add: v(2))
    then show "map u_uid (r_Users t) ! j = us ! j" using knows_user(2) [OF k] g(1) i by (cases "j = i") (simp_all add: v(2))
  qed (use k in \<open>auto simp: v(2) knows_def\<close>)
  have seats: "map u_seat (r_Users t) = [0..<length us]"
  proof (rule nth_equalityI)
    fix j assume "j < length (map u_seat (r_Users t))"
    then have "j < length (r_Users r)" by (simp add: v(2))
    then show "map u_seat (r_Users t) ! j = [0..<length us] ! j"
      using knows_user(1,3) [OF k] g(2) i by (cases "j = i") (simp_all add: v(2))
  qed (use k in \<open>auto simp: v(2) knows_def\<close>)
  have asked: "list_all only_asked (r_Users t)" if q
  proof -
    have all: "list_all only_asked (r_Users r)" using k that by (simp add: knows_def)
    then have "only_asked v" using assms(2) [OF that] v(1) i unfolding asks_only_def by (auto simp: list_all_length)
    then show ?thesis using all by (auto simp: v(2) list_all_iff dest!: set_update_subset_insert [THEN subsetD])
  qed
  have told: "mset (u_mjHands w) + Y (u_uid w) \<subseteq># mset (heard (u_uid w) (drop n (r_out t))) + (X(us ! i := X (us ! i) + V)) (u_uid w)"
    if mem: "w \<in> set (r_Users t)" for w
  proof -
    have old: "\<forall>u \<in> set (r_Users r). mset (u_mjHands u) + Y (u_uid u) \<subseteq># mset (heard (u_uid u) (drop n (r_out r))) + X (u_uid u)"
      using k by (simp add: knows_def)
    obtain j where j: "j < length (r_Users r)" "w = r_Users t ! j" using mem by (auto simp: in_set_conv_nth v(2))
    show ?thesis
    proof (cases "j = i")
      case True
      have "mset (u_mjHands (r_Users r ! i)) + Y (us ! i) \<subseteq># mset (heard (us ! i) (drop n (r_out r))) + X (us ! i)"
        using old i u(2) nth_mem [OF i] by metis
      then have "mset (u_mjHands (r_Users r ! i)) + Y (us ! i) + V \<subseteq># mset (heard (us ! i) (drop n (r_out r))) + X (us ! i) + V"
        by (rule subset_mset.add_right_mono)
      moreover have "mset (u_mjHands v) + Y (us ! i) \<subseteq># mset (u_mjHands (r_Users r ! i)) + Y (us ! i) + V"
        using subset_mset.add_right_mono [OF g(3), of "Y (us ! i)"] by (simp add: ac_simps)
      ultimately have "mset (u_mjHands v) + Y (us ! i) \<subseteq># mset (heard (us ! i) (drop n (r_out r))) + X (us ! i) + V"
        by (rule subset_mset.order_trans [rotated])
      then show ?thesis using True j i g(1) by (simp add: v(2) ac_simps)
    next
      case False
      then have w: "w = r_Users r ! j" using j by (simp add: v(2))
      have "us ! j \<noteq> us ! i" using False knows_user(1) [OF k] i j(1) k by (simp add: knows_def nth_eq_iff_index_eq)
      then show ?thesis using old knows_user(2) [OF k j(1)] nth_mem [OF j(1)] by (auto simp: v(2) w)
    qed
  qed
  show "knows n us q (X(us ! i := X (us ! i) + V)) Y t"
    using k uids seats asked told by (auto simp: knows_def v(2))
qed

lemma calm_on_user_same [calm_intros]:
  assumes "gains {#} m" "q \<Longrightarrow> asks_only m"
  shows "calm (knows n us q X Y) (on_user i m) (\<lambda>_. knows n us q X Y)"
  using calm_on_user [where V = "{#}" and n = n and us = us and X = X and Y = Y and i = i, OF assms] by simp

subsection \<open>Messages\<close>

lemma knows_Send:
  assumes "labelled (mail cmd msg u)" "knows n us q X Y r"
    and "\<And>M. mset M + G \<subseteq># mset (hear (u_uid u) M (mail cmd msg u)) + D"
    and "X' = X(u_uid u := X (u_uid u) - G)" "Y' = Y(u_uid u := Y (u_uid u) - D)" "G \<subseteq># X (u_uid u)" "D \<subseteq># Y (u_uid u)"
  shows "knows n us q X' Y' (r\<lparr>r_out := r_out r @ [mail cmd msg u]\<rparr>)"
proof -
  let ?m = "mail cmd msg u"
  let ?o = "drop n (r_out r)"
  have n: "n \<le> length (r_out r)" using assms(2) by (simp add: knows_def)
  have old: "\<forall>w \<in> set (r_Users r). mset (u_mjHands w) + Y (u_uid w) \<subseteq># mset (heard (u_uid w) ?o) + X (u_uid w)"
    using assms(2) by (simp add: knows_def)
  have "mset (u_mjHands w) + Y' (u_uid w) \<subseteq># mset (heard (u_uid w) (?o @ [?m])) + X' (u_uid w)" if w: "w \<in> set (r_Users r)" for w
  proof (cases "u_uid w = u_uid u")
    case True
    let ?h = "mset (heard (u_uid u) ?o)"
    let ?h' = "mset (hear (u_uid u) (heard (u_uid u) ?o) ?m)"
    have "mset (u_mjHands w) + Y (u_uid u) \<subseteq># ?h + X (u_uid u)" using old w True by metis
    also have "?h + X (u_uid u) = (?h + G) + (X (u_uid u) - G)"
      using subset_mset.diff_add [OF assms(6)] by (metis add.assoc add.commute)
    also have "\<dots> \<subseteq># (?h' + D) + (X (u_uid u) - G)" by (intro subset_mset.add_right_mono assms(3))
    finally have "mset (u_mjHands w) + (Y (u_uid u) - D) + D \<subseteq># ?h' + (X (u_uid u) - G) + D"
      using subset_mset.diff_add [OF assms(7)] by (simp add: add.assoc) (metis add.assoc add.commute)
    then show ?thesis using True by (simp add: assms(4,5) heard_snoc mail_def)
  next
    case False
    then show ?thesis using old w by (simp add: assms(4,5) heard_snoc mail_def)
  qed
  then show ?thesis using assms(1,2) n by (auto simp: knows_def)
qed

lemma calm_Send:
  assumes "labelled (mail cmd msg u)" "\<And>M. mset M \<subseteq># mset (hear (u_uid u) M (mail cmd msg u))"
  shows "calm (knows n us q X Y) (Send u cmd msg) (\<lambda>_. knows n us q X Y)"
  unfolding Send_eq
  by (rule calm_modify) (rule knows_Send [OF assms(1), where G = "{#}" and D = "{#}" and X = X and Y = Y], simp_all add: assms(2))

text \<open>An operation other than a discard of the player takes nothing from what it has heard.\<close>

lemma opt_keeps: "mo_op opt \<noteq> ChuPai \<or> mo_uid opt \<noteq> uid \<Longrightarrow> mset M \<subseteq># mset (opt_tiles uid opt M)"
  by (auto simp: opt_tiles_def)

lemma labelled_mail [simp]:
  "labelled (mail 3002 (Out_Opt opt) u)" "labelled (mail 3005 (Out_Over gs) u)" "labelled (mail 3008 (Out_FaPai f) u)"
  by (simp_all add: labelled_def mail_def)

lemma hear_mail [simp]:
  "hear uid M (mail cmd (Out_Opt opt) u) = opt_tiles uid opt M" "hear uid M (mail cmd (Out_Over gs) u) = M"
  "hear uid M (mail cmd (Out_FaPai f) u) = M @ own_tiles uid (fp_Fapai f)"
  by (simp_all add: hear_def mail_def)

lemma calm_Send_Opt [calm_intros]:
  "mo_op opt \<noteq> ChuPai \<or> mo_uid opt \<noteq> u_uid u \<Longrightarrow> calm (knows n us q X Y) (Send u 3002 (Out_Opt opt)) (\<lambda>_. knows n us q X Y)"
  by (rule calm_Send) (simp_all add: opt_keeps)

lemma calm_Send_Over [calm_intros]: "calm (knows n us q X Y) (Send u 3005 (Out_Over gs)) (\<lambda>_. knows n us q X Y)"
  by (rule calm_Send) simp_all

text \<open>A drawn tile is told.\<close>

lemma calm_tell_draw:
  assumes "mo_op opt = MoPai" "mo_uid opt = u_uid u" "mo_mj opt = ucast v" "v \<noteq> 0"
  shows "calm (knows n us q (none(u_uid u := {#v#})) none) (Send u 3002 (Out_Opt opt)) (\<lambda>_. knows n us q none none)"
  unfolding Send_eq
  by (rule calm_modify)
    (rule knows_Send [where G = "{#v#}" and D = "{#}" and X = "none(u_uid u := {#v#})" and Y = none],
      use assms slt_byte [of v] in \<open>simp_all add: opt_tiles_def fun_eq_iff\<close>)

text \<open>A discarded tile is taken from what was heard.\<close>

lemma calm_tell_discard:
  assumes "mo_op opt = ChuPai" "mo_uid opt = u_uid u"
  shows "calm (knows n us q none (none(u_uid u := {#ucast (mo_mj opt)#}))) (Send u 3002 (Out_Opt opt)) (\<lambda>_. knows n us q none none)"
  unfolding Send_eq
  by (rule calm_modify)
    (rule knows_Send [where G = "{#}" and D = "{#ucast (mo_mj opt)#}" and X = none and Y = "none(u_uid u := {#ucast (mo_mj opt)#})"],
      use assms remove_first_mset in \<open>auto simp: opt_tiles_def fun_eq_iff\<close>)

lemma calm_for_each [calm_intros]: "(\<And>x. calm P (f x) (\<lambda>_. P)) \<Longrightarrow> calm P (for_each f xs) (\<lambda>_. P)"
  by (induction xs) (auto intro!: calm_ret calm_seq_same)

lemma calm_SendAll [calm_intros]:
  "mo_op opt \<noteq> ChuPai \<Longrightarrow> calm (knows n us q X Y) (SendAll 3002 (Out_Opt opt)) (\<lambda>_. knows n us q X Y)"
  "calm (knows n us q X Y) (SendAll 3005 (Out_Over gs)) (\<lambda>_. knows n us q X Y)"
  unfolding SendAll_def by (intro calm_intros; simp)+

subsection \<open>Operations of a player\<close>

text \<open>What stays of a player whatever happens to its hand.\<close>

definition who :: "u32 \<Rightarrow> nat \<Rightarrow> bool \<Rightarrow> User \<Rightarrow> bool" where
  "who x i w u \<longleftrightarrow> u_uid u = x \<and> u_seat u = i \<and> u_waiting u = w"

lemma who_frame [simp]:
  "who x i w (u\<lparr>u_mjHands := a\<rparr>) = who x i w u" "who x i w (u\<lparr>u_mjGroup := b\<rparr>) = who x i w u"
  "who x i w (u\<lparr>u_canOpsFlag := c, u_lastOp := d\<rparr>) = who x i w u"
  by (simp_all add: who_def)

lemma who_deal_op: "keeps (who x i w) (deal_op op val)"
  unfolding deal_op_def DaMj_def MGangMj_def BGangMj_def AGangMj_def PengMj_def LChiMj_def MChiMj_def
    RChiMj_def chi_def take_same_def add_meld_def log_pais_def removeMj_def
  by (intro keeps_intros) simp_all

lemma who_DealMj: "keeps (who x i w) (DealMj op val)"
  unfolding DealMj_def by (intro keeps_intros who_deal_op) simp

lemma who_kept: "keeps (who (u_uid u) (u_seat u) (u_waiting u)) m \<Longrightarrow> m u = (Inr a, v) \<Longrightarrow>
    u_uid v = u_uid u \<and> u_seat v = u_seat u \<and> u_waiting v = u_waiting u"
  using keepsD [of "who (u_uid u) (u_seat u) (u_waiting u)" m u] by (simp add: who_def)

lemma gains_DealMj: "gains {#} (DealMj op val)"
  unfolding gains_def
proof (intro allI impI)
  fix u a v assume "DealMj op val u = (Inr a, v)"
  moreover have "mset (u_mjHands (snd (DealMj op val u))) \<subseteq># mset (u_mjHands u)" using no_gain_ops(1) by (simp add: no_gain_def)
  ultimately show "u_uid v = u_uid u \<and> u_seat v = u_seat u \<and> mset (u_mjHands v) \<subseteq># mset (u_mjHands u) + {#}"
    using who_kept [OF who_DealMj] by fastforce
qed

text \<open>The flags are as before or cleared.\<close>

lemma flags_deal_op: "keeps (\<lambda>u. u_canOpsFlag u = c) (deal_op op val)"
  unfolding deal_op_def DaMj_def MGangMj_def BGangMj_def AGangMj_def PengMj_def LChiMj_def MChiMj_def
    RChiMj_def chi_def take_same_def add_meld_def log_pais_def removeMj_def
  by (intro keeps_intros) simp_all

lemma asks_DealMj: "asks_only (DealMj op val)"
  unfolding asks_only_def
proof (intro allI impI)
  fix u a v assume run: "DealMj op val u = (Inr a, v)" and o: "only_asked u"
  obtain r t where t: "deal_op op val u = (r, t)" by force
  then have "u_canOpsFlag t = u_canOpsFlag u" using keepsD [OF flags_deal_op [of "u_canOpsFlag u" op val], of u] by simp
  then have "u_canOpsFlag v = u_canOpsFlag u \<or> u_canOpsFlag v = 0"
    using run t by (cases r) (auto simp: DealMj_def seq_def ret_def modify_def split: if_splits)
  then show "only_asked v" using o who_kept [OF who_DealMj run] by (auto simp: only_asked_def)
qed

lemma CanOpSelf_result:
  assumes "CanOpSelf lz u = (Inr a, v)"
  shows "u_uid v = u_uid u \<and> u_seat v = u_seat u \<and> u_mjHands v = u_mjHands u"
  using assms by (auto simp: CanOpSelf_def seq_def get_st_def lift_def ret_def throw_def modify_def Let_def split: if_splits sum.splits)

lemma CanOpOther_result:
  assumes "CanOpOther val op lz u = (Inr a, v)"
  shows "u_uid v = u_uid u \<and> u_seat v = u_seat u \<and> u_mjHands v = u_mjHands u \<and> only_asked v"
proof -
  obtain st where st: "Newlz (u_mjHands u) val lz [] = Inr st"
    using assms by (cases "Newlz (u_mjHands u) val lz []") (simp_all add: CanOpOther_def run_simps)
  obtain gs m where gs: "CanOpOther_lz st val op = Inr (gs, m)"
    using assms st by (cases "CanOpOther_lz st val op") (auto simp: CanOpOther_def run_simps)
  have ops: "\<forall>g \<in> set gs. g_Op g \<in> {5, 6, 7, 8, 9, 12}" using offer_ops [OF gs] .
  then have small: "\<forall>g \<in> set gs. unat (g_Op g) < 31" by auto
  have "\<not> HasOp (AddOp 0 GuoPai) ChuPai" by code_simp
  moreover have "g_Op g \<noteq> ChuPai" if "g \<in> set gs" for g using ops that by auto
  ultimately have "\<not> HasOp (add_ops (AddOp 0 GuoPai) gs) ChuPai" using HasOp_add_ops [of ChuPai gs] small by auto
  then show ?thesis using assms st gs by (auto simp: CanOpOther_def run_simps Let_def only_asked_def)
qed

lemma player_ops [calm_intros]:
  "gains {#} (DealMj op val)" "gains {#} (CanOpSelf lz)" "gains {#} (CanOpOther val op' lz)"
  "asks_only (DealMj op val)" "asks_only (CanOpOther val op' lz)"
  using gains_DealMj asks_DealMj CanOpSelf_result CanOpOther_result by (fastforce simp: gains_def asks_only_def)+

text \<open>A drawn tile, and the last tiles, after which nobody may discard.\<close>

lemma gains_MoMj: "gains {#v#} (modify (MoMj v))" "asks_only (modify (MoMj v))"
  by (auto simp: gains_def asks_only_def only_asked_def modify_def MoMj_def)

lemma gains_last: "gains {#v#} (seq (modify (Haidilao v)) (\<lambda>_. CanOpSelf lz))" "asks_only (seq (modify (Haidilao v)) (\<lambda>_. CanOpSelf lz))"
proof -
  show "gains {#v#} (seq (modify (Haidilao v)) (\<lambda>_. CanOpSelf lz))"
    using CanOpSelf_result by (fastforce simp: gains_def run_simps Haidilao_def)
  show "asks_only (seq (modify (Haidilao v)) (\<lambda>_. CanOpSelf lz))"
    unfolding asks_only_def
  proof (intro allI impI)
    fix u a t assume run: "seq (modify (Haidilao v)) (\<lambda>_. CanOpSelf lz) u = (Inr a, t)"
    then have run: "CanOpSelf lz (Haidilao v u) = (Inr a, t)" by (simp add: run_simps)
    obtain st where st: "Newlz (u_mjHands u @ [v]) 0 lz (u_mjGroup u) = Inr st"
      using run by (cases "Newlz (u_mjHands u @ [v]) 0 lz (u_mjGroup u)") (simp_all add: CanOpSelf_def run_simps Haidilao_def)
    let ?gs = "fst (CanOpSelf_lz st)"
    have "\<forall>g \<in> set ?gs. g_Op g \<in> {11, 12}" by (auto simp: CanOpSelf_lz_def Let_def)
    then have "\<not> HasOp (add_ops 0 ?gs) ChuPai" using HasOp_add_ops [of ChuPai ?gs 0] by fastforce
    then show "only_asked t" using run st by (simp add: CanOpSelf_def run_simps Haidilao_def Let_def only_asked_def) auto
  qed
qed

subsection \<open>Operations of a table\<close>

lemma calm_ops_at [calm_intros]: "calm P (ops_at i) (\<lambda>_. P)"
  unfolding ops_at_def user_at_def by (intro calm_intros)

lemma calm_frame [calm_intros]:
  assumes "\<And>r. r_Users (f r) = r_Users r" "\<And>r. r_mj (f r) = r_mj r" "\<And>r. r_out (f r) = r_out r" "\<And>r. q \<or> r_waitMulti (f r) = r_waitMulti r"
  shows "calm (knows n us q X Y) (modify f) (\<lambda>_. knows n us q X Y)"
  by (rule calm_modify) (rule knows_frame [OF assms])

text \<open>Nobody prepares or rests with another hand.\<close>

lemma knows_map:
  assumes "\<And>u. u_uid (f u) = u_uid u \<and> u_seat (f u) = u_seat u \<and> u_mjHands (f u) = u_mjHands u \<and> (only_asked u \<longrightarrow> only_asked (f u))"
    and "knows n us q X Y r"
  shows "knows n us q X Y (r\<lparr>r_Users := map f (r_Users r)\<rparr>)"
  using assms by (auto simp: knows_def comp_def list_all_iff)

lemma knows_rest:
  assumes "knows n us q X Y r"
  shows "knows n us q X Y (r\<lparr>r_Users := map (\<lambda>u. u\<lparr>u_prepare := False\<rparr>) (r_Users r)\<rparr>)"
    "knows n us q X Y (r\<lparr>r_playing := False, r_Users := map (\<lambda>u. u\<lparr>u_prepare := False\<rparr>) (r_Users r)\<rparr>)"
proof -
  show k: "knows n us q X Y (r\<lparr>r_Users := map (\<lambda>u. u\<lparr>u_prepare := False\<rparr>) (r_Users r)\<rparr>)"
    by (rule knows_map [OF _ assms]) (simp add: only_asked_def)
  show "knows n us q X Y (r\<lparr>r_playing := False, r_Users := map (\<lambda>u. u\<lparr>u_prepare := False\<rparr>) (r_Users r)\<rparr>)"
    by (rule knows_frame [OF _ _ _ _ k]) simp_all
qed

lemma calm_huPai [calm_intros]: "calm (knows n us q X Y) (huPai hu) (\<lambda>_. knows n us q X Y)"
  unfolding huPai_def by (rule calm_user_at) (intro calm_intros knows_rest)

text \<open>Drawing: the tile is one of the pile, so it is not 0.\<close>

lemma calm_MoPai:
  assumes "\<And>v. v \<noteq> 0 \<Longrightarrow> calm (knows n us True X Y) (f v) Q"
  shows "calm (knows n us True X Y) (seq Room_MoPai f) Q"
  unfolding calm_def
proof (intro allI impI)
  fix r a t assume k: "knows n us True X Y r" and run: "seq Room_MoPai f r = (Inr a, t)"
  show "Q a t"
  proof (cases "index (r_mj r) (unat (r_mjIndex r))")
    case (Inl p)
    then show ?thesis using run by (simp add: Room_MoPai_def seq_def get_st_def lift_def throw_def)
  next
    case (Inr v)
    then have "v \<noteq> 0" using k by (auto simp: knows_def index_Inr_iff dest: nth_mem)
    moreover have "knows n us True X Y (r\<lparr>r_mjIndex := r_mjIndex r + 1\<rparr>)" by (rule knows_frame [OF _ _ _ _ k]) simp_all
    moreover have "f v (r\<lparr>r_mjIndex := r_mjIndex r + 1\<rparr>) = (Inr a, t)"
      using run Inr by (simp add: Room_MoPai_def seq_def get_st_def lift_def ret_def modify_def)
    ultimately show ?thesis using assms by (simp add: calm_def)
  qed
qed

lemma on_user_twice: "seq (on_user k A) (\<lambda>_. seq (on_user k B) f) = seq (on_user k (seq A (\<lambda>_. B))) f"
  by (auto simp: on_user_def seq_def fun_eq_iff split: prod.splits sum.splits)

lemma calm_last_draws [calm_intros]: "calm (knows n us True none none) (last_draws is hu) (\<lambda>_. knows n us True none none)"
proof (induction "is" arbitrary: hu)
  case (Cons i "is")
  show ?case
    unfolding last_draws.simps Let_def
  proof (intro calm_get_st calm_user_at calm_MoPai, unfold on_user_twice)
    fix r :: Room and u :: User and v :: u8
    let ?k = "(r_turn r + i) mod 4"
    assume u: "u_uid u = us ! ?k" and "v \<noteq> 0"
    let ?K = "knows n us True (none(us ! ?k := {#v#})) none"
    have two: "calm (knows n us True none none) (on_user ?k (seq (modify (Haidilao v)) (\<lambda>_. CanOpSelf (r_laiZi r)))) (\<lambda>_. ?K)"
      using calm_on_user [OF gains_last, of n us True none none ?k] by simp
    have "calm ?K (seq (ops_at ?k) (\<lambda>ops. seq (Send u 3002 (Out_Opt (zero_MjOpt\<lparr>mo_op := MoPai, mo_uid := u_uid u, mo_mj := ucast v,
        mo_canOpFlag := fl, mo_canOps := ops\<rparr>))) (\<lambda>_. last_draws is (if hu = None \<and> slt 0 fl then Some ?k else hu))))
      (\<lambda>_. knows n us True none none)" for fl
      unfolding u [symmetric] using \<open>v \<noteq> 0\<close>
      by (intro calm_seq_same [OF calm_ops_at] calm_seq [OF calm_tell_draw] Cons.IH) simp_all
    with two show "calm (knows n us True none none)
      (seq (on_user ?k (seq (modify (Haidilao v)) (\<lambda>_. CanOpSelf (r_laiZi r)))) (\<lambda>fl. seq (ops_at ?k) (\<lambda>ops. seq (Send u 3002
        (Out_Opt (zero_MjOpt\<lparr>mo_op := MoPai, mo_uid := u_uid u, mo_mj := ucast v, mo_canOpFlag := fl, mo_canOps := ops\<rparr>)))
        (\<lambda>_. last_draws is (if hu = None \<and> slt 0 fl then Some ?k else hu))))) (\<lambda>_. knows n us True none none)"
      by (rule calm_seq)
  qed
qed (auto intro: calm_intros)

lemma calm_doHDL: "calm (knows n us True none none) doHDL (\<lambda>_. knows n us True none none)"
  unfolding doHDL_def by (intro calm_intros knows_rest) simp_all

text \<open>Telling an operation: a drawn tile, which is still to be told, or one that takes and gives nothing.\<close>

definition tells :: "u32 list \<Rightarrow> nat \<Rightarrow> i32 \<Rightarrow> u32 \<Rightarrow> i32 \<Rightarrow> i32 \<Rightarrow> (u32 \<Rightarrow> u8 multiset) \<Rightarrow> bool" where
  "tells us t op uid own others G \<longleftrightarrow>
     G = none \<and> op \<noteq> ChuPai \<or>
     (\<exists>v. v \<noteq> 0 \<and> G = none(us ! t := {#v#}) \<and> op = MoPai \<and> uid = us ! t \<and> own = ucast v \<and> others = 0)"

lemma calm_tell_one:
  assumes "tells us t op uid own others G"
  shows "calm (knows n us False (if i = t then G else X) none) (tell_one op uid own others t i) (\<lambda>_. knows n us False (if i = t then none else X) none)"
proof -
  have op: "op \<noteq> ChuPai" using assms by (auto simp: tells_def)
  have here: "calm (knows n us False G none) (tell_one op uid own others t i) (\<lambda>_. knows n us False none none)" if i: "i = t"
    unfolding tell_one_def Let_def
  proof (rule calm_user_at)
    fix u :: User assume "i < length us" "u_uid u = us ! i"
    then have x: "us ! t = u_uid u" using i by simp
    have "calm (knows n us False G none) (Send u 3002 (Out_Opt (zero_MjOpt\<lparr>mo_op := op, mo_uid := uid, mo_mj := own,
        mo_canOpFlag := fl, mo_canOps := ops\<rparr>))) (\<lambda>_. knows n us False none none)" for fl ops
    proof (cases "G = none")
      case True
      then show ?thesis using op by (simp add: calm_Send_Opt)
    next
      case False
      then obtain v where "v \<noteq> 0" "G = none(u_uid u := {#v#})" "op = MoPai" "uid = u_uid u" "own = ucast v"
        using assms by (auto simp: tells_def x)
      then show ?thesis by (simp add: calm_tell_draw)
    qed
    then show "calm (knows n us False G none) (if i = t then
          seq get_st (\<lambda>r.
          seq (on_user i (CanOpSelf (r_laiZi r))) (\<lambda>fl.
          seq (ops_at i) (\<lambda>ops.
          Send u 3002 (Out_Opt (zero_MjOpt\<lparr>mo_op := op, mo_uid := uid, mo_mj := others, mo_mj := own, mo_canOpFlag := fl, mo_canOps := ops\<rparr>)))))
        else Send u 3002 (Out_Opt (zero_MjOpt\<lparr>mo_op := op, mo_uid := uid, mo_mj := others\<rparr>))) (\<lambda>_. knows n us False none none)"
      using i by simp (intro calm_intros; simp)
  qed
  have there: "calm (knows n us False X none) (tell_one op uid own others t i) (\<lambda>_. knows n us False X none)" if i: "i \<noteq> t"
    unfolding tell_one_def Let_def using i op by (intro calm_user_at) (simp add: calm_Send_Opt)
  show ?thesis using here there by auto
qed

lemma calm_tell_list:
  assumes "tells us t op uid own others G" "distinct is"
  shows "calm (knows n us False (if t \<in> set is then G else none) none) (for_each (tell_one op uid own others t) is) (\<lambda>_. knows n us False none none)"
  using assms(2)
proof (induction "is")
  case Nil
  then show ?case by (auto intro: calm_intros)
next
  case (Cons i "is")
  let ?G = "if t \<in> set is then G else none"
  have "calm (knows n us False (if t \<in> set (i # is) then G else none) none) (tell_one op uid own others t i) (\<lambda>_. knows n us False ?G none)"
    using calm_tell_one [OF assms(1), of n i none] calm_tell_one [OF assms(1), of n i G] Cons.prems
    by (cases "i = t"; cases "t \<in> set is") simp_all
  then show ?case using Cons by (auto intro: calm_seq)
qed

lemma calm_tell_turn:
  assumes "knows n us False G none r" "tells us (r_turn r) op uid own others G" "G = none \<or> r_turn r < length us"
    and "tell_turn op uid own others r = (Inr a, t)"
  shows "knows n us False none none t"
proof -
  have l: "length (r_Users r) = length us" using assms(1) by (auto simp: knows_def)
  have run: "for_each (tell_one op uid own others (r_turn r)) [0..<length (r_Users r)] r = (Inr a, t)"
    using assms(4) by (simp add: tell_turn_def run_simps)
  have k: "knows n us False (if r_turn r \<in> set [0..<length (r_Users r)] then G else none) none r"
    using assms(1,3) l by auto
  show ?thesis by (rule calmD [OF calm_tell_list [OF assms(2) distinct_upt] k run])
qed

text \<open>The player whose turn it is draws: nobody is asked any more.\<close>

lemma draw_turn_knows:
  assumes "knows n us q none none r" "x = None \<or> x = Some (us ! r_turn r)" "draw_turn x r = (Inr a, t)"
  shows "knows n us False none none t"
proof -
  have i: "r_turn r < length (r_Users r)"
    using assms(3) by (cases "r_turn r < length (r_Users r)") (simp_all add: draw_turn_def user_at_def index_def run_simps)
  then have turn: "r_turn r < length us" using assms(1) by (auto simp: knows_def)
  obtain v where v: "index (r_mj r) (unat (r_mjIndex r)) = Inr v"
  proof (cases "index (r_mj r) (unat (r_mjIndex r))")
    case (Inl p)
    then have "Room_FaPai (r_turn r) r = (Inl p, r)" by (simp add: Room_FaPai_def run_simps)
    then show thesis using assms(3) i by (simp add: draw_turn_def user_at_def run_simps)
  qed (rule that)
  define r1 where r1: "r1 = r\<lparr>r_usedMjIndex := r_usedMjIndex r @ [r_mjIndex r],
      r_mjIndex := r_mjIndex r + 1, r_Users := (r_Users r)[r_turn r := MoMj v (r_Users r ! r_turn r)]\<rparr>"
  have f: "Room_FaPai (r_turn r) r = (Inr (r_mjIndex r, v), r1)"
    using i v by (simp add: Room_FaPai_def run_simps on_user_def r1)
  let ?s = "r\<lparr>r_usedMjIndex := r_usedMjIndex r @ [r_mjIndex r], r_mjIndex := r_mjIndex r + 1\<rparr>"
  have "knows n us q none none ?s" by (rule knows_frame [OF _ _ _ _ assms(1)]) simp_all
  moreover have "on_user (r_turn r) (modify (MoMj v)) ?s = (Inr (), r1)" using i by (simp add: on_user_def run_simps r1)
  ultimately have k1: "knows n us q (none(us ! r_turn r := {#v#})) none r1"
    using calmD [OF calm_on_user [OF gains_MoMj, of n us q none none "r_turn r" v]] by fastforce
  have "v \<noteq> 0" using v assms(1) by (auto simp: knows_def index_Inr_iff dest: nth_mem)
  let ?r2 = "r1\<lparr>r_waitMulti := False\<rparr>"
  have k2: "knows n us False (none(us ! r_turn r := {#v#})) none ?r2" using k1 by (simp add: knows_def)
  have uid: "u_uid (r_Users r ! r_turn r) = us ! r_turn r" using knows_user(2) [OF assms(1) i] .
  have "tell_turn MoPai (us ! r_turn r) (ucast v) 0 ?r2 = (Inr a, t)"
    using assms(2,3) i f uid by (auto simp: draw_turn_def user_at_def run_simps)
  moreover have "tells us (r_turn ?r2) MoPai (us ! r_turn r) (ucast v) 0 (none(us ! r_turn r := {#v#}))"
    using \<open>v \<noteq> 0\<close> by (auto simp: tells_def r1)
  moreover have "r_turn ?r2 < length us" using turn by (simp add: r1)
  ultimately show ?thesis using calm_tell_turn [OF k2] by blast
qed

text \<open>A discard or an added kong is shown to everybody.\<close>

definition shown :: "u32 \<Rightarrow> MjOpt \<Rightarrow> u32 \<Rightarrow> u8 multiset" where
  "shown uid opt = (if mo_op opt = ChuPai then none(uid := {#ucast (mo_mj opt)#}) else none)"

lemma calm_show:
  assumes "mo_uid opt = u_uid u"
  shows "calm (knows n us q none (shown (u_uid u) opt)) (Send u 3002 (Out_Opt (opt\<lparr>mo_canOpFlag := fl, mo_canOps := ops\<rparr>)))
    (\<lambda>_. knows n us q none none)"
proof (cases "mo_op opt = ChuPai")
  case True
  then show ?thesis using calm_tell_discard [of "opt\<lparr>mo_canOpFlag := fl, mo_canOps := ops\<rparr>" u n us q] assms by (simp add: shown_def)
next
  case False
  then show ?thesis by (simp add: shown_def calm_Send_Opt)
qed

lemma calm_ask_others:
  assumes "mo_uid opt = us ! cur" "cur < length us" "distinct us" "distinct is"
  shows "calm (knows n us True none (if cur \<in> set is then shown (us ! cur) opt else none)) (ask_others (us ! cur) opt is b)
    (\<lambda>_. knows n us True none none)"
  using assms(4)
proof (induction "is" arbitrary: b)
  case Nil
  then show ?case by (auto intro: calm_intros)
next
  case (Cons i "is")
  let ?Y = "if cur \<in> set (i # is) then shown (us ! cur) opt else none"
  let ?Y' = "if cur \<in> set is then shown (us ! cur) opt else none"
  show ?case
    unfolding ask_others.simps
  proof (intro calm_user_at calm_if)
    fix u :: User assume u: "i < length us" "u_uid u = us ! i" "u_uid u \<noteq> us ! cur"
    then have Y: "?Y = ?Y'" by auto
    show "calm (knows n us True none ?Y) (seq get_st (\<lambda>r.
       seq (on_user i (CanOpOther (ucast (mo_mj opt)) (ucast (mo_op opt)) (r_laiZi r))) (\<lambda>fl.
       seq (ops_at i) (\<lambda>ops.
       seq (if slt 0 fl then modify (\<lambda>r. r\<lparr>r_waitMulti := True\<rparr>) else ret ()) (\<lambda>_.
       seq (Send u 3002 (Out_Opt (opt\<lparr>mo_canOpFlag := fl, mo_canOps := ops\<rparr>))) (\<lambda>_.
       ask_others (us ! cur) opt is (if slt 0 fl then False else b))))))) (\<lambda>_. knows n us True none none)"
      unfolding Y using Cons.prems u(3) assms(1) by (intro calm_get_st calm_seq_same calm_on_user_same player_ops calm_ops_at calm_if calm_frame calm_ret
          calm_Send_Opt Cons.IH) simp_all
  next
    fix u :: User assume u: "i < length us" "u_uid u = us ! i" "\<not> u_uid u \<noteq> us ! cur"
    then have i: "i = cur" using assms(2,3) by (simp add: nth_eq_iff_index_eq)
    then have Y: "?Y = shown (u_uid u) opt" "?Y' = none" using u Cons.prems by simp_all
    have "calm (knows n us True none none) (ask_others (us ! cur) opt is b) (\<lambda>_. knows n us True none none)"
      using Cons.IH [of b] Cons.prems Y(2) by simp
    moreover have "mo_uid opt = u_uid u" using assms(1) u(2) i by simp
    ultimately show "calm (knows n us True none ?Y) (seq (Send u 3002 (Out_Opt (opt\<lparr>mo_canOpFlag := 0, mo_canOps := []\<rparr>)))
        (\<lambda>_. ask_others (us ! cur) opt is b)) (\<lambda>_. knows n us True none none)"
      unfolding Y(1) by (intro calm_seq [OF calm_show])
  qed
qed

end
