(* ===== verification/RobotProps.thy ===== *)
theory RobotProps
  imports RobotHand GameSecrecy
begin

text \<open>
  The robot knows its hand: after the deal it has exactly the tiles the table has dealt it, and from then on every tile
  the table has in the player's hand.
\<close>

subsection \<open>The rest of an operation\<close>

text \<open>What holds between operations.\<close>

definition game_ok :: "nat \<Rightarrow> u32 list \<Rightarrow> Room \<Rightarrow> bool" where
  "game_ok n us r \<longleftrightarrow> (\<exists>q. knows n us q none none r)"

lemma game_okI: "knows n us q none none r \<Longrightarrow> game_ok n us r"
  by (auto simp: game_ok_def)

lemma calm_draw: "calm (knows n us q none none) (draw_turn None) (\<lambda>_. game_ok n us)"
  unfolding calm_def using draw_turn_knows by (blast intro: game_okI)

lemma calm_draw_for:
  assumes "u_uid f = us ! u_seat f"
  shows "calm (knows n us q none none) (seq (modify (\<lambda>r. r\<lparr>r_turn := u_seat f\<rparr>)) (\<lambda>_. draw_turn (Some (u_uid f)))) (\<lambda>_. game_ok n us)"
  unfolding calm_def
proof (intro allI impI)
  fix r :: Room and a t
  let ?r = "r\<lparr>r_turn := u_seat f\<rparr>"
  assume k: "knows n us q none none r" and run: "seq (modify (\<lambda>r. r\<lparr>r_turn := u_seat f\<rparr>)) (\<lambda>_. draw_turn (Some (u_uid f))) r = (Inr a, t)"
  have "knows n us q none none ?r" by (rule knows_frame [OF _ _ _ _ k]) simp_all
  moreover have "draw_turn (Some (u_uid f)) ?r = (Inr a, t)" using run by (simp add: run_simps)
  ultimately show "game_ok n us t" using draw_turn_knows [of n us q ?r "Some (u_uid f)"] assms by (fastforce intro: game_okI)
qed

lemma calm_tell: "op \<noteq> ChuPai \<Longrightarrow> calm (knows n us False none none) (tell_turn op uid own others) (\<lambda>_. game_ok n us)"
  unfolding calm_def using calm_tell_turn [of n us none] by (blast intro: game_okI tells_def [THEN iffD2])

lemma calm_last: "calm (knows n us True none none) doHDL (\<lambda>_. game_ok n us)"
  by (rule calm_post [OF calm_doHDL]) (rule game_okI)

lemma calm_end: "calm (knows n us q none none) (huPai hu) (\<lambda>_. game_ok n us)"
  by (rule calm_post [OF calm_huPai]) (rule game_okI)

lemma calm_unask: "calm (knows n us q X Y) (modify (\<lambda>r. r\<lparr>r_waitMulti := False\<rparr>)) (\<lambda>_. knows n us False X Y)"
  by (rule calm_modify) (auto simp: knows_def)

text \<open>A discarded tile has left the hand.\<close>

lemma discarded:
  assumes "DealMj ChuPai val u = (Inr True, v)"
  shows "mset (u_mjHands v) + {#val#} = mset (u_mjHands u)"
proof -
  obtain hs where hs: "removeMj val 1 u = (Inr (val \<in># mset (u_mjHands u)), u\<lparr>u_mjHands := hs\<rparr>)"
    "mset hs = mset (u_mjHands u) - {#val#}"
    using removeMj_one by blast
  have "val \<in># mset (u_mjHands u)" "u_mjHands v = hs"
    using assms hs(1) by (auto simp: DealMj_def deal_op_def DaMj_def run_simps split: if_splits)
  then show ?thesis using hs(2) by simp
qed

lemma calm_DealMj:
  assumes "i < length us"
  shows "calm (knows n us q none none) (on_user i (DealMj (ucast (mo_op opt)) (ucast (mo_mj opt))))
    (\<lambda>ok. knows n us q none (if ok then shown (us ! i) opt else none))"
  unfolding calm_def
proof (intro allI impI)
  fix r ok t assume k: "knows n us q none none r" and run: "on_user i (DealMj (ucast (mo_op opt)) (ucast (mo_mj opt))) r = (Inr ok, t)"
  have k': "knows n us q none none t" using calmD [OF calm_on_user_same k run] player_ops by blast
  have i: "i < length (r_Users r)" using run by (auto simp: on_user_def split: if_splits)
  obtain v where v: "DealMj (ucast (mo_op opt)) (ucast (mo_mj opt)) (r_Users r ! i) = (Inr ok, v)" "t = r\<lparr>r_Users := (r_Users r)[i := v]\<rparr>"
    using run i by (auto simp: on_user_def split: prod.splits)
  show "knows n us q none (if ok then shown (us ! i) opt else none) t"
  proof (cases "ok \<and> mo_op opt = ChuPai")
    case False
    then show ?thesis using k' by (auto simp: shown_def)
  next
    case True
    have "mset (u_mjHands w) + shown (us ! i) opt (u_uid w) \<subseteq># mset (heard (u_uid w) (drop n (r_out t)))" if w: "w \<in> set (r_Users t)" for w
    proof (cases "u_uid w = us ! i")
      case False
      then show ?thesis using k' w by (auto simp: knows_def shown_def)
    next
      case uid: True
      obtain j where j: "j < length (r_Users t)" "w = r_Users t ! j" using w by (auto simp: in_set_conv_nth)
      then have "us ! j = us ! i" using knows_user(2) [OF k' j(1)] uid by simp
      then have "w = v" using j i knows_user(1) [OF k' j(1)] assms k by (simp add: knows_def nth_eq_iff_index_eq v(2))
      then have "mset (u_mjHands w) + {#ucast (mo_mj opt)#} = mset (u_mjHands (r_Users r ! i))"
        using discarded [of "ucast (mo_mj opt)" "r_Users r ! i" v] v(1) True by simp
      moreover have "mset (u_mjHands (r_Users r ! i)) \<subseteq># mset (heard (us ! i) (drop n (r_out r)))"
        using k i knows_user(2) [OF k i] nth_mem [OF i] by (fastforce simp: knows_def)
      ultimately show ?thesis using True uid by (simp add: shown_def v(2))
    qed
    then show ?thesis using k' True by (auto simp: knows_def)
  qed
qed

lemma knows_length: "knows n us q X Y r \<Longrightarrow> length (r_Users r) = length us"
  by (auto simp: knows_def)

lemma calm_MjOpSelf:
  assumes "i < length us" "mo_uid opt = us ! i" "distinct us"
  shows "calm (knows n us True none none) (MjOpSelf (us ! i) i opt) (\<lambda>_. game_ok n us)"
  unfolding MjOpSelf_def
proof (rule calm_seq [OF calm_DealMj [OF assms(1)]], intro calm_if calm_ret)
  fix ok :: bool and r
  assume "\<not> ok" "knows n us True none (if ok then shown (us ! i) opt else none) r"
  then show "game_ok n us r" by (simp add: game_okI)
next
  fix ok :: bool
  assume ok: "\<not> \<not> ok" and op: "mo_op opt = ChuPai \<or> mo_op opt = BGang"
  have ask: "calm (knows n us True none (shown (us ! i) opt)) (ask_others (us ! i) opt [0..<length us] True) (\<lambda>_. knows n us True none none)"
    using calm_ask_others [OF assms(2,1,3), of "[0..<length us]" n True] assms(1) by simp
  have rest: "calm (knows n us True none none) (if \<not> noCanOp then ret ()
       else if mo_op opt = ChuPai then
         seq (modify (\<lambda>r. r\<lparr>r_turn := (r_turn r + 1) mod length (r_Users r)\<rparr>)) (\<lambda>_.
         seq get_st (\<lambda>r. if canHDL r then doHDL else draw_turn None))
       else draw_turn None) (\<lambda>_. game_ok n us)" for noCanOp
    by (intro calm_if calm_ret calm_seq_same calm_frame calm_get_st calm_last calm_draw) (simp_all add: game_okI)
  have step: "calm (knows n us True none (shown (us ! i) opt)) (seq (ask_others (us ! i) opt [0..<length (r_Users r)] True) (\<lambda>noCanOp.
       if \<not> noCanOp then ret ()
       else if mo_op opt = ChuPai then
         seq (modify (\<lambda>r. r\<lparr>r_turn := (r_turn r + 1) mod length (r_Users r)\<rparr>)) (\<lambda>_.
         seq get_st (\<lambda>r. if canHDL r then doHDL else draw_turn None))
       else draw_turn None)) (\<lambda>_. game_ok n us)"
    if "knows n us True none (shown (us ! i) opt) r" for r
    unfolding knows_length [OF that] by (rule calm_seq [OF ask rest])
  have P: "(if ok then shown (us ! i) opt else none) = shown (us ! i) opt" using ok by simp
  show "calm (knows n us True none (if ok then shown (us ! i) opt else none)) (seq get_st (\<lambda>r.
       seq (ask_others (us ! i) opt [0..<length (r_Users r)] True) (\<lambda>noCanOp.
       if \<not> noCanOp then ret ()
       else if mo_op opt = ChuPai then
         seq (modify (\<lambda>r. r\<lparr>r_turn := (r_turn r + 1) mod length (r_Users r)\<rparr>)) (\<lambda>_.
         seq get_st (\<lambda>r. if canHDL r then doHDL else draw_turn None))
       else draw_turn None))) (\<lambda>_. game_ok n us)"
    unfolding P by (rule calm_get_st) (rule step)
next
  fix ok :: bool
  assume "\<not> (mo_op opt = ChuPai \<or> mo_op opt = BGang)"
  then have s: "shown (us ! i) opt = none" "mo_op opt \<noteq> ChuPai" by (simp_all add: shown_def)
  have P: "(if ok then shown (us ! i) opt else none) = none" by (simp add: s)
  show "calm (knows n us True none (if ok then shown (us ! i) opt else none)) (seq (SendAll 3002 (Out_Opt opt)) (\<lambda>_. draw_turn None)) (\<lambda>_. game_ok n us)"
    unfolding P using s(2) by (intro calm_seq_same calm_SendAll calm_draw)
  show "calm (knows n us True none (if ok then shown (us ! i) opt else none)) (seq get_st (\<lambda>r. huPai (r_turn r))) (\<lambda>_. game_ok n us)"
    unfolding P by (intro calm_get_st calm_end)
  show "game_ok n us r" if "knows n us True none (if ok then shown (us ! i) opt else none) r" for r
    using that unfolding P by (rule game_okI)
qed

lemma calm_MjOpOther:
  assumes "mo_op opt \<noteq> ChuPai"
  shows "calm (knows n us True none none) (MjOpOther cur opt) (\<lambda>_. game_ok n us)"
  unfolding MjOpOther_def Let_def
proof (rule calm_get_st, rule calm_user_at, rule calm_seq_same, rule calm_on_user_same, rule player_ops, rule player_ops, intro calm_if)
  fix r :: Room and f :: User
  assume "u_uid f = us ! getOpUser r cur" "u_seat f = getOpUser r cur"
  then have f: "u_uid f = us ! u_seat f" by simp
  show "calm (knows n us True none none) (seq (SendAll 3002 (Out_Opt opt)) (\<lambda>_.
       seq (modify (\<lambda>r. r\<lparr>r_turn := u_seat f\<rparr>)) (\<lambda>_. draw_turn (Some (u_uid f))))) (\<lambda>_. game_ok n us)"
    by (rule calm_seq_same [OF calm_SendAll(1) [OF assms]]) (rule calm_draw_for [OF f])
next
  fix f :: User
  assume "(ucast (u_waitOp f) :: i32) = Peng \<or> (ucast (u_waitOp f) :: i32) = LChi \<or> (ucast (u_waitOp f) :: i32) = MChi \<or> (ucast (u_waitOp f) :: i32) = RChi"
  then have op: "ucast (u_waitOp f) \<noteq> (ChuPai :: i32)" by auto
  show "calm (knows n us True none none) (seq (modify (\<lambda>r. r\<lparr>r_turn := u_seat f\<rparr>)) (\<lambda>_.
       seq (user_at (u_seat f)) (\<lambda>_.
       seq (modify (\<lambda>r. r\<lparr>r_waitMulti := False\<rparr>)) (\<lambda>_.
       tell_turn (ucast (u_waitOp f)) (u_uid f) (mo_mj opt) (mo_mj opt))))) (\<lambda>_. game_ok n us)"
    by (rule calm_seq_same [OF calm_frame], simp_all, rule calm_user_at, rule calm_seq [OF calm_unask], rule calm_tell [OF op])
next
  show "calm (knows n us True none none) (seq get_st (\<lambda>r. if canHDL r then doHDL
      else seq (modify (\<lambda>r. r\<lparr>r_turn := (r_turn r + 1) mod length (r_Users r)\<rparr>)) (\<lambda>_. draw_turn None))) (\<lambda>_. game_ok n us)"
    by (rule calm_get_st, intro calm_if calm_last, rule calm_seq_same [OF calm_frame], simp_all, rule calm_draw)
qed (auto intro: game_okI calm_end calm_ret)

text \<open>An operation of a player that returns.\<close>

lemma calm_MjOp: "calm (game_ok n us) (Room_MjOp (mo_uid opt) opt) (\<lambda>_. game_ok n us)"
  unfolding calm_def
proof (intro allI impI)
  fix r a t assume ok: "game_ok n us r" and run: "Room_MjOp (mo_uid opt) opt r = (Inr a, t)"
  obtain q where k: "knows n us q none none r" using ok by (auto simp: game_ok_def)
  show "game_ok n us t"
  proof (cases "GetUserByUID (mo_uid opt) r")
    case None
    then show ?thesis using run ok by (simp add: Room_MjOp_def run_simps)
  next
    case (Some i)
    note i = GetUserByUID_uid [OF Some]
    let ?u = "r_Users r ! i"
    let ?s = "r\<lparr>r_history := r_history r @ [\<lparr>mo_Uid = mo_uid opt, mo_Op = mo_op opt, mo_Mj = mo_mj opt\<rparr>],
        r_Users := (r_Users r)[i := ?u\<lparr>u_waitOp := ucast (mo_op opt), u_waiting := False\<rparr>]\<rparr>"
    show ?thesis
    proof (cases "u_waiting ?u \<and> IsCanOp ?u (mo_op opt)")
      case False
      then show ?thesis using run ok Some i by (cases "u_waiting ?u") (simp_all add: Room_MjOp_def run_simps user_at_def)
    next
      case may: True
      have run': "(if Waiting ?s then ret () else if \<not> r_waitMulti ?s then MjOpSelf (mo_uid opt) i opt
          else seq (modify (\<lambda>r. r\<lparr>r_waitMulti := False\<rparr>)) (\<lambda>_. MjOpOther i opt)) ?s = (Inr a, t)"
        using run may Some i by (simp add: Room_MjOp_def run_simps user_at_def on_user_def)
      have ks: "knows n us q none none ?s"
      proof -
        let ?f = "\<lambda>u. u\<lparr>u_waitOp := ucast (mo_op opt), u_waiting := False\<rparr>"
        let ?h = "r\<lparr>r_history := r_history r @ [\<lparr>mo_Uid = mo_uid opt, mo_Op = mo_op opt, mo_Mj = mo_mj opt\<rparr>]\<rparr>"
        have h: "knows n us q none none ?h" by (rule knows_frame [OF _ _ _ _ k]) simp_all
        have g: "gains {#} (modify ?f)" and o: "asks_only (modify ?f)" by (auto simp: gains_def asks_only_def only_asked_def modify_def)
        have run: "on_user i (modify ?f) ?h = (Inr (), ?s)" using i by (simp add: on_user_def run_simps)
        show ?thesis by (rule calmD [OF calm_on_user_same [OF g o] h run])
      qed
      have un: "us ! i = mo_uid opt" "i < length us" "distinct us" using knows_user(1,2) [OF k conjunct1 [OF i]] i k by (simp_all add: knows_def)
      consider "Waiting ?s" | "\<not> Waiting ?s" "\<not> r_waitMulti r" | "\<not> Waiting ?s" "r_waitMulti r" by blast
      then show ?thesis
      proof cases
        case 1
        then show ?thesis using run' ks by (simp add: ret_def game_okI)
      next
        case 2
        have "knows n us True none none ?s" using 2(1) ks by (auto simp: knows_def Waiting_def only_asked_def list_all_iff list_ex_iff)
        moreover have "MjOpSelf (us ! i) i opt ?s = (Inr a, t)" using run' 2 un(1) by simp
        ultimately show ?thesis using calmD [OF calm_MjOpSelf] un by metis
      next
        case 3
        have q: q using k 3(2) by (auto simp: knows_def split: if_splits)
        have "only_asked ?u" using k q i by (auto simp: knows_def list_all_length)
        then have "mo_op opt \<noteq> ChuPai" using may by (auto simp: only_asked_def IsCanOp_def)
        moreover have "knows n us True none none (?s\<lparr>r_waitMulti := False\<rparr>)" using ks q by (auto simp: knows_def)
        moreover have "MjOpOther i opt (?s\<lparr>r_waitMulti := False\<rparr>) = (Inr a, t)" using run' 3 by (simp add: run_simps)
        ultimately show ?thesis using calmD [OF calm_MjOpOther] by metis
      qed
    qed
  qed
qed

subsection \<open>The deal\<close>

lemma seq_returns: "seq m f s = (Inr b, t) \<Longrightarrow> \<exists>a u. m s = (Inr a, u) \<and> f a u = (Inr b, t)"
  by (auto simp: seq_def split: prod.splits sum.splits)

lemma lift_returns: "lift x s = (Inr y, t) \<longleftrightarrow> x = Inr y \<and> t = s"
  by (auto simp: lift_def ret_def throw_def split: sum.splits)

lemma user_at_returns: "user_at i r = (Inr u, t) \<longleftrightarrow> index (r_Users r) i = Inr u \<and> t = r"
  by (auto simp: user_at_def run_simps lift_returns)

lemma own_tiles_simps [simp]:
  "own_tiles uid [] = []"
  "own_tiles uid (d # ds) = (if d_Uid d = uid then ucast (d_MjVal d) # own_tiles uid ds else own_tiles uid ds)"
  by (simp_all add: own_tiles_def)

lemma own_tiles_hide: "own_tiles uid (hide uid fapai) = own_tiles uid fapai"
  by (induction fapai) (simp_all add: hide_def)

text \<open>Every tile dealt is in the list of the deal, under the player who got it.\<close>

lemma deal_listed:
  assumes "deal is r = (Inr ds, r')" "distinct (map u_uid (r_Users r))"
  shows "map u_uid (r_Users r') = map u_uid (r_Users r) \<and> map u_seat (r_Users r') = map u_seat (r_Users r) \<and> r_out r' = r_out r \<and>
    r_mj r' = r_mj r \<and> r_waitMulti r' = r_waitMulti r \<and>
    (\<forall>i < length (r_Users r). u_mjHands (r_Users r' ! i) = u_mjHands (r_Users r ! i) @ own_tiles (u_uid (r_Users r ! i)) ds)"
  using assms
proof (induction "is" arbitrary: r ds)
  case Nil
  then show ?case by (simp add: ret_def)
next
  case (Cons i "is")
  let ?k = "(r_turn r + i) mod 4"
  have k: "?k < length (r_Users r)"
    using Cons.prems(1) by (cases "?k < length (r_Users r)") (simp_all add: Let_def user_at_def index_def run_simps)
  obtain v where v: "index (r_mj r) (unat (r_mjIndex r)) = Inr v"
  proof (cases "index (r_mj r) (unat (r_mjIndex r))")
    case (Inl p)
    then have "Room_FaPai ?k r = (Inl p, r)" by (simp add: Room_FaPai_def run_simps)
    then show thesis using Cons.prems(1) k by (simp add: Let_def user_at_def run_simps)
  qed (rule that)
  let ?r = "r\<lparr>r_usedMjIndex := r_usedMjIndex r @ [r_mjIndex r], r_mjIndex := r_mjIndex r + 1,
      r_Users := (r_Users r)[?k := MoMj v (r_Users r ! ?k)]\<rparr>"
  have f: "Room_FaPai ?k r = (Inr (r_mjIndex r, v), ?r)"
    using k v by (simp add: Room_FaPai_def run_simps on_user_def)
  obtain es where es: "deal is ?r = (Inr es, r')" "ds = \<lparr>d_Index = ucast (r_mjIndex r), d_Uid = u_uid (r_Users r ! ?k), d_MjVal = ucast v\<rparr> # es"
    using Cons.prems(1) k f by (auto simp: Let_def user_at_def run_simps seq_def [of "deal is"] ret_def split: prod.splits sum.splits)
  have same: "map u_uid (r_Users ?r) = map u_uid (r_Users r)" "map u_seat (r_Users ?r) = map u_seat (r_Users r)"
    using k by (simp_all add: map_update MoMj_def list_update_same_conv)
  note ih = Cons.IH [OF es(1)]
  have "u_mjHands (r_Users r' ! j) = u_mjHands (r_Users r ! j) @ own_tiles (u_uid (r_Users r ! j)) ds" if j: "j < length (r_Users r)" for j
  proof -
    have "u_mjHands (r_Users r' ! j) = u_mjHands (r_Users ?r ! j) @ own_tiles (u_uid (r_Users ?r ! j)) es"
      using ih Cons.prems(2) same j by simp
    moreover have "u_uid (r_Users r ! ?k) = u_uid (r_Users r ! j) \<longleftrightarrow> ?k = j"
      using nth_eq_iff_index_eq [OF Cons.prems(2), of ?k j] k j by simp
    ultimately show ?thesis using j by (cases "?k = j") (simp_all add: es(2) MoMj_def)
  qed
  then show ?case using ih Cons.prems(2) same by simp
qed

text \<open>And every player is told the list, with its own tiles.\<close>

definition told :: "DeskMj list \<Rightarrow> sent \<Rightarrow> bool" where
  "told fapai m \<longleftrightarrow> (\<exists>f. s_msg m = Out_FaPai f \<and> fp_Fapai f = hide (s_uid m) fapai \<and> s_cmd m = 3008)"

lemma send_hand_told:
  assumes "send_hand fapai z pizi i r = (Inr a, r')"
  shows "i < length (r_Users r) \<and> (\<exists>v m. r' = r\<lparr>r_Users := (r_Users r)[i := v], r_out := r_out r @ [m]\<rparr> \<and> u_uid v = u_uid (r_Users r ! i) \<and>
    u_seat v = u_seat (r_Users r ! i) \<and> u_mjHands v = u_mjHands (r_Users r ! i) \<and> s_uid m = u_uid (r_Users r ! i) \<and> told fapai m)"
proof -
  have i: "i < length (r_Users r)"
    using assms by (cases "i < length (r_Users r)") (simp_all add: send_hand_def user_at_def index_def run_simps)
  let ?u = "r_Users r ! i"
  have told: "told fapai (mail 3008 (Out_FaPai f) ?u) \<and> s_uid (mail 3008 (Out_FaPai f) ?u) = u_uid ?u"
    if "fp_Fapai f = hide (u_uid ?u) fapai" for f
    using that by (simp add: told_def mail_def)
  let ?data = "\<lparr>fp_Fapai = hide (u_uid ?u) fapai, fp_Zhuang = z, fp_Touzi = r_touZi r, fp_Pizi = pizi, fp_Laizi = ucast (r_laiZi r),
      fp_CanOpFlag = 0, fp_CanOps = []\<rparr>"
  show ?thesis
  proof (cases "z = u_uid ?u")
    case False
    then have r': "r' = r\<lparr>r_Users := (r_Users r)[i := ?u], r_out := r_out r @ [mail 3008 (Out_FaPai ?data) ?u]\<rparr>"
      using assms i by (simp add: send_hand_def user_at_def run_simps Let_def Send_eq)
    show ?thesis by (intro conjI exI [of _ ?u] exI [of _ "mail 3008 (Out_FaPai ?data) ?u"] i r') (use told [of ?data] in simp_all)
  next
    case True
    obtain fl v where self: "CanOpSelf (r_laiZi r) ?u = (Inr fl, v)"
      using assms i True by (cases "CanOpSelf (r_laiZi r) ?u"; cases "fst (CanOpSelf (r_laiZi r) ?u)")
        (simp_all add: send_hand_def user_at_def run_simps Let_def on_user_def)
    obtain ops where ops: "CanOps v = Inr ops"
      using assms i True self by (cases "CanOps v") (simp_all add: send_hand_def user_at_def run_simps Let_def on_user_def ops_at_def)
    let ?m = "mail 3008 (Out_FaPai (?data\<lparr>fp_CanOpFlag := fl, fp_CanOps := ops\<rparr>)) ?u"
    have r': "r' = r\<lparr>r_Users := (r_Users r)[i := v], r_out := r_out r @ [?m]\<rparr>"
      using assms i True self ops by (simp add: send_hand_def user_at_def run_simps Let_def on_user_def ops_at_def Send_eq)
    show ?thesis by (intro conjI exI [of _ v] exI [of _ ?m] i r')
      (use told [of "?data\<lparr>fp_CanOpFlag := fl, fp_CanOps := ops\<rparr>"] CanOpSelf_result [OF self] in simp_all)
  qed
qed

text \<open>The loop over the players.\<close>

lemma send_hands_told:
  assumes "for_each (send_hand fapai z pizi) [0..<k] r = (Inr a, r')"
  shows "k \<le> length (r_Users r) \<and> map u_uid (r_Users r') = map u_uid (r_Users r) \<and> map u_seat (r_Users r') = map u_seat (r_Users r) \<and>
    map u_mjHands (r_Users r') = map u_mjHands (r_Users r) \<and> r_mj r' = r_mj r \<and> r_waitMulti r' = r_waitMulti r \<and>
    (\<exists>ms. r_out r' = r_out r @ ms \<and> map s_uid ms = take k (map u_uid (r_Users r)) \<and> list_all (told fapai) ms)"
  using assms
proof (induction k arbitrary: a r')
  case 0
  then show ?case by (simp add: ret_def)
next
  case (Suc k)
  obtain b s where s: "for_each (send_hand fapai z pizi) [0..<k] r = (Inr b, s)" "for_each (send_hand fapai z pizi) [k] s = (Inr a, r')"
    using Suc.prems seq_returns [of "for_each (send_hand fapai z pizi) [0..<k]" _ r a r'] by (auto simp: for_each_append)
  note ih = Suc.IH [OF s(1)]
  obtain c where "send_hand fapai z pizi k s = (Inr c, r')"
    using s(2) seq_returns [of "send_hand fapai z pizi k" "\<lambda>_. ret ()" s a r'] by (auto simp: ret_def)
  from send_hand_told [OF this] obtain v m where v: "k < length (r_Users s)"
    "r' = s\<lparr>r_Users := (r_Users s)[k := v], r_out := r_out s @ [m]\<rparr>" "u_uid v = u_uid (r_Users s ! k)" "u_seat v = u_seat (r_Users s ! k)"
    "u_mjHands v = u_mjHands (r_Users s ! k)" "s_uid m = u_uid (r_Users s ! k)" "told fapai m"
    by blast
  have l: "length (r_Users s) = length (r_Users r)" using ih by (metis length_map)
  have uid: "u_uid (r_Users s ! k) = u_uid (r_Users r ! k)" using ih v(1) l by (metis nth_map)
  obtain ms where ms: "r_out s = r_out r @ ms" "map s_uid ms = take k (map u_uid (r_Users r))" "list_all (told fapai) ms" using ih by blast
  have "r_out r' = r_out r @ (ms @ [m])" "list_all (told fapai) (ms @ [m])" using ms v by simp_all
  moreover have "map s_uid (ms @ [m]) = take (Suc k) (map u_uid (r_Users r))"
    using ms(2) v(1,6) uid l by (simp add: take_Suc_conv_app_nth)
  moreover have "map u_uid (r_Users r') = map u_uid (r_Users s)" "map u_seat (r_Users r') = map u_seat (r_Users s)"
    "map u_mjHands (r_Users r') = map u_mjHands (r_Users s)"
    using v by (simp_all add: map_update list_update_same_conv)
  ultimately show ?case using ih v(1,2) l by (intro conjI exI [of _ "ms @ [m]"]) simp_all
qed

lemma to_uid_one:
  assumes "distinct (map s_uid ms)" "m \<in> set ms"
  shows "to_uid (s_uid m) ms = [m]"
  using assms
proof (induction ms)
  case (Cons x ms)
  show ?case
  proof (cases "m = x")
    case True
    then have "filter (\<lambda>y. s_uid y = s_uid m) ms = []" using Cons.prems(1) True by (auto simp: filter_empty_conv) (metis image_eqI)
    then show ?thesis using True by (simp add: to_uid_def)
  next
    case False
    then have "m \<in> set ms" "s_uid x \<noteq> s_uid m" using Cons.prems by (auto simp: image_iff)
    then show ?thesis using Cons.IH Cons.prems(1) by (simp add: to_uid_def)
  qed
qed simp

lemma heard_once:
  assumes "distinct (map s_uid ms)" "list_all (told fapai) ms" "uid \<in> set (map s_uid ms)"
  shows "heard uid ms = own_tiles uid fapai"
proof -
  obtain m where m: "m \<in> set ms" "s_uid m = uid" using assms(3) by auto
  then have "told fapai m" using assms(2) by (auto simp: list_all_iff)
  then obtain f where "s_msg m = Out_FaPai f" "fp_Fapai f = hide uid fapai" using m(2) by (auto simp: told_def)
  then show ?thesis using to_uid_one [OF assms(1) m(1)] m(2) by (simp add: heard_def hear_def own_tiles_hide)
qed

text \<open>After a deal everybody has heard exactly its hand.\<close>

lemma deal_heard:
  assumes "MajFaPai rn r = (Inr a, t)" "distinct (map u_uid (r_Users r))" "map u_seat (r_Users r) = [0..<length (r_Users r)]" "0 \<notin> set (r_mj r)"
    and "length (r_mj r) > 0"
  shows "knows (length (r_out r)) (map u_uid (r_Users r)) False none none t \<and>
    (\<forall>u \<in> set (r_Users t). u_mjHands u = heard (u_uid u) (drop (length (r_out r)) (r_out t)))"
proof -
  let ?r0 = "Room_Reset rn r"
  let ?us = "map u_uid (r_Users r)"
  have r0: "map u_uid (r_Users ?r0) = ?us" "map u_seat (r_Users ?r0) = map u_seat (r_Users r)" "\<forall>u \<in> set (r_Users ?r0). u_mjHands u = []"
    "r_out ?r0 = r_out r" "0 \<notin> set (r_mj ?r0)"
  proof -
    have "mset (r_mj ?r0) = mset (r_mj r)" using mset_shuffle [of "length (r_mj r) - 1" "r_mj r" "rn_cell rn"] assms(5) by (simp add: Room_Reset_def)
    then show "0 \<notin> set (r_mj ?r0)" using assms(4) by (metis set_mset_mset)
  qed (simp_all add: Room_Reset_def User_Reset_def)
  obtain fapai r1 where r1: "deal deal_order ?r0 = (Inr fapai, r1)"
    using assms(1) seq_returns [of "deal deal_order" _ ?r0 a t] by (fastforce simp: MajFaPai_def run_simps)
  note d = deal_listed [OF r1, unfolded r0(1), OF assms(2)]
  obtain z pizi c where send: "for_each (send_hand fapai z pizi) [0..<length (r_Users r1)]
      (r1\<lparr>r_piZi := c, r_laiZi := GetLaizi c, r_waitMulti := False\<rparr>) = (Inr a, t)"
    using assms(1) r1 unfolding MajFaPai_def by (auto dest!: seq_returns simp: Let_def run_ends lift_returns user_at_returns)
  note h = send_hands_told [OF send]
  obtain ms where ms: "r_out t = r_out r @ ms" "map s_uid ms = ?us" "list_all (told fapai) ms"
  proof -
    have "length (r_Users r1) = length (r_Users r)" using d by (metis length_map)
    then show thesis using that h d r0(4) by auto
  qed
  have uids: "map u_uid (r_Users t) = ?us" "map u_seat (r_Users t) = [0..<length ?us]" using h d r0 assms(3) by simp_all
  have hand: "u_mjHands u = heard (u_uid u) ms" if u: "u \<in> set (r_Users t)" for u
  proof -
    obtain i where i: "i < length (r_Users t)" "u = r_Users t ! i" using u by (auto simp: in_set_conv_nth)
    have l: "length (r_Users t) = length (r_Users ?r0)" "length (r_Users t) = length (r_Users r1)"
      using arg_cong [OF uids(1), of length] arg_cong [OF r0(1), of length] arg_cong [OF conjunct1 [OF d], of length] by simp_all
    have "u_mjHands u = u_mjHands (r_Users r1 ! i)" using arg_cong [OF conjunct1 [OF conjunct2 [OF conjunct2 [OF conjunct2 [OF h]]]], of "\<lambda>xs. xs ! i"] i l by simp
    also have "\<dots> = own_tiles (u_uid (r_Users ?r0 ! i)) fapai" using d i l r0(3) by simp
    also have "u_uid (r_Users ?r0 ! i) = u_uid u" using arg_cong [OF uids(1), of "\<lambda>xs. xs ! i"] arg_cong [OF r0(1), of "\<lambda>xs. xs ! i"] i l by simp
    finally show ?thesis
      using heard_once [of ms fapai "u_uid u"] ms assms(2) uids(1) u by (metis image_eqI list.set_map)
  qed
  have "list_all labelled ms" using ms(3) by (auto simp: list_all_iff told_def labelled_def)
  then show ?thesis using uids assms(2) r0(5) d h ms(1) hand by (auto simp: knows_def)
qed

subsection \<open>The robot at a table\<close>

definition play :: "MjOpt list \<Rightarrow> (Room, unit) act" where
  "play opts = for_each (\<lambda>opt. Room_MjOp (mo_uid opt) opt) opts"

lemma play_ok: "game_ok n us r \<Longrightarrow> play opts r = (Inr a, t) \<Longrightarrow> game_ok n us t"
proof (induction opts arbitrary: r a)
  case (Cons opt opts)
  obtain b s where "Room_MjOp (mo_uid opt) opt r = (Inr b, s)" "play opts s = (Inr a, t)"
    using seq_returns [of "Room_MjOp (mo_uid opt) opt" "\<lambda>_. play opts" r a t] Cons.prems(2) by (auto simp: play_def)
  then show ?case using Cons.IH calmD [OF calm_MjOp Cons.prems(1)] by blast
qed (simp add: play_def ret_def)

text \<open>
  C1. A robot knows its hand. At a table with different players in the order of their seats, a deal and then any
  operations of the players, as long as none of them panics: the robot of a player that gets the messages the table
  has sent to this player since the deal, in order, does not panic, and every tile the table has in the player's hand is
  in the robot's, as often; and right after the deal the robot has exactly the player's hand, in its order.
\<close>

theorem robot_knows_hand:
  assumes "MajFaPai rn r = (Inr a, r1)" and "distinct (map u_uid (r_Users r))" and "map u_seat (r_Users r) = [0..<length (r_Users r)]"
    and "mset (r_mj r) = mset BanBiShanMJ" and "play opts r1 = (Inr b, r2)" and "u \<in> set (r_Users r2)"
    and "\<forall>f. un_fapai um (enc (Out_FaPai f)) = f" and "\<forall>opt. un_opt um (enc (Out_Opt opt)) = opt"
  shows "\<exists>rb. robot_inputs um env (parcels enc (to_uid (u_uid u) (drop (length (r_out r)) (r_out r2))))
      ((new_robot (u_uid u))\<lparr>rb_player := Some (r_roomId r)\<rparr>) = (Inr (), rb) \<and>
    mset (u_mjHands u) \<subseteq># mset (rb_mjs rb) \<and> (opts = [] \<longrightarrow> rb_mjs rb = u_mjHands u)"
proof -
  let ?n = "length (r_out r)"
  let ?us = "map u_uid (r_Users r)"
  have "length (r_mj r) = 136" using assms(4) by (metis length_BanBiShanMJ size_mset)
  moreover have "0 \<notin> set (r_mj r)" using assms(4) set_BanBiShanMJ kinds_bounds [of 0] by (metis set_mset_mset unsigned_0 not_one_le_zero)
  ultimately have d: "knows ?n ?us False none none r1" "\<forall>u \<in> set (r_Users r1). u_mjHands u = heard (u_uid u) (drop ?n (r_out r1))"
    using deal_heard [OF assms(1-3)] by auto
  obtain q where k: "knows ?n ?us q none none r2" using play_ok [OF game_okI [OF d(1)] assms(5)] by (auto simp: game_ok_def)
  let ?ms = "to_uid (u_uid u) (drop ?n (r_out r2))"
  let ?b = "(new_robot (u_uid u))\<lparr>rb_player := Some (r_roomId r)\<rparr>"
  have "list_all labelled ?ms" using k by (auto simp: knows_def to_uid_def list_all_iff)
  then obtain rb where rb: "robot_inputs um env (parcels enc ?ms) ?b = (Inr (), rb)" "rb_mjs rb = foldl (hear (u_uid u)) [] ?ms"
    using robot_hears_all [of ?ms ?b um enc env] assms(7,8) by (auto simp: new_robot_def)
  then have "rb_mjs rb = heard (u_uid u) (drop ?n (r_out r2))" by (simp add: heard_def)
  moreover have "mset (u_mjHands u) \<subseteq># mset (heard (u_uid u) (drop ?n (r_out r2)))" using k assms(6) by (simp add: knows_def)
  moreover have "u_mjHands u = heard (u_uid u) (drop ?n (r_out r2))" if "opts = []"
    using that assms(5,6) d(2) by (simp add: play_def ret_def)
  ultimately show ?thesis using rb(1) by auto
qed

text \<open>Payloads that are messages already.\<close>

definition unpacked :: "out_msg Decoders" where
  "unpacked =
     \<lparr>un_rooms = \<lambda>_. None, un_start = \<lambda>m. (case m of Out_Start sg \<Rightarrow> sg | _ \<Rightarrow> \<lparr>sg_RoomId = 0, sg_Multi = 0, sg_Users = []\<rparr>),
      un_fapai = \<lambda>m. (case m of Out_FaPai f \<Rightarrow> f | _ \<Rightarrow> \<lparr>fp_Fapai = [], fp_Zhuang = 0, fp_Touzi = [],
        fp_Pizi = \<lparr>d_Index = 0, d_Uid = 0, d_MjVal = 0\<rparr>, fp_Laizi = 0, fp_CanOpFlag = 0, fp_CanOps = []\<rparr>),
      un_opt = \<lambda>m. (case m of Out_Opt opt \<Rightarrow> opt | _ \<Rightarrow> zero_MjOpt),
      un_snapshot = \<lambda>m. (case m of Out_Snapshot s \<Rightarrow> s | _ \<Rightarrow> \<lparr>ds_RoomId = 0, ds_Pizi = 0, ds_Touzi = [], ds_Zhuang = 0, ds_Laizi = 0,
        ds_MjIndex = [], ds_Info = [], ds_Playing = False, ds_LastUser = 0, ds_LastOp = 0, ds_LastOpMj = 0\<rparr>)\<rparr>"

lemma robot_knows_hand_witness:
  "\<exists>r1 rb d. MajFaPai \<lparr>rn_cell = \<lambda>i. i, rn_dice1 = 3, rn_dice2 = 8\<rparr> full_table = (Inr (), r1) \<and>
    robot_inputs unpacked \<lparr>re_deadline = True, re_write = \<lambda>_. True\<rparr> (parcels (\<lambda>m. m) (to_uid 2 (r_out r1)))
      ((new_robot 2)\<lparr>rb_player := Some 7\<rparr>) = (Inr (), rb) \<and>
    rb_mjs rb = map ((!) d) [4, 5, 6, 7, 20, 21, 22, 23, 36, 37, 38, 39, 49]"
proof -
  let ?rn = "\<lparr>rn_cell = \<lambda>i. i, rn_dice1 = 3, rn_dice2 = 8\<rparr> :: Rand"
  have t: "length (r_Users full_table) = 4" "r_turn full_table = 0" "mset (r_mj full_table) = mset BanBiShanMJ"
    "map u_uid (r_Users full_table) = [1, 2, 3, 4]" "map u_seat (r_Users full_table) = [0..<length (r_Users full_table)]"
    "r_out full_table = []" "r_roomId full_table = 7"
    by (simp_all add: full_table_def AddUser_def NewRoom_def)
  have d: "distinct (map u_uid (r_Users full_table))" "r_turn full_table < 4" by (simp_all add: t)
  from MajFaPai_exact [OF t(1) d(2) t(3) d(1), of ?rn] obtain r1 d where r1: "MajFaPai ?rn full_table = (Inr (), r1)"
    "map u_uid (r_Users r1) = map u_uid (r_Users full_table)"
    "\<forall>i < 4. u_mjHands (r_Users r1 ! ((r_turn full_table + i) mod 4)) = map ((!) d) (seat_cells i)"
    by blast
  let ?u = "r_Users r1 ! 1"
  have l: "1 < length (r_Users r1)" using arg_cong [OF r1(2), of length] by (simp add: t)
  then have u: "?u \<in> set (r_Users r1)" "u_uid ?u = 2" using arg_cong [OF r1(2), of "\<lambda>xs. xs ! 1"] by (simp_all add: t)
  have "seat_cells 1 = [4, 5, 6, 7, 20, 21, 22, 23, 36, 37, 38, 39, 49]" by code_simp
  then have hand: "u_mjHands ?u = map ((!) d) [4, 5, 6, 7, 20, 21, 22, 23, 36, 37, 38, 39, 49]"
    using r1(3) [rule_format, of 1] by (simp add: t(2))
  have play: "play [] r1 = (Inr (), r1)" by (simp add: play_def ret_def)
  show ?thesis
    using robot_knows_hand [OF r1(1) d(1) t(5,3) play u(1), where enc = "\<lambda>m. m" and um = unpacked
        and env = "\<lparr>re_deadline = True, re_write = \<lambda>_. True\<rparr>"] r1(1) hand
    by (simp add: t u(2) unpacked_def del: One_nat_def) blast
qed

end
