(* ===== verification/Spec2Isabelle.thy ===== *)
theory Spec2Isabelle
  imports MjHulzProps MjHuProps TimerCtl CorePollProps GameProps GameDeal HallProps GateProps EvioProps EvioStdProps DbRedis EvioKqueue RobotProps
begin

text \<open>
  A model of frbg, a framework of game servers in Go: a TCP and WebSocket core with its codec, timers and
  queues, a copy of the event loop library evio, and on top of them the servers of a mahjong and slot machine
  game (gate, hall, game) with a robot that plays against them. File names below are relative to \<open>src/\<close>.

  How the parts work together. A process has one poll (\<open>core/epoll.go\<close>), which accepts connections, reads
  messages (\<open>codec\<close>), gives answers of remote calls to their callers and all other messages to the handler, a
  server built on \<open>local/base.go\<close> that routes them by their command. Clients are connected with the gate, which
  wraps what they send and passes it to the hall or the game; these answer through the gate. Servers find
  each other through the registry in etcd (\<open>third\<close>). The hall puts four players into a room, the game plays
  mahjong in it, judging hands with \<open>mj\<close>; the hall also runs the slot machines. What is known about players
  between messages is in Redis (\<open>examples/db\<close>).

  Theories, in the order of the code. For each file there is one group of definitions, named as the
  functions and types they translate (with a suffix or prefix where two files share a name), and the
  theories named \<open>...Props\<close> hold what is proved about them.

  \<^item> \<open>Prelude\<close>: the types of Go, the computations \<open>act\<close> (state passing with panics) that all stateful code is
    written in, the rules of \<open>wp\<close> that evaluate them symbolically, and lemmas on lists, maps and words.
  \<^item> \<open>MjTiles\<close> (\<open>mj/mj.go\<close>): tiles, operation flags, melds, names. \<open>MjMeld\<close>: the abstract winning hand, a pair plus
    triples and runs, on multisets. \<open>MjHulz\<close>, \<open>MjHulzCorrect\<close>, \<open>MjHulzProps\<close> (\<open>mj/hulz.go\<close>) and \<open>MjHu\<close>, \<open>MjHuProps\<close>
    (\<open>mj/hu.go\<close>): the two judges as they search, with their counters changed and put back in place, and which
    hands they accept; \<open>main.go\<close> is the value \<open>main_names\<close>.
  \<^item> \<open>MinHeap\<close> (\<open>util/minheap.go\<close>, locale \<open>prio\<close>), \<open>TimerCtl\<close> (\<open>timer/task.go\<close>, \<open>timer/task_ctl.go\<close>), \<open>Queues\<close>
    (\<open>util/queue.go\<close>, locale \<open>bqueue\<close>; \<open>util/esqueue.go\<close> and \<open>evio/internal/notequeue.go\<close>, locale \<open>mailbox\<close>).
  \<^item> \<open>Codec\<close>, \<open>CodecProps\<close> (\<open>codec\<close>): the header of 13 bytes, checksum, packets on streams and in frames.
  \<^item> \<open>CoreConfig\<close> (\<open>core/config.go\<close>), \<open>CoreNet\<close> (\<open>core/conn.go\<close>, \<open>core/mgr_conn.go\<close>, \<open>core/mgr_rpc.go\<close>), \<open>CorePoll\<close>
    (\<open>core/epoll.go\<close>, \<open>core/client.go\<close>), \<open>CorePollProps\<close>: the state of a process is \<open>Net\<close>; connections are references
    into a store, since the registries share them; \<open>net_reach\<close> are its reachable states.
  \<^item> \<open>LocalBase\<close> (\<open>local/base.go\<close>, \<open>local/input.go\<close>): routing over the state of any server. Its locale \<open>server\<close> turns
    an invariant that every handler keeps, whether it returns or panics, into one of all states.
  \<^item> \<open>GameUser\<close>, \<open>GameRoom\<close>, \<open>GameRoute\<close> (\<open>examples/game/route\<close>): player, table, handlers (locale \<open>table\<close>, below
    \<open>server\<close>: an invariant of one table that all its operations keep). \<open>GameUserProps\<close>, \<open>GameTiles\<close>, \<open>GameSecrecy\<close>,
    \<open>GameDeal\<close>, \<open>GameProps\<close>: operations, tiles, what players see, the deal; claims on a discard, offered and
    carried out, and settlement.
  \<^item> \<open>Slots\<close>, \<open>SlotsProps\<close> (\<open>examples/hall/slots\<close>), \<open>HallRoute\<close>, \<open>HallProps\<close> (\<open>examples/hall/route\<close>,
    \<open>examples/db/config.go\<close>), \<open>GateRoute\<close>, \<open>GateProps\<close> (\<open>examples/gate/route\<close>), \<open>DbRedis\<close> (\<open>examples/db/redis.go\<close>,
    \<open>local/redis.go\<close>).
  \<^item> \<open>EvioAddr\<close>, \<open>EvioAddrProps\<close> (\<open>evio/evio.go\<close>, \<open>evio/internal/socktoaddr.go\<close>; locale \<open>byte_buffer\<close>), \<open>EvioLoop\<close>,
    \<open>EvioLoopProps\<close>, \<open>EvioTrace\<close>, \<open>EvioWire\<close>, \<open>EvioProps\<close> (\<open>evio/evio_unix.go\<close>, \<open>evio/internal/internal_linux.go\<close>):
    the loops, their reachable states, the record of what their user is told, and what of the answers reaches the
    socket, wakes included; \<open>EvioStd\<close>, \<open>EvioStdProps\<close> (\<open>evio/evio_std.go\<close>), the same contract, for servers whose
    loops may end, whose writes may be partial and whose wakes may come late; \<open>EvioKqueue\<close>
    (\<open>evio/internal/internal_bsd.go\<close>): the two polls behind the locale \<open>watcher\<close>.
  \<^item> \<open>Registry\<close> (\<open>third/etcd.go\<close>, \<open>third/grpc.go\<close>): two caches of the etcd store, and that they follow what
    they have read of it and the events delivered since, whatever the keys.
  \<^item> \<open>Robot\<close>, \<open>RobotHand\<close>, \<open>RobotProps\<close> (\<open>examples/wsclient/main.go\<close>): the client, composed with the table that
    sends to it.
  \<^item> This theory: the two judges compared.

  The locales are the interfaces named above; each is interpreted on the code's own definitions, and the
  properties use the facts of these interpretations.

  What the lemmas show. Invariants: tiles of a table, secrecy of hands, rooms announced, what a registry and a
  poll agree on, what a loop watches. Refinement: judges against winning hands, queues and buffers against
  lists, servers against the automaton of a connection's life, caches against the changes seen, the robot's hand
  against the table. Exact behaviour on every branch: operations of a player, timeouts, packets, spins, the
  deal. Errors and panics are values of the model, and where the code fails on reachable input a theorem says
  exactly when.

  Bounds and loops. Words have the width of the Go type where wrapping can matter (lengths, checksums, sequence
  numbers, money, uids, tile numbers); counters that only grow with the number of connections are
  unbounded, and so is the search of \<open>hulz.go\<close>, whose sums stay below 20. There is no fuel: loops are recursive
  functions with their termination proved, except \<open>FrameCheck\<close> and \<open>skip_seats\<close>, which are partial;
  \<open>SkipWaiting_returns\<close> shows that the second returns, and \<open>FrameCheck_runs_due\<close> says exactly when the first
  does, with the clock read anew before every pass. A poll or loop that runs for ever is a
  fold over the events it is given, for any list of events.

  Arguments of the model, about which nothing is assumed unless a theorem names it: results of system calls,
  what arrives on a socket and what a socket takes, time, random numbers, the order in which Go visits a map,
  marshalling of protocol buffers, the block cipher, the etcd store and Redis (whose documented
  behaviour is \<open>counts\<close>, \<open>pops_lowest\<close> and \<open>keeps_fields\<close> of \<open>DbRedis\<close>).

  Concurrency. Critical sections are atomic steps; between them other goroutines act as the arguments or the
  interleaved steps say (\<open>ForEach\<close> of the queues, wakes of a loop, generation of uids, the wait of a remote call).
  Data races inside unlocked code are not modelled.

  Not modelled: the main programs, which read flags and start a poll; tests; the load generator and the web
  demonstration under \<open>examples\<close>; generated messages (\<open>examples/pb\<close>); wrappers of MySQL, MongoDB, YAML files and gRPC
  clients, single calls of libraries; the cached clock and the tick source, goroutines over the wall clock;
  constants of \<open>def\<close>, written as numbers where they are used; keep-alive options; log lines, except where
  printing a tile can panic.
\<close>

subsection \<open>The two judges of winning hands\<close>

text \<open>
  C29. On a hand without wild tiles the two judges (\<open>hu.go\<close> and \<open>hulz.go\<close>) are related: whatever the
  first accepts the second accepts too, and they agree whenever the lowest value of the hand does
  not occur exactly twice.
\<close>

theorem judges_agree:
  assumes "set (hand mj p) \<subseteq> set kinds" and "length (hand mj p) < 128"
  shows "\<exists>m m'. New mj p g = Inr m \<and> Newlz mj p 0 g' = Inr m' \<and>
    (fst (hu233_st m) \<longrightarrow> fst (hu233_lz m')) \<and>
    (count_list (hand mj p) (Min (set (hand mj p))) \<noteq> 2 \<longrightarrow> fst (hu233_st m) = fst (hu233_lz m'))"
proof -
  let ?M = "mset (map unat (hand mj p))"
  obtain m where m: "New mj p g = Inr m" "fst (hu233_st m) \<longleftrightarrow> stat_win ?M"
    using hu233_st_rep(2) New_rep [OF assms] by blast
  obtain m' where m': "Newlz mj p 0 g' = Inr m'" "fst (hu233_lz m') \<longleftrightarrow> standard_win ?M"
    using hu233_rep Newlz_rep [OF assms] by blast
  have "stat_win ?M \<Longrightarrow> standard_win ?M" by (auto simp: stat_win_def standard_win_def)
  moreover have "stat_win ?M"
    if low: "count_list (hand mj p) (Min (set (hand mj p))) \<noteq> 2" and win: "standard_win ?M"
  proof -
    obtain x where x: "{#x, x#} \<subseteq># ?M" "melds (?M - {#x, x#})"
      using win by (auto simp: standard_win_def)
    have "\<not> (count ?M x = 2 \<and> (\<forall>y \<in># ?M. x \<le> y))"
    proof
      assume a: "count ?M x = 2 \<and> (\<forall>y \<in># ?M. x \<le> y)"
      then have "x \<in># ?M" by (metis count_inI zero_neq_numeral)
      then obtain v where v: "v \<in> set (hand mj p)" "x = unat v" by auto
      with a have "Min (set (hand mj p)) = v"
        by (intro Min_eqI) (auto simp: word_le_nat_alt)
      moreover have "count ?M (unat v) = count_list (hand mj p) v"
        by (rule count_map_unat)
      ultimately show False using a v low by simp
    qed
    with x show ?thesis unfolding stat_win_def by blast
  qed
  ultimately show ?thesis using m m' by blast
qed

lemma judges_agree_witness:
  "\<exists>m m'. New [1, 1, 11, 12] 13 [] = Inr m \<and> Newlz [1, 1, 11, 12] 13 0 [] = Inr m' \<and>
    (fst (hu233_st m) \<longrightarrow> fst (hu233_lz m')) \<and>
    (count_list (hand [1, 1, 11, 12] 13) (Min (set (hand [1, 1, 11, 12] 13))) \<noteq> 2 \<longrightarrow>
       fst (hu233_st m) = fst (hu233_lz m'))"
  by (rule judges_agree) (simp_all add: hand_def kinds_def)

end
